(* ===== verification/Prelude.thy ===== *)
theory Prelude
  imports Main "HOL-Library.Word"
begin

unbundle bit_operations_syntax

text \<open>
  What every component of the kernel model shares: the integer types of
  \<open>src/include/sys/types.h\<close> at their amd64 widths, the error numbers of
  \<open>src/include/errno.h\<close>, the way a C function of the kernel can end
  (\<open>outcome\<close>), bounds-checked array access, and generic lemmas on lists and words.
\<close>

section \<open>Integer types and error numbers\<close>

type_synonym u8 = "8 word"
type_synonym u16 = "16 word"
type_synonym u32 = "32 word"
type_synonym u64 = "64 word"

abbreviation (input) ENOSPC :: int where "ENOSPC \<equiv> 1"
abbreviation (input) ENOENT :: int where "ENOENT \<equiv> 2"
abbreviation (input) EINVAL :: int where "EINVAL \<equiv> 3"
abbreviation (input) EEXIST :: int where "EEXIST \<equiv> 4"
abbreviation (input) ENOMEM :: int where "ENOMEM \<equiv> 5"
abbreviation (input) EBUSY :: int where "EBUSY \<equiv> 6"
abbreviation (input) E2BIG :: int where "E2BIG \<equiv> 7"
abbreviation (input) ESPIPE :: int where "ESPIPE \<equiv> 8"
abbreviation (input) ENOSYS :: int where "ENOSYS \<equiv> 9"
abbreviation (input) ENOTDIR :: int where "ENOTDIR \<equiv> 10"
abbreviation (input) ENOTSUP :: int where "ENOTSUP \<equiv> 11"
abbreviation (input) ENXIO :: int where "ENXIO \<equiv> 12"

section \<open>How a kernel function ends\<close>

text \<open>
  A call returns a value, or control never comes back: a \<open>kassert\<close> fails and the
  macro spins (\<open>AssertFailed\<close>), \<open>kpanic\<close> spins with interrupts off
  (\<open>Panicked\<close>), or the code touches memory that belongs to no object of the model
  (\<open>MemFault\<close>: a NULL pointer, an index outside an array, a freed or foreign pointer),
  where C gives no meaning and the kernel reads or overwrites something else.
  A loop that is bounded by fuel in the model gives \<open>NoReturn\<close> when the fuel is used up
  before the loop ends; what a function returns is always proved with fuel that suffices.
\<close>

datatype halt = AssertFailed | Panicked | MemFault | NoReturn

datatype 'a outcome = Ret 'a | Halt halt

primrec bnd :: "'a outcome \<Rightarrow> ('a \<Rightarrow> 'b outcome) \<Rightarrow> 'b outcome" where
  "bnd (Ret x) f = f x"
| "bnd (Halt h) f = Halt h"

primrec omap :: "('a \<Rightarrow> 'b) \<Rightarrow> 'a outcome \<Rightarrow> 'b outcome" where
  "omap f (Ret x) = Ret (f x)"
| "omap f (Halt h) = Halt h"

definition kassert :: "bool \<Rightarrow> 'a outcome \<Rightarrow> 'a outcome" where
  "kassert c k = (if c then k else Halt AssertFailed)"

primrec returns :: "'a outcome \<Rightarrow> bool" where
  "returns (Ret x) = True"
| "returns (Halt h) = False"

lemma kassert_simps [simp]:
  "kassert True k = k"
  "kassert False k = Halt AssertFailed"
  by (simp_all add: kassert_def)

lemma bnd_Ret_iff: "bnd m f = Ret y \<longleftrightarrow> (\<exists>x. m = Ret x \<and> f x = Ret y)"
  by (cases m) auto

lemma kassert_Ret_iff: "kassert c k = Ret y \<longleftrightarrow> c \<and> k = Ret y"
  by (simp add: kassert_def)

lemma omap_Ret_iff: "omap f m = Ret y \<longleftrightarrow> (\<exists>x. m = Ret x \<and> y = f x)"
  by (cases m) auto

lemma bnd_assoc: "bnd (bnd m f) g = bnd m (\<lambda>x. bnd (f x) g)"
  by (cases m) auto

lemma bnd_cong [fundef_cong]:
  "m = m' \<Longrightarrow> (\<And>x. m' = Ret x \<Longrightarrow> f x = g x) \<Longrightarrow> bnd m f = bnd m' g"
  by (cases m') auto

lemma kassert_cong [fundef_cong]:
  "c = c' \<Longrightarrow> (c' \<Longrightarrow> k = k') \<Longrightarrow> kassert c k = kassert c' k'"
  by (simp add: kassert_def)

lemma returns_iff: "returns m \<longleftrightarrow> (\<exists>x. m = Ret x)"
  by (cases m) auto

lemmas outcome_ret_iff = bnd_Ret_iff kassert_Ret_iff omap_Ret_iff

section \<open>Arrays with C's bounds\<close>

text \<open>An access outside the array is a \<open>MemFault\<close>.\<close>

definition rd :: "'a list \<Rightarrow> nat \<Rightarrow> 'a outcome" where
  "rd xs i = (if i < length xs then Ret (xs ! i) else Halt MemFault)"

definition wr :: "'a list \<Rightarrow> nat \<Rightarrow> 'a \<Rightarrow> 'a list outcome" where
  "wr xs i v = (if i < length xs then Ret (xs[i := v]) else Halt MemFault)"

lemma rd_in [simp]: "i < length xs \<Longrightarrow> rd xs i = Ret (xs ! i)"
  and rd_out [simp]: "length xs \<le> i \<Longrightarrow> rd xs i = Halt MemFault"
  by (simp_all add: rd_def)

lemma wr_in [simp]: "i < length xs \<Longrightarrow> wr xs i v = Ret (xs[i := v])"
  and wr_out [simp]: "length xs \<le> i \<Longrightarrow> wr xs i v = Halt MemFault"
  by (simp_all add: wr_def)

lemma rd_Ret_iff: "rd xs i = Ret v \<longleftrightarrow> i < length xs \<and> v = xs ! i"
  by (auto simp: rd_def)

lemma wr_Ret_iff: "wr xs i v = Ret ys \<longleftrightarrow> i < length xs \<and> ys = xs[i := v]"
  by (auto simp: wr_def)

lemmas array_ret_iff = rd_Ret_iff wr_Ret_iff

text \<open>Following a pointer into a store of objects; 0 is NULL.\<close>

definition deref :: "(nat \<rightharpoonup> 'a) \<Rightarrow> nat \<Rightarrow> 'a outcome" where
  "deref h p = (if p = 0 then Halt MemFault else case h p of None \<Rightarrow> Halt MemFault | Some c \<Rightarrow> Ret c)"

lemma deref_simps [simp]: "p \<noteq> 0 \<Longrightarrow> h p = Some c \<Longrightarrow> deref h p = Ret c"
  "deref h 0 = Halt MemFault"
  by (simp_all add: deref_def)

section \<open>Rounding macros of common.h\<close>

abbreviation (input) PAGE_SIZE :: nat where "PAGE_SIZE \<equiv> 4096"

definition INVALID_ADDRESS :: u64 where
  "INVALID_ADDRESS = 0xffffffffffffffff"

text \<open>
  \<open>ROUND_DOWN(addr, b) = addr & ~(b - 1)\<close> and \<open>ROUND_UP\<close>, on 64-bit addresses, so
  that the addition wraps as the code's does.
\<close>

definition ROUND_DOWN :: "u64 \<Rightarrow> u64 \<Rightarrow> u64" where
  "ROUND_DOWN addr boundary = addr AND NOT (boundary - 1)"

definition ROUND_UP :: "u64 \<Rightarrow> u64 \<Rightarrow> u64" where
  "ROUND_UP addr boundary =
     (if addr mod boundary \<noteq> 0 then (addr AND NOT (boundary - 1)) + boundary else addr)"

definition PAGE_ALIGNED :: "u64 \<Rightarrow> bool" where
  "PAGE_ALIGNED v \<longleftrightarrow> v AND (4096 - 1) = 0"

text \<open>The macros read on natural numbers, which is how the allocators use them.\<close>

lemma unat_u64_less: "unat (x :: u64) < 18446744073709551616"
  using unsigned_less [of x] by simp

lemma unat_of_nat_u64: "n < 2 ^ 64 \<Longrightarrow> unat (of_nat n :: u64) = n"
  by (simp add: unat_of_nat)

lemma unat_add_u64: "unat (a :: u64) + unat b < 2 ^ 64 \<Longrightarrow> unat (a + b) = unat a + unat b"
  by (simp add: unat_word_ariths)

lemma ROUND_DOWN_eq: "ROUND_DOWN a 4096 = push_bit 12 (drop_bit 12 a)"
proof -
  have *: "(4096 - 1 :: u64) = mask 12" by (simp add: mask_eq_exp_minus_1)
  show ?thesis unfolding ROUND_DOWN_def *
    by (rule bit_word_eqI) (auto simp: bit_simps)
qed

lemma unat_ROUND_DOWN: "unat (ROUND_DOWN a 4096) = unat a div 4096 * 4096"
proof -
  have *: "unat a div 4096 * 4096 < 18446744073709551616"
    using unat_u64_less [of a] by linarith
  have "unat (ROUND_DOWN a 4096) = unat a div 4096 * 4096 mod 18446744073709551616"
    unfolding ROUND_DOWN_eq
    by (simp add: push_bit_eq_mult unat_word_ariths unat_drop_bit_eq drop_bit_eq_div mult.commute mod_mult_right_eq)
  also have "\<dots> = unat a div 4096 * 4096" by (rule mod_less [OF *])
  finally show ?thesis .
qed

lemma PAGE_ALIGNED_iff: "PAGE_ALIGNED a \<longleftrightarrow> unat a mod 4096 = 0"
proof -
  have *: "(4096 - 1 :: u64) = mask 12" by (simp add: mask_eq_exp_minus_1)
  have "PAGE_ALIGNED a \<longleftrightarrow> unat (take_bit 12 a) = 0"
    unfolding PAGE_ALIGNED_def * by (simp add: take_bit_eq_mask unat_eq_zero)
  also have "unat (take_bit 12 a) = unat a mod 4096" 
    by (simp add: take_bit_eq_mod unat_mod)
  finally show ?thesis .
qed

lemma ROUND_UP_eq: "ROUND_UP a 4096 = (if unat a mod 4096 = 0 then a else ROUND_DOWN a 4096 + 4096)"
proof -
  have "a mod 4096 = 0 \<longleftrightarrow> unat a mod 4096 = 0" by (simp add: unat_mod flip: unat_eq_zero)
  then show ?thesis by (simp add: ROUND_UP_def ROUND_DOWN_def)
qed

section \<open>Physical and virtual addresses (arch/amd64/mmu.h)\<close>

definition KPSTART :: u64 where "KPSTART = 0x0000000000100000"
definition KVSTART :: u64 where "KVSTART = 0xffffffff80100000"

definition amd64_p_to_v :: "u64 \<Rightarrow> u64" where
  "amd64_p_to_v paddr = paddr + (KVSTART - KPSTART)"

definition amd64_v_to_p :: "u64 \<Rightarrow> u64 outcome" where
  "amd64_v_to_p vaddr = kassert (vaddr > KVSTART - KPSTART) (Ret (vaddr - (KVSTART - KPSTART)))"

lemma p_to_v_offset: "KVSTART - KPSTART = 0xffffffff80000000"
  by (simp add: KVSTART_def KPSTART_def)

lemma unat_p_to_v: "unat p < 2 ^ 31 \<Longrightarrow> unat (amd64_p_to_v p) = unat p + 0xffffffff80000000"
  unfolding amd64_p_to_v_def p_to_v_offset by (subst unat_add_u64) simp_all

lemma v_to_p_to_v: "0 < unat p \<Longrightarrow> unat p < 2 ^ 31 \<Longrightarrow> amd64_v_to_p (amd64_p_to_v p) = Ret p"
  using unat_p_to_v [of p] by (simp add: amd64_v_to_p_def p_to_v_offset word_less_nat_alt)
    (simp add: amd64_p_to_v_def p_to_v_offset)

end
