(* ===== verification/KString.thy ===== *)
theory KString
  imports Prelude
begin

text \<open>
  \<open>src/kernel/util.c\<close>: the kernel's string and memory routines over a flat byte memory.
  A pointer is an address, and an address that is not mapped faults when it is read or
  written. Addresses fit 64 bits, so a scan for a missing terminator stops with a fault.
\<close>

section \<open>Byte memory\<close>

type_synonym mem = "nat \<rightharpoonup> u8"

definition ld :: "mem \<Rightarrow> nat \<Rightarrow> u8 outcome" where
  "ld m p = (if p < 2 ^ 64 then (case m p of None \<Rightarrow> Halt MemFault | Some b \<Rightarrow> Ret b)
             else Halt MemFault)"

definition st :: "mem \<Rightarrow> nat \<Rightarrow> u8 \<Rightarrow> mem outcome" where
  "st m p b = (if p < 2 ^ 64 \<and> m p \<noteq> None then Ret (m(p \<mapsto> b)) else Halt MemFault)"

lemma ld_Ret_iff: "ld m p = Ret b \<longleftrightarrow> p < 2 ^ 64 \<and> m p = Some b"
  by (auto simp: ld_def split: option.splits)

lemma ld_bound: "ld m p = Ret b \<Longrightarrow> p < 18446744073709551616"
  by (simp add: ld_Ret_iff)

section \<open>The routines of util.c\<close>

function kstrlen_loop :: "mem \<Rightarrow> nat \<Rightarrow> nat \<Rightarrow> nat outcome" where
  "kstrlen_loop m str len =
     bnd (ld m (str + len)) (\<lambda>c. if c \<noteq> 0 then kstrlen_loop m str (len + 1) else Ret len)"
  by pat_completeness auto
termination
  by (relation "measure (\<lambda>(m, str, len). 2 ^ 64 - (str + len))") (auto dest: ld_bound)

declare kstrlen_loop.simps [simp del]

definition kstrlen :: "mem \<Rightarrow> nat \<Rightarrow> nat outcome" where
  "kstrlen m str = kstrlen_loop m str 0"

function kmemcpy_loop :: "mem \<Rightarrow> nat \<Rightarrow> nat \<Rightarrow> nat \<Rightarrow> nat \<Rightarrow> mem outcome" where
  "kmemcpy_loop m dst src sz i =
     (if i < sz then
        bnd (ld m (src + i)) (\<lambda>b.
        bnd (st m (dst + i) b) (\<lambda>m'. kmemcpy_loop m' dst src sz (i + 1)))
      else Ret m)"
  by pat_completeness auto
termination
  by (relation "measure (\<lambda>(m, dst, src, sz, i). sz - i)") auto

declare kmemcpy_loop.simps [simp del]

definition kmemcpy :: "mem \<Rightarrow> nat \<Rightarrow> nat \<Rightarrow> nat \<Rightarrow> mem outcome" where
  "kmemcpy m dstptr srcptr sz = kmemcpy_loop m dstptr srcptr sz 0"

fun kmemset :: "mem \<Rightarrow> nat \<Rightarrow> u8 \<Rightarrow> nat \<Rightarrow> mem outcome" where
  "kmemset m buf c 0 = Ret m"
| "kmemset m buf c (Suc sz) = bnd (st m buf c) (\<lambda>m'. kmemset m' (buf + 1) c sz)"

function kmemcmp_loop :: "mem \<Rightarrow> nat \<Rightarrow> nat \<Rightarrow> nat \<Rightarrow> nat \<Rightarrow> int outcome" where
  "kmemcmp_loop m s1 s2 n i =
     (if i < n then
        bnd (ld m (s1 + i)) (\<lambda>x.
        bnd (ld m (s2 + i)) (\<lambda>y.
          if x < y then Ret (- 1)
          else if x > y then Ret 1
          else kmemcmp_loop m s1 s2 n (i + 1)))
      else Ret 0)"
  by pat_completeness auto
termination
  by (relation "measure (\<lambda>(m, s1, s2, n, i). n - i)") auto

declare kmemcmp_loop.simps [simp del]

definition kmemcmp :: "mem \<Rightarrow> nat \<Rightarrow> nat \<Rightarrow> nat \<Rightarrow> int outcome" where
  "kmemcmp m s1 s2 n = kmemcmp_loop m s1 s2 n 0"

function kstrcmp :: "mem \<Rightarrow> nat \<Rightarrow> nat \<Rightarrow> int outcome" where
  "kstrcmp m s1 s2 =
     bnd (ld m s1) (\<lambda>x.
     bnd (ld m s2) (\<lambda>y.
       if x \<noteq> 0 \<and> x = y then kstrcmp m (s1 + 1) (s2 + 1)
       else Ret (uint x - uint y)))"
  by pat_completeness auto
termination
  by (relation "measure (\<lambda>(m, s1, s2). 2 ^ 64 - s1)") (auto dest: ld_bound)

declare kstrcmp.simps [simp del]

text \<open>\<open>char\<close> is signed on amd64, so the two relational tests compare signed bytes.\<close>

function kstrncmp_loop :: "mem \<Rightarrow> nat \<Rightarrow> nat \<Rightarrow> nat \<Rightarrow> nat \<Rightarrow> int outcome" where
  "kstrncmp_loop m s1 s2 len i =
     bnd (ld m (s1 + i)) (\<lambda>x.
     bnd (ld m (s2 + i)) (\<lambda>y.
       if x \<noteq> 0 \<and> y \<noteq> 0 \<and> i < len then
         (if x <s y then Ret (- 1)
          else if y <s x then Ret 1
          else kstrncmp_loop m s1 s2 len (i + 1))
       else Ret (if x = y then 0 else 1)))"
  by pat_completeness auto
termination
  by (relation "measure (\<lambda>(m, s1, s2, len, i). len - i)") auto

declare kstrncmp_loop.simps [simp del]

definition kstrncmp :: "mem \<Rightarrow> nat \<Rightarrow> nat \<Rightarrow> nat \<Rightarrow> int outcome" where
  "kstrncmp m s1 s2 len = kstrncmp_loop m s1 s2 len 0"

definition kstrcmp_s :: "mem \<Rightarrow> nat \<Rightarrow> nat \<Rightarrow> int outcome" where
  "kstrcmp_s m s1 s2 = bnd (kstrlen m s1) (\<lambda>len. kstrncmp m s1 s2 len)"

text \<open>\<open>copy_str m d s\<close> is the loop \<open>while (*s) *d++ = *s++\<close>; it returns the memory
  and the final \<open>d\<close>.\<close>

function copy_str :: "mem \<Rightarrow> nat \<Rightarrow> nat \<Rightarrow> (mem \<times> nat) outcome" where
  "copy_str m dst src =
     bnd (ld m src) (\<lambda>c.
       if c \<noteq> 0 then bnd (st m dst c) (\<lambda>m'. copy_str m' (dst + 1) (src + 1))
       else Ret (m, dst))"
  by pat_completeness auto
termination
  by (relation "measure (\<lambda>(m, dst, src). 2 ^ 64 - src)") (auto dest: ld_bound)

declare copy_str.simps [simp del]

definition kstrcpy :: "mem \<Rightarrow> nat \<Rightarrow> nat \<Rightarrow> (nat \<times> mem) outcome" where
  "kstrcpy m dst src = bnd (copy_str m dst src) (\<lambda>(m', _). Ret (dst, m'))"

function kstrncpy_copy :: "mem \<Rightarrow> nat \<Rightarrow> nat \<Rightarrow> nat \<Rightarrow> nat \<Rightarrow> (mem \<times> nat) outcome" where
  "kstrncpy_copy m dst src n i =
     (if i < n then
        bnd (ld m (src + i)) (\<lambda>c.
          if c \<noteq> 0 then bnd (st m (dst + i) c) (\<lambda>m'. kstrncpy_copy m' dst src n (i + 1))
          else Ret (m, i))
      else Ret (m, i))"
  by pat_completeness auto
termination
  by (relation "measure (\<lambda>(m, dst, src, n, i). n - i)") auto

declare kstrncpy_copy.simps [simp del]

definition kstrncpy :: "mem \<Rightarrow> nat \<Rightarrow> nat \<Rightarrow> nat \<Rightarrow> mem outcome" where
  "kstrncpy m dst src n =
     bnd (kstrncpy_copy m dst src n 0) (\<lambda>(m', i). kmemset m' (dst + i) 0 (n - i))"

text \<open>
  The three routines that allocate take the heap's \<open>kmalloc\<close> as the function that gives
  the address of the block (the allocator itself is modelled in the theory Heap). The
  block's bytes are whatever the memory held there before.
\<close>

definition kstrncat :: "(nat \<Rightarrow> nat) \<Rightarrow> mem \<Rightarrow> nat \<Rightarrow> nat \<Rightarrow> nat \<Rightarrow> (nat \<times> mem) outcome" where
  "kstrncat kmalloc m s1 s2 len =
     (let ret = kmalloc (len + 1) in
      bnd (copy_str m ret s1) (\<lambda>(m1, rptr).
      bnd (copy_str m1 rptr s2) (\<lambda>(m2, _). Ret (ret, m2))))"

definition kstrcat_s :: "(nat \<Rightarrow> nat) \<Rightarrow> mem \<Rightarrow> nat \<Rightarrow> nat \<Rightarrow> (nat \<times> mem) outcome" where
  "kstrcat_s kmalloc m s1 s2 =
     bnd (kstrlen m s1) (\<lambda>n1.
     bnd (kstrlen m s2) (\<lambda>n2. kstrncat kmalloc m s1 s2 (n1 + n2)))"

definition kstrdup :: "(nat \<Rightarrow> nat) \<Rightarrow> mem \<Rightarrow> nat \<Rightarrow> (nat \<times> mem) outcome" where
  "kstrdup kmalloc m s =
     bnd (kstrlen m s) (\<lambda>n.
       let new = kmalloc (n + 1) in
       if new = 0 then Ret (0, m)
       else bnd (kmemcpy_loop m new s n 0) (\<lambda>m1.
            bnd (st m1 (new + n) 0) (\<lambda>m2. Ret (new, m2))))"

fun kmemmove_down :: "mem \<Rightarrow> nat \<Rightarrow> nat \<Rightarrow> nat \<Rightarrow> mem outcome" where
  "kmemmove_down m dst src 0 = Ret m"
| "kmemmove_down m dst src (Suc i) =
     bnd (ld m (src + i)) (\<lambda>b. bnd (st m (dst + i) b) (\<lambda>m'. kmemmove_down m' dst src i))"

definition kmemmove :: "mem \<Rightarrow> nat \<Rightarrow> nat \<Rightarrow> nat \<Rightarrow> mem outcome" where
  "kmemmove m dstptr srcptr sz =
     (if dstptr < srcptr then kmemcpy_loop m dstptr srcptr sz 0
      else kmemmove_down m dstptr srcptr sz)"


section \<open>C strings and blocks in memory\<close>

text \<open>\<open>cstr m p s\<close>: at \<open>p\<close> stand the non-zero bytes \<open>s\<close> and then a terminator.\<close>

primrec cstr :: "mem \<Rightarrow> nat \<Rightarrow> u8 list \<Rightarrow> bool" where
  "cstr m p [] \<longleftrightarrow> p < 2 ^ 64 \<and> m p = Some 0"
| "cstr m p (c # s) \<longleftrightarrow> p < 2 ^ 64 \<and> m p = Some c \<and> c \<noteq> 0 \<and> cstr m (p + 1) s"

definition mapped :: "mem \<Rightarrow> nat \<Rightarrow> nat \<Rightarrow> bool" where
  "mapped m p n \<longleftrightarrow> (\<forall>i<n. p + i < 2 ^ 64 \<and> m (p + i) \<noteq> None)"

text \<open>The memory after \<open>n\<close> bytes went from \<open>s\<close> to \<open>d\<close>, all read before any is written.\<close>

definition moved :: "mem \<Rightarrow> nat \<Rightarrow> nat \<Rightarrow> nat \<Rightarrow> mem" where
  "moved m d s n = (\<lambda>a. if d \<le> a \<and> a < d + n then m (s + (a - d)) else m a)"

lemma mapped_ld: "mapped m p n \<Longrightarrow> i < n \<Longrightarrow> \<exists>b. m (p + i) = Some b \<and> ld m (p + i) = Ret b"
  by (auto simp: mapped_def ld_def)

lemma mapped_st: "mapped m p n \<Longrightarrow> i < n \<Longrightarrow> st m (p + i) b = Ret (m(p + i \<mapsto> b))"
  by (simp add: mapped_def st_def)

lemma mapped_upd: "mapped m p n \<Longrightarrow> mapped (m(a \<mapsto> b)) p n"
  by (simp add: mapped_def)

lemma mapped_Suc: "mapped m p (Suc n) \<longleftrightarrow> p < 2 ^ 64 \<and> m p \<noteq> None \<and> mapped m (p + 1) n"
  by (simp add: mapped_def All_less_Suc2)

lemma mapped_0 [simp]: "mapped m p 0"
  by (simp add: mapped_def)

lemma cstr_iff_nth:
  "cstr m p s \<longleftrightarrow> mapped m p (length s + 1) \<and> 0 \<notin> set s \<and>
     (\<forall>i<length s. m (p + i) = Some (s ! i)) \<and> m (p + length s) = Some 0"
  by (induction s arbitrary: p) (auto simp: mapped_Suc All_less_Suc2)

lemma cstr_mapped: "cstr m p s \<Longrightarrow> mapped m p (length s + 1)"
  by (simp add: cstr_iff_nth)

lemma cstr_ld: "cstr m p s \<Longrightarrow> i \<le> length s \<Longrightarrow> ld m (p + i) = Ret (if i < length s then s ! i else 0)"
  by (auto simp: cstr_iff_nth mapped_def ld_def)

lemma cstr_nonzero: "cstr m p s \<Longrightarrow> i < length s \<Longrightarrow> s ! i \<noteq> 0"
  by (auto simp: cstr_iff_nth in_set_conv_nth)

section \<open>What the routines compute\<close>

lemma kstrlen_loop_correct:
  "cstr m p s \<Longrightarrow> k \<le> length s \<Longrightarrow> kstrlen_loop m p k = Ret (length s)"
proof (induction "length s - k" arbitrary: k)
  case 0 then show ?case by (subst kstrlen_loop.simps) (simp add: cstr_ld)
next
  case (Suc d)
  then have "k < length s" by simp
  with Suc show ?case
    by (subst kstrlen_loop.simps) (simp add: cstr_ld cstr_nonzero)
qed

lemma kstrlen_correct: "cstr m p s \<Longrightarrow> kstrlen m p = Ret (length s)"
  by (simp add: kstrlen_def kstrlen_loop_correct)

text \<open>The forward loop is right when no byte is read after it was overwritten.\<close>

lemma kmemcpy_loop_moved:
  assumes "mapped m s n" and "mapped m d n" and "d \<le> s \<or> s + n \<le> d" and "i \<le> n"
  shows "kmemcpy_loop (moved m d s i) d s n i = Ret (moved m d s n)"
  using \<open>i \<le> n\<close>
proof (induction "n - i" arbitrary: i)
  case 0 then show ?case by (subst kmemcpy_loop.simps) simp
next
  case (Suc k)
  then have "i < n" by simp
  obtain b where b: "m (s + i) = Some b" using mapped_ld [OF assms(1) \<open>i < n\<close>] by auto
  have src: "moved m d s i (s + i) = Some b"
    using assms(3) \<open>i < n\<close> b by (auto simp: moved_def)
  have "s + i < 2 ^ 64" "d + i < 2 ^ 64" "m (d + i) \<noteq> None"
    using assms(1,2) \<open>i < n\<close> by (auto simp: mapped_def)
  moreover have "moved m d s i (d + i) = m (d + i)" by (simp add: moved_def)
  moreover have "(moved m d s i)(d + i \<mapsto> b) = moved m d s (Suc i)"
    using b by (auto simp: moved_def fun_eq_iff less_Suc_eq) 
  ultimately show ?case using Suc.hyps \<open>i < n\<close> src
    by (subst kmemcpy_loop.simps) (simp add: ld_def st_def)
qed

lemma moved_0 [simp]: "moved m d s 0 = m"
  by (auto simp: moved_def fun_eq_iff)

lemma kmemcpy_correct:
  "mapped m s n \<Longrightarrow> mapped m d n \<Longrightarrow> d \<le> s \<or> s + n \<le> d \<Longrightarrow> kmemcpy m d s n = Ret (moved m d s n)"
  using kmemcpy_loop_moved [of m s n d 0] by (simp add: kmemcpy_def)

text \<open>The backward loop, with the bytes from \<open>i\<close> up already moved.\<close>

definition moved_from :: "mem \<Rightarrow> nat \<Rightarrow> nat \<Rightarrow> nat \<Rightarrow> nat \<Rightarrow> mem" where
  "moved_from m d s i n = (\<lambda>a. if d + i \<le> a \<and> a < d + n then m (s + (a - d)) else m a)"

lemma kmemmove_down_moved:
  assumes "mapped m s n" and "mapped m d n" and "s \<le> d" and "i \<le> n"
  shows "kmemmove_down (moved_from m d s i n) d s i = Ret (moved m d s n)"
  using \<open>i \<le> n\<close>
proof (induction i)
  case 0 show ?case by (simp add: moved_from_def moved_def)
next
  case (Suc i)
  then have "i < n" by simp
  obtain b where b: "m (s + i) = Some b" using mapped_ld [OF assms(1) \<open>i < n\<close>] by auto
  have "moved_from m d s (Suc i) n (s + i) = Some b"
    using assms(3) b by (simp add: moved_from_def)
  moreover have "s + i < 2 ^ 64" "d + i < 2 ^ 64" "m (d + i) \<noteq> None"
    using assms(1,2) \<open>i < n\<close> by (auto simp: mapped_def)
  moreover have "moved_from m d s (Suc i) n (d + i) = m (d + i)" by (simp add: moved_from_def)
  moreover have "(moved_from m d s (Suc i) n)(d + i \<mapsto> b) = moved_from m d s i n"
    using b \<open>i < n\<close> by (auto simp: moved_from_def fun_eq_iff le_Suc_eq)
  ultimately show ?case using Suc.IH \<open>i < n\<close> by (simp add: ld_def st_def)
qed

text \<open>
  C29: \<open>kmemmove\<close> moves \<open>n\<close> bytes between any two mapped blocks, however they overlap:
  each destination byte is the source byte of before the call, no other byte changes.
\<close>

theorem kmemmove_correct:
  assumes "mapped m s n" and "mapped m d n"
  shows "kmemmove m d s n = Ret (moved m d s n)"
proof (cases "d < s")
  case True
  then show ?thesis using kmemcpy_correct [OF assms] by (simp add: kmemmove_def kmemcpy_def)
next
  case False
  moreover have "moved_from m d s n n = m" by (auto simp: moved_from_def fun_eq_iff)
  ultimately show ?thesis using kmemmove_down_moved [OF assms, of n] by (simp add: kmemmove_def)
qed

lemma kmemmove_correct_witness:
  "let m = (\<lambda>a. if a < 8 then Some (of_nat a) else None)
   in kmemmove m 2 0 6 = Ret (moved m 2 0 6) \<and> moved m 2 0 6 7 = Some 5"
  unfolding Let_def
  by (subst kmemmove_correct) (simp_all add: mapped_def moved_def)

section \<open>Comparing strings\<close>

lemma uint_pos: "(a :: u8) \<noteq> 0 \<Longrightarrow> 0 < uint a"
  by (simp add: word_neq_0_conv word_less_def)

text \<open>
  On two C strings \<open>kstrcmp\<close> returns, with the sign of the lexicographic order of
  their unsigned bytes: zero exactly on equal strings, negative exactly when the first
  comes first.
\<close>

lemma kstrcmp_correct:
  assumes "cstr m p s" and "cstr m q t"
  shows "\<exists>r. kstrcmp m p q = Ret r \<and> (r = 0 \<longleftrightarrow> s = t) \<and> (r < 0 \<longleftrightarrow> ord_class.lexordp s t)"
  using assms
proof (induction s arbitrary: p q t)
  case Nil
  then show ?case
    by (subst kstrcmp.simps, cases t)
       (auto simp: ld_def uint_0_iff uint_pos)
next
  case (Cons c s)
  show ?case
  proof (cases t)
    case Nil
    with Cons.prems show ?thesis by (subst kstrcmp.simps) (simp add: ld_def uint_0_iff)
  next
    case (Cons c' t')
    with Cons.prems have lds: "ld m p = Ret c" "ld m q = Ret c'" "c \<noteq> 0" by (simp_all add: ld_def)
    have tl: "cstr m (p + 1) s" "cstr m (q + 1) t'" using Cons.prems Cons by simp_all
    show ?thesis
    proof (cases "c = c'")
      case True
      then show ?thesis using Cons.IH [OF tl] lds Cons by (subst kstrcmp.simps) auto
    next
      case False
      then have "uint c \<noteq> uint c'" by (metis word_uint_eqI)
      then show ?thesis using False lds Cons by (subst kstrcmp.simps) (auto simp: word_less_def)
    qed
  qed
qed

lemma kstrcmp_correct_witness:
  "let m = [8 \<mapsto> 97, 9 \<mapsto> 0, 16 \<mapsto> 97, 17 \<mapsto> 98, 18 \<mapsto> (0 :: u8)]
   in (\<exists>r. kstrcmp m 8 16 = Ret r \<and> (r = 0 \<longleftrightarrow> [97] = [97, 98 :: u8]) \<and>
          (r < 0 \<longleftrightarrow> ord_class.lexordp [97] [97, 98 :: u8])) \<and> kstrcmp m 8 16 = Ret (- 98)"
  unfolding Let_def
  by (rule conjI, rule kstrcmp_correct) (simp_all add: kstrcmp.simps ld_def)

lemma kstrncmp_loop_shift:
  "kstrncmp_loop m p q (Suc len) (Suc i) = kstrncmp_loop m (Suc p) (Suc q) len i"
proof (induction "len - i" arbitrary: i)
  case 0
  then show ?case by (subst (1 2) kstrncmp_loop.simps) (simp cong: bnd_cong)
next
  case (Suc k)
  then have "kstrncmp_loop m p q (Suc len) (Suc (Suc i)) = kstrncmp_loop m (Suc p) (Suc q) len (Suc i)"
    by simp
  then show ?case
    by (subst (1 2) kstrncmp_loop.simps) (auto intro!: bnd_cong)
qed

lemma kstrncmp_zero_iff:
  assumes "cstr m p s" and "cstr m q t"
  shows "\<exists>r. kstrncmp m p q len = Ret r \<and> (r = 0 \<longleftrightarrow> take (Suc len) s = take (Suc len) t)"
  unfolding kstrncmp_def using assms
proof (induction s arbitrary: p q t len)
  case Nil
  then show ?case by (subst kstrncmp_loop.simps, cases t) (auto simp: ld_def)
next
  case (Cons c s)
  show ?case
  proof (cases t)
    case Nil
    with Cons.prems show ?thesis by (subst kstrncmp_loop.simps) (simp add: ld_def)
  next
    case (Cons c' t')
    with Cons.prems have lds: "ld m p = Ret c" "ld m q = Ret c'" "c \<noteq> 0" "c' \<noteq> 0"
      by (simp_all add: ld_def)
    have tl: "cstr m (Suc p) s" "cstr m (Suc q) t'" using Cons.prems Cons by simp_all
    show ?thesis
    proof (cases len)
      case 0
      then show ?thesis using lds Cons by (subst kstrncmp_loop.simps) simp
    next
      case (Suc n)
      then show ?thesis using Cons.IH [OF tl, of n] lds Cons
        by (subst kstrncmp_loop.simps)
           (auto simp: kstrncmp_loop_shift signed.less_le signed.not_less)
    qed
  qed
qed

lemma kstrcmp_s_zero_iff:
  assumes "cstr m p s" and "cstr m q t"
  shows "\<exists>r. kstrcmp_s m p q = Ret r \<and> (r = 0 \<longleftrightarrow> s = t)"
proof -
  have "take (Suc (length s)) s = take (Suc (length s)) t \<longleftrightarrow> s = t"
    by (metis append_take_drop_id length_take lessI linorder_not_less min.commute min_less_iff_conj
        order_less_irrefl take_all_iff nle_le)
  then show ?thesis
    using kstrncmp_zero_iff [OF assms, of "length s"] kstrlen_correct [OF assms(1)]
    by (simp add: kstrcmp_s_def)
qed

section \<open>Concatenation and duplication\<close>

lemma copy_str_moved:
  assumes "cstr m src s" and "mapped m dst (length s)"
    and "dst + length s \<le> src \<or> src + length s < dst" and "i \<le> length s"
  shows "copy_str (moved m dst src i) (dst + i) (src + i)
       = Ret (moved m dst src (length s), dst + length s)"
  using \<open>i \<le> length s\<close>
proof (induction "length s - i" arbitrary: i)
  case 0
  then have "i = length s" by simp
  moreover have "moved m dst src (length s) (src + length s) = m (src + length s)"
    using assms(3) by (auto simp: moved_def)
  moreover have "src + length s < 2 ^ 64" "m (src + length s) = Some 0"
    using assms(1) by (auto simp: cstr_iff_nth mapped_def)
  ultimately show ?case by (subst copy_str.simps) (simp add: ld_def)
next
  case (Suc k)
  then have "i < length s" by simp
  then have s: "m (src + i) = Some (s ! i)" "s ! i \<noteq> 0" "src + i < 2 ^ 64"
    using assms(1) by (auto simp: cstr_iff_nth mapped_def in_set_conv_nth)
  have "moved m dst src i (src + i) = Some (s ! i)"
    using assms(3) \<open>i < length s\<close> s by (auto simp: moved_def)
  moreover have "dst + i < 2 ^ 64" "m (dst + i) \<noteq> None"
    using assms(2) \<open>i < length s\<close> by (auto simp: mapped_def)
  moreover have "moved m dst src i (dst + i) = m (dst + i)" by (simp add: moved_def)
  moreover have "(moved m dst src i)(dst + i \<mapsto> s ! i) = moved m dst src (Suc i)"
    using s by (auto simp: moved_def fun_eq_iff less_Suc_eq)
  moreover have "copy_str (moved m dst src (Suc i)) (Suc (dst + i)) (Suc (src + i))
      = Ret (moved m dst src (length s), dst + length s)"
    using Suc.hyps(1) [of "Suc i"] Suc.hyps(2) \<open>i < length s\<close> by simp
  ultimately show ?case using s
    by (subst copy_str.simps) (auto simp: ld_def st_def)
qed

lemma copy_str_correct:
  "cstr m src s \<Longrightarrow> mapped m dst (length s) \<Longrightarrow> dst + length s \<le> src \<or> src + length s < dst \<Longrightarrow>
   copy_str m dst src = Ret (moved m dst src (length s), dst + length s)"
  using copy_str_moved [of m src s dst 0] by simp

lemma kstrcpy_leaves_terminator:
  assumes "cstr m src s" and "mapped m dst (length s)"
    and "dst + length s \<le> src \<or> src + length s < dst"
  shows "\<exists>m'. kstrcpy m dst src = Ret (dst, m') \<and> (\<forall>i<length s. m' (dst + i) = Some (s ! i)) \<and>
         m' (dst + length s) = m (dst + length s)"
  using copy_str_correct [OF assms] assms(1)
  by (auto simp: kstrcpy_def moved_def cstr_iff_nth)

text \<open>
  Concatenation into a fresh block: both strings are copied, and the byte after them is
  the one the block held before: no terminator is written.
\<close>

lemma kstrcat_s_result:
  assumes s: "cstr m p s" and t: "cstr m q t"
    and blk: "mapped m r (length s + length t + 1)"
    and dp: "r + (length s + length t) \<le> p \<or> p + length s < r"
    and dq: "r + (length s + length t) \<le> q \<or> q + length t < r"
    and r: "r = kmalloc (length s + length t + 1)"
  shows "\<exists>m'. kstrcat_s kmalloc m p q = Ret (r, m') \<and>
     (\<forall>i<length s + length t. m' (r + i) = Some ((s @ t) ! i)) \<and>
     m' (r + length s + length t) = m (r + length s + length t)"
proof -
  let ?m1 = "moved m r p (length s)"
  have c1: "copy_str m r p = Ret (?m1, r + length s)"
    by (rule copy_str_correct [OF s]) (use blk dp in \<open>auto simp: mapped_def\<close>)
  have eq: "?m1 a = m a" if "q \<le> a" "a \<le> q + length t" for a
    using that dq by (auto simp: moved_def)
  have t1: "cstr ?m1 q t"
    using t eq unfolding cstr_iff_nth mapped_def by simp
  have "mapped ?m1 (r + length s) (length t)"
    using blk by (simp add: mapped_def moved_def add.assoc)
  then have c2: "copy_str ?m1 (r + length s) q
      = Ret (moved ?m1 (r + length s) q (length t), r + length s + length t)"
    by (rule copy_str_correct [OF t1]) (use dq in auto)
  let ?m2 = "moved ?m1 (r + length s) q (length t)"
  have "?m2 (r + i) = Some ((s @ t) ! i)" if i: "i < length s + length t" for i
  proof (cases "i < length s")
    case True
    then show ?thesis using s by (simp add: moved_def cstr_iff_nth nth_append)
  next
    case False
    then have "?m2 (r + i) = ?m1 (q + (i - length s))" using i by (simp add: moved_def)
    also have "\<dots> = Some (t ! (i - length s))"
      using t1 i False unfolding cstr_iff_nth by (metis add_less_imp_less_left le_add_diff_inverse not_less)
    finally show ?thesis using False by (simp add: nth_append)
  qed
  moreover have "?m2 (r + length s + length t) = m (r + length s + length t)"
    by (simp add: moved_def)
  ultimately show ?thesis
    using c1 c2 kstrlen_correct [OF s] kstrlen_correct [OF t] r
    by (simp add: kstrcat_s_def kstrncat_def Let_def)
qed

lemma kstrdup_result:
  assumes s: "cstr m p s" and blk: "mapped m r (length s + 1)" and r: "r = kmalloc (Suc (length s))"
    and d: "r + length s < p \<or> p + length s < r" and "r \<noteq> 0"
  shows "\<exists>m'. kstrdup kmalloc m p = Ret (r, m') \<and> cstr m' r s \<and> cstr m' p s"
proof -
  have "kmemcpy m r p (length s) = Ret (moved m r p (length s))"
    by (rule kmemcpy_correct) (use blk d cstr_mapped [OF s] in \<open>auto simp: mapped_def\<close>)
  moreover have "st (moved m r p (length s)) (r + length s) 0
      = Ret ((moved m r p (length s))(r + length s \<mapsto> 0))" (is "_ = Ret ?m'")
    using blk by (simp add: st_def mapped_def moved_def)
  moreover have "cstr ?m' r s" 
    using s blk by (auto simp: cstr_iff_nth mapped_def moved_def)
  moreover have "cstr ?m' p s"
    using s d by (auto simp: cstr_iff_nth mapped_def moved_def)
  ultimately show ?thesis
    using kstrlen_correct [OF s] \<open>r \<noteq> 0\<close>
    by (simp add: kstrdup_def kmemcpy_def r [symmetric])
qed

end
