(* ===== verification/Bitmap.thy ===== *)
theory Bitmap
  imports Prelude
begin

unbundle bit_operations_syntax

text \<open>
  \<open>src/lib/bitmap.c\<close> and \<open>src/include/lib/bitmap.h\<close>: bitmaps of 32-bit words, with the
  set of their set bits as the abstract view, and the contract \<open>run_allocator\<close> that
  the boot-time page allocator and the character-device numbers rely on. Positions are
  natural numbers: every bitmap of the kernel is far below \<open>2 ^ 31\<close> bits, so neither the
  \<open>uint32_t\<close> counters nor the conversion of a position to \<open>int\<close> wrap.
\<close>

section \<open>The operations\<close>

record bitmap =
  bm_len :: nat
  bm_bits :: "u32 list"

text \<open>\<open>ok1\<close> and \<open>ok2\<close>: do the two \<open>kzalloc\<close> calls succeed?\<close>

definition bm_alloc_bitmap :: "bool \<Rightarrow> bool \<Rightarrow> nat \<Rightarrow> bitmap option outcome" where
  "bm_alloc_bitmap ok1 ok2 nmemb =
     kassert (nmemb \<noteq> 0)
       (if \<not> ok1 then Ret None
        else
          let num_bits = (if nmemb mod 32 \<noteq> 0 then nmemb div 32 + 1 else nmemb div 32) in
          if \<not> ok2 then Ret None
          else Ret (Some \<lparr> bm_len = num_bits * 32, bm_bits = replicate num_bits 0 \<rparr>))"

text \<open>The bit of position \<open>n\<close> in its word, as the code extracts it.\<close>

definition bit_at :: "u32 \<Rightarrow> nat \<Rightarrow> u32" where
  "bit_at w n = drop_bit (n mod 32) (w AND push_bit (n mod 32) 1)"

definition set_word :: "u32 list \<Rightarrow> nat \<Rightarrow> u32 list outcome" where
  "set_word bits n =
     bnd (rd bits (n div 32)) (\<lambda>w. wr bits (n div 32) (w OR push_bit (n mod 32) 1))"

definition unset_word :: "u32 list \<Rightarrow> nat \<Rightarrow> u32 list outcome" where
  "unset_word bits n =
     bnd (rd bits (n div 32)) (\<lambda>w. wr bits (n div 32) (w AND NOT (push_bit (n mod 32) 1)))"

definition bm_set_bit :: "bitmap option \<Rightarrow> nat \<Rightarrow> (int \<times> bitmap option) outcome" where
  "bm_set_bit bmp n =
     (case bmp of
        None \<Rightarrow> Ret (- EINVAL, None)
      | Some bm \<Rightarrow>
          if n div 32 > bm_len bm then Ret (- E2BIG, Some bm)
          else omap (\<lambda>b. (0, Some (bm\<lparr> bm_bits := b \<rparr>))) (set_word (bm_bits bm) n))"

function set_loop :: "u32 list \<Rightarrow> nat \<Rightarrow> nat \<Rightarrow> u32 list outcome" where
  "set_loop bits n k = (if n \<le> k then bnd (set_word bits n) (\<lambda>b. set_loop b (n + 1) k) else Ret bits)"
  by pat_completeness auto
termination by (relation "measure (\<lambda>(bits, n, k). k + 1 - n)") auto

function unset_loop :: "u32 list \<Rightarrow> nat \<Rightarrow> nat \<Rightarrow> u32 list outcome" where
  "unset_loop bits n k = (if n \<le> k then bnd (unset_word bits n) (\<lambda>b. unset_loop b (n + 1) k) else Ret bits)"
  by pat_completeness auto
termination by (relation "measure (\<lambda>(bits, n, k). k + 1 - n)") auto

declare set_loop.simps [simp del] unset_loop.simps [simp del]

definition bm_set_range :: "bitmap \<Rightarrow> nat \<Rightarrow> nat \<Rightarrow> (int \<times> bitmap) outcome" where
  "bm_set_range bm n k =
     (if n \<ge> bm_len bm \<or> k \<ge> bm_len bm then Ret (- E2BIG, bm)
      else omap (\<lambda>b. (0, bm\<lparr> bm_bits := b \<rparr>)) (set_loop (bm_bits bm) n k))"

definition bm_unset_bit :: "bitmap \<Rightarrow> nat \<Rightarrow> (int \<times> bitmap) outcome" where
  "bm_unset_bit bm n =
     (if n \<ge> bm_len bm then Ret (- E2BIG, bm)
      else omap (\<lambda>b. (0, bm\<lparr> bm_bits := b \<rparr>)) (unset_word (bm_bits bm) n))"

definition bm_unset_range :: "bitmap \<Rightarrow> nat \<Rightarrow> nat \<Rightarrow> (int \<times> bitmap) outcome" where
  "bm_unset_range bm n k =
     (if n \<ge> bm_len bm \<or> k \<ge> bm_len bm then Ret (- E2BIG, bm)
      else omap (\<lambda>b. (0, bm\<lparr> bm_bits := b \<rparr>)) (unset_loop (bm_bits bm) n k))"

definition bm_test_bit :: "bitmap \<Rightarrow> nat \<Rightarrow> int outcome" where
  "bm_test_bit bm n =
     (if n \<ge> bm_len bm then Ret (- E2BIG)
      else omap (\<lambda>w. uint (bit_at w n)) (rd (bm_bits bm) (n div 32)))"

function find_loop :: "u32 list \<Rightarrow> nat \<Rightarrow> nat \<Rightarrow> u32 \<Rightarrow> int outcome" where
  "find_loop bits n k bit_status =
     (if n \<le> k then
        bnd (rd bits (n div 32)) (\<lambda>w.
          if bit_at w n = bit_status then Ret (int n)
          else find_loop bits (n + 1) k bit_status)
      else Ret (- ENOENT))"
  by pat_completeness auto
termination by (relation "measure (\<lambda>(bits, n, k, s). k + 1 - n)") auto

declare find_loop.simps [simp del]

definition bm_find_first :: "bitmap \<Rightarrow> nat \<Rightarrow> nat \<Rightarrow> u32 \<Rightarrow> int outcome" where
  "bm_find_first bm n k bit_status =
     (if n \<ge> bm_len bm \<or> k \<ge> bm_len bm then Ret (- E2BIG)
      else find_loop (bm_bits bm) n k bit_status)"

definition bm_find_first_unset :: "bitmap \<Rightarrow> nat \<Rightarrow> nat \<Rightarrow> int outcome" where
  "bm_find_first_unset bm n k = bm_find_first bm n k 0"

definition bm_find_first_set :: "bitmap \<Rightarrow> nat \<Rightarrow> nat \<Rightarrow> int outcome" where
  "bm_find_first_set bm n k = bm_find_first bm n k 1"

text \<open>\<open>start\<close> is \<open>-ENOENT\<close> while no run is open; \<open>cur_len\<close> is the length of the open run.\<close>

function find_range_loop :: "u32 list \<Rightarrow> nat \<Rightarrow> nat \<Rightarrow> nat \<Rightarrow> u32 \<Rightarrow> int \<Rightarrow> nat \<Rightarrow> int outcome" where
  "find_range_loop bits n k len bit_status start cur_len =
     (if n \<le> k then
        bnd (rd bits (n div 32)) (\<lambda>w.
          if bit_at w n = bit_status then
            (let start' = (if start = - ENOENT then int n else start) in
             if cur_len + 1 = len then Ret start'
             else find_range_loop bits (n + 1) k len bit_status start' (cur_len + 1))
          else find_range_loop bits (n + 1) k len bit_status (- ENOENT) 0)
      else Ret (- ENOENT))"
  by pat_completeness auto
termination by (relation "measure (\<lambda>(bits, n, k, len, s, start, cur). k + 1 - n)") auto

declare find_range_loop.simps [simp del]

definition bm_find_first_range :: "bitmap \<Rightarrow> nat \<Rightarrow> nat \<Rightarrow> nat \<Rightarrow> u32 \<Rightarrow> int outcome" where
  "bm_find_first_range bm n k len bit_status =
     (if n \<ge> bm_len bm \<or> k \<ge> bm_len bm then Ret (- E2BIG)
      else find_range_loop (bm_bits bm) n k len bit_status (- ENOENT) 0)"

definition bm_find_first_set_range :: "bitmap \<Rightarrow> nat \<Rightarrow> nat \<Rightarrow> nat \<Rightarrow> int outcome" where
  "bm_find_first_set_range bm n k len = bm_find_first_range bm n k len 1"

definition bm_find_first_unset_range :: "bitmap \<Rightarrow> nat \<Rightarrow> nat \<Rightarrow> nat \<Rightarrow> int outcome" where
  "bm_find_first_unset_range bm n k len = bm_find_first_range bm n k len 0"

section \<open>The abstract view: the set of set bits\<close>

definition bm_wf :: "bitmap \<Rightarrow> bool" where
  "bm_wf bm \<longleftrightarrow> bm_len bm = 32 * length (bm_bits bm)"

definition bits_set :: "u32 list \<Rightarrow> nat set" where
  "bits_set bits = {i. i < 32 * length bits \<and> bit (bits ! (i div 32)) (i mod 32)}"

definition bm_set :: "bitmap \<Rightarrow> nat set" where
  "bm_set bm = bits_set (bm_bits bm)"

lemma bit_at_eq: "bit_at w n = of_bool (bit w (n mod 32))"
  unfolding bit_at_def
  by (rule bit_word_eqI) (auto simp: bit_simps)

lemma set_word_ok:
  assumes "n < 32 * length bits"
  shows "\<exists>b. set_word bits n = Ret b \<and> length b = length bits \<and> bits_set b = insert n (bits_set bits)"
proof -
  have j: "n div 32 < length bits" using assms by (simp add: less_mult_imp_div_less mult.commute)
  have "i = n" if "i div 32 = n div 32" "i mod 32 = n mod 32" for i
    using that by (metis div_mult_mod_eq)
  then have "bits_set (bits[n div 32 := bits ! (n div 32) OR push_bit (n mod 32) 1]) = insert n (bits_set bits)"
    using assms j by (auto simp: bits_set_def nth_list_update bit_simps split: if_splits)
  then show ?thesis using j by (simp add: set_word_def)
qed

lemma unset_word_ok:
  assumes "n < 32 * length bits"
  shows "\<exists>b. unset_word bits n = Ret b \<and> length b = length bits \<and> bits_set b = bits_set bits - {n}"
proof -
  have j: "n div 32 < length bits" using assms by (simp add: less_mult_imp_div_less mult.commute)
  have "i = n" if "i div 32 = n div 32" "i mod 32 = n mod 32" for i
    using that by (metis div_mult_mod_eq)
  then have "bits_set (bits[n div 32 := bits ! (n div 32) AND NOT (push_bit (n mod 32) 1)]) = bits_set bits - {n}"
    using assms j by (auto simp: bits_set_def nth_list_update bit_simps split: if_splits)
  then show ?thesis using j by (simp add: unset_word_def)
qed

lemma set_loop_ok:
  "k < 32 * length bits \<Longrightarrow>
   \<exists>b. set_loop bits n k = Ret b \<and> length b = length bits \<and> bits_set b = bits_set bits \<union> {n..k}"
proof (induction "k + 1 - n" arbitrary: n bits)
  case 0 then show ?case by (subst set_loop.simps) simp
next
  case (Suc d)
  then have "n \<le> k" "n < 32 * length bits" by auto
  from set_word_ok [OF this(2)] obtain b where
    b: "set_word bits n = Ret b" "length b = length bits" "bits_set b = insert n (bits_set bits)" by blast
  have "{n..k} = insert n {Suc n..k}" using \<open>n \<le> k\<close> by auto
  then show ?case using Suc.hyps(1) [of "Suc n" b] Suc.hyps(2) Suc.prems b \<open>n \<le> k\<close>
    by (subst set_loop.simps) auto
qed

lemma unset_loop_ok:
  "k < 32 * length bits \<Longrightarrow>
   \<exists>b. unset_loop bits n k = Ret b \<and> length b = length bits \<and> bits_set b = bits_set bits - {n..k}"
proof (induction "k + 1 - n" arbitrary: n bits)
  case 0 then show ?case by (subst unset_loop.simps) simp
next
  case (Suc d)
  then have "n \<le> k" "n < 32 * length bits" by auto
  from unset_word_ok [OF this(2)] obtain b where
    b: "unset_word bits n = Ret b" "length b = length bits" "bits_set b = bits_set bits - {n}" by blast
  have "bits_set bits - {n} - {Suc n..k} = bits_set bits - {n..k}" using \<open>n \<le> k\<close> by auto
  then show ?case using Suc.hyps(1) [of "Suc n" b] Suc.hyps(2) Suc.prems b \<open>n \<le> k\<close>
    by (subst unset_loop.simps) auto
qed

lemma bm_set_bit_ok:
  assumes "bm_wf bm" and "n < bm_len bm"
  shows "\<exists>bm'. bm_set_bit (Some bm) n = Ret (0, Some bm') \<and> bm_wf bm' \<and> bm_len bm' = bm_len bm \<and>
    bm_set bm' = insert n (bm_set bm)"
  using set_word_ok [of n "bm_bits bm"] assms
  by (auto simp: bm_set_bit_def bm_wf_def bm_set_def)

lemma bm_set_range_ok:
  assumes "bm_wf bm" and "n < bm_len bm" and "k < bm_len bm"
  shows "\<exists>bm'. bm_set_range bm n k = Ret (0, bm') \<and> bm_wf bm' \<and> bm_len bm' = bm_len bm \<and>
    bm_set bm' = bm_set bm \<union> {n..k}"
  using set_loop_ok [of k "bm_bits bm" n] assms
  by (auto simp: bm_set_range_def bm_wf_def bm_set_def)

lemma bm_unset_bit_ok:
  assumes "bm_wf bm" and "n < bm_len bm"
  shows "\<exists>bm'. bm_unset_bit bm n = Ret (0, bm') \<and> bm_wf bm' \<and> bm_len bm' = bm_len bm \<and>
    bm_set bm' = bm_set bm - {n}"
  using unset_word_ok [of n "bm_bits bm"] assms
  by (auto simp: bm_unset_bit_def bm_wf_def bm_set_def)

lemma bm_unset_range_ok:
  assumes "bm_wf bm" and "n < bm_len bm" and "k < bm_len bm"
  shows "\<exists>bm'. bm_unset_range bm n k = Ret (0, bm') \<and> bm_wf bm' \<and> bm_len bm' = bm_len bm \<and>
    bm_set bm' = bm_set bm - {n..k}"
  using unset_loop_ok [of k "bm_bits bm" n] assms
  by (auto simp: bm_unset_range_def bm_wf_def bm_set_def)

lemma bm_range_E2BIG:
  "n \<ge> bm_len bm \<or> k \<ge> bm_len bm \<Longrightarrow> bm_set_range bm n k = Ret (- E2BIG, bm)"
  "n \<ge> bm_len bm \<or> k \<ge> bm_len bm \<Longrightarrow> bm_unset_range bm n k = Ret (- E2BIG, bm)"
  "n \<ge> bm_len bm \<or> k \<ge> bm_len bm \<Longrightarrow> bm_find_first_range bm n k len b = Ret (- E2BIG)"
  by (auto simp: bm_set_range_def bm_unset_range_def bm_find_first_range_def)

lemma word_at_member:
  assumes "bm_wf bm" and "i < bm_len bm"
  shows "\<exists>w. rd (bm_bits bm) (i div 32) = Ret w \<and> bit_at w i = of_bool (i \<in> bm_set bm)"
proof -
  have "i div 32 < length (bm_bits bm)"
    using assms by (simp add: bm_wf_def less_mult_imp_div_less mult.commute)
  then show ?thesis using assms by (simp add: bit_at_eq bm_set_def bits_set_def bm_wf_def)
qed

lemma bm_test_bit_ok:
  assumes "bm_wf bm" and "n < bm_len bm"
  shows "bm_test_bit bm n = Ret (of_bool (n \<in> bm_set bm))"
  using word_at_member [OF assms] assms by (auto simp: bm_test_bit_def)

section \<open>The searches find the first match\<close>

lemma find_loop_range: "find_loop bits n k b = find_range_loop bits n k 1 b (- ENOENT) 0"
proof (induction bits n k b rule: find_loop.induct)
  case (1 bits n k b)
  then show ?case
    by (subst find_loop.simps, subst find_range_loop.simps) (auto simp: Let_def intro!: bnd_cong)
qed

definition run :: "nat set \<Rightarrow> bool \<Rightarrow> nat \<Rightarrow> nat \<Rightarrow> bool" where
  "run S b s len \<longleftrightarrow> (\<forall>i<len. (s + i \<in> S) = b)"

text \<open>\<open>first_run S b n k len r\<close>: \<open>r\<close> is the answer a search for \<open>len\<close> equal bits in
  \<open>[n, k]\<close> should give.\<close>

definition first_run :: "nat set \<Rightarrow> bool \<Rightarrow> nat \<Rightarrow> nat \<Rightarrow> nat \<Rightarrow> int \<Rightarrow> bool" where
  "first_run S b n k len r \<longleftrightarrow>
     (\<exists>s. r = int s \<and> n \<le> s \<and> s + len \<le> k + 1 \<and> run S b s len \<and> (\<forall>s'. n \<le> s' \<and> s' < s \<longrightarrow> \<not> run S b s' len))
     \<or> r = - ENOENT \<and> (\<forall>s'. n \<le> s' \<and> s' + len \<le> k + 1 \<longrightarrow> \<not> run S b s' len)"

lemma run_Suc: "run S b s len \<Longrightarrow> (s + len \<in> S) = b \<Longrightarrow> run S b s (Suc len)"
  by (auto simp: run_def less_Suc_eq)

lemma run_blocked: "s \<le> n \<Longrightarrow> n < s + len \<Longrightarrow> (n \<in> S) \<noteq> b \<Longrightarrow> \<not> run S b s len"
  unfolding run_def by (metis add_diff_inverse_nat less_diff_conv2 linorder_not_le add.commute)

lemma find_range_loop_ok:
  assumes wf: "bm_wf bm" and k: "k < bm_len bm"
  shows "\<lbrakk> n \<le> k + 1; cur \<le> n; cur < len; n0 \<le> n - cur; run (bm_set bm) b (n - cur) cur;
      \<forall>s'. n0 \<le> s' \<and> s' < n - cur \<longrightarrow> \<not> run (bm_set bm) b s' len;
      start = (if cur = 0 then - ENOENT else int (n - cur)) \<rbrakk> \<Longrightarrow>
    \<exists>r. find_range_loop (bm_bits bm) n k len (of_bool b) start cur = Ret r \<and>
        first_run (bm_set bm) b n0 k len r"
proof (induction "k + 1 - n" arbitrary: n cur start)
  case 0
  then have n: "n = k + 1" by simp
  have "\<not> run (bm_set bm) b s' len" if "n0 \<le> s'" "s' + len \<le> k + 1" for s'
    using 0 that n by auto
  then show ?case using n by (subst find_range_loop.simps) (simp add: first_run_def)
next
  case (Suc d)
  then have "n \<le> k" "n < bm_len bm" using k by auto
  obtain w where w: "rd (bm_bits bm) (n div 32) = Ret w" "bit_at w n = of_bool (n \<in> bm_set bm)"
    using word_at_member [OF wf \<open>n < bm_len bm\<close>] by blast
  show ?case
  proof (cases "(n \<in> bm_set bm) = b")
    case True
    let ?start = "int (n - cur)"
    have st: "(if start = - ENOENT then int n else start) = ?start" using Suc.prems by auto
    have run: "run (bm_set bm) b (n - cur) (Suc cur)" using run_Suc [OF Suc.prems(5)] True Suc.prems by simp
    show ?thesis
    proof (cases "Suc cur = len")
      case len: True
      have "first_run (bm_set bm) b n0 k len ?start"
        using Suc.prems run len \<open>n \<le> k\<close> unfolding first_run_def by (intro disjI1 exI [of _ "n - cur"]) auto
      then show ?thesis using w True st \<open>n \<le> k\<close> len by (subst find_range_loop.simps) (simp add: Let_def)
    next
      case False
      then have "\<exists>r. find_range_loop (bm_bits bm) (Suc n) k len (of_bool b) ?start (Suc cur) = Ret r \<and>
          first_run (bm_set bm) b n0 k len r"
        by (intro Suc.hyps(1)) (use Suc.hyps(2) Suc.prems run \<open>n \<le> k\<close> in auto)
      then show ?thesis using w True st \<open>n \<le> k\<close> False by (subst find_range_loop.simps) (simp add: Let_def)
    qed
  next
    case False
    have "\<not> run (bm_set bm) b s' len" if "n0 \<le> s'" "s' < Suc n" for s'
    proof (cases "s' < n - cur")
      case False
      then show ?thesis using that Suc.prems(3) \<open>(n \<in> bm_set bm) \<noteq> b\<close> by (intro run_blocked [of _ n]) auto
    qed (use that Suc.prems in auto)
    then have "\<exists>r. find_range_loop (bm_bits bm) (Suc n) k len (of_bool b) (- ENOENT) 0 = Ret r \<and>
          first_run (bm_set bm) b n0 k len r"
      by (intro Suc.hyps(1)) (use Suc.hyps(2) Suc.prems \<open>n \<le> k\<close> in \<open>auto simp: run_def\<close>)
    then show ?thesis using w False \<open>n \<le> k\<close> by (subst find_range_loop.simps) auto
  qed
qed

lemma bm_find_first_range_ok:
  assumes "bm_wf bm" and "n < bm_len bm" and "k < bm_len bm" and "0 < len"
  shows "\<exists>r. bm_find_first_range bm n k len (of_bool b) = Ret r \<and> first_run (bm_set bm) b n k len r"
proof (cases "n \<le> k + 1")
  case True
  have "\<exists>r. find_range_loop (bm_bits bm) n k len (of_bool b) (- ENOENT) 0 = Ret r \<and>
        first_run (bm_set bm) b n k len r"
    by (rule find_range_loop_ok [OF assms(1,3)]) (use True assms in \<open>auto simp: run_def\<close>)
  then show ?thesis using assms unfolding bm_find_first_range_def by simp
next
  case False
  then show ?thesis using assms unfolding bm_find_first_range_def
    by (subst find_range_loop.simps) (auto simp: first_run_def)
qed

lemma bm_find_first_ok:
  assumes "bm_wf bm" and "n < bm_len bm" and "k < bm_len bm"
  shows "\<exists>r. bm_find_first bm n k (of_bool b) = Ret r \<and> first_run (bm_set bm) b n k 1 r"
  using bm_find_first_range_ok [OF assms, of 1 b] assms
  by (simp add: bm_find_first_def bm_find_first_range_def find_loop_range)

section \<open>The contract: an allocator of runs\<close>

text \<open>
  What a client of a bitmap relies on: a search for a run of free units, and
  marking an inclusive range taken or free.
\<close>

locale run_allocator =
  fixes inv :: "'s \<Rightarrow> bool" and units :: "'s \<Rightarrow> nat" and taken :: "'s \<Rightarrow> nat set"
    and find :: "'s \<Rightarrow> nat \<Rightarrow> nat \<Rightarrow> nat \<Rightarrow> int outcome"
    and mark :: "'s \<Rightarrow> nat \<Rightarrow> nat \<Rightarrow> (int \<times> 's) outcome"
    and unmark :: "'s \<Rightarrow> nat \<Rightarrow> nat \<Rightarrow> (int \<times> 's) outcome"
  assumes find_first: "inv s \<Longrightarrow> a < units s \<Longrightarrow> b < units s \<Longrightarrow> 0 < l \<Longrightarrow>
      \<exists>r. find s a b l = Ret r \<and> first_run (taken s) False a b l r"
    and mark_ok: "inv s \<Longrightarrow> a < units s \<Longrightarrow> b < units s \<Longrightarrow>
      \<exists>s'. mark s a b = Ret (0, s') \<and> inv s' \<and> units s' = units s \<and> taken s' = taken s \<union> {a..b}"
    and mark_err: "units s \<le> a \<or> units s \<le> b \<Longrightarrow> mark s a b = Ret (- E2BIG, s)"
    and unmark_ok: "inv s \<Longrightarrow> a < units s \<Longrightarrow> b < units s \<Longrightarrow>
      \<exists>s'. unmark s a b = Ret (0, s') \<and> inv s' \<and> units s' = units s \<and> taken s' = taken s - {a..b}"
    and unmark_err: "units s \<le> a \<or> units s \<le> b \<Longrightarrow> unmark s a b = Ret (- E2BIG, s)"
begin

lemma mark_total:
  assumes "inv s"
  shows "\<exists>r s'. mark s a b = Ret (r, s') \<and> inv s' \<and> units s' = units s"
proof (cases "a < units s \<and> b < units s")
  case True then show ?thesis using mark_ok [OF assms, of a b] by blast
next
  case False then show ?thesis using mark_err [of s a b] assms by auto
qed

lemma unmark_total:
  assumes "inv s"
  shows "\<exists>r s'. unmark s a b = Ret (r, s') \<and> inv s' \<and> units s' = units s"
proof (cases "a < units s \<and> b < units s")
  case True then show ?thesis using unmark_ok [OF assms, of a b] by blast
next
  case False then show ?thesis using unmark_err [of s a b] assms by auto
qed

text \<open>A run found and marked was free before and is taken afterwards.\<close>

lemma find_mark:
  assumes "inv s" and "a < units s" and "b < units s" and "0 < l"
    and "find s a b l = Ret (int r)" and "r + e < units s"
  shows "\<exists>s'. mark s r (r + e) = Ret (0, s') \<and> inv s' \<and> units s' = units s \<and>
    {r..<r + l} \<inter> taken s = {} \<and> taken s' = taken s \<union> {r..r + e}"
proof -
  have "run (taken s) False r l"
    using find_first [OF assms(1-4)] assms(5) by (auto simp: first_run_def)
  then have "i \<notin> taken s" if "r \<le> i" "i < r + l" for i
    using that by (simp add: run_def) (metis add_diff_inverse_nat add_less_cancel_left not_less)
  moreover have "r < units s" using assms(6) by simp
  ultimately show ?thesis using mark_ok [OF assms(1) _ assms(6), of r] by force
qed

text \<open>Marking and unmarking the same range gives back a range that was free before.\<close>

lemma mark_unmark:
  assumes "inv s" and "a < units s" and "b < units s" and "{a..b} \<inter> taken s = {}"
  shows "\<exists>s1 s2. mark s a b = Ret (0, s1) \<and> unmark s1 a b = Ret (0, s2) \<and> taken s2 = taken s"
proof -
  obtain s1 where s1: "mark s a b = Ret (0, s1)" "inv s1" "units s1 = units s" "taken s1 = taken s \<union> {a..b}"
    using mark_ok [OF assms(1-3)] by blast
  obtain s2 where s2: "unmark s1 a b = Ret (0, s2)" "taken s2 = taken s1 - {a..b}"
    using unmark_ok [of s1 a b] s1 assms by auto
  have "taken s2 = taken s" using s1 s2 assms(4) by blast
  then show ?thesis using s1 s2 by blast
qed

end

interpretation bmrun: run_allocator bm_wf bm_len bm_set bm_find_first_unset_range bm_set_range bm_unset_range
proof (unfold_locales, goal_cases)
  case (1 s a b l)
  then show ?case using bm_find_first_range_ok [of s a b l False]
    by (simp add: bm_find_first_unset_range_def)
next
  case (2 s a b) then show ?case by (rule bm_set_range_ok)
next
  case (3 s a b) then show ?case by (rule bm_range_E2BIG)
next
  case (4 s a b) then show ?case by (rule bm_unset_range_ok)
next
  case (5 s a b) then show ?case by (rule bm_range_E2BIG)
qed

section \<open>Properties\<close>

text \<open>
  C15: on a well-formed bitmap the range operations refine set union and difference over
  the inclusive range \<open>[n, k]\<close>, keep the bitmap well formed, and reject any range that
  leaves the bitmap with \<open>-E2BIG\<close> and no change; no index leaves the word array.
\<close>

theorem bitmap_range_refines:
  assumes "bm_wf bm"
  shows "if n < bm_len bm \<and> k < bm_len bm then
      \<exists>bm1 bm2. bm_set_range bm n k = Ret (0, bm1) \<and> bm_wf bm1 \<and> bm_set bm1 = bm_set bm \<union> {n..k} \<and>
        bm_unset_range bm n k = Ret (0, bm2) \<and> bm_wf bm2 \<and> bm_set bm2 = bm_set bm - {n..k}
    else bm_set_range bm n k = Ret (- E2BIG, bm) \<and> bm_unset_range bm n k = Ret (- E2BIG, bm)"
  using bm_set_range_ok [OF assms, of n k] bm_unset_range_ok [OF assms, of n k]
    bm_range_E2BIG [of bm n k] by auto

lemma bitmap_range_refines_witness:
  "let bm = \<lparr> bm_len = 64, bm_bits = [5, 0] \<rparr> in
   \<exists>bm1 bm2. bm_set_range bm 30 33 = Ret (0, bm1) \<and> bm_wf bm1 \<and> bm_set bm1 = bm_set bm \<union> {30..33} \<and>
     bm_unset_range bm 30 33 = Ret (0, bm2) \<and> bm_wf bm2 \<and> bm_set bm2 = bm_set bm - {30..33}"
  using bitmap_range_refines [of "\<lparr> bm_len = 64, bm_bits = [5, 0] \<rparr>" 30 33]
  by (simp add: bm_wf_def)

text \<open>
  C24: a search for \<open>len\<close> set or clear bits inside \<open>[n, k]\<close> returns the lowest position
  where such a run starts, and \<open>-ENOENT\<close> exactly when there is none.
\<close>

theorem bm_find_first_range_first:
  assumes "bm_wf bm" and "n < bm_len bm" and "k < bm_len bm" and "0 < len"
  shows "\<exists>r s. bm_find_first_unset_range bm n k len = Ret r \<and> first_run (bm_set bm) False n k len r \<and>
    bm_find_first_set_range bm n k len = Ret s \<and> first_run (bm_set bm) True n k len s"
  using bm_find_first_range_ok [OF assms, of False] bm_find_first_range_ok [OF assms, of True]
  by (simp add: bm_find_first_unset_range_def bm_find_first_set_range_def)

lemma bm_find_first_range_first_witness:
  "let bm = \<lparr> bm_len = 32, bm_bits = [0b100011] \<rparr> in
   (\<exists>r s. bm_find_first_unset_range bm 0 31 4 = Ret r \<and> first_run (bm_set bm) False 0 31 4 r \<and>
    bm_find_first_set_range bm 0 31 4 = Ret s \<and> first_run (bm_set bm) True 0 31 4 s) \<and>
    bm_find_first_unset_range bm 0 31 4 = Ret 6"
  unfolding Let_def
  by (rule conjI, rule bm_find_first_range_first)
     (simp_all add: bm_wf_def, code_simp)

text \<open>
  The guard of \<open>bm_set_bit\<close> compares the word index with the number of bits, so a
  position past the end passes it and the word array is written out of bounds.
\<close>

lemma bm_set_bit_guard:
  assumes "bm_wf bm" and "bm_len bm \<le> n" and "n div 32 \<le> bm_len bm"
  shows "bm_set_bit (Some bm) n = Halt MemFault"
proof -
  have "length (bm_bits bm) \<le> n div 32"
    using assms(1,2) by (simp add: bm_wf_def div_le_mono [of "32 * length (bm_bits bm)" n 32, simplified])
  then show ?thesis using assms(3) by (simp add: bm_set_bit_def set_word_def)
qed

lemma bm_set_bit_guard_witness:
  "bm_set_bit (Some \<lparr> bm_len = 32, bm_bits = [0] \<rparr>) 32 = Halt MemFault"
  by (rule bm_set_bit_guard) (simp_all add: bm_wf_def)

end
