(* ===== verification/LinkedList.thy ===== *)
theory LinkedList
  imports Prelude
begin

text \<open>
  \<open>src/lib/list.c\<close> and \<open>src/include/lib/list.h\<close>: the intrusive doubly linked lists of
  the kernel, over a heap of \<open>list_head\<close> cells. A pointer is a natural number, 0 is
  \<open>NULL\<close>, and following a pointer to no cell faults. The abstract view of a list is the
  Isabelle list of its cell addresses: \<open>ring\<close> for the circular lists that start with
  \<open>list_init\<close>, \<open>chain\<close> for the NULL-terminated ones that start with \<open>list_init_null\<close>.
\<close>

section \<open>The operations\<close>

record list_head =
  lh_next :: nat
  lh_prev :: nat

type_synonym lheap = "nat \<rightharpoonup> list_head"

definition cell :: "lheap \<Rightarrow> nat \<Rightarrow> list_head outcome" where
  "cell h p = (if p = 0 then Halt MemFault else case h p of None \<Rightarrow> Halt MemFault | Some c \<Rightarrow> Ret c)"

definition set_next :: "lheap \<Rightarrow> nat \<Rightarrow> nat \<Rightarrow> lheap outcome" where
  "set_next h p v = omap (\<lambda>c. h(p \<mapsto> c\<lparr> lh_next := v \<rparr>)) (cell h p)"

definition set_prev :: "lheap \<Rightarrow> nat \<Rightarrow> nat \<Rightarrow> lheap outcome" where
  "set_prev h p v = omap (\<lambda>c. h(p \<mapsto> c\<lparr> lh_prev := v \<rparr>)) (cell h p)"

definition get_next :: "lheap \<Rightarrow> nat \<Rightarrow> nat outcome" where
  "get_next h p = omap lh_next (cell h p)"

definition get_prev :: "lheap \<Rightarrow> nat \<Rightarrow> nat outcome" where
  "get_prev h p = omap lh_prev (cell h p)"

definition list_init :: "lheap \<Rightarrow> nat \<Rightarrow> lheap outcome" where
  "list_init h s = bnd (set_next h s s) (\<lambda>h. set_prev h s s)"

definition list_init_null :: "lheap \<Rightarrow> nat \<Rightarrow> lheap outcome" where
  "list_init_null h s = bnd (set_next h s 0) (\<lambda>h. set_prev h s 0)"

definition list_remove :: "lheap \<Rightarrow> nat \<Rightarrow> lheap outcome" where
  "list_remove h s =
     bnd (get_next h s) (\<lambda>n.
     bnd (if n \<noteq> 0 then bnd (get_prev h s) (\<lambda>p. set_prev h n p) else Ret h) (\<lambda>h.
     bnd (get_prev h s) (\<lambda>p.
     if p \<noteq> 0 then bnd (get_next h s) (\<lambda>n. set_next h p n) else Ret h)))"

definition list_insert :: "lheap \<Rightarrow> nat \<Rightarrow> nat \<Rightarrow> nat \<Rightarrow> lheap outcome" where
  "list_insert h new nxt prv =
     bnd (set_next h prv new) (\<lambda>h.
     bnd (set_prev h nxt new) (\<lambda>h.
     bnd (set_prev h new prv) (\<lambda>h. set_next h new nxt)))"

definition list_append :: "lheap \<Rightarrow> nat \<Rightarrow> nat \<Rightarrow> lheap outcome" where
  "list_append h s t =
     bnd (get_next h s) (\<lambda>n.
     bnd (set_next h t n) (\<lambda>h.
     bnd (set_prev h t s) (\<lambda>h.
     bnd (get_next h s) (\<lambda>n.
     bnd (if n \<noteq> 0 then set_prev h n t else Ret h) (\<lambda>h.
     set_next h s t)))))"

definition list_insert_tail :: "lheap \<Rightarrow> nat \<Rightarrow> nat \<Rightarrow> lheap outcome" where
  "list_insert_tail h s t =
     bnd (set_next h s t) (\<lambda>h. bnd (set_prev h t s) (\<lambda>h. set_next h t 0))"

definition list_insert_head :: "lheap \<Rightarrow> nat \<Rightarrow> nat \<Rightarrow> lheap outcome" where
  "list_insert_head h s t =
     bnd (set_prev h s t) (\<lambda>h. bnd (set_next h t s) (\<lambda>h. set_prev h t 0))"

definition list_prepend :: "lheap \<Rightarrow> nat \<Rightarrow> nat \<Rightarrow> lheap outcome" where
  "list_prepend h s t =
     bnd (get_prev h s) (\<lambda>p.
     bnd (set_prev h t p) (\<lambda>h.
     bnd (set_next h t s) (\<lambda>h.
     bnd (set_prev h s t) (\<lambda>h.
     bnd (get_prev h s) (\<lambda>p.
     if p \<noteq> 0 then set_next h p t else Ret h)))))"

text \<open>\<open>FOREACH(list, i)\<close>: the cells it visits, or \<open>None\<close> when the fuel runs out first.\<close>

primrec foreach :: "nat \<Rightarrow> lheap \<Rightarrow> nat \<Rightarrow> nat \<Rightarrow> nat list outcome option" where
  "foreach 0 h list i = None"
| "foreach (Suc fuel) h list i =
     (if i = list then Some (Ret [])
      else case get_next h i of
        Halt e \<Rightarrow> Some (Halt e)
      | Ret n \<Rightarrow> map_option (omap (\<lambda>xs. i # xs)) (foreach fuel h list n))"

definition FOREACH :: "nat \<Rightarrow> lheap \<Rightarrow> nat \<Rightarrow> nat list outcome option" where
  "FOREACH fuel h list =
     (case get_next h list of Halt e \<Rightarrow> Some (Halt e) | Ret n \<Rightarrow> foreach fuel h list n)"

section \<open>The abstract view\<close>

definition hd_or :: "nat \<Rightarrow> nat list \<Rightarrow> nat" where
  "hd_or d xs = (case xs of [] \<Rightarrow> d | x # _ \<Rightarrow> x)"

definition last_or :: "nat \<Rightarrow> nat list \<Rightarrow> nat" where
  "last_or d xs = (if xs = [] then d else last xs)"

text \<open>\<open>dseg h p xs n\<close>: the cells \<open>xs\<close> are linked in that order, the first after \<open>p\<close>, the
  last before \<open>n\<close>.\<close>

fun dseg :: "lheap \<Rightarrow> nat \<Rightarrow> nat list \<Rightarrow> nat \<Rightarrow> bool" where
  "dseg h p [] n \<longleftrightarrow> True"
| "dseg h p (x # xs) n \<longleftrightarrow>
     x \<noteq> 0 \<and> h x = Some \<lparr> lh_next = hd_or n xs, lh_prev = p \<rparr> \<and> dseg h x xs n"

definition ring :: "lheap \<Rightarrow> nat list \<Rightarrow> bool" where
  "ring h ns \<longleftrightarrow> ns \<noteq> [] \<and> distinct ns \<and> dseg h (last ns) ns (hd ns)"

definition chain :: "lheap \<Rightarrow> nat list \<Rightarrow> bool" where
  "chain h ns \<longleftrightarrow> distinct ns \<and> dseg h 0 ns 0"

lemma hd_or_simps [simp]: "hd_or d [] = d" "hd_or d (x # xs) = x"
  by (simp_all add: hd_or_def)

lemma hd_or_append: "hd_or d (xs @ ys) = hd_or (hd_or d ys) xs"
  by (cases xs) simp_all

lemma last_or_simps [simp]: "last_or d [] = d" "last_or d (xs @ [x]) = x" "last_or d (x # xs) = last_or x xs"
  by (simp_all add: last_or_def)

lemma last_Cons_or: "last (x # xs) = last_or x xs"
  by (simp add: last_or_def)

lemma dseg_append: "dseg h p (xs @ ys) n \<longleftrightarrow> dseg h p xs (hd_or n ys) \<and> dseg h (last_or p xs) ys n"
  by (induction xs arbitrary: p) (auto simp: hd_or_append)

lemma dseg_upd [simp]: "x \<notin> set xs \<Longrightarrow> dseg (h(x := c)) p xs n = dseg h p xs n"
  by (induction xs arbitrary: p) auto

lemma ring_rotate1: "ring h (x # xs) \<longleftrightarrow> ring h (xs @ [x])"
proof -
  have "hd (xs @ [x]) = hd_or x xs" by (cases xs) simp_all
  then show ?thesis by (auto simp: ring_def dseg_append last_Cons_or last_or_def)
qed

lemma ring_rotate: "ring h (xs @ ys) \<longleftrightarrow> ring h (ys @ xs)"
proof (induction xs arbitrary: ys)
  case (Cons x xs)
  have "ring h ((x # xs) @ ys) \<longleftrightarrow> ring h (xs @ (ys @ [x]))"
    using ring_rotate1 [of h x "xs @ ys"] by simp
  also have "\<dots> \<longleftrightarrow> ring h (ys @ x # xs)" using Cons.IH [of "ys @ [x]"] by simp
  finally show ?case .
qed simp

lemma cell_simps [simp]:
  "p \<noteq> 0 \<Longrightarrow> h p = Some c \<Longrightarrow> cell h p = Ret c"
  "cell h 0 = Halt MemFault"
  by (simp_all add: cell_def)

lemmas link_defs = set_next_def set_prev_def get_next_def get_prev_def

lemma list_append_head:
  assumes "ring h (s # bs)" and "t \<notin> set (s # bs)" and "t \<noteq> 0" and "h t \<noteq> None"
  shows "\<exists>h'. list_append h s t = Ret h' \<and> ring h' (s # t # bs)"
proof (cases bs)
  case Nil
  then show ?thesis using assms by (auto simp: list_append_def link_defs ring_def)
next
  case (Cons b bs')
  then show ?thesis using assms 
    by (cases bs' rule: rev_cases) (auto simp: list_append_def link_defs ring_def last_Cons_or dseg_append hd_or_append)
qed

text \<open>The other cells stay as they are, and so does a list of which no cell changes.\<close>

lemma list_append_frame:
  assumes "ring h (s # bs)" and "list_append h s t = Ret h'" and "x \<notin> set (s # t # bs)"
  shows "h' x = h x"
proof (cases bs)
  case Nil
  then show ?thesis using assms by (cases "h t") (auto simp: list_append_def link_defs ring_def outcome_ret_iff cell_def split: option.splits if_splits)
next
  case (Cons b bs')
  then show ?thesis using assms
    by (auto simp: list_append_def link_defs ring_def outcome_ret_iff cell_def split: option.splits if_splits)
qed

lemma ring_agree:
  assumes "ring h ns" and "\<And>x. x \<in> set ns \<Longrightarrow> h' x = h x"
  shows "ring h' ns"
proof -
  have "(\<And>x. x \<in> set ns \<Longrightarrow> h' x = h x) \<Longrightarrow> dseg h p ns n \<Longrightarrow> dseg h' p ns n" for p n
    by (induction ns arbitrary: p) auto
  then show ?thesis using assms by (auto simp: ring_def)
qed

lemma list_append_ring:
  assumes "ring h (as @ s # bs)" and "t \<notin> set (as @ s # bs)" and "t \<noteq> 0" and "h t \<noteq> None"
  shows "\<exists>h'. list_append h s t = Ret h' \<and> ring h' (as @ s # t # bs)"
proof -
  have "ring h (s # bs @ as)" using assms(1) ring_rotate [of h as "s # bs"] by simp
  from list_append_head [OF this] assms obtain h' where
    h': "list_append h s t = Ret h'" "ring h' (s # t # bs @ as)" by auto
  then have "ring h' (as @ s # t # bs)" using ring_rotate [of h' "s # t # bs" as] by simp
  with h' show ?thesis by blast
qed

lemma list_remove_head:
  assumes "ring h (s # b # bs)"
  shows "\<exists>h'. list_remove h s = Ret h' \<and> ring h' (b # bs)"
  using assms
  by (cases bs rule: rev_cases)
     (auto simp: list_remove_def link_defs ring_def last_Cons_or dseg_append hd_or_append)

lemma list_remove_ring:
  assumes "ring h (as @ s # bs)" and "as @ bs \<noteq> []"
  shows "\<exists>h'. list_remove h s = Ret h' \<and> ring h' (as @ bs)"
proof -
  have *: "ring h (s # bs @ as)" using assms(1) ring_rotate [of h as "s # bs"] by simp
  obtain c cs where cs: "bs @ as = c # cs" using assms(2) by (cases "bs @ as") auto
  from list_remove_head [of h s c cs] * cs obtain h' where
    h': "list_remove h s = Ret h'" "ring h' (bs @ as)" by auto
  then show ?thesis using ring_rotate [of h' bs as] by blast
qed

lemma list_append_chain:
  assumes "chain h (as @ s # bs)" and "t \<notin> set (as @ s # bs)" and "t \<noteq> 0" and "h t \<noteq> None"
  shows "\<exists>h'. list_append h s t = Ret h' \<and> chain h' (as @ s # t # bs)"
proof (cases bs)
  case Nil
  then show ?thesis using assms
    by (cases as rule: rev_cases) (auto simp: list_append_def link_defs chain_def dseg_append hd_or_append)
next
  case (Cons b bs')
  then show ?thesis using assms
    by (cases as rule: rev_cases) (auto simp: list_append_def link_defs chain_def dseg_append hd_or_append)
qed

lemma list_remove_chain:
  assumes "chain h (as @ s # bs)"
  shows "\<exists>h'. list_remove h s = Ret h' \<and> chain h' (as @ bs)"
proof (cases bs)
  case Nil
  then show ?thesis using assms
    by (cases as rule: rev_cases) (auto simp: list_remove_def link_defs chain_def dseg_append hd_or_append)
next
  case (Cons b bs')
  then show ?thesis using assms
    by (cases as rule: rev_cases) (auto simp: list_remove_def link_defs chain_def dseg_append hd_or_append)
qed

lemma list_init_ring:
  assumes "s \<noteq> 0" and "h s \<noteq> None"
  shows "\<exists>h'. list_init h s = Ret h' \<and> ring h' [s]"
  using assms by (auto simp: list_init_def link_defs ring_def)

lemma list_init_chain:
  assumes "s \<noteq> 0" and "h s \<noteq> None"
  shows "\<exists>h'. list_init_null h s = Ret h' \<and> chain h' [s]"
  using assms by (auto simp: list_init_null_def link_defs chain_def)

lemma foreach_dseg:
  "dseg h p xs l \<Longrightarrow> l \<notin> set xs \<Longrightarrow> length xs < fuel \<Longrightarrow>
   foreach fuel h l (hd_or l xs) = Some (Ret xs)"
proof (induction fuel arbitrary: p xs)
  case (Suc fuel)
  then show ?case by (cases xs) (auto simp: get_next_def)
qed simp

lemma FOREACH_ring:
  assumes "ring h (l # xs)" and "length xs < fuel"
  shows "FOREACH fuel h l = Some (Ret xs)"
proof -
  have "get_next h l = Ret (hd_or l xs)" "dseg h l xs l" "l \<notin> set xs"
    using assms(1) by (auto simp: ring_def get_next_def)
  then show ?thesis using foreach_dseg assms(2) by (simp add: FOREACH_def)
qed

section \<open>Properties\<close>

text \<open>
  C10: on a circular list, \<open>list_append(s, t)\<close> links the fresh cell \<open>t\<close> right after \<open>s\<close>
  wherever \<open>s\<close> stands, \<open>list_remove\<close> takes it out again, and \<open>FOREACH\<close> from a head
  visits exactly the other cells in order, so a list built by appending to its head is
  traversed newest first.
\<close>

theorem list_ring_refines:
  assumes "ring h (l # as @ s # bs)" and "t \<notin> set (l # as @ s # bs)" and "t \<noteq> 0" and "h t \<noteq> None"
    and "length (as @ s # t # bs) < fuel"
  shows "\<exists>h1 h2. list_append h s t = Ret h1 \<and> FOREACH fuel h1 l = Some (Ret (as @ s # t # bs)) \<and>
    list_remove h1 t = Ret h2 \<and> ring h2 (l # as @ s # bs)"
proof -
  obtain h1 where h1: "list_append h s t = Ret h1" "ring h1 (l # as @ s # t # bs)"
    using list_append_ring [of h "l # as" s bs t] assms by auto
  obtain h2 where h2: "list_remove h1 t = Ret h2" "ring h2 (l # as @ s # bs)"
    using list_remove_ring [of h1 "l # as @ [s]" t bs] h1 by auto
  have "FOREACH fuel h1 l = Some (Ret (as @ s # t # bs))"
    by (rule FOREACH_ring) (use h1 assms in auto)
  with h1 h2 show ?thesis by blast
qed

lemma list_ring_refines_witness:
  "let h = [1 \<mapsto> \<lparr> lh_next = 2, lh_prev = 2 \<rparr>, 2 \<mapsto> \<lparr> lh_next = 1, lh_prev = 1 \<rparr>,
            3 \<mapsto> \<lparr> lh_next = 0, lh_prev = 0 \<rparr>] in
   \<exists>h1 h2. list_append h 2 3 = Ret h1 \<and> FOREACH 4 h1 1 = Some (Ret [2, 3]) \<and>
    list_remove h1 3 = Ret h2 \<and> ring h2 [1, 2]"
  unfolding Let_def
  using list_ring_refines [of "[1 \<mapsto> \<lparr> lh_next = 2, lh_prev = 2 \<rparr>, 2 \<mapsto> \<lparr> lh_next = 1, lh_prev = 1 \<rparr>,
            3 \<mapsto> \<lparr> lh_next = 0, lh_prev = 0 \<rparr>]" 1 "[]" 2 "[]" 3 4]
  by (simp add: ring_def)

text \<open>
  \<open>list_prepend(s, t)\<close> breaks a circular list: it overwrites \<open>s->prev\<close> before it uses
  it, so \<open>t->next\<close> ends up as \<open>t\<close> itself, and a traversal that reaches \<open>t\<close> never comes
  back to the head, whatever the fuel.
\<close>

lemma list_prepend_loops:
  assumes "ring h (s # bs)" and "t \<notin> set (s # bs)" and "t \<noteq> 0" and "h t \<noteq> None"
  shows "\<exists>h'. list_prepend h s t = Ret h' \<and> get_next h' t = Ret t \<and> foreach fuel h' s t = None"
proof -
  obtain h' where h': "list_prepend h s t = Ret h'" "get_next h' t = Ret t"
    using assms by (auto simp: list_prepend_def link_defs ring_def)
  have "foreach fuel h' s t = None" using h'(2) assms(2) by (induction fuel) auto
  then show ?thesis using h' by blast
qed

lemma list_prepend_loops_witness:
  "let h = [1 \<mapsto> \<lparr> lh_next = 1, lh_prev = 1 \<rparr>, 2 \<mapsto> \<lparr> lh_next = 0, lh_prev = 0 \<rparr>] in
   \<exists>h'. list_prepend h 1 2 = Ret h' \<and> get_next h' 2 = Ret 2 \<and> foreach 9 h' 1 2 = None"
  unfolding Let_def
  by (rule list_prepend_loops [of _ 1 "[]"]) (simp_all add: ring_def)

end
