(* ===== verification/Hashmap.thy ===== *)
theory Hashmap
  imports Prelude
begin

unbundle bit_operations_syntax

text \<open>
  \<open>src/lib/hashmap.c\<close>: the open-addressing hash map of the kernel, generic in the type
  \<open>'k\<close> of what a key pointer points to (\<open>None\<close> is the NULL key) and the type \<open>'v\<close> of
  the stored pointers. A bucket is \<open>None\<close> until \<open>kmalloc\<close> gave it a cell. Capacities
  are below \<open>2 ^ 31\<close>, so the \<open>int\<close> bucket index does not wrap. The contract
  \<open>keyed_store\<close> is what the file system relies on.
\<close>

section \<open>The operations\<close>

definition BUCKET_MAX_LEN :: nat where
  "BUCKET_MAX_LEN = 12"

record 'v hm_item =
  it_data :: 'v
  it_key :: u32
  it_occupied :: bool

record ('k, 'v) hashmap =
  hm_len :: nat
  hm_cap :: nat
  hm_elem :: "'v hm_item option list"
  hm_hash :: "'k option \<Rightarrow> u32"

definition UINT32_MAX :: u32 where
  "UINT32_MAX = 0xffffffff"

definition hm_hash_num :: "u32 option \<Rightarrow> u32" where
  "hm_hash_num key =
     (case key of None \<Rightarrow> UINT32_MAX
      | Some tmp \<Rightarrow>
          let tmp = (drop_bit 16 tmp XOR tmp) * 0x45d9f3b;
              tmp = (drop_bit 16 tmp XOR tmp) * 0x45d9f3b
          in drop_bit 16 tmp XOR tmp)"

text \<open>\<open>char\<close> is signed: a byte from 0x80 up is subtracted from the hash.\<close>

definition hm_hash_str :: "u8 list option \<Rightarrow> u32" where
  "hm_hash_str key =
     (case key of None \<Rightarrow> UINT32_MAX
      | Some str \<Rightarrow> fold (\<lambda>c hash. (push_bit 5 hash + hash) + (scast c :: u32)) str 5381)"

text \<open>
  \<open>ok1\<close>, \<open>ok2\<close>: do the two allocations succeed? The map is generic in its keys, so the
  hash function that the key type of the caller selects (one of the two above) is given
  in its place.
\<close>

definition hm_alloc_hashmap :: "bool \<Rightarrow> bool \<Rightarrow> nat \<Rightarrow> ('k option \<Rightarrow> u32) \<Rightarrow> ('k, 'v) hashmap option" where
  "hm_alloc_hashmap ok1 ok2 sz hash =
     (if \<not> ok1 then None else if \<not> ok2 then None
      else Some \<lparr> hm_len = 0, hm_cap = sz, hm_elem = replicate sz None, hm_hash = hash \<rparr>)"

text \<open>The buckets whose pointers \<open>hm_dealloc_hashmap\<close> hands to \<open>kfree\<close>.\<close>

fun dealloc_loop :: "'v hm_item option list \<Rightarrow> nat \<Rightarrow> nat \<Rightarrow> 'v hm_item option list outcome" where
  "dealloc_loop elem i 0 = Ret []"
| "dealloc_loop elem i (Suc n) =
     bnd (rd elem i) (\<lambda>e. omap (\<lambda>es. e # es) (dealloc_loop elem (i + 1) n))"

definition hm_dealloc_hashmap :: "('k, 'v) hashmap option \<Rightarrow> 'v hm_item option list outcome" where
  "hm_dealloc_hashmap hmp =
     (case hmp of None \<Rightarrow> Ret [] | Some hm \<Rightarrow> dealloc_loop (hm_elem hm) 0 (hm_len hm))"

text \<open>The bucket's cell is written whole by \<open>hm_insert\<close>, so only its index matters here.\<close>

fun find_free_loop :: "'v hm_item option list \<Rightarrow> nat \<Rightarrow> nat \<Rightarrow> nat \<Rightarrow> int outcome" where
  "find_free_loop elem cap index 0 = Ret (- ENOSPC)"
| "find_free_loop elem cap index (Suc n) =
     bnd (rd elem index) (\<lambda>e.
       case e of
         None \<Rightarrow> Ret (int index)
       | Some it \<Rightarrow> if \<not> it_occupied it then Ret (int index)
                    else find_free_loop elem cap ((index + 1) mod cap) n)"

definition hm_find_free_bucket :: "('k, 'v) hashmap \<Rightarrow> u32 \<Rightarrow> int outcome" where
  "hm_find_free_bucket hm key =
     find_free_loop (hm_elem hm) (hm_cap hm) (unat key mod hm_cap hm) BUCKET_MAX_LEN"

definition hm_insert :: "('k, 'v) hashmap option \<Rightarrow> 'k option \<Rightarrow> 'v \<Rightarrow> (int \<times> ('k, 'v) hashmap) outcome" where
  "hm_insert hmp ukey elem =
     (case hmp of None \<Rightarrow> Halt AssertFailed
      | Some hm \<Rightarrow>
          kassert (hm_len hm < hm_cap hm)
            (let key = hm_hash hm ukey in
             if key = UINT32_MAX then Ret (- EINVAL, hm)
             else bnd (hm_find_free_bucket hm key) (\<lambda>index.
               if index < 0 then Ret (- ENOSPC, hm)
               else bnd (wr (hm_elem hm) (nat index)
                         (Some \<lparr> it_data = elem, it_key = key, it_occupied = True \<rparr>)) (\<lambda>es.
                    Ret (0, hm\<lparr> hm_elem := es, hm_len := hm_len hm + 1 \<rparr>)))))"

fun remove_loop :: "'v hm_item option list \<Rightarrow> nat \<Rightarrow> u32 \<Rightarrow> nat \<Rightarrow> nat \<Rightarrow> (int \<times> 'v hm_item option list) outcome" where
  "remove_loop elem cap key index 0 = Ret (- ENOENT, elem)"
| "remove_loop elem cap key index (Suc n) =
     bnd (rd elem index) (\<lambda>e.
       case e of
         None \<Rightarrow> Halt MemFault
       | Some it \<Rightarrow>
           if it_key it = key then
             bnd (wr elem index (Some (it\<lparr> it_occupied := False \<rparr>))) (\<lambda>es. Ret (0, es))
           else remove_loop elem cap key ((index + 1) mod cap) n)"

definition hm_remove :: "('k, 'v) hashmap option \<Rightarrow> 'k option \<Rightarrow> (int \<times> ('k, 'v) hashmap) outcome" where
  "hm_remove hmp ukey =
     (case hmp of None \<Rightarrow> Halt AssertFailed
      | Some hm \<Rightarrow>
          let key = hm_hash hm ukey in
          if key = UINT32_MAX then Ret (- EINVAL, hm)
          else omap (\<lambda>(r, es). (r, hm\<lparr> hm_elem := es \<rparr>))
                 (remove_loop (hm_elem hm) (hm_cap hm) key (unat key mod hm_cap hm) BUCKET_MAX_LEN))"

fun get_loop :: "'v hm_item option list \<Rightarrow> nat \<Rightarrow> u32 \<Rightarrow> nat \<Rightarrow> nat \<Rightarrow> 'v option outcome" where
  "get_loop elem cap key index 0 = Ret None"
| "get_loop elem cap key index (Suc n) =
     bnd (rd elem index) (\<lambda>e.
       case e of
         None \<Rightarrow> Ret None
       | Some it \<Rightarrow>
           if \<not> it_occupied it then Ret None
           else if it_key it = key then Ret (Some (it_data it))
           else get_loop elem cap key ((index + 1) mod cap) n)"

definition hm_get :: "('k, 'v) hashmap option \<Rightarrow> 'k option \<Rightarrow> 'v option outcome" where
  "hm_get hmp ukey =
     (case hmp of None \<Rightarrow> Halt AssertFailed
      | Some hm \<Rightarrow>
          let key = hm_hash hm ukey in
          if key = UINT32_MAX then Ret None
          else get_loop (hm_elem hm) (hm_cap hm) key (unat key mod hm_cap hm) BUCKET_MAX_LEN)"

definition hm_get_size :: "('k, 'v) hashmap option \<Rightarrow> nat" where
  "hm_get_size hmp = (case hmp of None \<Rightarrow> 0 | Some hm \<Rightarrow> hm_len hm)"

definition hm_get_capacity :: "('k, 'v) hashmap option \<Rightarrow> nat" where
  "hm_get_capacity hmp = (case hmp of None \<Rightarrow> 0 | Some hm \<Rightarrow> hm_cap hm)"

definition hm_add_hash_func :: "('k, 'v) hashmap option \<Rightarrow> ('k option \<Rightarrow> u32) option \<Rightarrow> ('k, 'v) hashmap outcome" where
  "hm_add_hash_func hmp f =
     (case (hmp, f) of (Some hm, Some g) \<Rightarrow> Ret (hm\<lparr> hm_hash := g \<rparr>) | _ \<Rightarrow> Halt AssertFailed)"

section \<open>Probe sequences\<close>

definition probes :: "nat \<Rightarrow> u32 \<Rightarrow> nat list" where
  "probes cap key = map (\<lambda>j. (unat key + j) mod cap) [0..<BUCKET_MAX_LEN]"

definition slot_occ :: "'v hm_item option \<Rightarrow> bool" where
  "slot_occ e = (case e of None \<Rightarrow> False | Some it \<Rightarrow> it_occupied it)"

fun look :: "'v hm_item option list \<Rightarrow> u32 \<Rightarrow> nat list \<Rightarrow> 'v option" where
  "look elem key [] = None"
| "look elem key (i # is) =
     (case elem ! i of None \<Rightarrow> None
      | Some it \<Rightarrow> if \<not> it_occupied it then None
                   else if it_key it = key then Some (it_data it) else look elem key is)"

lemma upt_mod_shift: 
  "map (\<lambda>j. (k + j) mod cap) [0..<Suc n] = k mod cap # map (\<lambda>j. (Suc k + j) mod cap) [0..<n]"
  by (simp add: map_upt_Suc del: upt_Suc)

lemma get_loop_look:
  "length elem = cap \<Longrightarrow> 0 < cap \<Longrightarrow>
   get_loop elem cap key (k mod cap) n = Ret (look elem key (map (\<lambda>j. (k + j) mod cap) [0..<n]))"
proof (induction n arbitrary: k)
  case (Suc n)
  then show ?case
    unfolding upt_mod_shift using Suc.IH [of "Suc k"] by (auto simp: mod_Suc_eq split: option.splits)
qed simp

lemma find_free_loop_split:
  "length elem = cap \<Longrightarrow> 0 < cap \<Longrightarrow>
   (\<exists>as x bs. map (\<lambda>j. (k + j) mod cap) [0..<n] = as @ x # bs \<and> (\<forall>i\<in>set as. slot_occ (elem ! i)) \<and>
      \<not> slot_occ (elem ! x) \<and> x < cap \<and> find_free_loop elem cap (k mod cap) n = Ret (int x))
   \<or> (\<forall>i\<in>set (map (\<lambda>j. (k + j) mod cap) [0..<n]). slot_occ (elem ! i)) \<and>
      find_free_loop elem cap (k mod cap) n = Ret (- ENOSPC)"
proof (induction n arbitrary: k)
  case (Suc n)
  let ?i = "k mod cap"
  have i: "?i < cap" using Suc.prems by simp
  show ?case
  proof (cases "slot_occ (elem ! ?i)")
    case False
    then have "find_free_loop elem cap ?i (Suc n) = Ret (int ?i)"
      using i Suc.prems by (auto simp: slot_occ_def split: option.splits)
    then show ?thesis using False i unfolding upt_mod_shift
      by (intro disjI1 exI [of _ "[]"]) auto
  next
    case True
    then have step: "find_free_loop elem cap ?i (Suc n) = find_free_loop elem cap (Suc k mod cap) n"
      using i Suc.prems by (auto simp: slot_occ_def mod_Suc_eq split: option.splits)
    from Suc.IH [OF Suc.prems, of "Suc k"] show ?thesis
      unfolding upt_mod_shift step
    proof (elim disjE exE conjE, goal_cases)
      case (1 as x bs)
      then show ?case using True by (intro disjI1 exI [of _ "?i # as"] exI [of _ x] exI [of _ bs]) auto
    next
      case 2 then show ?case using True by auto
    qed
  qed
qed simp

lemma look_upd_other: "x \<notin> set is \<Longrightarrow> look (elem[x := e]) k is = look elem k is"
  by (induction "is") (auto split: option.splits)

lemma look_append:
  "\<forall>i\<in>set as. slot_occ (elem ! i) \<Longrightarrow>
   look elem k (as @ is) = (case look elem k as of None \<Rightarrow> look elem k is | Some v \<Rightarrow> Some v)"
  by (induction as) (auto simp: slot_occ_def split: option.splits)

text \<open>\<open>holds elem k i\<close>: bucket \<open>i\<close> holds a live item of hash \<open>k\<close>.\<close>

definition holds :: "'v hm_item option list \<Rightarrow> u32 \<Rightarrow> nat \<Rightarrow> bool" where
  "holds elem k i = (case elem ! i of None \<Rightarrow> False | Some it \<Rightarrow> it_occupied it \<and> it_key it = k)"

lemma look_None: "\<forall>i\<in>set is. \<not> holds elem k i \<Longrightarrow> look elem k is = None"
  by (induction "is") (auto simp: holds_def split: option.splits)

text \<open>Filling a free bucket \<open>x\<close> with another key does not change what a search finds,
  when no item of that key lies beyond \<open>x\<close> on its probe sequence.\<close>

lemma look_upd_key:
  assumes "it_key new \<noteq> k" and "\<not> slot_occ (elem ! x)" and "x < length elem"
  shows "(\<And>as bs i. is = as @ x # bs \<Longrightarrow> i \<in> set is \<Longrightarrow> holds elem k i \<Longrightarrow> i \<in> set as) \<Longrightarrow>
    look (elem[x := Some new]) k is = look elem k is"
proof (induction "is")
  case (Cons i "is")
  show ?case
  proof (cases "i = x")
    case True
    have no: "\<not> holds elem k j" if "j \<in> set (i # is)" for j
      using Cons.prems [of "[]" "is" j] True that by auto
    then have "look elem k (i # is) = None" by (intro look_None) blast
    moreover have "\<not> holds (elem[x := Some new]) k j" if "j \<in> set (i # is)" for j
      using no [OF that] assms by (cases "j = x") (auto simp: holds_def)
    then have "look (elem[x := Some new]) k (i # is) = None" by (intro look_None) blast
    ultimately show ?thesis by simp
  next
    case False
    have "look (elem[x := Some new]) k is = look elem k is" if "\<not> holds elem k i"
    proof (rule Cons.IH)
      fix as bs j
      assume "is = as @ x # bs" "j \<in> set is" "holds elem k j"
      then show "j \<in> set as" using Cons.prems [of "i # as" bs j] that by auto
    qed
    then show ?thesis using False by (auto simp: holds_def split: option.splits)
  qed
qed simp

section \<open>The invariant and the abstract map\<close>

text \<open>
  \<open>placed\<close>: every live item lies on the probe sequence of its hash with only live items
  before it. This is what \<open>hm_get\<close> relies on when it stops at the first free bucket.
\<close>

definition placed :: "nat \<Rightarrow> 'v hm_item option list \<Rightarrow> bool" where
  "placed cap elem \<longleftrightarrow> (\<forall>k i. i < cap \<longrightarrow> holds elem k i \<longrightarrow>
     (\<exists>as bs. probes cap k = as @ i # bs \<and> (\<forall>j\<in>set as. slot_occ (elem ! j))))"

definition hm_inv :: "('k, 'v) hashmap \<Rightarrow> bool" where
  "hm_inv hm \<longleftrightarrow> length (hm_elem hm) = hm_cap hm \<and> 0 < hm_cap hm \<and> placed (hm_cap hm) (hm_elem hm)"

definition hm_map :: "('k, 'v) hashmap \<Rightarrow> u32 \<Rightarrow> 'v option" where
  "hm_map hm key = look (hm_elem hm) key (probes (hm_cap hm) key)"

lemma hm_get_map:
  assumes "hm_inv hm"
  shows "hm_get (Some hm) ukey
    = Ret (if hm_hash hm ukey = UINT32_MAX then None else hm_map hm (hm_hash hm ukey))"
  using assms by (simp add: hm_get_def hm_inv_def hm_map_def probes_def get_loop_look Let_def)

lemma probes_bound: "0 < cap \<Longrightarrow> i \<in> set (probes cap k) \<Longrightarrow> i < cap"
  by (auto simp: probes_def)

lemma hm_find_free_split:
  assumes "hm_inv hm"
  shows "(\<exists>as x bs. probes (hm_cap hm) key = as @ x # bs \<and> (\<forall>i\<in>set as. slot_occ (hm_elem hm ! i)) \<and>
      \<not> slot_occ (hm_elem hm ! x) \<and> x < hm_cap hm \<and> hm_find_free_bucket hm key = Ret (int x))
   \<or> (\<forall>i\<in>set (probes (hm_cap hm) key). slot_occ (hm_elem hm ! i)) \<and>
      hm_find_free_bucket hm key = Ret (- ENOSPC)"
  unfolding hm_find_free_bucket_def probes_def
  by (rule find_free_loop_split) (use assms in \<open>auto simp: hm_inv_def\<close>)

lemma placed_beyond:
  assumes "placed cap elem" and "0 < cap" and "\<not> slot_occ (elem ! x)"
    and "probes cap k = as @ x # bs" and "i \<in> set (probes cap k)" and "holds elem k i"
  shows "i \<in> set as"
proof -
  have "i < cap" using probes_bound assms(2,5) by blast
  then obtain as' bs' where p: "probes cap k = as' @ i # bs'" "\<forall>j\<in>set as'. slot_occ (elem ! j)"
    using assms(1,6) unfolding placed_def by blast
  have "x \<notin> set as'" using p(2) assms(3) by blast
  moreover have "i \<noteq> x" using assms(3,6) by (auto simp: holds_def slot_occ_def split: option.splits)
  ultimately have "x \<notin> set (as' @ [i])" by simp
  moreover have "as @ x # bs = (as' @ [i]) @ bs'" using p(1) assms(4) by simp
  ultimately obtain us where
    "as = (as' @ [i]) @ us \<or> as @ us = as' @ [i] \<and> x # bs = us @ bs'"
    unfolding append_eq_append_conv2 by blast
  moreover have "us = []" if "as @ us = as' @ [i] \<and> x # bs = us @ bs'"
  proof (cases us)
    case (Cons u us')
    then have "x \<in> set (as' @ [i])" using that by (metis append_Cons in_set_conv_decomp list.inject)
    then show ?thesis using \<open>x \<notin> set (as' @ [i])\<close> by simp
  qed simp
  ultimately show ?thesis by auto
qed

lemma placed_insert:
  assumes "placed cap elem" and "length elem = cap" and "\<not> slot_occ (elem ! x)" and "x < cap"
    and "probes cap key = as @ x # bs" and "\<forall>i\<in>set as. slot_occ (elem ! i)"
  shows "placed cap (elem[x := Some \<lparr> it_data = v, it_key = key, it_occupied = True \<rparr>])" (is "placed cap ?e")
  unfolding placed_def
proof (intro allI impI)
  fix k i assume i: "i < cap" "holds ?e k i"
  have occ: "slot_occ (?e ! j)" if "slot_occ (elem ! j)" for j
    using that assms(2,4) by (cases "j = x") (auto simp: slot_occ_def)
  show "\<exists>as bs. probes cap k = as @ i # bs \<and> (\<forall>j\<in>set as. slot_occ (?e ! j))"
  proof (cases "i = x")
    case True
    then have "k = key" using i assms(2) by (simp add: holds_def)
    then show ?thesis using assms(5,6) True occ by blast
  next
    case False
    then have "holds elem k i" using i by (simp add: holds_def)
    then show ?thesis using assms(1) i(1) occ unfolding placed_def by blast
  qed
qed

lemma look_new:
  assumes "\<forall>i\<in>set as. slot_occ (elem ! i)" and "\<not> slot_occ (elem ! x)" and "x < length elem"
  shows "look (elem[x := Some \<lparr> it_data = v, it_key = k, it_occupied = True \<rparr>]) k (as @ x # bs)
    = Some (case look elem k (as @ x # bs) of None \<Rightarrow> v | Some w \<Rightarrow> w)"
proof -
  let ?e = "elem[x := Some \<lparr> it_data = v, it_key = k, it_occupied = True \<rparr>]"
  have "x \<notin> set as" using assms(1,2) by blast
  then have "?e ! i = elem ! i" if "i \<in> set as" for i
    using that by (metis nth_list_update_neq)
  then have "\<forall>i\<in>set as. slot_occ (?e ! i)" "look ?e k as = look elem k as"
    using assms(1) \<open>x \<notin> set as\<close> by (simp_all add: look_upd_other)
  then show ?thesis using assms
    by (simp add: look_append) (auto simp: slot_occ_def split: option.splits)
qed

text \<open>
  An insertion that succeeds keeps the invariant and adds the key to the map; a key that
  is already there keeps its old value, for the new item lies behind the old one.
\<close>

lemma hm_insert_map:
  assumes "hm_inv hm" and "hm_insert (Some hm) ukey v = Ret (0, hm')"
  shows "hm_inv hm' \<and> hm_cap hm' = hm_cap hm \<and> hm_hash hm' = hm_hash hm \<and> hm_len hm' = hm_len hm + 1 \<and>
    hm_map hm' = (hm_map hm)(hm_hash hm ukey \<mapsto>
      (case hm_map hm (hm_hash hm ukey) of None \<Rightarrow> v | Some w \<Rightarrow> w))"
proof -
  let ?k = "hm_hash hm ukey"
  let ?new = "\<lparr> it_data = v, it_key = ?k, it_occupied = True \<rparr>"
  obtain as x bs where p: "probes (hm_cap hm) ?k = as @ x # bs" "\<forall>i\<in>set as. slot_occ (hm_elem hm ! i)"
      "\<not> slot_occ (hm_elem hm ! x)" "x < hm_cap hm" "hm_find_free_bucket hm ?k = Ret (int x)"
    using hm_find_free_split [OF assms(1), of ?k] assms(2)
    by (auto simp: hm_insert_def Let_def kassert_Ret_iff split: if_splits)
  have len: "length (hm_elem hm) = hm_cap hm" and cap: "0 < hm_cap hm"
    and pl: "placed (hm_cap hm) (hm_elem hm)" using assms(1) by (simp_all add: hm_inv_def)
  have hm': "hm' = hm\<lparr> hm_elem := (hm_elem hm)[x := Some ?new], hm_len := hm_len hm + 1 \<rparr>"
    using assms(2) p len by (auto simp: hm_insert_def Let_def kassert_Ret_iff split: if_splits)
  have "look ((hm_elem hm)[x := Some ?new]) k (probes (hm_cap hm) k) = hm_map hm k" if "k \<noteq> ?k" for k
    unfolding hm_map_def using that p(3,4) len placed_beyond [OF pl cap p(3)]
    by (intro look_upd_key) auto
  moreover have "look ((hm_elem hm)[x := Some ?new]) ?k (probes (hm_cap hm) ?k)
      = Some (case hm_map hm ?k of None \<Rightarrow> v | Some w \<Rightarrow> w)"
    unfolding hm_map_def p(1) by (rule look_new) (use p len in auto)
  ultimately have "hm_map hm' = (hm_map hm)(?k \<mapsto> (case hm_map hm ?k of None \<Rightarrow> v | Some w \<Rightarrow> w))"
    by (auto simp: hm_map_def hm' fun_eq_iff)
  moreover have "hm_inv hm'"
    using placed_insert [OF pl len p(3,4,1,2)] len cap by (simp add: hm_inv_def hm')
  ultimately show ?thesis by (simp add: hm')
qed

lemma hm_insert_cases:
  assumes "hm_inv hm" and "hm_len hm < hm_cap hm"
  shows "\<exists>r hm'. hm_insert (Some hm) ukey v = Ret (r, hm') \<and> r \<in> {0, - EINVAL, - ENOSPC} \<and>
    (r = - EINVAL \<longleftrightarrow> hm_hash hm ukey = UINT32_MAX) \<and> (r \<noteq> 0 \<longrightarrow> hm' = hm) \<and>
    (r = - ENOSPC \<longleftrightarrow> hm_hash hm ukey \<noteq> UINT32_MAX \<and>
       (\<forall>i\<in>set (probes (hm_cap hm) (hm_hash hm ukey)). slot_occ (hm_elem hm ! i)))"
proof -
  have "length (hm_elem hm) = hm_cap hm" using assms by (simp add: hm_inv_def)
  with hm_find_free_split [OF assms(1), of "hm_hash hm ukey"] assms(2) show ?thesis
    by (auto simp: hm_insert_def Let_def)
qed

lemma hm_alloc_inv:
  assumes "hm_alloc_hashmap ok1 ok2 sz hash = Some hm" and "0 < sz"
  shows "hm_inv hm \<and> hm_map hm = Map.empty \<and> hm_len hm = 0 \<and> hm_cap hm = sz \<and> hm_hash hm = hash"
proof -
  have hm: "hm = \<lparr> hm_len = 0, hm_cap = sz, hm_elem = replicate sz None, hm_hash = hash \<rparr>"
    using assms(1) by (auto simp: hm_alloc_hashmap_def split: if_splits)
  have "\<not> holds (replicate sz None :: 'b hm_item option list) k i" if "i < sz" for k i
    using that by (simp add: holds_def)
  then show ?thesis using assms(2) probes_bound [OF assms(2)]
    by (auto simp: hm hm_inv_def hm_map_def placed_def fun_eq_iff intro!: look_None)
qed

section \<open>The contract: a keyed store\<close>

text \<open>Inserting a list of pairs one after the other; \<open>None\<close> when an insertion fails.\<close>

primrec insert_all :: "('s \<Rightarrow> 'k \<Rightarrow> 'v \<Rightarrow> (int \<times> 's) outcome) \<Rightarrow> 's \<Rightarrow> ('k \<times> 'v) list \<Rightarrow> 's option" where
  "insert_all ins s [] = Some s"
| "insert_all ins s (kv # kvs) =
     (case ins s (fst kv) (snd kv) of
        Ret (r, s') \<Rightarrow> if r = 0 then insert_all ins s' kvs else None
      | Halt _ \<Rightarrow> None)"

locale keyed_store =
  fixes inv :: "'s \<Rightarrow> bool" and kid :: "'s \<Rightarrow> 'k \<Rightarrow> 'h" and valid :: "'s \<Rightarrow> 'k \<Rightarrow> bool"
    and content :: "'s \<Rightarrow> 'h \<Rightarrow> 'v option"
    and ins :: "'s \<Rightarrow> 'k \<Rightarrow> 'v \<Rightarrow> (int \<times> 's) outcome"
    and lookup :: "'s \<Rightarrow> 'k \<Rightarrow> 'v option outcome"
  assumes lookup_content: "inv s \<Longrightarrow> valid s k \<Longrightarrow> lookup s k = Ret (content s (kid s k))"
    and ins_content: "inv s \<Longrightarrow> ins s k v = Ret (0, s') \<Longrightarrow>
      inv s' \<and> kid s' = kid s \<and> valid s' = valid s \<and> valid s k \<and>
      content s' = (content s)(kid s k \<mapsto> (case content s (kid s k) of None \<Rightarrow> v | Some w \<Rightarrow> w))"
begin

lemma lookup_ins:
  assumes "inv s" and "ins s k v = Ret (0, s')" and "content s (kid s k) = None"
  shows "lookup s' k = Ret (Some v)"
  using ins_content [OF assms(1,2)] assms(3) by (simp add: lookup_content)

lemma lookup_ins_other:
  assumes "inv s" and "ins s k v = Ret (0, s')" and "kid s k' \<noteq> kid s k" and "valid s k'"
  shows "lookup s' k' = lookup s k'"
  using ins_content [OF assms(1,2)] assms by (simp add: lookup_content)

lemma insert_all_content:
  assumes "inv s" and "insert_all ins s kvs = Some s'" and "distinct (map (kid s \<circ> fst) kvs)"
    and "\<forall>kv\<in>set kvs. content s (kid s (fst kv)) = None"
  shows "inv s' \<and> kid s' = kid s \<and> valid s' = valid s \<and>
    content s' = content s ++ map_of (map (\<lambda>kv. (kid s (fst kv), snd kv)) kvs) \<and>
    (\<forall>kv\<in>set kvs. valid s (fst kv))"
  using assms
proof (induction kvs arbitrary: s)
  case (Cons kv kvs)
  obtain s1 where s1: "ins s (fst kv) (snd kv) = Ret (0, s1)" "insert_all ins s1 kvs = Some s'"
    using Cons.prems(2) by (auto split: outcome.splits prod.splits if_splits)
  have c: "inv s1" "kid s1 = kid s" "valid s1 = valid s" "valid s (fst kv)"
      "content s1 = (content s)(kid s (fst kv) \<mapsto> snd kv)"
    using ins_content [OF Cons.prems(1) s1(1)] Cons.prems(4) by auto
  have new: "\<forall>kv'\<in>set kvs. content s1 (kid s1 (fst kv')) = None"
  proof
    fix kv' assume "kv' \<in> set kvs"
    then have "kid s (fst kv') \<noteq> kid s (fst kv)" using Cons.prems(3) by (simp add: o_def image_iff) metis
    then show "content s1 (kid s1 (fst kv')) = None"
      using Cons.prems(4) \<open>kv' \<in> set kvs\<close> c(2,5) by simp
  qed
  have "inv s' \<and> kid s' = kid s1 \<and> valid s' = valid s1 \<and>
      content s' = content s1 ++ map_of (map (\<lambda>kv. (kid s1 (fst kv), snd kv)) kvs) \<and>
      (\<forall>kv\<in>set kvs. valid s1 (fst kv))"
    by (rule Cons.IH) (use s1 c new Cons.prems(3) in auto)
  moreover have "map_of (map (\<lambda>kv. (kid s (fst kv), snd kv)) kvs) (kid s (fst kv)) = None"
    using Cons.prems(3) by (auto simp: map_of_eq_None_iff image_image)
  ultimately show ?case using c by (auto simp: map_add_def fun_eq_iff split: option.splits)
qed simp

text \<open>After a series of insertions under different keys each of them is found.\<close>

lemma lookup_insert_all:
  assumes "inv s" and "insert_all ins s kvs = Some s'" and "distinct (map (kid s \<circ> fst) kvs)"
    and "\<forall>kv\<in>set kvs. content s (kid s (fst kv)) = None" and "(k, v) \<in> set kvs"
  shows "lookup s' k = Ret (Some v)"
proof -
  note c = insert_all_content [OF assms(1-4)]
  have "map_of (map (\<lambda>kv. (kid s (fst kv), snd kv)) kvs) (kid s k) = Some v"
    using assms(3,5) by (intro map_of_is_SomeI) (force simp: o_def)+
  then show ?thesis using c assms(5) lookup_content [of s' k] by (force simp: map_add_def)
qed

end

interpretation hmstore: keyed_store hm_inv hm_hash "\<lambda>hm k. hm_hash hm k \<noteq> UINT32_MAX" hm_map
    "\<lambda>hm. hm_insert (Some hm)" "\<lambda>hm. hm_get (Some hm)"
proof (unfold_locales, goal_cases)
  case (1 s k) then show ?case by (simp add: hm_get_map)
next
  case (2 s k v s')
  then have "hm_hash s k \<noteq> UINT32_MAX"
    by (auto simp: hm_insert_def Let_def kassert_Ret_iff split: if_splits)
  then show ?case using hm_insert_map [OF 2] by auto
qed

section \<open>Properties\<close>



text \<open>
  A registry kept in a fresh hash map gives back every entry: after any series of
  successful insertions under keys of different hashes, \<open>hm_get\<close> returns for each key
  the value inserted with it.
\<close>

lemma hashmap_registry:
  assumes "hm_alloc_hashmap True True cap hash = Some hm" and "0 < cap"
    and "insert_all (\<lambda>hm. hm_insert (Some hm)) hm kvs = Some hm'"
    and "distinct (map (hash \<circ> fst) kvs)" and "(k, v) \<in> set kvs"
  shows "hm_get (Some hm') k = Ret (Some v)"
  using hmstore.lookup_insert_all [of hm kvs hm' k v] hm_alloc_inv [OF assms(1,2)] assms(3-5) by simp

lemma hashmap_registry_witness:
  "\<exists>hm'. insert_all (\<lambda>hm. hm_insert (Some hm))
        \<lparr> hm_len = 0, hm_cap = 4, hm_elem = replicate 4 None,
           hm_hash = (\<lambda>k. case k of None \<Rightarrow> UINT32_MAX | Some n \<Rightarrow> n) \<rparr>
        [(Some 1, 10), (Some 5, 20 :: nat)] = Some hm' \<and> hm_get (Some hm') (Some 5) = Ret (Some 20)"
proof -
  let ?hash = "\<lambda>k. case k of None \<Rightarrow> UINT32_MAX | Some n \<Rightarrow> n"
  have "case insert_all (\<lambda>hm. hm_insert (Some hm))
        \<lparr> hm_len = 0, hm_cap = 4, hm_elem = replicate 4 None, hm_hash = ?hash \<rparr>
        [(Some 1, 10), (Some 5, 20 :: nat)] of None \<Rightarrow> False | Some _ \<Rightarrow> True"
    by code_simp
  then obtain hm' where hm': "insert_all (\<lambda>hm. hm_insert (Some hm))
        \<lparr> hm_len = 0, hm_cap = 4, hm_elem = replicate 4 None, hm_hash = ?hash \<rparr>
        [(Some 1, 10), (Some 5, 20 :: nat)] = Some hm'" by (auto split: option.splits)
  then show ?thesis
    using hashmap_registry [OF _ _ hm', where cap = 4 and hash = ?hash and k = "Some 5" and v = 20]
    by (auto simp: hm_alloc_hashmap_def)
qed

text \<open>
  Removing a key hides the keys behind it: when two live items of the same home
  bucket stand in it and in the next one, \<open>hm_remove\<close> of the first succeeds and
  \<open>hm_get\<close> of the second then finds nothing, though its item is still in the map.
\<close>

lemma hm_remove_hides:
  assumes "hm_inv hm" and "hm_hash hm ka = ha" and "hm_hash hm kb = hb"
    and "ha \<noteq> UINT32_MAX" and "hb \<noteq> UINT32_MAX" and "ha \<noteq> hb"
    and "unat ha mod hm_cap hm = unat hb mod hm_cap hm"
    and "holds (hm_elem hm) ha (unat ha mod hm_cap hm)"
    and "holds (hm_elem hm) hb (Suc (unat hb) mod hm_cap hm)"
  shows "hm_get (Some hm) kb \<noteq> Ret None \<and>
    (\<exists>hm'. hm_remove (Some hm) ka = Ret (0, hm') \<and> hm_get (Some hm') kb = Ret None \<and>
      holds (hm_elem hm') hb (Suc (unat hb) mod hm_cap hm'))"
proof -
  let ?i = "unat ha mod hm_cap hm" and ?j = "Suc (unat hb) mod hm_cap hm"
  have len: "length (hm_elem hm) = hm_cap hm" "0 < hm_cap hm" using assms(1) by (simp_all add: hm_inv_def)
  then have b: "?i < hm_cap hm" "?j < hm_cap hm" by simp_all
  obtain a where a: "hm_elem hm ! ?i = Some a" "it_occupied a" "it_key a = ha"
    using assms(8) by (auto simp: holds_def split: option.splits)
  obtain c where c: "hm_elem hm ! ?j = Some c" "it_occupied c" "it_key c = hb"
    using assms(9) by (auto simp: holds_def split: option.splits)
  obtain m where n: "BUCKET_MAX_LEN = Suc (Suc m)"
    by (simp add: BUCKET_MAX_LEN_def eval_nat_numeral)
  have step: "(?i + 1) mod hm_cap hm = ?j" using assms(7) by (simp add: mod_Suc_eq)
  have get: "hm_get (Some hm) kb = Ret (Some (it_data c))"
    using a c len b assms(3,5,6) step unfolding hm_get_def n Let_def
    by (simp add: assms(7) [symmetric])
  define hm' where "hm' = hm\<lparr> hm_elem := (hm_elem hm)[?i := Some (a\<lparr> it_occupied := False \<rparr>)] \<rparr>"
  have "hm_remove (Some hm) ka = Ret (0, hm')"
    using a len b assms(2,4) unfolding hm_remove_def n Let_def by (simp add: hm'_def)
  moreover have "hm_get (Some hm') kb = Ret None"
    using len b assms(3,5) unfolding hm_get_def n Let_def
    by (simp add: hm'_def assms(7) [symmetric])
  moreover have "?i \<noteq> ?j" using a c assms(6) by auto
  then have "holds (hm_elem hm') hb ?j" using assms(9) by (simp add: holds_def hm'_def)
  ultimately show ?thesis using get by (simp add: hm'_def)
qed

lemma hm_remove_hides_witness:
  "let hm = \<lparr> hm_len = 2, hm_cap = 4,
       hm_elem = [None, Some \<lparr> it_data = ''a'', it_key = 1, it_occupied = True \<rparr>,
                  Some \<lparr> it_data = ''b'', it_key = 5, it_occupied = True \<rparr>, None],
       hm_hash = (\<lambda>k. case k of None \<Rightarrow> UINT32_MAX | Some n \<Rightarrow> n) \<rparr> in
   hm_get (Some hm) (Some 5) \<noteq> Ret None \<and>
    (\<exists>hm'. hm_remove (Some hm) (Some 1) = Ret (0, hm') \<and> hm_get (Some hm') (Some 5) = Ret None \<and>
      holds (hm_elem hm') 5 (Suc (unat (5 :: u32)) mod hm_cap hm'))"
  unfolding Let_def
proof (rule hm_remove_hides [where ha = 1 and hb = 5], goal_cases)
  case 1
  have p: "probes 4 1 = [1, 2, 3, 0, 1, 2, 3, 0, 1, 2, 3, 0]" "probes 4 5 = [1, 2, 3, 0, 1, 2, 3, 0, 1, 2, 3, 0]"
    by code_simp+
  have "\<exists>as bs. probes 4 k = as @ i # bs \<and> (\<forall>j\<in>set as. slot_occ ([None, Some \<lparr> it_data = ''a'', it_key = 1, it_occupied = True \<rparr>,
                  Some \<lparr> it_data = ''b'', it_key = 5, it_occupied = True \<rparr>, None] ! j))"
    if "i = 1 \<and> k = 1 \<or> i = 2 \<and> k = 5" for i k
    using that
  proof (elim disjE conjE, goal_cases)
    case 1 then show ?case using p by (intro exI [of _ "[]"] exI [of _ "[2, 3, 0, 1, 2, 3, 0, 1, 2, 3, 0]"]) simp
  next
    case 2 then show ?case using p
      by (intro exI [of _ "[1]"] exI [of _ "[3, 0, 1, 2, 3, 0, 1, 2, 3, 0]"]) (simp add: slot_occ_def)
  qed
  then show ?case
    by (auto simp: hm_inv_def placed_def holds_def nth_Cons split: option.splits nat.splits)
qed (simp_all add: UINT32_MAX_def holds_def)

end
