(* ===== verification/Multiboot.thy ===== *)
theory Multiboot
  imports KString
begin

unbundle bit_operations_syntax

text \<open>
  \<open>src/fs/multiboot2.c\<close>: the walk over the boot loader's tag list in byte memory. A
  callback never feeds back into the walk, so \<open>multiboot2_map_memory\<close> returns the list of
  the calls it makes. A tag or entry of size 0 makes the C loops spin, so both loops have
  fuel and \<open>None\<close> is not having returned yet.
\<close>

section \<open>Little-endian fields\<close>

fun ldn :: "mem \<Rightarrow> nat \<Rightarrow> nat \<Rightarrow> nat outcome" where
  "ldn m p 0 = Ret 0"
| "ldn m p (Suc n) = bnd (ld m p) (\<lambda>b. omap (\<lambda>v. unat b + 256 * v) (ldn m (p + 1) n))"

fun le_bytes :: "nat \<Rightarrow> nat \<Rightarrow> u8 list" where
  "le_bytes v 0 = []"
| "le_bytes v (Suc n) = of_nat (v mod 256) # le_bytes (v div 256) n"

definition bytes_at :: "mem \<Rightarrow> nat \<Rightarrow> u8 list \<Rightarrow> bool" where
  "bytes_at m p bs \<longleftrightarrow> (\<forall>i<length bs. p + i < 2 ^ 64 \<and> m (p + i) = Some (bs ! i))"

section \<open>The walk\<close>

text \<open>\<open>(x >> 32) | (x & 0xffffffff)\<close>, applied to the address and the length of an entry.\<close>

definition fold_high :: "u64 \<Rightarrow> u64" where
  "fold_high x = drop_bit 32 x OR (x AND 0xffffffff)"

definition next_tag :: "nat \<Rightarrow> u32 \<Rightarrow> nat" where
  "next_tag tag sz = tag + unat ((sz + 7) AND NOT 7)"

type_synonym mb_event = "nat \<times> u64 \<times> u64"

definition mmap_events :: "nat \<Rightarrow> u64 \<Rightarrow> u64 \<Rightarrow> mb_event list" where
  "mmap_events typ a l = (if typ \<in> {1, 2, 3, 4, 5} then [(typ, fold_high a, fold_high l)] else [])"

primrec mmap_loop :: "nat \<Rightarrow> mem \<Rightarrow> nat \<Rightarrow> nat \<Rightarrow> nat \<Rightarrow> mb_event list outcome option" where
  "mmap_loop 0 m mmap entry_size lim = None"
| "mmap_loop (Suc fuel) m mmap entry_size lim =
     (case bnd (ldn m mmap 8) (\<lambda>a. bnd (ldn m (mmap + 8) 8) (\<lambda>l. bnd (ldn m (mmap + 16) 4) (\<lambda>typ.
             Ret (mmap_events typ (of_nat a) (of_nat l))))) of
        Halt e \<Rightarrow> Some (Halt e)
      | Ret ev \<Rightarrow>
          if mmap + entry_size < lim
          then map_option (omap ((@) ev)) (mmap_loop fuel m (mmap + entry_size) entry_size lim)
          else Some (Ret ev))"

primrec map_tags :: "nat \<Rightarrow> mem \<Rightarrow> nat \<Rightarrow> mb_event list outcome option" where
  "map_tags 0 m tag = None"
| "map_tags (Suc fuel) m tag =
     (case bnd (ldn m tag 4) (\<lambda>typ. bnd (ldn m (tag + 4) 4) (\<lambda>sz. Ret (typ, sz))) of
        Halt e \<Rightarrow> Some (Halt e)
      | Ret (typ, sz) \<Rightarrow>
          if typ = 0 then Some (Ret [])
          else
            (case (if typ = 6 then
                     (case ldn m (tag + 8) 4 of
                        Halt e \<Rightarrow> Some (Halt e)
                      | Ret es \<Rightarrow> mmap_loop fuel m (tag + 16) es (tag + sz))
                   else Some (Ret [])) of
               None \<Rightarrow> None
             | Some (Halt e) \<Rightarrow> Some (Halt e)
             | Some (Ret ev) \<Rightarrow>
                 map_option (omap ((@) ev)) (map_tags fuel m (next_tag tag (of_nat sz)))))"

text \<open>\<open>address\<close> is a \<open>uint64_t *\<close>, so \<open>address + 8\<close> is 64 bytes further.\<close>

definition multiboot2_map_memory :: "nat \<Rightarrow> mem \<Rightarrow> nat \<Rightarrow> mb_event list outcome option" where
  "multiboot2_map_memory fuel m address = map_tags fuel m (address + 64)"

section \<open>The symbol and string tables\<close>

text \<open>
  What \<open>multiboot2_parse_elf\<close> hands to \<open>ktrace_register_sym\<close>: symbol table address and
  size, string table address and size (physical addresses, before \<open>amd64_p_to_v\<close>).
  Section headers are \<open>Elf64_Shdr\<close>: type at 4, address at 16, size at 32, link at 40.
\<close>

type_synonym symtabs = "nat \<times> nat \<times> nat \<times> nat"

fun elf_loop :: "mem \<Rightarrow> nat \<Rightarrow> nat \<Rightarrow> nat \<Rightarrow> nat \<Rightarrow> symtabs option \<Rightarrow> symtabs option outcome" where
  "elf_loop m secs entsize i 0 found = Ret found"
| "elf_loop m secs entsize i (Suc n) found =
     (let sym = secs + entsize * i in
      bnd (ldn m (sym + 40) 4) (\<lambda>link.
      let str = secs + entsize * link in
      bnd (ldn m (sym + 4) 4) (\<lambda>symt.
      bnd (if symt = 2 then omap (\<lambda>t. t = 3) (ldn m (str + 4) 4) else Ret False) (\<lambda>hit.
      if hit then
        bnd (ldn m (sym + 16) 8) (\<lambda>sa. bnd (ldn m (str + 16) 8) (\<lambda>ta.
        bnd (ldn m (sym + 32) 8) (\<lambda>ss. bnd (ldn m (str + 32) 8) (\<lambda>ts.
          Ret (Some (sa, ss, ta, ts))))))
      else elf_loop m secs entsize (i + 1) n found))))"

primrec elf_tags :: "nat \<Rightarrow> mem \<Rightarrow> nat \<Rightarrow> symtabs option \<Rightarrow> symtabs option outcome option" where
  "elf_tags 0 m tag found = None"
| "elf_tags (Suc fuel) m tag found =
     (case bnd (ldn m tag 4) (\<lambda>typ. bnd (ldn m (tag + 4) 4) (\<lambda>sz. Ret (typ, sz))) of
        Halt e \<Rightarrow> Some (Halt e)
      | Ret (typ, sz) \<Rightarrow>
          if typ = 0 then Some (Ret found)
          else
            (case (if typ = 9 then
                     bnd (ldn m (tag + 8) 4) (\<lambda>num. bnd (ldn m (tag + 12) 4) (\<lambda>es.
                       elf_loop m (tag + 20) es 0 num found))
                   else Ret found) of
               Halt e \<Rightarrow> Some (Halt e)
             | Ret found' \<Rightarrow> elf_tags fuel m (next_tag tag (of_nat sz)) found'))"

definition multiboot2_parse_elf :: "nat \<Rightarrow> mem \<Rightarrow> nat \<Rightarrow> symtabs option outcome option" where
  "multiboot2_parse_elf fuel m address = elf_tags fuel m (address + 64) None"

section \<open>Lemmas\<close>

lemma bytes_at_Cons: "bytes_at m p (b # bs) \<longleftrightarrow> p < 2 ^ 64 \<and> m p = Some b \<and> bytes_at m (p + 1) bs"
  by (simp add: bytes_at_def All_less_Suc2)

lemma bytes_at_append: "bytes_at m p (bs @ cs) \<longleftrightarrow> bytes_at m p bs \<and> bytes_at m (p + length bs) cs"
  by (induction bs arbitrary: p) (auto simp: bytes_at_Cons, simp_all add: bytes_at_def)

lemma length_le_bytes [simp]: "length (le_bytes v n) = n"
  by (induction n arbitrary: v) simp_all

lemma ldn_le_bytes: "bytes_at m p (le_bytes v n) \<Longrightarrow> v < 256 ^ n \<Longrightarrow> ldn m p n = Ret v"
proof (induction n arbitrary: v p)
  case (Suc n)
  then have "ldn m (p + 1) n = Ret (v div 256)"
    by (intro Suc.IH) (auto simp: bytes_at_Cons less_mult_imp_div_less mult.commute)
  moreover have "unat (of_nat (v mod 256) :: u8) = v mod 256"
    by (simp add: unat_of_nat)
  ultimately show ?case using Suc.prems by (simp add: bytes_at_Cons ld_def)
qed simp

lemma ldn_prefix: "bytes_at m p (le_bytes v n @ bs) \<Longrightarrow> v < 256 ^ n \<Longrightarrow> ldn m p n = Ret v"
  by (rule ldn_le_bytes) (simp_all add: bytes_at_append)

lemma bytes_at_drop: "bytes_at m p (bs @ cs) \<Longrightarrow> length bs = k \<Longrightarrow> bytes_at m (p + k) cs"
  by (auto simp: bytes_at_append)

lemma next_tag_eq:
  assumes "sz + 7 < 2 ^ 32"
  shows "next_tag tag (of_nat sz) = tag + (sz + 7) div 8 * 8"
proof -
  let ?x = "of_nat (sz + 7) :: u32"
  have x: "unat ?x = sz + 7" using assms by (simp add: unat_of_nat del: of_nat_add)
  have *: "(7 :: u32) = mask 3" by (simp add: mask_eq_exp_minus_1)
  have eq: "?x AND NOT 7 = push_bit 3 (drop_bit 3 ?x)"
    unfolding * by (rule bit_word_eqI) (auto simp: bit_simps)
  have "(sz + 7) div 8 * 8 < 2 ^ 32" using assms div_times_less_eq_dividend [of "sz + 7" 8] by linarith
  then have "unat (push_bit 3 (drop_bit 3 ?x)) = (sz + 7) div 8 * 8"
    using x by (simp add: push_bit_eq_mult unat_word_ariths unat_drop_bit_eq drop_bit_eq_div mult.commute)
  then show ?thesis using eq by (simp add: next_tag_def add.commute)
qed

section \<open>The format the walk expects\<close>

datatype mb_tag = MmapTag "(u64 \<times> u64 \<times> u32) list" | OtherTag nat "u8 list"

fun entry_bytes :: "u64 \<times> u64 \<times> u32 \<Rightarrow> u8 list" where
  "entry_bytes (a, l, t) = le_bytes (unat a) 8 @ le_bytes (unat l) 8 @ le_bytes (unat t) 4 @ le_bytes 0 4"

fun tag_size :: "mb_tag \<Rightarrow> nat" where
  "tag_size (MmapTag es) = 16 + 24 * length es"
| "tag_size (OtherTag t pl) = 8 + length pl"

fun tag_bytes :: "mb_tag \<Rightarrow> u8 list" where
  "tag_bytes (MmapTag es) =
     le_bytes 6 4 @ le_bytes (16 + 24 * length es) 4 @ le_bytes 24 4 @ le_bytes 0 4 @
     concat (map entry_bytes es)"
| "tag_bytes (OtherTag t pl) =
     le_bytes t 4 @ le_bytes (8 + length pl) 4 @ pl @
     replicate ((8 + length pl + 7) div 8 * 8 - (8 + length pl)) 0"

fun tag_ok :: "mb_tag \<Rightarrow> bool" where
  "tag_ok (MmapTag es) \<longleftrightarrow> es \<noteq> [] \<and> length es < 2 ^ 27"
| "tag_ok (OtherTag t pl) \<longleftrightarrow> 0 < t \<and> t < 2 ^ 32 \<and> t \<noteq> 6 \<and> length pl < 2 ^ 31"

fun tag_events :: "mb_tag \<Rightarrow> mb_event list" where
  "tag_events (MmapTag es) = concat (map (\<lambda>(a, l, t). mmap_events (unat t) a l) es)"
| "tag_events (OtherTag t pl) = []"

fun tag_fuel :: "mb_tag \<Rightarrow> nat" where
  "tag_fuel (MmapTag es) = length es"
| "tag_fuel (OtherTag t pl) = 0"

lemma length_entry_bytes [simp]: "length (entry_bytes e) = 24"
  by (cases e) simp

lemma length_entries [simp]: "length (concat (map entry_bytes es)) = 24 * length es"
  by (induction es) auto

lemma entry_reads:
  assumes "bytes_at m p (entry_bytes (a, l, t))"
  shows "ldn m p 8 = Ret (unat a)" and "ldn m (p + 8) 8 = Ret (unat l)" and "ldn m (p + 16) 4 = Ret (unat t)"
proof -
  have b: "bytes_at m p (le_bytes (unat a) 8)" "bytes_at m (p + 8) (le_bytes (unat l) 8)"
      "bytes_at m (p + 16) (le_bytes (unat t) 4)"
    using assms by (simp_all add: bytes_at_append add.assoc)
  show "ldn m p 8 = Ret (unat a)" and "ldn m (p + 8) 8 = Ret (unat l)" and "ldn m (p + 16) 4 = Ret (unat t)"
    using b unsigned_less [of a] unsigned_less [of l] unsigned_less [of t] by (auto intro: ldn_le_bytes)
qed

lemma mmap_loop_entries:
  "bytes_at m p (concat (map entry_bytes es)) \<Longrightarrow> es \<noteq> [] \<Longrightarrow> length es \<le> fuel \<Longrightarrow>
   mmap_loop fuel m p 24 (p + 24 * length es) = Some (Ret (tag_events (MmapTag es)))"
proof (induction es arbitrary: p fuel)
  case (Cons e es)
  obtain a l t where e: "e = (a, l, t)" by (cases e)
  obtain f where f: "fuel = Suc f" using Cons.prems by (cases fuel) auto
  have be: "bytes_at m p (entry_bytes (a, l, t))" and bs: "bytes_at m (p + 24) (concat (map entry_bytes es))"
    using Cons.prems(1) e by (simp_all add: bytes_at_append del: entry_bytes.simps)
  show ?case
  proof (cases "es = []")
    case True
    then show ?thesis using entry_reads [OF be] e f by simp
  next
    case False
    have "p + 24 * length (e # es) = p + 24 + 24 * length es" by simp
    moreover have "mmap_loop f m (p + 24) 24 (p + 24 + 24 * length es) = Some (Ret (tag_events (MmapTag es)))"
      by (rule Cons.IH) (use bs False Cons.prems f in auto)
    ultimately show ?thesis using entry_reads [OF be] e f False by (simp add: add.assoc)
  qed
qed simp

lemma tag_head:
  assumes "bytes_at m p (tag_bytes tg)" and "tag_ok tg"
  shows "ldn m p 4 = Ret (case tg of MmapTag _ \<Rightarrow> 6 | OtherTag t _ \<Rightarrow> t)"
    and "ldn m (p + 4) 4 = Ret (tag_size tg)"
proof -
  have "ldn m p 4 = Ret (case tg of MmapTag _ \<Rightarrow> 6 | OtherTag t _ \<Rightarrow> t) \<and> ldn m (p + 4) 4 = Ret (tag_size tg)"
  proof (cases tg)
    case (MmapTag es)
    then have "bytes_at m p (le_bytes 6 4)" "bytes_at m (p + 4) (le_bytes (16 + 24 * length es) 4)"
      using assms(1) by (simp_all add: bytes_at_append)
    then show ?thesis using assms(2) MmapTag by (auto intro!: ldn_le_bytes)
  next
    case (OtherTag t pl)
    then have "bytes_at m p (le_bytes t 4)" "bytes_at m (p + 4) (le_bytes (8 + length pl) 4)"
      using assms(1) by (simp_all add: bytes_at_append)
    then show ?thesis using assms(2) OtherTag by (auto intro!: ldn_le_bytes)
  qed
  then show "ldn m p 4 = Ret (case tg of MmapTag _ \<Rightarrow> 6 | OtherTag t _ \<Rightarrow> t)"
    and "ldn m (p + 4) 4 = Ret (tag_size tg)" by simp_all
qed

lemma length_tag_bytes: "length (tag_bytes tg) = (tag_size tg + 7) div 8 * 8"
proof (cases tg)
  case (MmapTag es)
  have "(16 + 24 * length es + 7) div 8 = 2 + 3 * length es" by simp
  then show ?thesis using MmapTag by simp
qed simp

lemma tag_next: "tag_ok tg \<Longrightarrow> next_tag p (of_nat (tag_size tg)) = p + length (tag_bytes tg)"
  unfolding length_tag_bytes by (rule next_tag_eq) (cases tg, auto)

lemma tag_body:
  assumes "bytes_at m p (tag_bytes (MmapTag es))" and "tag_ok (MmapTag es)" and "length es \<le> fuel"
  shows "ldn m (p + 8) 4 = Ret 24"
    and "mmap_loop fuel m (p + 16) 24 (p + tag_size (MmapTag es)) = Some (Ret (tag_events (MmapTag es)))"
proof -
  have "bytes_at m (p + 8) (le_bytes 24 4)" and b: "bytes_at m (p + 16) (concat (map entry_bytes es))"
    using assms(1) by (simp_all add: bytes_at_append add.assoc)
  then show "ldn m (p + 8) 4 = Ret 24" by (auto intro: ldn_le_bytes)
  show "mmap_loop fuel m (p + 16) 24 (p + tag_size (MmapTag es)) = Some (Ret (tag_events (MmapTag es)))"
    using mmap_loop_entries [OF b] assms(2,3) by (simp add: add.assoc)
qed

lemma map_tags_events:
  "bytes_at m p (concat (map tag_bytes ts) @ le_bytes 0 4 @ le_bytes 8 4) \<Longrightarrow> \<forall>tg\<in>set ts. tag_ok tg \<Longrightarrow>
   length ts + (\<Sum>tg\<leftarrow>ts. tag_fuel tg) < fuel \<Longrightarrow>
   map_tags fuel m p = Some (Ret (concat (map tag_events ts)))"
proof (induction ts arbitrary: p fuel)
  case Nil
  obtain f where f: "fuel = Suc f" using Nil.prems by (cases fuel) auto
  have "ldn m p 4 = Ret 0" "ldn m (p + 4) 4 = Ret 8"
    using Nil.prems(1) by (auto simp: bytes_at_append intro: ldn_le_bytes)
  then show ?case by (simp add: f)
next
  case (Cons tg ts)
  obtain f where f: "fuel = Suc f" using Cons.prems by (cases fuel) auto
  have tb: "bytes_at m p (tag_bytes tg)" and ok: "tag_ok tg"
    and rest: "bytes_at m (p + length (tag_bytes tg)) (concat (map tag_bytes ts) @ le_bytes 0 4 @ le_bytes 8 4)"
    using Cons.prems(1,2) by (simp_all add: bytes_at_append add.assoc)
  have ih: "map_tags f m (p + length (tag_bytes tg)) = Some (Ret (concat (map tag_events ts)))"
    by (rule Cons.IH [OF rest]) (use Cons.prems f in auto)
  note hd = tag_head [OF tb ok] and nx = tag_next [OF ok]
  show ?case
  proof (cases tg)
    case (MmapTag es)
    then have "length es \<le> f" using Cons.prems(3) f by simp
    then show ?thesis
      using tag_body [of m p es f] tb ok hd nx ih f MmapTag
      by (simp del: tag_bytes.simps tag_size.simps tag_events.simps)
  next
    case (OtherTag t pl)
    then show ?thesis using hd nx ih f ok by (simp del: tag_bytes.simps tag_size.simps)
  qed
qed

text \<open>The folding of the upper half: harmless below 4 GB, never above.\<close>

lemma fold_high_bound: "unat (fold_high x) < 2 ^ 32"
proof -
  have m: "(0xffffffff :: u64) = mask 32" by (simp add: mask_eq_exp_minus_1)
  have "fold_high x = take_bit 32 (drop_bit 32 x OR x)"
    unfolding fold_high_def m by (rule bit_word_eqI) (auto simp: bit_simps dest: bit_imp_le_length)
  then have "unat (fold_high x) = unat (drop_bit 32 x OR x) mod 2 ^ 32"
    by (simp add: unsigned_take_bit_eq take_bit_eq_mod unat_mod)
  then show ?thesis by simp
qed

lemma fold_high_id: "unat x < 2 ^ 32 \<Longrightarrow> fold_high x = x"
proof -
  assume x: "unat x < 2 ^ 32"
  have m: "(0xffffffff :: u64) = mask 32" by (simp add: mask_eq_exp_minus_1)
  have "unat (drop_bit 32 x) = 0" using x by (simp add: drop_bit_eq_div unat_div)
  then have "drop_bit 32 x = 0" by (simp only: unat_eq_0)
  moreover have "take_bit 32 x = x"
    using x by (intro word_unat_eq_iff [THEN iffD2]) (simp add: unsigned_take_bit_eq take_bit_eq_mod unat_mod)
  ultimately show ?thesis by (simp add: fold_high_def m take_bit_eq_mask)
qed

lemma fold_high_iff: "fold_high x = x \<longleftrightarrow> unat x < 2 ^ 32"
  using fold_high_bound [of x] fold_high_id [of x] by metis

section \<open>Properties\<close>

text \<open>
  C36: on a tag list in the Multiboot2 format that starts at \<open>address + 64\<close>, the walk
  returns, and calls back exactly for the memory-map entries of the five known types, in
  order, over all map tags, with address and length folded to 32 bits; every other tag
  is skipped by its padded size.
\<close>

theorem multiboot2_map_memory_correct:
  assumes "bytes_at m (a + 64) (concat (map tag_bytes ts) @ le_bytes 0 4 @ le_bytes 8 4)"
    and "\<forall>tg\<in>set ts. tag_ok tg" and "length ts + (\<Sum>tg\<leftarrow>ts. tag_fuel tg) < fuel"
  shows "multiboot2_map_memory fuel m a = Some (Ret (concat (map tag_events ts)))"
  unfolding multiboot2_map_memory_def by (rule map_tags_events [OF assms])

lemma multiboot2_map_memory_correct_witness:
  "let ts = [OtherTag 4 [1, 2, 3], MmapTag [(0x100000, 0x4000, 1), (0x200000, 0x1000, 9)]];
       bs = concat (map tag_bytes ts) @ le_bytes 0 4 @ le_bytes 8 4;
       m = (\<lambda>p. if 64 \<le> p \<and> p < 64 + length bs then Some (bs ! (p - 64)) else None)
   in multiboot2_map_memory 8 m 0 = Some (Ret [(1, 0x100000, 0x4000)])"
proof -
  let ?ts = "[OtherTag 4 [1, 2, 3], MmapTag [(0x100000, 0x4000, 1), (0x200000, 0x1000, 9)]]"
  let ?bs = "concat (map tag_bytes ?ts) @ le_bytes 0 4 @ le_bytes 8 4"
  let ?m = "\<lambda>p. if 64 \<le> p \<and> p < 64 + length ?bs then Some (?bs ! (p - 64)) else None"
  have "bytes_at ?m (0 + 64) ?bs" by (simp add: bytes_at_def)
  moreover have "\<forall>tg\<in>set ?ts. tag_ok tg" by simp
  moreover have "length ?ts + (\<Sum>tg\<leftarrow>?ts. tag_fuel tg) < 8" by simp
  ultimately have "multiboot2_map_memory 8 ?m 0 = Some (Ret (concat (map tag_events ?ts)))"
    by (rule multiboot2_map_memory_correct)
  moreover have "concat (map tag_events ?ts) = [(1, 0x100000, 0x4000)]"
    by (simp add: mmap_events_def fold_high_id)
  ultimately show ?thesis unfolding Let_def by metis
qed

text \<open>
  Memory above 4 GB is reported at the wrong place: the folded address of an entry
  is its address exactly when it lies below \<open>2 ^ 32\<close>, and always lands below it.
\<close>

lemma multiboot2_folds_high_memory:
  "unat (fold_high x) < 2 ^ 32 \<and> (fold_high x = x \<longleftrightarrow> unat x < 2 ^ 32)"
  using fold_high_bound fold_high_iff by simp

end
