(* ===== verification/Bootmem.thy ===== *)
theory Bootmem
  imports Bitmap Multiboot
begin

text \<open>
  \<open>src/mm/bootmem.c\<close>: the page allocator used while booting, five bitmaps of 8192 pages
  each, over the contract \<open>run_allocator\<close> of the bitmaps. The \<open>len\<close> field of a range is
  never used by the code and is left out; so is the printing.
\<close>

section \<open>The operations\<close>

definition BOOTMEM_MAX_RANGES :: nat where "BOOTMEM_MAX_RANGES = 5"
definition BOOTMEM_MAX_ENTRIES :: nat where "BOOTMEM_MAX_ENTRIES = 256"

record boot_range =
  r_start :: u64
  r_bm :: bitmap

record mem_info =
  ranges :: "boot_range list"
  mi_ptr :: nat

definition bootmem_claim_range :: "mem_info \<Rightarrow> nat \<Rightarrow> u64 \<Rightarrow> u64 \<Rightarrow> mem_info outcome" where
  "bootmem_claim_range mi ty addr len =
     (if ty \<noteq> 1 \<and> ty \<noteq> 3 then Ret mi
      else if mi_ptr mi \<ge> BOOTMEM_MAX_RANGES then Ret mi
      else
        let npages = unat (ROUND_DOWN len 4096) div PAGE_SIZE in
        if npages = 0 then Ret mi
        else
          bnd (rd (ranges mi) (mi_ptr mi)) (\<lambda>r.
          let r = r\<lparr> r_start := ROUND_UP addr 4096 \<rparr> in
          bnd (bm_unset_range (r_bm r) 0 npages) (\<lambda>(_, bm).
          bnd (wr (ranges mi) (mi_ptr mi) (r\<lparr> r_bm := bm \<rparr>)) (\<lambda>rs.
          Ret (mi\<lparr> ranges := rs, mi_ptr := mi_ptr mi + 1 \<rparr>)))))"

primrec claim_all :: "mem_info \<Rightarrow> mb_event list \<Rightarrow> mem_info outcome" where
  "claim_all mi [] = Ret mi"
| "claim_all mi (e # es) =
     (case e of (ty, addr, len) \<Rightarrow>
        bnd (bootmem_claim_range mi ty addr len) (\<lambda>mi'. claim_all mi' es))"

text \<open>One range of the initialisation loop; the words it starts from are the \<open>.bss\<close>.\<close>

definition init_range :: "boot_range outcome" where
  "init_range =
     omap (\<lambda>(_, bm). \<lparr> r_start = INVALID_ADDRESS, r_bm = bm \<rparr>)
       (bm_set_range \<lparr> bm_len = BOOTMEM_MAX_ENTRIES * 32, bm_bits = replicate BOOTMEM_MAX_ENTRIES 0 \<rparr>
          0 (BOOTMEM_MAX_ENTRIES * 32 - 1))"

definition bootmem_init_ranges :: "mem_info outcome" where
  "bootmem_init_ranges =
     omap (\<lambda>r. \<lparr> ranges = replicate BOOTMEM_MAX_RANGES r, mi_ptr = 0 \<rparr>) init_range"

definition mm_bootmem_init :: "nat \<Rightarrow> mem \<Rightarrow> nat \<Rightarrow> mem_info outcome option" where
  "mm_bootmem_init fuel m arg =
     map_option (\<lambda>evs. bnd bootmem_init_ranges (\<lambda>mi. bnd evs (claim_all mi)))
       (multiboot2_map_memory fuel m arg)"

function alloc_loop :: "mem_info \<Rightarrow> nat \<Rightarrow> nat \<Rightarrow> (u64 \<times> mem_info) outcome" where
  "alloc_loop mi npages i =
     (if i < mi_ptr mi then
        bnd (rd (ranges mi) i) (\<lambda>r.
        bnd (bm_find_first_unset_range (r_bm r) 0 (bm_len (r_bm r) - 1) npages) (\<lambda>start.
          if start = - ENOENT then alloc_loop mi npages (i + 1)
          else
            bnd (if npages = 1
                 then omap (\<lambda>(e, b). (e, the b)) (bm_set_bit (Some (r_bm r)) (nat start))
                 else bm_set_range (r_bm r) (nat start) (nat start + npages)) (\<lambda>(err, bm).
            if err \<noteq> 0 then Ret (INVALID_ADDRESS, mi)
            else
              bnd (wr (ranges mi) i (r\<lparr> r_bm := bm \<rparr>)) (\<lambda>rs.
              Ret (r_start r + of_nat (PAGE_SIZE * nat start), mi\<lparr> ranges := rs \<rparr>)))))
      else Ret (INVALID_ADDRESS, mi))"
  by pat_completeness auto
termination by (relation "measure (\<lambda>(mi, npages, i). mi_ptr mi - i)") auto

declare alloc_loop.simps [simp del]

definition mm_bootmem_alloc_block :: "mem_info \<Rightarrow> nat \<Rightarrow> (u64 \<times> mem_info) outcome" where
  "mm_bootmem_alloc_block mi npages = alloc_loop mi npages 0"

section \<open>The invariant\<close>

definition range_inv :: "boot_range \<Rightarrow> bool" where
  "range_inv r \<longleftrightarrow> bm_wf (r_bm r) \<and> bm_len (r_bm r) = 8192"

definition boot_inv :: "mem_info \<Rightarrow> bool" where
  "boot_inv mi \<longleftrightarrow> length (ranges mi) = 5 \<and> mi_ptr mi \<le> 5 \<and> (\<forall>r\<in>set (ranges mi). range_inv r)"

definition taken_pages :: "mem_info \<Rightarrow> nat \<Rightarrow> nat set" where
  "taken_pages mi i = bm_set (r_bm (ranges mi ! i))"

lemma boot_inv_nth: "boot_inv mi \<Longrightarrow> i < mi_ptr mi \<Longrightarrow> i < length (ranges mi) \<and> range_inv (ranges mi ! i)"
  by (auto simp: boot_inv_def)

lemma boot_inv_upd:
  "boot_inv mi \<Longrightarrow> range_inv r \<Longrightarrow> boot_inv (mi\<lparr> ranges := (ranges mi)[i := r] \<rparr>)"
  by (auto simp: boot_inv_def dest!: set_update_subset_insert [THEN subsetD])

lemma init_range_ok:
  "\<exists>r. init_range = Ret r \<and> range_inv r \<and> bm_set (r_bm r) = {0..<8192} \<and> r_start r = INVALID_ADDRESS"
proof -
  let ?bm = "\<lparr> bm_len = 8192, bm_bits = replicate 256 0 :: u32 list \<rparr>"
  have "bm_wf ?bm" "0 < bm_len ?bm" "8191 < bm_len ?bm" by (simp_all add: bm_wf_def)
  from bm_set_range_ok [OF this] obtain bm' where
    bm': "bm_set_range ?bm 0 8191 = Ret (0, bm')" "bm_wf bm'" "bm_len bm' = 8192"
      "bm_set bm' = bm_set ?bm \<union> {0..8191}" by auto
  have "bm_set ?bm = {}" by (auto simp: bm_set_def bits_set_def less_mult_imp_div_less)
  then have "bm_set bm' = {0..<8192}" using bm' by auto
  then show ?thesis using bm'
    by (simp add: init_range_def BOOTMEM_MAX_ENTRIES_def range_inv_def)
qed

lemma bootmem_init_ranges_ok:
  "\<exists>mi. bootmem_init_ranges = Ret mi \<and> boot_inv mi \<and> mi_ptr mi = 0 \<and> (\<forall>i<5. taken_pages mi i = {0..<8192})"
proof -
  obtain r where r: "init_range = Ret r" "range_inv r" "bm_set (r_bm r) = {0..<8192}"
    using init_range_ok by blast
  then have "bootmem_init_ranges = Ret \<lparr> ranges = replicate 5 r, mi_ptr = 0 \<rparr>"
    unfolding bootmem_init_ranges_def r(1) BOOTMEM_MAX_RANGES_def by simp
  then show ?thesis using r
    by (intro exI [of _ "\<lparr> ranges = replicate 5 r, mi_ptr = 0 \<rparr>"] conjI)
       (auto simp: boot_inv_def taken_pages_def)
qed

abbreviation claimed_pages :: "u64 \<Rightarrow> nat" where
  "claimed_pages len \<equiv> unat len div 4096"

lemma npages_eq: "unat (ROUND_DOWN len 4096) div 4096 = claimed_pages len"
  by (simp add: unat_ROUND_DOWN)

lemma bootmem_claim_range_ok:
  assumes inv: "boot_inv mi" and "ty = 1 \<or> ty = 3" and p: "mi_ptr mi < 5" and n: "0 < claimed_pages len"
  shows "\<exists>mi'. bootmem_claim_range mi ty addr len = Ret mi' \<and> boot_inv mi' \<and> mi_ptr mi' = mi_ptr mi + 1 \<and>
    r_start (ranges mi' ! mi_ptr mi) = ROUND_UP addr 4096 \<and>
    taken_pages mi' (mi_ptr mi) = (if claimed_pages len < 8192
       then taken_pages mi (mi_ptr mi) - {0..claimed_pages len} else taken_pages mi (mi_ptr mi)) \<and>
    (\<forall>i. i \<noteq> mi_ptr mi \<longrightarrow> ranges mi' ! i = ranges mi ! i)"
proof -
  let ?r = "ranges mi ! mi_ptr mi" and ?n = "claimed_pages len"
  have len: "length (ranges mi) = 5" using inv by (simp add: boot_inv_def)
  then have rd: "rd (ranges mi) (mi_ptr mi) = Ret ?r" and rinv: "range_inv ?r"
    using inv p by (simp_all add: boot_inv_def)
  have n0: "\<not> unat len < 4096" using n by (simp add: div_eq_0_iff)
  obtain er bm where u: "bm_unset_range (r_bm ?r) 0 ?n = Ret (er, bm)" "bm_wf bm" "bm_len bm = 8192"
      "bm_set bm = (if ?n < 8192 then bm_set (r_bm ?r) - {0..?n} else bm_set (r_bm ?r))"
  proof (cases "?n < 8192")
    case True
    then show ?thesis using that bmrun.unmark_ok [of "r_bm ?r" 0 ?n] rinv by (auto simp: range_inv_def)
  next
    case False
    then show ?thesis using that bmrun.unmark_err [of "r_bm ?r" 0 ?n] rinv by (auto simp: range_inv_def)
  qed
  let ?r' = "?r\<lparr> r_start := ROUND_UP addr 4096, r_bm := bm \<rparr>"
  have "bootmem_claim_range mi ty addr len
      = Ret (mi\<lparr> ranges := (ranges mi)[mi_ptr mi := ?r'], mi_ptr := mi_ptr mi + 1 \<rparr>)"
    using assms(2) p rd u(1) len n0 unfolding bootmem_claim_range_def npages_eq Let_def
    by (auto simp: BOOTMEM_MAX_RANGES_def div_eq_0_iff)
  moreover have "range_inv ?r'" using u by (simp add: range_inv_def)
  then have "boot_inv (mi\<lparr> ranges := (ranges mi)[mi_ptr mi := ?r'], mi_ptr := mi_ptr mi + 1 \<rparr>)"
    using boot_inv_upd [OF inv, of ?r' "mi_ptr mi"] p by (simp add: boot_inv_def)
  ultimately show ?thesis using u p len
    by (auto simp: taken_pages_def)
qed

lemma bootmem_claim_range_skip:
  "ty \<noteq> 1 \<and> ty \<noteq> 3 \<or> 5 \<le> mi_ptr mi \<or> claimed_pages len = 0 \<Longrightarrow> bootmem_claim_range mi ty addr len = Ret mi"
  unfolding bootmem_claim_range_def npages_eq Let_def by (auto simp: BOOTMEM_MAX_RANGES_def)

lemma bootmem_claim_range_inv:
  assumes "boot_inv mi"
  shows "\<exists>mi'. bootmem_claim_range mi ty addr len = Ret mi' \<and> boot_inv mi'"
proof (cases "(ty = 1 \<or> ty = 3) \<and> mi_ptr mi < 5 \<and> 0 < claimed_pages len")
  case True
  then show ?thesis using bootmem_claim_range_ok [OF assms, of ty len addr] by auto
next
  case False
  then show ?thesis using bootmem_claim_range_skip [of ty mi len addr] assms by auto
qed

lemma claim_all_inv: "boot_inv mi \<Longrightarrow> \<exists>mi'. claim_all mi evs = Ret mi' \<and> boot_inv mi'"
proof (induction evs arbitrary: mi)
  case (Cons e es)
  obtain t a l where e: "e = (t, a, l)" by (cases e)
  obtain mi1 where "bootmem_claim_range mi t a l = Ret mi1" "boot_inv mi1"
    using bootmem_claim_range_inv [OF Cons.prems] by blast
  then show ?case using Cons.IH [of mi1] e by simp
qed simp

text \<open>What one range gives: the search, and the marking of the run it found.\<close>

lemma boot_search:
  assumes "range_inv r" and "0 < n"
  shows "\<exists>s. bm_find_first_unset_range (r_bm r) 0 (bm_len (r_bm r) - 1) n = Ret s \<and>
    first_run (bm_set (r_bm r)) False 0 8191 n s"
  using bmrun.find_first [of "r_bm r" 0 8191 n] assms by (simp add: range_inv_def)

definition extra :: "nat \<Rightarrow> nat" where
  "extra n = (if n = 1 then 0 else n)"

definition boot_mark :: "boot_range \<Rightarrow> nat \<Rightarrow> nat \<Rightarrow> (int \<times> bitmap) outcome" where
  "boot_mark r n s =
     (if n = 1 then omap (\<lambda>(e, b). (e, the b)) (bm_set_bit (Some (r_bm r)) s)
      else bm_set_range (r_bm r) s (s + n))"

lemma boot_mark_ok:
  assumes r: "range_inv r" and n: "0 < n" and s: "first_run (bm_set (r_bm r)) False 0 8191 n (int s)"
  shows "if s + extra n < 8192
    then \<exists>bm. boot_mark r n s = Ret (0, bm) \<and> range_inv (r\<lparr> r_bm := bm \<rparr>) \<and>
      bm_set bm = bm_set (r_bm r) \<union> {s..s + extra n}
    else boot_mark r n s = Ret (- E2BIG, r_bm r)"
proof (cases "n = 1")
  case True
  then have "s < 8192" using s by (auto simp: first_run_def)
  then show ?thesis using bm_set_bit_ok [of "r_bm r" s] r True
    by (auto simp: boot_mark_def range_inv_def extra_def)
next
  case False
  then show ?thesis
    using bmrun.mark_ok [of "r_bm r" s "s + n"] bmrun.mark_err [of "r_bm r" s "s + n"] r
    by (auto simp: boot_mark_def range_inv_def extra_def)
qed

lemma alloc_loop_step:
  "alloc_loop mi n i =
     (if i < mi_ptr mi then
        bnd (rd (ranges mi) i) (\<lambda>r.
        bnd (bm_find_first_unset_range (r_bm r) 0 (bm_len (r_bm r) - 1) n) (\<lambda>start.
          if start = - ENOENT then alloc_loop mi n (i + 1)
          else
            bnd (boot_mark r n (nat start)) (\<lambda>(err, bm).
            if err \<noteq> 0 then Ret (INVALID_ADDRESS, mi)
            else
              bnd (wr (ranges mi) i (r\<lparr> r_bm := bm \<rparr>)) (\<lambda>rs.
              Ret (r_start r + of_nat (PAGE_SIZE * nat start), mi\<lparr> ranges := rs \<rparr>)))))
      else Ret (INVALID_ADDRESS, mi))"
  unfolding boot_mark_def by (rule alloc_loop.simps)

text \<open>\<open>boot_result mi n a mi'\<close>: what an allocation may answer.\<close>

definition boot_result :: "mem_info \<Rightarrow> nat \<Rightarrow> u64 \<Rightarrow> mem_info \<Rightarrow> bool" where
  "boot_result mi n a mi' \<longleftrightarrow>
     a = INVALID_ADDRESS \<and> mi' = mi \<or>
     (\<exists>j<mi_ptr mi. \<exists>s. a = r_start (ranges mi ! j) + of_nat (PAGE_SIZE * s) \<and> s + extra n < 8192 \<and>
        {s..<s + n} \<inter> taken_pages mi j = {} \<and>
        taken_pages mi' j = taken_pages mi j \<union> {s..s + extra n} \<and>
        (\<forall>k. k \<noteq> j \<longrightarrow> ranges mi' ! k = ranges mi ! k) \<and> r_start (ranges mi' ! j) = r_start (ranges mi ! j))"

lemma run_free: "run S False s n \<Longrightarrow> {s..<s + n} \<inter> S = {}"
  unfolding run_def by (auto, metis add_diff_inverse_nat add_less_cancel_left not_less)

lemma alloc_loop_result:
  assumes "boot_inv mi" and "0 < n"
  shows "\<exists>a mi'. alloc_loop mi n i = Ret (a, mi') \<and> boot_inv mi' \<and> mi_ptr mi' = mi_ptr mi \<and> boot_result mi n a mi'"
proof (induction "mi_ptr mi - i" arbitrary: i)
  case 0
  then show ?case using assms(1) by (subst alloc_loop_step) (simp add: boot_result_def)
next
  case (Suc d)
  then have i: "i < mi_ptr mi" by simp
  let ?r = "ranges mi ! i"
  have il: "i < length (ranges mi)" and rinv: "range_inv ?r" using boot_inv_nth [OF assms(1) i] by auto
  obtain s where s: "bm_find_first_unset_range (r_bm ?r) 0 (bm_len (r_bm ?r) - 1) n = Ret s"
      "first_run (bm_set (r_bm ?r)) False 0 8191 n s"
    using boot_search [OF rinv assms(2)] by blast
  show ?case
  proof (cases "s = - ENOENT")
    case True
    then show ?thesis using Suc.hyps(1) [of "Suc i"] Suc.hyps(2) i il s(1)
      by (subst alloc_loop_step) auto
  next
    case False
    then obtain k where k: "s = int k" using s(2) by (auto simp: first_run_def)
    have fr: "{k..<k + n} \<inter> taken_pages mi i = {}"
      using s(2) k by (auto simp: first_run_def taken_pages_def dest!: run_free)
    note mk = boot_mark_ok [OF rinv assms(2) s(2) [unfolded k]]
    show ?thesis
    proof (cases "k + extra n < 8192")
      case True
      then obtain bm where bm: "boot_mark ?r n k = Ret (0, bm)" "range_inv (?r\<lparr> r_bm := bm \<rparr>)"
          "bm_set bm = bm_set (r_bm ?r) \<union> {k..k + extra n}" using mk by auto
      let ?mi' = "mi\<lparr> ranges := (ranges mi)[i := ?r\<lparr> r_bm := bm \<rparr>] \<rparr>"
      have "alloc_loop mi n i = Ret (r_start ?r + of_nat (PAGE_SIZE * k), ?mi')"
        using i il s(1) k bm(1) by (subst alloc_loop_step) simp
      moreover have "boot_result mi n (r_start ?r + of_nat (PAGE_SIZE * k)) ?mi'"
        unfolding boot_result_def
        by (rule disjI2, rule exI [of _ i], rule conjI [OF i], rule exI [of _ k])
           (use True fr bm(3) il in \<open>auto simp: taken_pages_def\<close>)
      ultimately show ?thesis using boot_inv_upd [OF assms(1) bm(2)] by simp
    next
      case False
      then show ?thesis using mk i il s(1) k assms(1)
        by (subst alloc_loop_step) (simp add: boot_result_def)
    qed
  qed
qed

section \<open>Properties\<close>



text \<open>
  Claiming a region of \<open>n\<close> whole pages on fresh ranges frees the pages \<open>0\<close> to \<open>n\<close>, one
  page beyond the region, and a region of 32 MB or more frees no page at all, though it
  uses up one of the five ranges.
\<close>

lemma bootmem_claim_off_by_one:
  assumes "bootmem_init_ranges = Ret mi" and "ty = 1 \<or> ty = 3" and "0 < claimed_pages len"
  shows "\<exists>mi'. bootmem_claim_range mi ty addr len = Ret mi' \<and> mi_ptr mi' = 1 \<and>
    {0..<8192} - taken_pages mi' 0 = (if claimed_pages len < 8192 then {0..claimed_pages len} else {})"
proof -
  have mi: "boot_inv mi" "mi_ptr mi = 0" "taken_pages mi 0 = {0..<8192}"
    using bootmem_init_ranges_ok assms(1) by (metis outcome.inject(1) zero_less_numeral)+
  obtain mi' where mi': "bootmem_claim_range mi ty addr len = Ret mi'" "mi_ptr mi' = 1"
      "taken_pages mi' 0 = (if claimed_pages len < 8192 then {0..<8192} - {0..claimed_pages len} else {0..<8192})"
    using bootmem_claim_range_ok [OF mi(1) assms(2) _ assms(3), of addr] mi(2,3) by auto
  then show ?thesis by (intro exI [of _ mi']) auto
qed

lemma bootmem_claim_off_by_one_witness:
  "\<exists>mi mi'. bootmem_init_ranges = Ret mi \<and> bootmem_claim_range mi 1 0x100000 0x3000 = Ret mi' \<and>
    {0..<8192} - taken_pages mi' 0 = {0..3}"
proof -
  obtain mi where mi: "bootmem_init_ranges = Ret mi" using bootmem_init_ranges_ok by blast
  obtain mi' where "bootmem_claim_range mi 1 0x100000 0x3000 = Ret mi'" "{0..<8192} - taken_pages mi' 0 = {0..3}"
    using bootmem_claim_off_by_one [OF mi, of 1 "0x3000" "0x100000"] by auto
  then show ?thesis using mi by blast
qed

end
