(* ===== verification/PageAlloc.thy ===== *)
theory PageAlloc
  imports Multiboot "HOL-Library.Multiset"
begin

unbundle bit_operations_syntax

text \<open>
  \<open>src/mm/page.c\<close>: the buddy page-frame allocator. A free list is the Isabelle list of
  its block descriptors, first the one that \<open>list_append\<close> put last (the lists themselves
  are the chains of the theory LinkedList). The descriptors come from a slab cache that
  always has one to give. A zone pointer is a \<open>zone_id\<close>.
\<close>

section \<open>The state\<close>

definition BUDDY_MAX_ORDER :: nat where "BUDDY_MAX_ORDER = 16"

definition MM_ZONE_DMA_END :: u64 where "MM_ZONE_DMA_END = 0xffffff"
definition MM_ZONE_NORMAL_START :: u64 where "MM_ZONE_NORMAL_START = 0x1000000"
definition MM_ZONE_NORMAL_END :: u64 where "MM_ZONE_NORMAL_END = 0x7fffffff"
definition MM_ZONE_HIGH_START :: u64 where "MM_ZONE_HIGH_START = 0x80000000"
definition MM_ZONE_HIGH_END :: u64 where "MM_ZONE_HIGH_END = 0xffffffffffffffff"

definition MM_PT_INVALID :: nat where "MM_PT_INVALID = 0"
definition MM_PT_FREE :: nat where "MM_PT_FREE = 1"
definition MM_PT_IN_USE :: nat where "MM_PT_IN_USE = 2"

record mm_block =
  blk_start :: u64
  blk_end :: u64

record mm_zone =
  page_count :: nat
  blocks :: "mm_block list list"

record page =
  pg_type :: nat
  pg_order :: nat
  pg_first :: nat

datatype zone_id = ZDMA | ZNORMAL | ZHIGH

record pfa =
  zone_dma :: mm_zone
  zone_normal :: mm_zone
  zone_high :: mm_zone
  page_array :: "page list"

fun zone_of :: "pfa \<Rightarrow> zone_id \<Rightarrow> mm_zone" where
  "zone_of s ZDMA = zone_dma s"
| "zone_of s ZNORMAL = zone_normal s"
| "zone_of s ZHIGH = zone_high s"

fun put_zone :: "pfa \<Rightarrow> zone_id \<Rightarrow> mm_zone \<Rightarrow> pfa" where
  "put_zone s ZDMA z = s\<lparr> zone_dma := z \<rparr>"
| "put_zone s ZNORMAL z = s\<lparr> zone_normal := z \<rparr>"
| "put_zone s ZHIGH z = s\<lparr> zone_high := z \<rparr>"

section \<open>Zones and blocks\<close>

definition get_zone :: "u64 \<Rightarrow> u64 \<Rightarrow> zone_id option" where
  "get_zone start fin =
     (if fin < MM_ZONE_DMA_END then Some ZDMA
      else if start \<ge> MM_ZONE_NORMAL_START \<and> fin < MM_ZONE_NORMAL_END then Some ZNORMAL
      else if start \<ge> MM_ZONE_HIGH_START \<and> fin < MM_ZONE_HIGH_END then Some ZHIGH
      else None)"

definition block_bytes :: "nat \<Rightarrow> u64" where
  "block_bytes order = push_bit order 1 * 4096"

definition zone_push :: "mm_zone \<Rightarrow> nat \<Rightarrow> mm_block \<Rightarrow> mm_zone outcome" where
  "zone_push z order b =
     bnd (rd (blocks z) order) (\<lambda>l. omap (\<lambda>bs. z\<lparr> blocks := bs \<rparr>) (wr (blocks z) order (b # l)))"

definition zone_add_block :: "mm_zone \<Rightarrow> u64 \<Rightarrow> nat \<Rightarrow> mm_zone outcome" where
  "zone_add_block z start order =
     omap (\<lambda>z. z\<lparr> page_count := page_count z + 2 ^ order \<rparr>)
       (zone_push z order \<lparr> blk_start = start, blk_end = start + block_bytes order - 1 \<rparr>)"

text \<open>The fields of \<open>page_t\<close> are 2, 5 and 1 bits wide; the page number is 32 bits wide.\<close>

function page_array_loop :: "page list \<Rightarrow> u32 \<Rightarrow> nat \<Rightarrow> nat \<Rightarrow> nat \<Rightarrow> page list outcome" where
  "page_array_loop pa pfn ty order i =
     (if i < 2 ^ order then
        bnd (wr pa (unat (pfn + of_nat i))
              \<lparr> pg_type = ty mod 4, pg_order = order mod 32, pg_first = 0 \<rparr>) (\<lambda>pa'.
        page_array_loop pa' pfn ty order (i + 1))
      else Ret pa)"
  by pat_completeness auto
termination by (relation "measure (\<lambda>(pa, pfn, ty, order, i). 2 ^ order - i)") auto

declare page_array_loop.simps [simp del]

definition page_array_add_block :: "page list \<Rightarrow> nat \<Rightarrow> u64 \<Rightarrow> nat \<Rightarrow> page list outcome" where
  "page_array_add_block pa ty start order =
     (let pfn = ucast (drop_bit 12 start) :: u32 in
      bnd (wr pa (unat pfn) \<lparr> pg_type = ty mod 4, pg_order = order mod 32, pg_first = 1 \<rparr>) (\<lambda>pa'.
      page_array_loop pa' pfn ty order 1))"

text \<open>
  \<open>__claim_range\<close> calls back once per block; a callback does not feed back into the
  walk, so \<open>claim_blocks\<close> is the list of its calls and \<open>claim_range\<close> runs them.
\<close>

function claim_order :: "u64 \<Rightarrow> nat \<Rightarrow> nat \<Rightarrow> nat \<Rightarrow> (u64 \<times> nat) list \<times> u64" where
  "claim_order start order num_blocks b =
     (if b < num_blocks then
        (let (rest, start') = claim_order (start + of_nat (b + 1) * block_bytes order) order num_blocks (b + 1)
         in ((start, order) # rest, start'))
      else ([], start))"
  by pat_completeness auto
termination by (relation "measure (\<lambda>(start, order, n, b). n - b)") auto

declare claim_order.simps [simp del]

fun claim_orders :: "u64 \<Rightarrow> u64 \<Rightarrow> nat \<Rightarrow> (u64 \<times> nat) list" where
  "claim_orders start range_len 0 = []"
| "claim_orders start range_len (Suc order) =
     (let num_blocks = range_len div block_bytes order;
          rem_bytes = range_len mod block_bytes order in
      if num_blocks > 0 then
        (let (bs, start') = claim_order start order (unat num_blocks) 0
         in bs @ claim_orders start' rem_bytes order)
      else claim_orders start range_len order)"

definition claim_blocks :: "u64 \<Rightarrow> u64 \<Rightarrow> (u64 \<times> nat) list" where
  "claim_blocks start fin =
     (let range_len = fin - start in
      if range_len < 4096 then [] else claim_orders start range_len BUDDY_MAX_ORDER)"

primrec claim_zone :: "mm_zone \<Rightarrow> (u64 \<times> nat) list \<Rightarrow> mm_zone outcome" where
  "claim_zone z [] = Ret z"
| "claim_zone z (b # bs) = bnd (zone_add_block z (fst b) (snd b)) (\<lambda>z'. claim_zone z' bs)"

primrec claim_pages :: "page list \<Rightarrow> nat \<Rightarrow> (u64 \<times> nat) list \<Rightarrow> page list outcome" where
  "claim_pages pa ty [] = Ret pa"
| "claim_pages pa ty (b # bs) =
     bnd (page_array_add_block pa ty (fst b) (snd b)) (\<lambda>pa'. claim_pages pa' ty bs)"

definition mm_claim_range :: "pfa \<Rightarrow> u64 \<Rightarrow> u64 \<Rightarrow> pfa outcome" where
  "mm_claim_range s address len =
     bnd (case get_zone address (address + len) of
            Some zid \<Rightarrow>
              omap (put_zone s zid)
                (claim_zone (zone_of s zid)
                   (claim_blocks (ROUND_UP address 4096) (ROUND_DOWN (address + len) 4096)))
          | None \<Rightarrow> Ret s) (\<lambda>s.
     if address < MM_ZONE_NORMAL_START \<and> address + len > MM_ZONE_DMA_END then
       bnd (claim_zone (zone_dma s) (claim_blocks (ROUND_UP address 4096) MM_ZONE_DMA_END)) (\<lambda>zd.
       bnd (claim_zone (zone_normal s)
              (claim_blocks MM_ZONE_NORMAL_START (ROUND_DOWN (address + len) 4096))) (\<lambda>zn.
       Ret (s\<lparr> zone_dma := zd, zone_normal := zn \<rparr>)))
     else Ret s)"

definition mm_claim_page :: "pfa \<Rightarrow> u64 \<Rightarrow> pfa outcome" where
  "mm_claim_page s address = mm_claim_range s address 4096"

section \<open>Allocation\<close>

text \<open>Following the NULL \<open>next\<close> of an empty list is a fault.\<close>

definition get_free_entry :: "mm_zone \<Rightarrow> nat \<Rightarrow> (mm_block \<times> mm_zone) outcome" where
  "get_free_entry z order =
     kassert (order < BUDDY_MAX_ORDER)
       (bnd (rd (blocks z) order) (\<lambda>l.
          case l of [] \<Rightarrow> Halt MemFault
          | b # l' \<Rightarrow> omap (\<lambda>bs. (b, z\<lparr> blocks := bs \<rparr>)) (wr (blocks z) order l')))"

text \<open>The loop stops when the orders meet; it starts with \<open>req_order \<le> split_order\<close>.\<close>

function split_loop :: "mm_zone \<Rightarrow> nat \<Rightarrow> nat \<Rightarrow> u64 \<Rightarrow> (u64 \<times> mm_zone) outcome" where
  "split_loop z req_order split_order split_start =
     (if req_order < split_order then
        (let split_size = block_bytes (split_order - 1);
             tmp = \<lparr> blk_start = split_start, blk_end = split_start + split_size - 1 \<rparr> in
         bnd (zone_push z (split_order - 1) tmp) (\<lambda>z'.
         split_loop z' req_order (split_order - 1) (split_start + split_size)))
      else Ret (split_start, z))"
  by pat_completeness auto
termination by (relation "measure (\<lambda>(z, req, so, start). so)") auto

declare split_loop.simps [simp del]

definition split_block :: "mm_zone \<Rightarrow> nat \<Rightarrow> nat \<Rightarrow> (u64 \<times> mm_zone) outcome" where
  "split_block z req_order split_order =
     kassert (split_order \<noteq> 0 \<and> req_order < BUDDY_MAX_ORDER)
       (bnd (get_free_entry z split_order) (\<lambda>(b, z).
        let split_size = block_bytes (split_order - 1);
            split_start = blk_start b + split_size in
        bnd (zone_push z (split_order - 1) (b\<lparr> blk_end := blk_end b - split_size \<rparr>)) (\<lambda>z.
        split_loop z req_order (split_order - 1) split_start)))"

function alloc_orders :: "mm_zone \<Rightarrow> nat \<Rightarrow> nat \<Rightarrow> (u64 \<times> mm_zone) outcome" where
  "alloc_orders z order i =
     (if i < BUDDY_MAX_ORDER then
        bnd (rd (blocks z) i) (\<lambda>l.
          if l = [] then alloc_orders z order (i + 1)
          else if i = order then omap (\<lambda>(b, z'). (blk_start b, z')) (get_free_entry z i)
          else split_block z order i)
      else Ret (INVALID_ADDRESS, z))"
  by pat_completeness auto
termination by (relation "measure (\<lambda>(z, order, i). BUDDY_MAX_ORDER - i)") auto

declare alloc_orders.simps [simp del]

text \<open>The zone numbers are 0, 1 and 2, so \<open>memzone & MM_ZONE_DMA\<close> is never true.\<close>

definition alloc_mem :: "pfa \<Rightarrow> u32 \<Rightarrow> nat \<Rightarrow> (u64 \<times> pfa) outcome" where
  "alloc_mem s memzone order =
     kassert (memzone = 1)
       (if order > BUDDY_MAX_ORDER \<or> memzone AND NOT (0 OR 1 OR 2) \<noteq> 0 then Ret (INVALID_ADDRESS, s)
        else
          let zid = (if memzone AND 1 \<noteq> 0 then ZNORMAL else if memzone AND 0 \<noteq> 0 then ZDMA else ZHIGH) in
          omap (\<lambda>(a, z). (a, put_zone s zid z)) (alloc_orders (zone_of s zid) order order))"

definition mm_block_alloc :: "pfa \<Rightarrow> u32 \<Rightarrow> nat \<Rightarrow> (u64 \<times> pfa) outcome" where
  "mm_block_alloc s memzone order =
     bnd (alloc_mem s memzone order) (\<lambda>(address, s).
     kassert (address \<noteq> INVALID_ADDRESS)
       (bnd (page_array_add_block (page_array s) MM_PT_IN_USE address order) (\<lambda>pa.
        Ret (address, s\<lparr> page_array := pa \<rparr>))))"

definition mm_page_alloc :: "pfa \<Rightarrow> u32 \<Rightarrow> (u64 \<times> pfa) outcome" where
  "mm_page_alloc s memzone = mm_block_alloc s memzone 0"

definition mm_block_free :: "pfa \<Rightarrow> u64 \<Rightarrow> nat \<Rightarrow> pfa outcome" where
  "mm_block_free s address order =
     kassert (PAGE_ALIGNED address)
       (case get_zone address (address + block_bytes order) of
          None \<Rightarrow> Halt AssertFailed
        | Some zid \<Rightarrow>
            bnd (page_array_add_block (page_array s) MM_PT_FREE address order) (\<lambda>pa.
            omap (put_zone (s\<lparr> page_array := pa \<rparr>) zid) (zone_add_block (zone_of s zid) address order)))"

definition mm_page_free :: "pfa \<Rightarrow> u64 \<Rightarrow> pfa outcome" where
  "mm_page_free s address = mm_block_free s address 0"

section \<open>Initialisation\<close>

definition claim_range_preinit :: "pfa \<Rightarrow> mb_event \<Rightarrow> pfa outcome" where
  "claim_range_preinit s e =
     (case e of (ty, address, len) \<Rightarrow>
        if ty \<noteq> 1 \<and> ty \<noteq> 3 then Ret s else mm_claim_range s address len)"

definition claim_range_postinit :: "page list \<Rightarrow> mb_event \<Rightarrow> page list outcome" where
  "claim_range_postinit pa e =
     (case e of (ty, address, len) \<Rightarrow>
        let mm_type = (if ty = 1 \<or> ty = 3 then MM_PT_FREE
                       else if ty = 2 \<or> ty = 4 \<or> ty = 5 then MM_PT_IN_USE else MM_PT_INVALID) in
        claim_pages pa mm_type
          (claim_blocks (ROUND_UP address 4096) (ROUND_DOWN (address + len) 4096)))"

primrec events :: "('s \<Rightarrow> mb_event \<Rightarrow> 's outcome) \<Rightarrow> 's \<Rightarrow> mb_event list \<Rightarrow> 's outcome" where
  "events f s [] = Ret s"
| "events f s (e # es) = bnd (f s e) (\<lambda>s'. events f s' es)"

definition empty_zone :: mm_zone where
  "empty_zone = \<lparr> page_count = 0, blocks = replicate BUDDY_MAX_ORDER [] \<rparr>"

text \<open>The page array is a block of order 12; a \<open>page_t\<close> takes 24 bytes of it.\<close>

definition PAGE_ARRAY_LEN :: nat where
  "PAGE_ARRAY_LEN = 2 ^ 12 * 4096 div 24"

definition zones_init :: "mb_event list \<Rightarrow> pfa outcome" where
  "zones_init evs =
     (let s0 = \<lparr> zone_dma = empty_zone, zone_normal = empty_zone, zone_high = empty_zone, page_array = [] \<rparr> in
      bnd (events claim_range_preinit s0 evs) (\<lambda>s.
      bnd (alloc_mem s 1 12) (\<lambda>(pa_mem, s).
      kassert (pa_mem \<noteq> INVALID_ADDRESS)
        (bnd (events claim_range_postinit
               (replicate PAGE_ARRAY_LEN \<lparr> pg_type = 0, pg_order = 0, pg_first = 0 \<rparr>) evs) (\<lambda>pa.
         bnd (page_array_add_block pa MM_PT_IN_USE pa_mem 12) (\<lambda>pa.
         Ret (s\<lparr> page_array := pa \<rparr>)))))))"

definition mm_zones_init :: "nat \<Rightarrow> mem \<Rightarrow> nat \<Rightarrow> pfa outcome option" where
  "mm_zones_init fuel m arg =
     map_option (\<lambda>evs. bnd evs zones_init) (multiboot2_map_memory fuel m arg)"

section \<open>The free pages of a zone\<close>

definition block_ok :: "u64 \<Rightarrow> nat \<Rightarrow> bool" where
  "block_ok start order \<longleftrightarrow> order < 16 \<and> unat start mod 4096 = 0 \<and> unat start + 2 ^ order * 4096 \<le> 2 ^ 64"

definition block_pages :: "u64 \<Rightarrow> nat \<Rightarrow> nat multiset" where
  "block_pages start order = mset [unat start div 4096 ..< unat start div 4096 + 2 ^ order]"

definition blk_ok :: "nat \<Rightarrow> mm_block \<Rightarrow> bool" where
  "blk_ok order b \<longleftrightarrow> block_ok (blk_start b) order \<and> blk_end b = blk_start b + block_bytes order - 1"

definition zone_ok :: "mm_zone \<Rightarrow> bool" where
  "zone_ok z \<longleftrightarrow> length (blocks z) = 16 \<and> (\<forall>ord<16. \<forall>b\<in>set (blocks z ! ord). blk_ok ord b)"

text \<open>Every page of every free block, with its multiplicity.\<close>

definition level_pages :: "nat \<Rightarrow> mm_block list \<Rightarrow> nat multiset" where
  "level_pages ord l = sum_list (map (\<lambda>b. block_pages (blk_start b) ord) l)"

definition zone_pages :: "mm_zone \<Rightarrow> nat multiset" where
  "zone_pages z = (\<Sum>ord<length (blocks z). level_pages ord (blocks z ! ord))"

lemma level_pages_simps [simp]:
  "level_pages ord [] = {#}"
  "level_pages ord (b # l) = block_pages (blk_start b) ord + level_pages ord l"
  by (simp_all add: level_pages_def)

lemma sum_update:
  fixes f :: "nat \<Rightarrow> 'a \<Rightarrow> nat multiset"
  assumes "k < length xs"
  shows "(\<Sum>i<length xs. f i (xs[k := v] ! i)) + f k (xs ! k) = (\<Sum>i<length xs. f i (xs ! i)) + f k v"
proof -
  have "(\<Sum>i<length xs. f i (xs[k := v] ! i)) = f k v + (\<Sum>i\<in>{..<length xs} - {k}. f i (xs ! i))"
    using assms by (simp add: sum.remove [of _ k])
  moreover have "(\<Sum>i<length xs. f i (xs ! i)) = f k (xs ! k) + (\<Sum>i\<in>{..<length xs} - {k}. f i (xs ! i))"
    using assms by (simp add: sum.remove [of _ k])
  ultimately show ?thesis by simp
qed

lemma zone_pages_update:
  assumes "ord < length (blocks z)"
  shows "zone_pages (z\<lparr> blocks := (blocks z)[ord := l] \<rparr>) + level_pages ord (blocks z ! ord)
    = zone_pages z + level_pages ord l"
  using sum_update [OF assms, of level_pages l] by (simp add: zone_pages_def)

lemma zone_pages_count [simp]: "zone_pages (z\<lparr> page_count := n \<rparr>) = zone_pages z"
  by (simp add: zone_pages_def)

lemma zone_ok_count [simp]: "zone_ok (z\<lparr> page_count := n \<rparr>) = zone_ok z"
  by (simp add: zone_ok_def)

lemma zone_ok_update:
  "zone_ok z \<Longrightarrow> ord < 16 \<Longrightarrow> \<forall>b\<in>set l. blk_ok ord b \<Longrightarrow> zone_ok (z\<lparr> blocks := (blocks z)[ord := l] \<rparr>)"
  by (auto simp: zone_ok_def nth_list_update)

lemma zone_push_ok:
  assumes "zone_ok z" and "ord < 16" and "blk_ok ord b"
  shows "\<exists>z'. zone_push z ord b = Ret z' \<and> zone_ok z' \<and>
    zone_pages z' = zone_pages z + block_pages (blk_start b) ord"
proof -
  let ?z = "z\<lparr> blocks := (blocks z)[ord := b # blocks z ! ord] \<rparr>"
  have len: "length (blocks z) = 16" using assms(1) by (simp add: zone_ok_def)
  have "zone_push z ord b = Ret ?z" using len assms(2) by (simp add: zone_push_def)
  moreover have "zone_ok ?z" using assms by (intro zone_ok_update) (auto simp: zone_ok_def)
  moreover have "zone_pages ?z = zone_pages z + block_pages (blk_start b) ord"
    using zone_pages_update [of ord z "b # blocks z ! ord"] len assms(2)
    by (simp add: add.assoc [symmetric])
  ultimately show ?thesis by blast
qed

lemma get_free_entry_ok:
  assumes "zone_ok z" and "ord < 16" and "blocks z ! ord = b # l"
  shows "\<exists>z'. get_free_entry z ord = Ret (b, z') \<and> zone_ok z' \<and> blk_ok ord b \<and>
    zone_pages z = zone_pages z' + block_pages (blk_start b) ord"
proof -
  let ?z = "z\<lparr> blocks := (blocks z)[ord := l] \<rparr>"
  have len: "length (blocks z) = 16" using assms(1) by (simp add: zone_ok_def)
  have "get_free_entry z ord = Ret (b, ?z)"
    using len assms(2,3) by (simp add: get_free_entry_def BUDDY_MAX_ORDER_def)
  moreover have "\<forall>b'\<in>set (b # l). blk_ok ord b'" using assms by (auto simp: zone_ok_def)
  moreover from this have "zone_ok ?z" using assms(1,2) by (intro zone_ok_update) auto
  moreover have "zone_pages z = zone_pages ?z + block_pages (blk_start b) ord"
    using zone_pages_update [of ord z l] len assms(2,3) by (simp add: add.assoc [symmetric])
  ultimately show ?thesis by (metis list.set_intros(1))
qed

text \<open>Halving a block.\<close>

lemma unat_block_bytes: "ord < 17 \<Longrightarrow> unat (block_bytes ord) = 2 ^ ord * 4096"
proof -
  assume "ord < 17"
  then have "(2 :: nat) ^ ord \<le> 2 ^ 16" by (intro power_increasing) auto
  then have "2 ^ ord * 4096 < (2 :: nat) ^ 64" by simp
  moreover have "block_bytes ord = of_nat (2 ^ ord * 4096)"
    by (simp add: block_bytes_def push_bit_eq_mult)
  ultimately show ?thesis by (simp only: unat_of_nat_u64)
qed

lemma block_bytes_Suc: "block_bytes (Suc ord) = block_bytes ord + block_bytes ord"
  by (simp add: block_bytes_def push_bit_eq_mult)

lemma block_half:
  assumes "block_ok start (Suc ord)"
  shows "block_ok start ord" and "block_ok (start + block_bytes ord) ord"
    and "block_pages start (Suc ord) = block_pages start ord + block_pages (start + block_bytes ord) ord"
proof -
  have b: "unat (block_bytes ord) = 2 ^ ord * 4096"
    using assms by (intro unat_block_bytes) (simp add: block_ok_def)
  have "0 < (2 :: nat) ^ ord" by simp
  then have "unat start + unat (block_bytes ord) < 2 ^ 64"
    using assms b unfolding block_ok_def power_Suc by linarith
  then have sum: "unat (start + block_bytes ord) = unat start + 2 ^ ord * 4096"
    unfolding b [symmetric] by (simp add: unat_word_ariths)
  show "block_ok start ord" and "block_ok (start + block_bytes ord) ord"
    using assms sum by (auto simp: block_ok_def)
  let ?p = "unat start div 4096"
  have "unat (start + block_bytes ord) div 4096 = ?p + 2 ^ ord" using sum by simp
  moreover have "[?p ..< ?p + 2 ^ Suc ord] = [?p ..< ?p + 2 ^ ord] @ [?p + 2 ^ ord ..< ?p + 2 ^ ord + 2 ^ ord]"
    using upt_add_eq_append [of ?p "?p + 2 ^ ord" "2 ^ ord"] unfolding power_Suc mult_2 add.assoc by simp
  ultimately show "block_pages start (Suc ord) = block_pages start ord + block_pages (start + block_bytes ord) ord"
    by (simp add: block_pages_def)
qed

text \<open>A part of the free pages handed out: \<open>takes z a ord z'\<close>.\<close>

definition takes :: "mm_zone \<Rightarrow> u64 \<Rightarrow> nat \<Rightarrow> mm_zone \<Rightarrow> bool" where
  "takes z a ord z' \<longleftrightarrow> zone_ok z' \<and> block_ok a ord \<and> zone_pages z = zone_pages z' + block_pages a ord"

lemma split_loop_ok:
  assumes "zone_ok z" and "req \<le> so" and "block_ok start so"
  shows "\<exists>a z'. split_loop z req so start = Ret (a, z') \<and> zone_ok z' \<and> block_ok a req \<and>
    zone_pages z + block_pages start so = zone_pages z' + block_pages a req"
  using assms
proof (induction "so - req" arbitrary: so start z)
  case 0
  then have "so = req" by simp
  then show ?case using 0 by (subst split_loop.simps) simp
next
  case (Suc d)
  then obtain k where k: "so = Suc k" "req \<le> k" by (cases so) auto
  note half = block_half [OF Suc.prems(3) [unfolded k(1)]]
  let ?b = "\<lparr> blk_start = start, blk_end = start + block_bytes k - 1 \<rparr>"
  have k16: "k < 16" using Suc.prems(3) k(1) by (simp add: block_ok_def)
  obtain z1 where z1: "zone_push z k ?b = Ret z1" "zone_ok z1" "zone_pages z1 = zone_pages z + block_pages start k"
    using zone_push_ok [OF Suc.prems(1) k16, of ?b] half(1) by (auto simp: blk_ok_def)
  obtain a z' where "split_loop z1 req k (start + block_bytes k) = Ret (a, z')" "zone_ok z'" "block_ok a req"
      "zone_pages z1 + block_pages (start + block_bytes k) k = zone_pages z' + block_pages a req"
  proof -
    have "d = k - req" using Suc.hyps(2) k by simp
    from Suc.hyps(1) [OF this z1(2) k(2) half(2)] show ?thesis using that by blast
  qed
  then show ?case using z1 half k
    by (subst split_loop.simps) (simp add: Let_def add.assoc)
qed

lemma split_block_ok:
  assumes "zone_ok z" and "req < so" and "so < 16" and "blocks z ! so \<noteq> []"
  shows "\<exists>a z'. split_block z req so = Ret (a, z') \<and> takes z a req z'"
proof -
  obtain k where k: "so = Suc k" "req \<le> k" using assms(2) by (cases so) auto
  obtain b l where bl: "blocks z ! so = b # l" using assms(4) by (cases "blocks z ! so") auto
  obtain z0 where z0: "get_free_entry z so = Ret (b, z0)" "zone_ok z0" "blk_ok so b"
      "zone_pages z = zone_pages z0 + block_pages (blk_start b) so"
    using get_free_entry_ok [OF assms(1,3) bl] by blast
  have ok: "block_ok (blk_start b) (Suc k)" using z0(3) k by (simp add: blk_ok_def)
  note half = block_half [OF ok]
  let ?b = "b\<lparr> blk_end := blk_end b - block_bytes k \<rparr>"
  have "blk_ok k ?b" using z0(3) half(1) k by (simp add: blk_ok_def block_bytes_Suc)
  then obtain z1 where z1: "zone_push z0 k ?b = Ret z1" "zone_ok z1"
      "zone_pages z1 = zone_pages z0 + block_pages (blk_start b) k"
    using zone_push_ok [OF z0(2), of k ?b] assms(3) k by auto
  obtain a z' where z': "split_loop z1 req k (blk_start b + block_bytes k) = Ret (a, z')" "zone_ok z'" "block_ok a req"
      "zone_pages z1 + block_pages (blk_start b + block_bytes k) k = zone_pages z' + block_pages a req"
    using split_loop_ok [OF z1(2) k(2) half(2)] by blast
  have "split_block z req so = Ret (a, z')"
    using z0(1) z1(1) z'(1) assms(2,3) k by (simp add: split_block_def BUDDY_MAX_ORDER_def Let_def)
  moreover have "takes z a req z'"
    using z0(4) z1(3) z'(2-4) half(3) k unfolding takes_def by (simp add: add.assoc)
  ultimately show ?thesis by blast
qed

lemma alloc_orders_ok:
  assumes "zone_ok z" and "order \<le> i"
  shows "(\<exists>a z'. alloc_orders z order i = Ret (a, z') \<and> takes z a order z') \<or>
    alloc_orders z order i = Ret (INVALID_ADDRESS, z) \<and> (\<forall>k. i \<le> k \<and> k < 16 \<longrightarrow> blocks z ! k = [])"
  using assms(2)
proof (induction "16 - i" arbitrary: i)
  case 0
  then show ?case by (subst (2) alloc_orders.simps) (auto simp: BUDDY_MAX_ORDER_def)
next
  case (Suc d)
  then have i: "i < 16" by simp
  have len: "length (blocks z) = 16" using assms(1) by (simp add: zone_ok_def)
  show ?case
  proof (cases "blocks z ! i")
    case Nil
    then have "alloc_orders z order i = alloc_orders z order (Suc i)"
      using i len by (subst alloc_orders.simps) (simp add: BUDDY_MAX_ORDER_def)
    moreover have "i \<le> k \<longleftrightarrow> k = i \<or> Suc i \<le> k" for k by auto
    ultimately show ?thesis using Suc.hyps(1) [of "Suc i"] Suc.hyps(2) Suc.prems Nil by auto
  next
    case (Cons b l)
    show ?thesis
    proof (cases "i = order")
      case True
      then show ?thesis using get_free_entry_ok [OF assms(1) i Cons] i len Cons
        by (subst alloc_orders.simps) (auto simp: BUDDY_MAX_ORDER_def takes_def blk_ok_def)
    next
      case False
      then show ?thesis using split_block_ok [OF assms(1), of order i] Suc.prems i len Cons
        by (subst alloc_orders.simps) (auto simp: BUDDY_MAX_ORDER_def)
    qed
  qed
qed

section \<open>The page array\<close>

definition marked :: "page list \<Rightarrow> nat \<Rightarrow> nat \<Rightarrow> nat \<Rightarrow> page list \<Rightarrow> bool" where
  "marked pa ty p n pa' \<longleftrightarrow> length pa' = length pa \<and> (\<forall>j. p \<le> j \<and> j < p + n \<longrightarrow> pg_type (pa' ! j) = ty) \<and>
     (\<forall>j. \<not> (p \<le> j \<and> j < p + n) \<longrightarrow> pa' ! j = pa ! j)"

lemma page_array_loop_ok:
  assumes "unat pfn + 2 ^ order \<le> length pa" and "length pa < 2 ^ 32" and "0 < i" and "i \<le> 2 ^ order"
  shows "\<exists>pa'. page_array_loop pa pfn ty order i = Ret pa' \<and> marked pa (ty mod 4) (unat pfn + i) (2 ^ order - i) pa'"
  using assms
proof (induction "2 ^ order - i" arbitrary: pa i)
  case 0
  then show ?case by (subst page_array_loop.simps) (simp add: marked_def)
next
  case (Suc d)
  then have i: "i < 2 ^ order" by simp
  have b: "unat pfn + i < length pa" using i Suc.prems(1) by linarith
  then have u: "unat (pfn + of_nat i) = unat pfn + i"
    using Suc.prems(2) by (simp add: unat_word_ariths unat_of_nat)
  let ?pg = "\<lparr> pg_type = ty mod 4, pg_order = order mod 32, pg_first = 0 \<rparr>"
  let ?pa = "pa[unat pfn + i := ?pg]"
  obtain pa' where pa': "page_array_loop ?pa pfn ty order (Suc i) = Ret pa'"
      "marked ?pa (ty mod 4) (unat pfn + Suc i) (2 ^ order - Suc i) pa'"
  proof -
    have "d = 2 ^ order - Suc i" using Suc.hyps(2) by simp
    from Suc.hyps(1) [OF this, of ?pa] show ?thesis using that Suc.prems i by auto
  qed
  have "page_array_loop pa pfn ty order i = Ret pa'"
    using b u i pa'(1) by (subst page_array_loop.simps) simp
  moreover have "marked pa (ty mod 4) (unat pfn + i) (2 ^ order - i) pa'"
    unfolding marked_def
  proof (intro conjI allI impI)
    show "length pa' = length pa" using pa'(2) by (simp add: marked_def)
  next
    fix j assume j: "unat pfn + i \<le> j \<and> j < unat pfn + i + (2 ^ order - i)"
    show "pg_type (pa' ! j) = ty mod 4"
      using pa'(2) j b by (cases "j = unat pfn + i") (auto simp: marked_def)
  next
    fix j assume "\<not> (unat pfn + i \<le> j \<and> j < unat pfn + i + (2 ^ order - i))"
    then show "pa' ! j = pa ! j" using pa'(2) i by (auto simp: marked_def)
  qed
  ultimately show ?case by blast
qed

lemma pfn_eq: "unat (drop_bit 12 (a :: u64)) = unat a div 4096"
  by (simp add: drop_bit_eq_div unat_div)

lemma pfn32: "unat a div 4096 < 2 ^ 32 \<Longrightarrow> unat (ucast (drop_bit 12 (a :: u64)) :: u32) = unat a div 4096"
  by (simp add: unsigned_ucast_eq pfn_eq take_bit_nat_eq_self)

lemma page_array_add_block_ok:
  assumes "unat start div 4096 + 2 ^ order \<le> length pa" and "length pa < 2 ^ 32"
  shows "\<exists>pa'. page_array_add_block pa ty start order = Ret pa' \<and>
    marked pa (ty mod 4) (unat start div 4096) (2 ^ order) pa'"
proof -
  let ?p = "unat start div 4096"
  have p: "unat (ucast (drop_bit 12 start) :: u32) = ?p" using assms by (intro pfn32) simp
  have "0 < (2 :: nat) ^ order" by simp
  then have b: "?p < length pa" "Suc 0 \<le> 2 ^ order" using assms(1) by linarith+
  let ?pa = "pa[?p := \<lparr> pg_type = ty mod 4, pg_order = order mod 32, pg_first = 1 \<rparr>]"
  obtain pa' where pa': "page_array_loop ?pa (ucast (drop_bit 12 start)) ty order 1 = Ret pa'"
      "marked ?pa (ty mod 4) (?p + 1) (2 ^ order - 1) pa'"
    using page_array_loop_ok [of "ucast (drop_bit 12 start)" order ?pa 1 ty] assms p by auto
  have "marked pa (ty mod 4) ?p (2 ^ order) pa'"
    unfolding marked_def
  proof (intro conjI allI impI)
    show "length pa' = length pa" using pa'(2) by (simp add: marked_def)
  next
    fix j assume "?p \<le> j \<and> j < ?p + 2 ^ order"
    then show "pg_type (pa' ! j) = ty mod 4"
      using pa'(2) b by (cases "j = ?p") (auto simp: marked_def)
  next
    fix j assume "\<not> (?p \<le> j \<and> j < ?p + 2 ^ order)"
    moreover from this b(2) have "j \<noteq> ?p" by linarith
    ultimately show "pa' ! j = pa ! j" using pa'(2) by (auto simp: marked_def)
  qed
  then show ?thesis using pa'(1) p b by (simp add: page_array_add_block_def)
qed

lemma page_array_add_block_out:
  assumes "length pa \<le> unat start div 4096" and "unat start div 4096 < 2 ^ 32"
  shows "page_array_add_block pa ty start order = Halt MemFault"
  using assms by (simp add: page_array_add_block_def pfn32)

section \<open>Allocating and freeing\<close>

lemma block_ok_valid: "block_ok a ord \<Longrightarrow> a \<noteq> INVALID_ADDRESS"
  by (auto simp: block_ok_def INVALID_ADDRESS_def)

lemma alloc_mem_ok:
  assumes "zone_ok (zone_normal s)" and "order \<le> 16"
  shows "(\<exists>a z'. alloc_mem s 1 order = Ret (a, s\<lparr> zone_normal := z' \<rparr>) \<and> takes (zone_normal s) a order z') \<or>
    alloc_mem s 1 order = Ret (INVALID_ADDRESS, s) \<and> (\<forall>k. order \<le> k \<and> k < 16 \<longrightarrow> blocks (zone_normal s) ! k = [])"
  using alloc_orders_ok [OF assms(1), of order order] assms(2)
  by (auto simp: alloc_mem_def BUDDY_MAX_ORDER_def)

lemma zone_add_block_ok:
  assumes "zone_ok z" and "block_ok a ord"
  shows "\<exists>z'. zone_add_block z a ord = Ret z' \<and> zone_ok z' \<and> zone_pages z' = zone_pages z + block_pages a ord"
proof -
  let ?b = "\<lparr> blk_start = a, blk_end = a + block_bytes ord - 1 \<rparr>"
  have "blk_ok ord ?b" "ord < 16" using assms(2) by (auto simp: blk_ok_def block_ok_def)
  from zone_push_ok [OF assms(1) this(2,1)] obtain z1 where
    "zone_push z ord ?b = Ret z1" "zone_ok z1" "zone_pages z1 = zone_pages z + block_pages a ord" by auto
  then show ?thesis by (simp add: zone_add_block_def)
qed

section \<open>The contract: a provider of page frames\<close>

primrec alloc_list :: "('s \<Rightarrow> nat \<Rightarrow> (u64 \<times> 's) outcome) \<Rightarrow> 's \<Rightarrow> nat list \<Rightarrow> ((u64 \<times> nat) list \<times> 's) outcome" where
  "alloc_list alloc s [] = Ret ([], s)"
| "alloc_list alloc s (ord # ords) =
     bnd (alloc s ord) (\<lambda>(a, s1). omap (\<lambda>(as, s2). ((a, ord) # as, s2)) (alloc_list alloc s1 ords))"

definition frames :: "(u64 \<times> nat) list \<Rightarrow> nat multiset" where
  "frames as = sum_list (map (\<lambda>(a, ord). block_pages a ord) as)"

lemma frames_simps [simp]: "frames [] = {#}" "frames ((a, ord) # as) = block_pages a ord + frames as"
  by (simp_all add: frames_def)

definition no_page_twice :: "nat multiset \<Rightarrow> bool" where
  "no_page_twice m \<longleftrightarrow> (\<forall>p. count m p \<le> 1)"

lemma no_page_twice_add:
  "no_page_twice (m + n) \<Longrightarrow> no_page_twice m \<and> no_page_twice n"
  "no_page_twice (m + n) \<Longrightarrow> p \<in># m \<Longrightarrow> p \<notin># n"
proof -
  assume *: "no_page_twice (m + n)"
  have c: "count m p + count n p \<le> 1" for p using * by (simp add: no_page_twice_def)
  show "no_page_twice m \<and> no_page_twice n"
    using c by (auto simp: no_page_twice_def intro: add_leD1 add_leD2)
  assume "p \<in># m"
  then have "1 \<le> count m p" by simp
  then have "count n p = 0" using c [of p] by linarith
  then show "p \<notin># n" by (simp add: not_in_iff)
qed

lemma frames_one: "k < length as \<Longrightarrow> p \<in># case_prod block_pages (as ! k) \<Longrightarrow> 1 \<le> count (frames as) p"
proof (induction as arbitrary: k)
  case (Cons x as)
  then show ?case by (cases k; cases x) (auto simp: add_increasing add_increasing2 Suc_le_eq)
qed simp

lemma frames_two:
  "i < j \<Longrightarrow> j < length as \<Longrightarrow> p \<in># case_prod block_pages (as ! i) \<Longrightarrow>
   p \<in># case_prod block_pages (as ! j) \<Longrightarrow> 2 \<le> count (frames as) p"
proof (induction as arbitrary: i j)
  case (Cons x as)
  obtain a ord where x: "x = (a, ord)" by (cases x)
  obtain j' where j': "j = Suc j'" using Cons.prems(1) by (cases j) auto
  show ?case
  proof (cases i)
    case 0
    then have "1 \<le> count (block_pages a ord) p" "1 \<le> count (frames as) p"
      using Cons.prems x j' frames_one [of j' as p] by auto
    then have "2 \<le> count (block_pages a ord) p + count (frames as) p" by linarith
    then show ?thesis using x by simp
  next
    case (Suc i')
    then have "2 \<le> count (frames as) p" using Cons.IH [of i' j'] Cons.prems j' by simp
    then show ?thesis using x by simp
  qed
qed simp

locale frame_provider =
  fixes inv :: "'s \<Rightarrow> bool" and pool :: "'s \<Rightarrow> nat multiset" and alloc :: "'s \<Rightarrow> nat \<Rightarrow> (u64 \<times> 's) outcome"
  assumes alloc_takes: "inv s \<Longrightarrow> ord < 16 \<Longrightarrow> alloc s ord = Ret (a, s') \<Longrightarrow>
    inv s' \<and> block_ok a ord \<and> pool s = pool s' + block_pages a ord"
begin

lemma alloc_list_pool:
  "inv s \<Longrightarrow> \<forall>ord\<in>set ords. ord < 16 \<Longrightarrow> alloc_list alloc s ords = Ret (as, s') \<Longrightarrow>
   inv s' \<and> pool s = pool s' + frames as"
proof (induction ords arbitrary: s as)
  case (Cons ord ords)
  obtain a s1 as1 where a: "alloc s ord = Ret (a, s1)" "alloc_list alloc s1 ords = Ret (as1, s')" "as = (a, ord) # as1"
    using Cons.prems(3) by (auto simp: bnd_Ret_iff omap_Ret_iff)
  have "inv s1" "pool s = pool s1 + block_pages a ord" using alloc_takes [OF Cons.prems(1) _ a(1)] Cons.prems(2) by auto
  moreover have "inv s' \<and> pool s1 = pool s' + frames as1"
    using Cons.IH [OF _ _ a(2)] Cons.prems(2) calculation(1) by auto
  ultimately show ?case using a(3) by (simp add: add.assoc add.commute)
qed simp

text \<open>From a pool without duplicates, blocks handed out one after the other share no page.\<close>

lemma alloc_list_disjoint:
  assumes "inv s" and "\<forall>ord\<in>set ords. ord < 16" and "alloc_list alloc s ords = Ret (as, s')"
    and "no_page_twice (pool s)" and "i < j" and "j < length as"
  shows "set_mset (case_prod block_pages (as ! i)) \<inter> set_mset (case_prod block_pages (as ! j)) = {}"
proof -
  have "no_page_twice (frames as)"
    using alloc_list_pool [OF assms(1-3)] assms(4) no_page_twice_add(1) by metis
  then show ?thesis using frames_two [OF assms(5,6)] unfolding no_page_twice_def
    by (auto simp: disjoint_iff) (metis not_less_eq_eq numeral_2_eq_2 One_nat_def)
qed

end

definition pfa_inv :: "pfa \<Rightarrow> bool" where
  "pfa_inv s \<longleftrightarrow> zone_ok (zone_normal s) \<and> length (page_array s) < 2 ^ 32"

lemma mm_block_alloc_takes:
  assumes "pfa_inv s" and "ord < 16" and "mm_block_alloc s 1 ord = Ret (a, s')"
  shows "pfa_inv s' \<and> takes (zone_normal s) a ord (zone_normal s')"
proof -
  have z: "zone_ok (zone_normal s)" using assms(1) by (simp add: pfa_inv_def)
  obtain z' where z': "alloc_mem s 1 ord = Ret (a, s\<lparr> zone_normal := z' \<rparr>)" "takes (zone_normal s) a ord z'"
    using alloc_mem_ok [OF z, of ord] assms(2,3)
    by (auto simp: mm_block_alloc_def bnd_Ret_iff kassert_Ret_iff)
  obtain pa where pa: "page_array_add_block (page_array s) MM_PT_IN_USE a ord = Ret pa"
      "s' = s\<lparr> zone_normal := z', page_array := pa \<rparr>"
    using assms(3) z'(1) by (auto simp: mm_block_alloc_def bnd_Ret_iff kassert_Ret_iff)
  have "length pa = length (page_array s)" if "page_array_loop pa0 p ty n i = Ret pa" "length pa0 = length (page_array s)"
    for pa0 p ty n i
    using that by (induction pa0 p ty n i rule: page_array_loop.induct)
      (subst (asm) (2) page_array_loop.simps, auto simp: bnd_Ret_iff wr_Ret_iff split: if_splits)
  then have "length pa = length (page_array s)"
    using pa(1) by (auto simp: page_array_add_block_def bnd_Ret_iff wr_Ret_iff Let_def)
  then show ?thesis using assms(1) z'(2) pa(2) by (simp add: pfa_inv_def takes_def)
qed

interpretation pfr: frame_provider pfa_inv "\<lambda>s. zone_pages (zone_normal s)" "\<lambda>s. mm_block_alloc s 1"
  using mm_block_alloc_takes by unfold_locales (auto simp: takes_def)

section \<open>Claiming a range\<close>

lemma claim_order_one: "claim_order start order (Suc 0) 0 = ([(start, order)], start + block_bytes order)"
  by (subst claim_order.simps, subst claim_order.simps) simp

lemma unat_block_bytes_pos: "ord < 17 \<Longrightarrow> 0 < unat (block_bytes ord)"
  by (simp add: unat_block_bytes)

text \<open>Below two blocks of the top order the pieces tile the range, largest first.\<close>

lemma claim_orders_tile:
  "k \<le> 16 \<Longrightarrow> unat len < 2 ^ k * 4096 \<Longrightarrow> unat start mod 4096 = 0 \<Longrightarrow> unat start + unat len < 2 ^ 64 \<Longrightarrow>
   frames (claim_orders start len k) = mset [unat start div 4096 ..< unat start div 4096 + unat len div 4096] \<and>
   (\<forall>b\<in>set (claim_orders start len k). block_ok (fst b) (snd b))"
proof (induction k arbitrary: start len)
  case 0
  then have "unat len div 4096 = 0" by simp
  then show ?case by simp
next
  case (Suc k)
  have bb: "unat (block_bytes k) = 2 ^ k * 4096" using Suc.prems(1) by (intro unat_block_bytes) simp
  have num: "unat (len div block_bytes k) = unat len div (2 ^ k * 4096)"
    and rem: "unat (len mod block_bytes k) = unat len mod (2 ^ k * 4096)"
    by (simp_all add: unat_div unat_mod bb)
  show ?case
  proof (cases "unat len < 2 ^ k * 4096")
    case True
    then have "unat (len div block_bytes k) = 0" using num by simp
    then have "len div block_bytes k = 0" by (simp only: unat_eq_0)
    then show ?thesis using Suc.IH [of len start] True Suc.prems by (simp add: Let_def)
  next
    case False
    have n1: "unat len div (2 ^ k * 4096) = 1" using False Suc.prems(2) by (intro div_nat_eqI) auto
    then have num1: "unat (len div block_bytes k) = Suc 0" using num by simp
    have r: "unat len = 2 ^ k * 4096 + unat (len mod block_bytes k)"
      using div_mult_mod_eq [of "unat len" "2 ^ k * 4096"] n1 rem by simp
    have st: "unat (start + block_bytes k) = unat start + 2 ^ k * 4096"
      using Suc.prems(4) bb r by (subst unat_add_u64) auto
    have step: "claim_orders start len (Suc k)
        = (start, k) # claim_orders (start + block_bytes k) (len mod block_bytes k) k"
      using num1 by (simp add: claim_order_one word_greater_zero_iff Let_def flip: unat_gt_0)
    have "(0 :: nat) < 2 ^ k" by simp
    then have "unat (len mod block_bytes k) < 2 ^ k * 4096" unfolding rem by (intro mod_less_divisor) simp
    note ih = Suc.IH [OF _ this, of "start + block_bytes k"]
    have ih: "frames (claim_orders (start + block_bytes k) (len mod block_bytes k) k)
        = mset [unat start div 4096 + 2 ^ k ..< unat start div 4096 + 2 ^ k + unat (len mod block_bytes k) div 4096] \<and>
      (\<forall>b\<in>set (claim_orders (start + block_bytes k) (len mod block_bytes k) k). block_ok (fst b) (snd b))"
      using ih Suc.prems st r by (simp add: add.commute)
    have "unat len div 4096 = 2 ^ k + unat (len mod block_bytes k) div 4096" using r by simp
    moreover have "mset [p ..< p + (2 ^ k + q)] = mset [p ..< p + 2 ^ k] + mset [p + 2 ^ k ..< p + 2 ^ k + q]" for p q
      using upt_add_eq_append [of p "p + 2 ^ k" q] by (simp add: add.assoc)
    moreover have "block_ok start k" using Suc.prems r by (simp add: block_ok_def)
    ultimately show ?thesis unfolding step using ih by (simp add: block_pages_def)
  qed
qed

lemma claim_blocks_tile:
  assumes "unat start mod 4096 = 0" and "unat fin mod 4096 = 0" and "start \<le> fin" and "unat fin - unat start < 2 ^ 28"
  shows "frames (claim_blocks start fin) = mset [unat start div 4096 ..< unat fin div 4096] \<and>
    (\<forall>b\<in>set (claim_blocks start fin). block_ok (fst b) (snd b))"
proof -
  have len: "unat (fin - start) = unat fin - unat start" using assms(3) by (simp add: unat_sub)
  have le: "unat start \<le> unat fin" using assms(3) by (simp add: word_le_nat_alt)
  obtain x y where xy: "unat start = 4096 * x" "unat fin = 4096 * y" using assms(1,2) by (auto elim!: dvdE simp: mod_eq_0_iff_dvd)
  then have "x \<le> y" using le by simp
  then have pages: "unat start div 4096 + unat (fin - start) div 4096 = unat fin div 4096"
    using xy len by (simp flip: diff_mult_distrib2)
  show ?thesis
  proof (cases "fin - start < 4096")
    case True
    then have "unat (fin - start) < 4096" by (simp add: word_less_nat_alt)
    then have "x = y" using xy len \<open>x \<le> y\<close> by simp
    then show ?thesis using True xy by (simp add: claim_blocks_def)
  next
    case False
    have "unat start + unat (fin - start) < 2 ^ 64" using len le unat_u64_less [of fin] by simp
    with claim_orders_tile [of 16 "fin - start" start] False assms(1,4) len pages show ?thesis
      by (simp add: claim_blocks_def BUDDY_MAX_ORDER_def)
  qed
qed

lemma claim_zone_ok:
  "zone_ok z \<Longrightarrow> \<forall>b\<in>set bs. block_ok (fst b) (snd b) \<Longrightarrow>
   \<exists>z'. claim_zone z bs = Ret z' \<and> zone_ok z' \<and> zone_pages z' = zone_pages z + frames bs"
proof (induction bs arbitrary: z)
  case (Cons b bs)
  obtain z1 where z1: "zone_add_block z (fst b) (snd b) = Ret z1" "zone_ok z1"
      "zone_pages z1 = zone_pages z + block_pages (fst b) (snd b)"
    using zone_add_block_ok [OF Cons.prems(1)] Cons.prems(2) by (meson list.set_intros(1))
  obtain z2 where "claim_zone z1 bs = Ret z2" "zone_ok z2" "zone_pages z2 = zone_pages z1 + frames bs"
    using Cons.IH [OF z1(2)] Cons.prems(2) by auto
  then show ?case using z1 by (cases b) (simp add: add.assoc)
qed simp

lemma round_up_div: "(n :: nat) mod 4096 \<noteq> 0 \<Longrightarrow> (n + 4095) div 4096 = n div 4096 + 1"
  by (simp add: div_add1_eq [of n 4095])

lemma unat_ROUND_UP:
  assumes "unat (a :: u64) + 4096 < 2 ^ 64"
  shows "unat (ROUND_UP a 4096) = (unat a + 4095) div 4096 * 4096"
proof (cases "unat a mod 4096 = 0")
  case True
  then show ?thesis by (auto simp: ROUND_UP_eq elim!: dvdE simp: mod_eq_0_iff_dvd)
next
  case False
  have "unat (ROUND_UP a 4096) = unat a div 4096 * 4096 + 4096"
    using False assms unat_ROUND_DOWN [of a] div_times_less_eq_dividend [of "unat a" 4096]
    by (simp add: ROUND_UP_eq) (subst unat_add_u64, auto)
  also have "\<dots> = (unat a + 4095) div 4096 * 4096"
    using False div_mult_mod_eq [of "unat a" 4096] div_mult_mod_eq [of "unat a + 4095" 4096]
    by (simp add: round_up_div)
  finally show ?thesis .
qed

lemma get_zone_normal:
  "MM_ZONE_NORMAL_START \<le> a \<Longrightarrow> a \<le> e \<Longrightarrow> e < MM_ZONE_NORMAL_END \<Longrightarrow> get_zone a e = Some ZNORMAL"
  by (auto simp: get_zone_def MM_ZONE_NORMAL_START_def MM_ZONE_DMA_END_def word_le_nat_alt word_less_nat_alt)

text \<open>A block that ends at the 2 GB boundary cannot be freed: it lies in no zone.\<close>

lemma mm_block_free_boundary:
  assumes "block_ok a ord" and "unat a + 2 ^ ord * 4096 = 2 ^ 31"
  shows "mm_block_free s a ord = Halt AssertFailed"
proof -
  have ord: "ord < 16" and al: "PAGE_ALIGNED a" using assms(1) by (auto simp: block_ok_def PAGE_ALIGNED_iff)
  then have "unat (a + block_bytes ord) = 2 ^ 31"
    using assms(2) unat_block_bytes [of ord] by (subst unat_add_u64) auto
  moreover have "(0 :: nat) < 2 ^ ord" by simp
  then have "unat a < 2 ^ 31" using assms(2) by linarith
  ultimately have "get_zone a (a + block_bytes ord) = None"
    by (simp add: get_zone_def MM_ZONE_DMA_END_def MM_ZONE_NORMAL_END_def MM_ZONE_HIGH_START_def
        word_less_nat_alt word_le_nat_alt)
  then show ?thesis using al by (simp add: mm_block_free_def)
qed

definition demo_pfa :: pfa where
  "demo_pfa = \<lparr> zone_dma = empty_zone,
     zone_normal = \<lparr> page_count = 4,
       blocks = (replicate 16 [])[2 := [\<lparr> blk_start = 0x1000000, blk_end = 0x1003fff \<rparr>]] \<rparr>,
     zone_high = empty_zone, page_array = replicate 5000 \<lparr> pg_type = 1, pg_order = 2, pg_first = 0 \<rparr> \<rparr>"

lemma demo_zone: "zone_normal demo_pfa = (empty_zone\<lparr> page_count := 4 \<rparr>)
    \<lparr> blocks := (blocks (empty_zone\<lparr> page_count := 4 \<rparr>))[2 := [\<lparr> blk_start = 0x1000000, blk_end = 0x1003fff \<rparr>]] \<rparr>"
  by (simp add: demo_pfa_def empty_zone_def BUDDY_MAX_ORDER_def)

lemma zone_pages_nonempty:
  assumes "zone_ok z" and "zone_pages z \<noteq> {#}"
  shows "\<exists>k<16. blocks z ! k \<noteq> []"
proof (rule ccontr)
  assume "\<not> (\<exists>k<16. blocks z ! k \<noteq> [])"
  then have "zone_pages z = {#}" using assms(1) by (simp add: zone_pages_def zone_ok_def)
  then show False using assms(2) by simp
qed

lemma empty_zone_ok: "zone_ok empty_zone" and empty_zone_pages: "zone_pages empty_zone = {#}"
  by (simp_all add: zone_ok_def zone_pages_def empty_zone_def BUDDY_MAX_ORDER_def)

lemma demo_pfa_inv: "pfa_inv demo_pfa"
proof -
  have "blk_ok 2 \<lparr> blk_start = 0x1000000, blk_end = 0x1003fff \<rparr>"
    by (simp add: blk_ok_def block_ok_def block_bytes_def)
  then have "zone_ok (zone_normal demo_pfa)"
    unfolding demo_zone using empty_zone_ok by (intro zone_ok_update) simp_all
  then show ?thesis by (simp add: pfa_inv_def demo_pfa_def)
qed

lemma demo_pfa_pages: "zone_pages (zone_normal demo_pfa) = mset [4096 ..< 4100]"
  unfolding demo_zone
  using zone_pages_update [of 2 "empty_zone\<lparr> page_count := 4 \<rparr>" "[\<lparr> blk_start = 0x1000000, blk_end = 0x1003fff \<rparr>]"]
  by (simp add: empty_zone_pages) (simp add: empty_zone_def BUDDY_MAX_ORDER_def block_pages_def)

text \<open>An allocation returns when a block large enough is free and the page array reaches
  every free page.\<close>

lemma mm_block_alloc_returns:
  assumes "pfa_inv s" and "ord < 16" and "ord \<le> k" and "k < 16" and "blocks (zone_normal s) ! k \<noteq> []"
    and "\<forall>p\<in>#zone_pages (zone_normal s). p < length (page_array s)"
  shows "\<exists>a s'. mm_block_alloc s 1 ord = Ret (a, s') \<and> length (page_array s') = length (page_array s)"
proof -
  have z: "zone_ok (zone_normal s)" "length (page_array s) < 2 ^ 32" using assms(1) by (simp_all add: pfa_inv_def)
  have "ord \<le> 16" using assms(2) by simp
  from alloc_mem_ok [OF z(1) this] obtain a z' where
    a: "alloc_mem s 1 ord = Ret (a, s\<lparr> zone_normal := z' \<rparr>)" "takes (zone_normal s) a ord z'"
    using assms(3-5) by blast
  let ?last = "unat a div 4096 + 2 ^ ord - 1"
  have pos: "(0 :: nat) < 2 ^ ord" by simp
  then have "unat a div 4096 \<le> ?last" "?last < unat a div 4096 + 2 ^ ord" by linarith+
  then have "?last \<in># block_pages a ord" by (simp add: block_pages_def)
  then have "?last < length (page_array s)" using a(2) assms(6) by (simp add: takes_def)
  then have "unat a div 4096 + 2 ^ ord \<le> length (page_array s)" using pos by linarith
  from page_array_add_block_ok [OF this z(2), of MM_PT_IN_USE] obtain pa where
    "page_array_add_block (page_array s) MM_PT_IN_USE a ord = Ret pa"
    "marked (page_array s) (MM_PT_IN_USE mod 4) (unat a div 4096) (2 ^ ord) pa" by blast
  moreover from this have "length pa = length (page_array s)" by (simp add: marked_def)
  ultimately show ?thesis using a block_ok_valid [of a ord] by (auto simp: mm_block_alloc_def takes_def)
qed

lemma demo_pfa_alloc: "\<exists>a s'. mm_block_alloc demo_pfa 1 1 = Ret (a, s') \<and> length (page_array s') = 5000"
proof -
  have "\<exists>a s'. mm_block_alloc demo_pfa 1 1 = Ret (a, s') \<and> length (page_array s') = length (page_array demo_pfa)"
  proof (rule mm_block_alloc_returns [OF demo_pfa_inv, of 1 2])
    show "\<forall>p\<in>#zone_pages (zone_normal demo_pfa). p < length (page_array demo_pfa)"
      unfolding demo_pfa_pages by (simp add: demo_pfa_def)
  qed (simp_all add: demo_pfa_def)
  then show ?thesis by (simp add: demo_pfa_def)
qed

section \<open>Properties\<close>

text \<open>
  C5: blocks handed out by a series of \<open>mm_block_alloc\<close> calls share no page, as long as
  the free lists held no page twice when the series began.
\<close>

theorem mm_block_alloc_disjoint:
  assumes "pfa_inv s" and "\<forall>ord\<in>set ords. ord < 16"
    and "alloc_list (\<lambda>s. mm_block_alloc s 1) s ords = Ret (as, s')"
    and "no_page_twice (zone_pages (zone_normal s))" and "i < j" and "j < length as"
  shows "set_mset (case_prod block_pages (as ! i)) \<inter> set_mset (case_prod block_pages (as ! j)) = {}"
  by (rule pfr.alloc_list_disjoint [OF assms])

lemma mm_block_alloc_disjoint_witness:
  "\<exists>as s'. alloc_list (\<lambda>s. mm_block_alloc s 1) demo_pfa [1, 0] = Ret (as, s') \<and>
     set_mset (case_prod block_pages (as ! 0)) \<inter> set_mset (case_prod block_pages (as ! 1)) = {}"
proof -
  obtain a s1 where s1: "mm_block_alloc demo_pfa 1 1 = Ret (a, s1)" "length (page_array s1) = 5000"
    using demo_pfa_alloc by blast
  then have t: "pfa_inv s1" "takes (zone_normal demo_pfa) a 1 (zone_normal s1)"
    using mm_block_alloc_takes [OF demo_pfa_inv _ s1(1)] by auto
  have "zone_pages (zone_normal s1) \<noteq> {#}"
  proof
    assume "zone_pages (zone_normal s1) = {#}"
    then have "size (mset [4096 ..< 4100 :: nat]) = size (block_pages a 1)"
      using t(2) demo_pfa_pages by (simp add: takes_def del: mset_upt)
    then show False by (simp add: block_pages_def del: mset_upt)
  qed
  then obtain k where k: "k < 16" "blocks (zone_normal s1) ! k \<noteq> []"
    using t(1) zone_pages_nonempty [of "zone_normal s1"] by (auto simp: pfa_inv_def)
  have "\<forall>p\<in>#zone_pages (zone_normal s1). p < length (page_array s1)"
  proof
    fix p assume "p \<in># zone_pages (zone_normal s1)"
    then have "p \<in># mset [4096 ..< 4100]" using t(2) demo_pfa_pages by (metis takes_def union_iff)
    then show "p < length (page_array s1)" using s1(2) by auto
  qed
  then obtain a' s2 where s2: "mm_block_alloc s1 1 0 = Ret (a', s2)"
    using mm_block_alloc_returns [OF t(1), of 0 k] k by auto
  then have r: "alloc_list (\<lambda>s. mm_block_alloc s 1) demo_pfa [1, 0] = Ret ([(a, 1), (a', 0)], s2)"
    using s1(1) by simp
  have "no_page_twice (zone_pages (zone_normal demo_pfa))"
    by (simp add: demo_pfa_pages no_page_twice_def)
  from mm_block_alloc_disjoint [OF demo_pfa_inv _ r this, of 0 1] r show ?thesis by auto
qed

text \<open>
  C6: \<open>mm_block_alloc\<close> takes exactly the pages of the block it returns out of the free lists
  of the zone, splitting a larger block if it must, and marks them in use; giving the
  block back with \<open>mm_block_free\<close>, inside the zone's bounds, restores the free pages and
  marks them free.
\<close>

theorem mm_block_alloc_free_roundtrip:
  assumes "pfa_inv s" and "ord < 16" and "mm_block_alloc s 1 ord = Ret (a, s1)"
    and "MM_ZONE_NORMAL_START \<le> a" and "unat a + 2 ^ ord * 4096 < 2 ^ 31 - 1"
    and "unat a div 4096 + 2 ^ ord \<le> length (page_array s1)"
  shows "zone_pages (zone_normal s) = zone_pages (zone_normal s1) + block_pages a ord \<and>
    (\<exists>s2. mm_block_free s1 a ord = Ret s2 \<and> pfa_inv s2 \<and>
      zone_pages (zone_normal s2) = zone_pages (zone_normal s) \<and>
      marked (page_array s1) MM_PT_FREE (unat a div 4096) (2 ^ ord) (page_array s2))"
proof -
  have t: "pfa_inv s1" "takes (zone_normal s) a ord (zone_normal s1)"
    using mm_block_alloc_takes [OF assms(1-3)] by auto
  then have ok: "block_ok a ord" "zone_ok (zone_normal s1)" "length (page_array s1) < 2 ^ 32"
    by (auto simp: takes_def pfa_inv_def)
  have e: "unat (a + block_bytes ord) = unat a + 2 ^ ord * 4096"
    using assms(2,5) unat_block_bytes [of ord] by (subst unat_add_u64) auto
  have z: "get_zone a (a + block_bytes ord) = Some ZNORMAL"
    by (rule get_zone_normal [OF assms(4)]) (use e assms(5) in \<open>auto simp: word_le_nat_alt word_less_nat_alt MM_ZONE_NORMAL_END_def\<close>)
  obtain pa where pa: "page_array_add_block (page_array s1) MM_PT_FREE a ord = Ret pa"
      "marked (page_array s1) MM_PT_FREE (unat a div 4096) (2 ^ ord) pa"
    using page_array_add_block_ok [OF assms(6) ok(3), of MM_PT_FREE] by (auto simp: MM_PT_FREE_def)
  obtain z2 where z2: "zone_add_block (zone_normal s1) a ord = Ret z2" "zone_ok z2"
      "zone_pages z2 = zone_pages (zone_normal s1) + block_pages a ord"
    using zone_add_block_ok [OF ok(2,1)] by blast
  have "mm_block_free s1 a ord = Ret (s1\<lparr> page_array := pa, zone_normal := z2 \<rparr>)"
    using z pa(1) z2(1) ok(1) by (simp add: mm_block_free_def PAGE_ALIGNED_iff block_ok_def)
  moreover have "length pa < 2 ^ 32" using pa(2) ok(3) by (simp add: marked_def)
  ultimately show ?thesis using z2 pa(2) t(2)
    by (intro conjI exI [of _ "s1\<lparr> page_array := pa, zone_normal := z2 \<rparr>"]) (auto simp: takes_def pfa_inv_def)
qed

text \<open>
  A range of the normal zone below 256 MB is claimed page by page: afterwards the
  free lists hold, besides what they held, each whole page of the range once.
\<close>

lemma mm_claim_range_correct:
  assumes "zone_ok (zone_normal s)" and "MM_ZONE_NORMAL_START \<le> address"
    and "unat address + unat len < 2 ^ 31 - 1" and "2 * 4096 \<le> unat len" and "unat len < 2 ^ 28"
  shows "\<exists>z. mm_claim_range s address len = Ret (s\<lparr> zone_normal := z \<rparr>) \<and> zone_ok z \<and>
    zone_pages z = zone_pages (zone_normal s) +
      mset [(unat address + 4095) div 4096 ..< (unat address + unat len) div 4096]"
proof -
  let ?s = "ROUND_UP address 4096" and ?e = "ROUND_DOWN (address + len) 4096"
  have al: "unat (address + len) = unat address + unat len" using assms(3) by (subst unat_add_u64) auto
  have e: "unat ?e = (unat address + unat len) div 4096 * 4096" by (simp add: unat_ROUND_DOWN al)
  have s: "unat ?s = (unat address + 4095) div 4096 * 4096" using assms(3) by (intro unat_ROUND_UP) simp
  have le: "unat ?s \<le> unat ?e" unfolding s e using assms(4) by (intro mult_le_mono1 div_le_mono) simp
  have "unat ?e \<le> unat address + unat len" "unat address \<le> unat ?s"
    unfolding s e using div_mult_mod_eq [of "unat address + 4095" 4096] mod_less_divisor [of 4096 "unat address + 4095"]
    by (simp, linarith)
  then have small: "unat ?e - unat ?s < 2 ^ 28" using assms(5) by linarith
  have tile: "frames (claim_blocks ?s ?e) = mset [unat ?s div 4096 ..< unat ?e div 4096] \<and>
      (\<forall>b\<in>set (claim_blocks ?s ?e). block_ok (fst b) (snd b))"
    by (rule claim_blocks_tile) (use s e le small in \<open>simp_all add: word_le_nat_alt\<close>)
  obtain z where z: "claim_zone (zone_normal s) (claim_blocks ?s ?e) = Ret z" "zone_ok z"
      "zone_pages z = zone_pages (zone_normal s) + frames (claim_blocks ?s ?e)"
    using claim_zone_ok [OF assms(1)] tile by blast
  have "get_zone address (address + len) = Some ZNORMAL"
    by (rule get_zone_normal [OF assms(2)])
       (use al assms(3) in \<open>auto simp: word_le_nat_alt word_less_nat_alt MM_ZONE_NORMAL_END_def\<close>)
  moreover have "\<not> address < MM_ZONE_NORMAL_START" using assms(2) by simp
  ultimately have "mm_claim_range s address len = Ret (s\<lparr> zone_normal := z \<rparr>)"
    using z(1) by (simp add: mm_claim_range_def)
  then show ?thesis using z tile s e by (intro exI [of _ z]) simp
qed

lemma mm_claim_range_correct_witness:
  "\<exists>z. mm_claim_range demo_pfa 0x2000123 0x5000 = Ret (demo_pfa\<lparr> zone_normal := z \<rparr>) \<and> zone_ok z \<and>
    zone_pages z = zone_pages (zone_normal demo_pfa) + mset [8193 ..< 8197]"
  using mm_claim_range_correct [of demo_pfa "0x2000123" "0x5000"] demo_pfa_inv
  by (simp add: pfa_inv_def MM_ZONE_NORMAL_START_def)

lemma mm_block_alloc_free_roundtrip_witness:
  "\<exists>a s1. mm_block_alloc demo_pfa 1 1 = Ret (a, s1) \<and>
    zone_pages (zone_normal demo_pfa) = zone_pages (zone_normal s1) + block_pages a 1 \<and>
    (\<exists>s2. mm_block_free s1 a 1 = Ret s2 \<and> pfa_inv s2 \<and>
      zone_pages (zone_normal s2) = zone_pages (zone_normal demo_pfa) \<and>
      marked (page_array s1) MM_PT_FREE (unat a div 4096) (2 ^ 1) (page_array s2))"
proof -
  obtain a s1 where s1: "mm_block_alloc demo_pfa 1 1 = Ret (a, s1)" "length (page_array s1) = 5000"
    using demo_pfa_alloc by blast
  then have t: "takes (zone_normal demo_pfa) a 1 (zone_normal s1)"
    using mm_block_alloc_takes [OF demo_pfa_inv _ s1(1)] by auto
  let ?p = "unat a div 4096"
  have "?p \<in># block_pages a 1" by (simp add: block_pages_def)
  then have "?p \<in># zone_pages (zone_normal demo_pfa)" using t by (simp add: takes_def)
  then have p: "4096 \<le> ?p" "?p < 4100" unfolding demo_pfa_pages by auto
  have a: "unat a = ?p * 4096" using t div_mult_mod_eq [of "unat a" 4096] by (simp add: takes_def block_ok_def)
  have "MM_ZONE_NORMAL_START \<le> a" "unat a + 2 ^ 1 * 4096 < 2 ^ 31 - 1"
    using a p by (simp_all add: MM_ZONE_NORMAL_START_def word_le_nat_alt)
  then show ?thesis
    using mm_block_alloc_free_roundtrip [OF demo_pfa_inv _ s1(1)] s1 p by auto
qed

text \<open>
  A range of three blocks of the top order is not claimed as such: the third block
  given to the allocator lies right behind the range, and the third block of the range
  is never claimed.
\<close>

lemma claim_blocks_skips:
  assumes "unat start + 4 * (2 ^ 27) \<le> 2 ^ 64"
  shows "claim_blocks start (start + 3 * 2 ^ 27) = [(start, 15), (start + 2 ^ 27, 15), (start + 3 * 2 ^ 27, 15)]"
proof -
  have b: "block_bytes 15 = 2 ^ 27" by (simp add: block_bytes_def)
  have n: "unat ((3 * 2 ^ 27 :: u64) div 2 ^ 27) = 3" "(3 * 2 ^ 27 :: u64) mod 2 ^ 27 = 0" "(3 * 2 ^ 27 :: u64) div 2 ^ 27 > 0"
    by simp_all
  have c: "claim_order s 15 3 0 = ([(s, 15), (s + 2 ^ 27, 15), (s + 3 * 2 ^ 27, 15)], s + 6 * 2 ^ 27)" for s
    by (simp add: claim_order.simps [of _ 15 3] b add.assoc)
  have z: "claim_orders s 0 k = []" for s k by (induction k) simp_all
  have o: "BUDDY_MAX_ORDER = Suc 15" by (simp add: BUDDY_MAX_ORDER_def)
  have ge: "\<not> (3 * 2 ^ 27 :: u64) < 4096" by simp
  have "claim_orders start (3 * 2 ^ 27) (Suc 15) = [(start, 15), (start + 2 ^ 27, 15), (start + 3 * 2 ^ 27, 15)]"
    unfolding claim_orders.simps b Let_def n(1,2) c using n(3) z by simp
  then show ?thesis using ge by (simp add: claim_blocks_def o del: claim_orders.simps)
qed

lemma claim_blocks_skips_witness:
  "claim_blocks 0x10000000 (0x10000000 + 3 * 2 ^ 27)
    = [(0x10000000, 15), (0x10000000 + 2 ^ 27, 15), (0x10000000 + 3 * 2 ^ 27, 15)]"
  by (rule claim_blocks_skips) simp

text \<open>
  The page array has 699050 entries, so marking a block at or above 0xaaaaa000 (2.7 GB)
  writes outside it; the firmware regions just below 4 GB that every PC's memory map
  lists are marked while the zones are initialised.
\<close>

lemma page_array_overrun:
  assumes "length pa = PAGE_ARRAY_LEN" and "0xaaaaa000 \<le> unat start" and "unat start < 2 ^ 44"
  shows "page_array_add_block pa ty start order = Halt MemFault"
proof -
  have "699050 \<le> unat start div 4096" using div_le_mono [OF assms(2), of 4096] by simp
  moreover have "unat start div 4096 < 2 ^ 32" using assms(3) by (simp add: less_mult_imp_div_less)
  ultimately show ?thesis using assms(1) by (intro page_array_add_block_out) (simp_all add: PAGE_ARRAY_LEN_def)
qed

lemma page_array_overrun_witness:
  "page_array_add_block (replicate PAGE_ARRAY_LEN \<lparr> pg_type = 0, pg_order = 0, pg_first = 0 \<rparr>) MM_PT_IN_USE 0xfffc0000 6
    = Halt MemFault"
  by (rule page_array_overrun) simp_all

end
