(* ===== verification/Heap.thy ===== *)
theory Heap
  imports Bootmem PageAlloc
begin

text \<open>
  \<open>src/mm/heap.c\<close>: the kernel heap, arenas of linked chunks with first fit, splitting and
  merging, over a store of chunk headers keyed by address (\<open>mm_chunk_t\<close> is packed, 25
  bytes). The arenas are a list, \<open>__mem\<close> first; their descriptors come from a slab cache
  that always has one. The loops over chunks have fuel.
\<close>

section \<open>The operations\<close>

definition CK :: nat where "CK = 25"
definition SPLIT_THRESHOLD :: nat where "SPLIT_THRESHOLD = 8"
definition HEAP_ARENA_SIZE :: nat where "HEAP_ARENA_SIZE = 2"

record mm_chunk =
  ck_size :: nat
  ck_free :: bool
  ck_next :: nat
  ck_prev :: nat

type_synonym cheap = "nat \<rightharpoonup> mm_chunk"

record heap =
  hp_pfa :: pfa
  hp_chunks :: cheap
  hp_arenas :: "(nat \<times> nat) list"
  hp_mem :: mem

definition chunk :: "cheap \<Rightarrow> nat \<Rightarrow> mm_chunk outcome" where
  "chunk h p = (if p = 0 then Halt MemFault else case h p of None \<Rightarrow> Halt MemFault | Some c \<Rightarrow> Ret c)"

definition set_ck_prev :: "cheap \<Rightarrow> nat \<Rightarrow> nat \<Rightarrow> cheap outcome" where
  "set_ck_prev h p v = omap (\<lambda>c. h(p \<mapsto> c\<lparr> ck_prev := v \<rparr>)) (chunk h p)"

definition new_arena_chunk :: mm_chunk where
  "new_arena_chunk = \<lparr> ck_size = 4096 * 2 ^ HEAP_ARENA_SIZE - CK, ck_free = True, ck_next = 0, ck_prev = 0 \<rparr>"

definition alloc_arena :: "heap \<Rightarrow> heap outcome" where
  "alloc_arena hp =
     bnd (mm_block_alloc (hp_pfa hp) 1 HEAP_ARENA_SIZE) (\<lambda>(mem, s).
       let base = unat (amd64_p_to_v mem) in
       Ret (hp\<lparr> hp_pfa := s, hp_chunks := (hp_chunks hp)(base \<mapsto> new_arena_chunk),
                hp_arenas := hp_arenas hp @ [(base, 4096 * 2 ^ HEAP_ARENA_SIZE)] \<rparr>))"

definition split_chunk :: "cheap \<Rightarrow> nat \<Rightarrow> nat \<Rightarrow> cheap outcome" where
  "split_chunk h block n =
     kassert (block \<noteq> 0)
       (bnd (chunk h block) (\<lambda>b.
        kassert (ck_size b \<ge> n)
          (if ck_size b - n < CK + SPLIT_THRESHOLD then Ret h
           else
             let new = block + CK + n;
                 h = h(new \<mapsto> \<lparr> ck_size = ck_size b - n - CK, ck_free = True, ck_next = ck_next b, ck_prev = block \<rparr>);
                 h = h(block \<mapsto> b\<lparr> ck_size := n, ck_next := new \<rparr>) in
             if ck_next b \<noteq> 0 then set_ck_prev h (ck_next b) new else Ret h)))"

primrec find_block :: "nat \<Rightarrow> cheap \<Rightarrow> nat \<Rightarrow> nat \<Rightarrow> nat outcome" where
  "find_block 0 h block n = Halt NoReturn"
| "find_block (Suc fuel) h block n =
     (if block = 0 then Ret 0
      else bnd (chunk h block) (\<lambda>b.
        if ck_free b \<and> ck_size b \<ge> n then Ret block else find_block fuel h (ck_next b) n))"

primrec find_arenas :: "nat \<Rightarrow> cheap \<Rightarrow> (nat \<times> nat) list \<Rightarrow> nat \<Rightarrow> (nat \<times> cheap) outcome" where
  "find_arenas fuel h [] n = Ret (0, h)"
| "find_arenas fuel h (ar # ars) n =
     bnd (find_block fuel h (fst ar) n) (\<lambda>block.
       if block \<noteq> 0 then bnd (split_chunk h block n) (\<lambda>h'. Ret (block, h'))
       else find_arenas fuel h ars n)"

definition find_free :: "nat \<Rightarrow> cheap \<Rightarrow> (nat \<times> nat) list \<Rightarrow> nat \<Rightarrow> (nat \<times> cheap) outcome" where
  "find_free fuel h ars n = kassert (n \<noteq> 0) (find_arenas fuel h ars n)"

text \<open>\<open>cur\<close> swallowed by the chunk before it, which is what both merges do.\<close>

definition join :: "cheap \<Rightarrow> nat \<Rightarrow> nat \<Rightarrow> cheap outcome" where
  "join h a b =
     bnd (chunk h a) (\<lambda>ca. bnd (chunk h b) (\<lambda>cb.
       let h = h(a \<mapsto> ca\<lparr> ck_size := ck_size ca + ck_size cb + CK, ck_next := ck_next cb \<rparr>) in
       if ck_next cb \<noteq> 0 then set_ck_prev h (ck_next cb) a else Ret h))"

primrec merge_blocks_prev :: "nat \<Rightarrow> cheap \<Rightarrow> nat \<Rightarrow> nat \<Rightarrow> (nat \<times> cheap) outcome" where
  "merge_blocks_prev 0 h cur prv = Halt NoReturn"
| "merge_blocks_prev (Suc fuel) h cur prv =
     kassert (cur \<noteq> 0)
       (if prv = 0 then Ret (cur, h)
        else bnd (chunk h prv) (\<lambda>p.
          if \<not> ck_free p then Ret (cur, h)
          else bnd (join h prv cur) (\<lambda>h. bnd (chunk h prv) (\<lambda>p. merge_blocks_prev fuel h prv (ck_prev p)))))"

primrec merge_blocks_next :: "nat \<Rightarrow> cheap \<Rightarrow> nat \<Rightarrow> nat \<Rightarrow> cheap outcome" where
  "merge_blocks_next 0 h cur nxt = Halt NoReturn"
| "merge_blocks_next (Suc fuel) h cur nxt =
     kassert (cur \<noteq> 0)
       (if nxt = 0 then Ret h
        else bnd (chunk h nxt) (\<lambda>c.
          if \<not> ck_free c then Ret h
          else bnd (join h cur nxt) (\<lambda>h. bnd (chunk h cur) (\<lambda>c. merge_blocks_next fuel h cur (ck_next c)))))"

definition kmalloc :: "nat \<Rightarrow> heap \<Rightarrow> nat \<Rightarrow> (nat \<times> heap) outcome" where
  "kmalloc fuel hp n =
     bnd (find_free fuel (hp_chunks hp) (hp_arenas hp) n) (\<lambda>(block, h).
     bnd (if block \<noteq> 0 then Ret (block, hp\<lparr> hp_chunks := h \<rparr>)
          else
            bnd (alloc_arena hp) (\<lambda>hp.
            bnd (find_free fuel (hp_chunks hp) (hp_arenas hp) n) (\<lambda>(block, h).
              if block = 0 then Halt Panicked else Ret (block, hp\<lparr> hp_chunks := h \<rparr>)))) (\<lambda>(block, hp).
     bnd (chunk (hp_chunks hp) block) (\<lambda>b.
     Ret (block + CK, hp\<lparr> hp_chunks := (hp_chunks hp)(block \<mapsto> b\<lparr> ck_free := False \<rparr>) \<rparr>))))"

definition kzalloc :: "nat \<Rightarrow> heap \<Rightarrow> nat \<Rightarrow> (nat \<times> heap) outcome" where
  "kzalloc fuel hp n =
     bnd (kmalloc fuel hp n) (\<lambda>(mem, hp).
     bnd (kmemset (hp_mem hp) mem 0 n) (\<lambda>m. Ret (mem, hp\<lparr> hp_mem := m \<rparr>)))"

definition kfree :: "nat \<Rightarrow> heap \<Rightarrow> nat \<Rightarrow> heap outcome" where
  "kfree fuel hp mem =
     (if mem < CK then Halt MemFault
      else
        let block = mem - CK in
        bnd (chunk (hp_chunks hp) block) (\<lambda>b.
        let h = (hp_chunks hp)(block \<mapsto> b\<lparr> ck_free := True \<rparr>) in
        bnd (merge_blocks_prev fuel h block (ck_prev b)) (\<lambda>(block, h).
        bnd (chunk h block) (\<lambda>b.
        bnd (merge_blocks_next fuel h block (ck_next b)) (\<lambda>h. Ret (hp\<lparr> hp_chunks := h \<rparr>))))))"

definition mm_heap_preinit :: "heap \<Rightarrow> mem_info \<Rightarrow> (heap \<times> mem_info) outcome" where
  "mm_heap_preinit hp mi =
     bnd (mm_bootmem_alloc_block mi 2) (\<lambda>(mem, mi).
       if mem = INVALID_ADDRESS then Halt Panicked
       else
         let base = unat (amd64_p_to_v mem) in
         Ret (hp\<lparr> hp_chunks := (hp_chunks hp)(base \<mapsto>
                   \<lparr> ck_size = 4096 * 2 ^ 2 - CK, ck_free = True, ck_next = 0, ck_prev = 0 \<rparr>),
                  hp_arenas := [(base, 4096 * 2 ^ 2)] \<rparr>, mi))"

definition mm_heap_init :: "heap \<Rightarrow> heap outcome" where
  "mm_heap_init hp =
     bnd (mm_block_alloc (hp_pfa hp) 1 HEAP_ARENA_SIZE) (\<lambda>(mem, s).
     kassert (mem \<noteq> INVALID_ADDRESS)
       (let base = unat (amd64_p_to_v mem) in
        Ret (hp\<lparr> hp_pfa := s, hp_chunks := (hp_chunks hp)(base \<mapsto> new_arena_chunk),
                 hp_arenas := (base, 4096 * 2 ^ HEAP_ARENA_SIZE) # drop 1 (hp_arenas hp) \<rparr>)))"

section \<open>The abstract view: an arena as a list of chunks\<close>

text \<open>
  A chunk is its payload size and whether it is free; each starts where the one before it
  ends. \<open>cseg h p a cs nx\<close>: from address \<open>a\<close> on, the chunks \<open>cs\<close> stand in the store, the
  first after the chunk \<open>p\<close>, the last before the chunk \<open>nx\<close>.
\<close>

type_synonym chunks = "(nat \<times> bool) list"

definition span :: "chunks \<Rightarrow> nat" where
  "span cs = (\<Sum>c\<leftarrow>cs. fst c + CK)"

fun last_addr :: "nat \<Rightarrow> nat \<Rightarrow> chunks \<Rightarrow> nat" where
  "last_addr p a [] = p"
| "last_addr p a (c # cs) = last_addr a (a + (fst c + CK)) cs"

fun cseg :: "cheap \<Rightarrow> nat \<Rightarrow> nat \<Rightarrow> chunks \<Rightarrow> nat \<Rightarrow> bool" where
  "cseg h p a [] nx \<longleftrightarrow> True"
| "cseg h p a (c # cs) nx \<longleftrightarrow>
     h a = Some \<lparr> ck_size = fst c, ck_free = snd c,
                  ck_next = (if cs = [] then nx else a + (fst c + CK)), ck_prev = p \<rparr> \<and>
     cseg h a (a + (fst c + CK)) cs nx"

lemma span_simps [simp]:
  "span [] = 0" "span (c # cs) = fst c + CK + span cs" "span (cs @ ds) = span cs + span ds"
  by (simp_all add: span_def)

lemma CK_pos [simp]: "0 < CK"
  by (simp add: CK_def)

lemma cseg_upd: "x < a \<or> a + span cs \<le> x \<Longrightarrow> cseg (h(x := c)) p a cs nx = cseg h p a cs nx"
proof (induction cs arbitrary: p a)
  case (Cons c' cs)
  have "x \<noteq> a" using Cons.prems by (auto simp: CK_def)
  moreover have "cseg (h(x := c)) a (a + (fst c' + CK)) cs nx = cseg h a (a + (fst c' + CK)) cs nx"
    by (rule Cons.IH) (use Cons.prems in auto)
  ultimately show ?case by (simp del: fun_upd_apply add: fun_upd_other)
qed simp

lemma cseg_append:
  "cseg h p a (cs @ ds) nx \<longleftrightarrow>
   cseg h p a cs (if ds = [] then nx else a + span cs) \<and> cseg h (last_addr p a cs) (a + span cs) ds nx"
  by (induction cs arbitrary: p a) (auto simp: add.assoc)

lemma last_addr_append [simp]: "last_addr p a (cs @ ds) = last_addr (last_addr p a cs) (a + span cs) ds"
  by (induction cs arbitrary: p a) (auto simp: add.assoc)

lemma chunk_simps [simp]: "p \<noteq> 0 \<Longrightarrow> h p = Some c \<Longrightarrow> chunk h p = Ret c"
  by (simp add: chunk_def)

text \<open>Changing the head of a segment.\<close>

lemma cseg_prev:
  "cseg h p a (c # cs) nx \<Longrightarrow> cseg (h(a \<mapsto> the (h a)\<lparr> ck_prev := q \<rparr>)) q a (c # cs) nx"
  by (simp add: cseg_upd CK_def)

lemma cseg_cong:
  "(\<And>x. a \<le> x \<Longrightarrow> x < a + span cs \<Longrightarrow> h x = h' x) \<Longrightarrow> cseg h p a cs nx = cseg h' p a cs nx"
proof (induction cs arbitrary: p a)
  case (Cons c cs)
  have "cseg h a (a + (fst c + CK)) cs nx = cseg h' a (a + (fst c + CK)) cs nx"
    by (rule Cons.IH) (use Cons.prems in auto)
  then show ?case using Cons.prems [of a] by simp
qed simp

definition same_outside :: "nat \<Rightarrow> nat \<Rightarrow> cheap \<Rightarrow> cheap \<Rightarrow> bool" where
  "same_outside a e h h' \<longleftrightarrow> (\<forall>x. x < a \<or> e \<le> x \<longrightarrow> h' x = h x)"

lemma same_outside_refl [simp]: "same_outside a e h h"
  by (simp add: same_outside_def)

lemma same_outside_upd: "same_outside a e h h' \<Longrightarrow> a \<le> x \<Longrightarrow> x < e \<Longrightarrow> same_outside a e h (h'(x := c))"
  by (auto simp: same_outside_def)

lemma same_outside_trans: "same_outside a e h h1 \<Longrightarrow> same_outside a e h1 h2 \<Longrightarrow> same_outside a e h h2"
  by (simp add: same_outside_def)

text \<open>A chunk in the middle of a segment.\<close>

lemma cseg_mid:
  "cseg h p a (xs @ (s, f) # ys) nx \<longleftrightarrow>
   cseg h p a xs (a + span xs) \<and>
   h (a + span xs) = Some \<lparr> ck_size = s, ck_free = f,
     ck_next = (if ys = [] then nx else a + span xs + (s + CK)), ck_prev = last_addr p a xs \<rparr> \<and>
   cseg h (a + span xs) (a + span xs + (s + CK)) ys nx"
  by (simp add: cseg_append)

lemma split_chunk_ok:
  assumes seg: "cseg h p a (xs @ (s, f) # ys) 0" and "a \<noteq> 0" and "n \<le> s" and big: "CK + SPLIT_THRESHOLD \<le> s - n"
  shows "\<exists>h'. split_chunk h (a + span xs) n = Ret h' \<and>
    cseg h' p a (xs @ (n, f) # (s - n - CK, True) # ys) 0 \<and> same_outside a (a + span (xs @ (s, f) # ys)) h h'"
proof -
  let ?b = "a + span xs" and ?new = "a + span xs + CK + n"
  have s: "?b + (s + CK) = ?new + (s - n - CK + CK)" and lt: "?new < ?b + (s + CK)" "?b < ?new"
    using assms(3,4) by (auto simp: SPLIT_THRESHOLD_def CK_def)
  have eq: "?b + (n + CK) = ?new" by simp
  from seg have xs: "cseg h p a xs ?b"
    and b: "h ?b = Some \<lparr> ck_size = s, ck_free = f, ck_next = (if ys = [] then 0 else ?b + (s + CK)), ck_prev = last_addr p a xs \<rparr>"
    and ys: "cseg h ?b (?b + (s + CK)) ys 0" by (simp_all add: cseg_mid)
  let ?h1 = "h(?new \<mapsto> \<lparr> ck_size = s - n - CK, ck_free = True, ck_next = (if ys = [] then 0 else ?b + (s + CK)), ck_prev = ?b \<rparr>,
      ?b \<mapsto> \<lparr> ck_size = n, ck_free = f, ck_next = ?new, ck_prev = last_addr p a xs \<rparr>)"
  have xs1: "cseg ?h1 p a xs ?b" using xs lt by (simp add: cseg_upd del: fun_upd_apply)
  have ys1: "cseg ?h1 q (?b + (s + CK)) ys 0 = cseg h q (?b + (s + CK)) ys 0" for q
    using lt by (simp add: cseg_upd del: fun_upd_apply)
  show ?thesis
  proof (cases ys)
    case Nil
    have "split_chunk h ?b n = Ret ?h1"
      using b assms(2-4) Nil by (simp add: split_chunk_def Let_def)
    moreover have "cseg ?h1 p a (xs @ (n, f) # [(s - n - CK, True)]) 0"
      using xs1 lt Nil eq by (simp add: cseg_mid)
    moreover have "same_outside a (a + span (xs @ (s, f) # ys)) h ?h1"
      using lt by (intro same_outside_upd same_outside_refl) auto
    ultimately show ?thesis using Nil by blast
  next
    case (Cons y ys')
    let ?y = "?b + (s + CK)"
    obtain c where c: "h ?y = Some c" and ys': "cseg h ?y (?y + (fst y + CK)) ys' 0"
      using ys Cons by simp
    have ne: "ys \<noteq> []" using Cons by simp
    have y1: "?h1 ?y = Some c" using c lt by simp
    let ?h2 = "?h1(?y \<mapsto> c\<lparr> ck_prev := ?new \<rparr>)"
    have r: "split_chunk h ?b n = Ret ?h2"
      using b assms(2-4) Cons y1 by (simp add: split_chunk_def set_ck_prev_def Let_def)
    have "cseg ?h2 ?new ?y ys 0"
      using cseg_prev [of ?h1 ?b ?y y ys' 0 ?new] ys ys1 [of ?b] Cons y1 by (simp del: cseg.simps fun_upd_apply)
    moreover have "?h2 ?new = Some \<lparr> ck_size = s - n - CK, ck_free = True, ck_next = ?y, ck_prev = ?b \<rparr>"
      using lt ne by simp
    ultimately have "cseg ?h2 ?b ?new ((s - n - CK, True) # ys) 0"
      unfolding cseg.simps(2) fst_conv snd_conv s [symmetric] if_not_P [OF ne] by (simp only:)
    moreover have "cseg ?h2 p a xs ?b" using xs1 by (simp add: cseg_upd del: fun_upd_apply)
    moreover have "?h2 ?b = Some \<lparr> ck_size = n, ck_free = f, ck_next = ?b + (n + CK), ck_prev = last_addr p a xs \<rparr>"
      using lt by simp
    ultimately have "cseg ?h2 p a (xs @ (n, f) # (s - n - CK, True) # ys) 0"
      unfolding cseg_mid eq by (simp only: list.distinct if_False)
    moreover have "same_outside a (a + span (xs @ (s, f) # ys)) h ?h2"
      using lt Cons by (intro same_outside_upd same_outside_refl) auto
    ultimately show ?thesis using r by blast
  qed
qed

lemma join_ok:
  assumes seg: "cseg h p a (xs @ (s, f) # (s2, f2) # ys) 0" and "a \<noteq> 0"
  shows "\<exists>h'. join h (a + span xs) (a + span xs + (s + CK)) = Ret h' \<and>
    cseg h' p a (xs @ (s + (s2 + CK), f) # ys) 0 \<and> same_outside a (a + span (xs @ (s, f) # (s2, f2) # ys)) h h'"
proof -
  let ?b = "a + span xs" and ?c = "a + span xs + (s + CK)"
  let ?y = "?c + (s2 + CK)"
  from seg have xs: "cseg h p a xs ?b"
    and b: "h ?b = Some \<lparr> ck_size = s, ck_free = f, ck_next = ?c, ck_prev = last_addr p a xs \<rparr>"
    and c: "h ?c = Some \<lparr> ck_size = s2, ck_free = f2, ck_next = (if ys = [] then 0 else ?y), ck_prev = ?b \<rparr>"
    and ys: "cseg h ?c ?y ys 0" by (simp_all add: cseg_mid)
  let ?h1 = "h(?b \<mapsto> \<lparr> ck_size = s + s2 + CK, ck_free = f, ck_next = (if ys = [] then 0 else ?y), ck_prev = last_addr p a xs \<rparr>)"
  have xs1: "cseg ?h1 p a xs ?b" using xs by (simp add: cseg_upd del: fun_upd_apply)
  have ys1: "cseg ?h1 q ?y ys 0 = cseg h q ?y ys 0" for q
    by (rule cseg_upd) (simp add: CK_def)
  have yeq: "?b + (s + (s2 + CK) + CK) = ?y" by simp
  show ?thesis
  proof (cases ys)
    case Nil
    have "join h ?b ?c = Ret ?h1" using b c assms(2) Nil by (simp add: join_def)
    moreover have "cseg ?h1 p a (xs @ [(s + (s2 + CK), f)]) 0" using xs1 Nil by (simp add: cseg_mid)
    moreover have "same_outside a (a + span (xs @ (s, f) # (s2, f2) # ys)) h ?h1"
      by (intro same_outside_upd same_outside_refl) (auto simp: CK_def)
    ultimately show ?thesis using Nil by blast
  next
    case (Cons y ys')
    obtain cy where cy: "h ?y = Some cy" using ys Cons by simp
    have ne: "ys \<noteq> []" using Cons by simp
    have y1: "?h1 ?y = Some cy" using cy by (simp add: CK_def)
    let ?h2 = "?h1(?y \<mapsto> cy\<lparr> ck_prev := ?b \<rparr>)"
    have r: "join h ?b ?c = Ret ?h2" using b c assms(2) Cons y1 by (simp add: join_def set_ck_prev_def)
    have "cseg ?h2 ?b ?y ys 0"
      using cseg_prev [of ?h1 ?c ?y y ys' 0 ?b] ys ys1 [of ?c] Cons y1 by (simp del: cseg.simps fun_upd_apply)
    moreover have "cseg ?h2 p a xs ?b" using xs1 by (simp add: cseg_upd del: fun_upd_apply)
    moreover have "?h2 ?b = Some \<lparr> ck_size = s + (s2 + CK), ck_free = f, ck_next = ?y, ck_prev = last_addr p a xs \<rparr>"
      using Cons by (simp add: CK_def)
    ultimately have "cseg ?h2 p a (xs @ (s + (s2 + CK), f) # ys) 0"
      unfolding cseg_mid yeq if_not_P [OF ne] by (simp only:)
    moreover have "same_outside a (a + span (xs @ (s, f) # (s2, f2) # ys)) h ?h2"
      using Cons by (intro same_outside_upd same_outside_refl) (auto simp: CK_def)
    ultimately show ?thesis using r by blast
  qed
qed

lemma set_free_ok:
  assumes "cseg h p a (xs @ (s, f) # ys) 0" and "h (a + span xs) = Some c"
  shows "cseg (h(a + span xs \<mapsto> c\<lparr> ck_free := g \<rparr>)) p a (xs @ (s, g) # ys) 0"
  using assms by (auto simp: cseg_mid cseg_upd CK_def)

section \<open>Searching and merging\<close>

definition fits :: "nat \<Rightarrow> nat \<times> bool \<Rightarrow> bool" where
  "fits n c \<longleftrightarrow> snd c \<and> n \<le> fst c"

lemma find_block_ok:
  "cseg h p a cs 0 \<Longrightarrow> a \<noteq> 0 \<Longrightarrow> length cs < fuel \<Longrightarrow>
   find_block fuel h (if cs = [] then 0 else a) n
     = Ret (if \<exists>c\<in>set cs. fits n c then a + span (takeWhile (\<lambda>c. \<not> fits n c) cs) else 0)"
proof (induction cs arbitrary: p a fuel)
  case Nil then show ?case by (cases fuel) simp_all
next
  case (Cons c cs)
  obtain f where f: "fuel = Suc f" using Cons.prems(3) by (cases fuel) auto
  have tl: "cseg h a (a + (fst c + CK)) cs 0" and hd: "h a = Some \<lparr> ck_size = fst c, ck_free = snd c,
      ck_next = (if cs = [] then 0 else a + (fst c + CK)), ck_prev = p \<rparr>" using Cons.prems(1) by simp_all
  show ?case
  proof (cases "fits n c")
    case True
    then show ?thesis using hd f Cons.prems(2) by (auto simp: fits_def)
  next
    case False
    have "find_block fuel h a n = find_block f h (if cs = [] then 0 else a + (fst c + CK)) n"
      using hd f False Cons.prems(2) by (auto simp: fits_def)
    also have "\<dots> = Ret (if \<exists>c\<in>set cs. fits n c then a + (fst c + CK) + span (takeWhile (\<lambda>c. \<not> fits n c) cs) else 0)"
      by (rule Cons.IH [OF tl]) (use Cons.prems f in auto)
    finally show ?thesis using False by (simp add: add.assoc)
  qed
qed

lemma merge_next_ok:
  "cseg h p a (xs @ (s, f) # fr @ ys) 0 \<Longrightarrow> a \<noteq> 0 \<Longrightarrow> \<forall>c\<in>set fr. snd c \<Longrightarrow> ys = [] \<or> \<not> snd (hd ys) \<Longrightarrow>
   length fr < fuel \<Longrightarrow>
   \<exists>h'. merge_blocks_next fuel h (a + span xs) (if fr @ ys = [] then 0 else a + span xs + (s + CK)) = Ret h' \<and>
     cseg h' p a (xs @ (s + span fr, f) # ys) 0 \<and> same_outside a (a + span (xs @ (s, f) # fr @ ys)) h h'"
proof (induction fr arbitrary: s h fuel)
  case Nil
  obtain g where g: "fuel = Suc g" using Nil.prems(5) by (cases fuel) auto
  show ?case
  proof (cases ys)
    case Nil
    then show ?thesis using Nil.prems g by (intro exI [of _ h]) simp
  next
    case (Cons y ys')
    then have "h (a + span xs + (s + CK)) \<noteq> None"
      "\<not> ck_free (the (h (a + span xs + (s + CK))))"
      using Nil.prems(1,4) by (simp_all add: cseg_mid)
    then show ?thesis using Nil.prems g Cons by (intro exI [of _ h]) auto
  qed
next
  case (Cons c fr)
  obtain g where g: "fuel = Suc g" using Cons.prems(5) by (cases fuel) auto
  obtain s2 where c: "c = (s2, True)" using Cons.prems(3) by (cases c) auto
  have seg: "cseg h p a (xs @ (s, f) # (s2, True) # fr @ ys) 0" using Cons.prems(1) c by simp
  let ?n = "a + span xs + (s + CK)"
  obtain h1 where h1: "join h (a + span xs) ?n = Ret h1" "cseg h1 p a (xs @ (s + (s2 + CK), f) # fr @ ys) 0"
      "same_outside a (a + span (xs @ (s, f) # (s2, True) # fr @ ys)) h h1"
    using join_ok [OF seg Cons.prems(2)] by blast
  obtain h2 where h2: "merge_blocks_next g h1 (a + span xs) (if fr @ ys = [] then 0 else a + span xs + (s + (s2 + CK) + CK)) = Ret h2"
      "cseg h2 p a (xs @ (s + (s2 + CK) + span fr, f) # ys) 0"
      "same_outside a (a + span (xs @ (s + (s2 + CK), f) # fr @ ys)) h1 h2"
    using Cons.IH [OF h1(2) Cons.prems(2)] Cons.prems(3-5) g by auto
  have n: "h ?n = Some \<lparr> ck_size = s2, ck_free = True, ck_next = (if fr @ ys = [] then 0 else ?n + (s2 + CK)), ck_prev = a + span xs \<rparr>"
    using seg by (simp add: cseg_mid)
  have b: "h1 (a + span xs) = Some \<lparr> ck_size = s + (s2 + CK), ck_free = f,
      ck_next = (if fr @ ys = [] then 0 else a + span xs + (s + (s2 + CK) + CK)), ck_prev = last_addr p a xs \<rparr>"
    using h1(2) by (simp add: cseg_mid)
  have "merge_blocks_next fuel h (a + span xs) ?n = Ret h2"
    using g n h1(1) b h2(1) Cons.prems(2) by simp
  moreover have "same_outside a (a + span (xs @ (s, f) # (c # fr) @ ys)) h h2"
    by (rule same_outside_trans [of _ _ _ h1]) (use h1(3) h2(3) c in \<open>simp_all add: add.assoc add.left_commute\<close>)
  ultimately show ?case using h2(2) c by (intro exI [of _ h2]) (simp add: add.assoc add.left_commute)
qed

lemma merge_prev_ok:
  "cseg h 0 a (xs @ fr @ (s, True) # ys) 0 \<Longrightarrow> a \<noteq> 0 \<Longrightarrow> \<forall>c\<in>set fr. snd c \<Longrightarrow> xs = [] \<or> \<not> snd (last xs) \<Longrightarrow>
   length fr < fuel \<Longrightarrow>
   \<exists>h'. merge_blocks_prev fuel h (a + span (xs @ fr)) (last_addr 0 a (xs @ fr)) = Ret (a + span xs, h') \<and>
     cseg h' 0 a (xs @ (span fr + s, True) # ys) 0 \<and> same_outside a (a + span (xs @ fr @ (s, True) # ys)) h h'"
proof (induction fr arbitrary: s h fuel rule: rev_induct)
  case Nil
  obtain g where g: "fuel = Suc g" using Nil.prems(5) by (cases fuel) auto
  show ?case
  proof (cases xs rule: rev_cases)
    case Nil
    then show ?thesis using Nil.prems g by (intro exI [of _ h]) simp
  next
    case (snoc xs' x)
    obtain s' where x: "x = (s', False)" using Nil.prems(4) snoc by (cases x) auto
    then have "h (a + span xs') \<noteq> None" "\<not> ck_free (the (h (a + span xs')))"
      using Nil.prems(1) snoc by (simp_all add: cseg_mid)
    then show ?thesis using Nil.prems g snoc by (intro exI [of _ h]) auto
  qed
next
  case (snoc c fr)
  obtain g where g: "fuel = Suc g" using snoc.prems(5) by (cases fuel) auto
  obtain s1 where c: "c = (s1, True)" using snoc.prems(3) by (cases c) auto
  have seg: "cseg h 0 a ((xs @ fr) @ (s1, True) # (s, True) # ys) 0" using snoc.prems(1) c by simp
  let ?p = "a + span (xs @ fr)"
  obtain h1 where h1: "join h ?p (?p + (s1 + CK)) = Ret h1" "cseg h1 0 a ((xs @ fr) @ (s1 + (s + CK), True) # ys) 0"
      "same_outside a (a + span ((xs @ fr) @ (s1, True) # (s, True) # ys)) h h1"
    using join_ok [OF seg snoc.prems(2)] by blast
  obtain h2 where h2: "merge_blocks_prev g h1 ?p (last_addr 0 a (xs @ fr)) = Ret (a + span xs, h2)"
      "cseg h2 0 a (xs @ (span fr + (s1 + (s + CK)), True) # ys) 0"
      "same_outside a (a + span (xs @ fr @ (s1 + (s + CK), True) # ys)) h1 h2"
    using snoc.IH [of h1 "s1 + (s + CK)" g] h1(2) snoc.prems(2-5) g by auto
  have pr: "h ?p = Some \<lparr> ck_size = s1, ck_free = True, ck_next = ?p + (s1 + CK), ck_prev = last_addr 0 a (xs @ fr) \<rparr>"
    using seg unfolding cseg_mid by simp
  have pr1: "h1 ?p = Some \<lparr> ck_size = s1 + (s + CK), ck_free = True,
      ck_next = (if ys = [] then 0 else ?p + (s1 + (s + CK) + CK)), ck_prev = last_addr 0 a (xs @ fr) \<rparr>"
    using h1(2) unfolding cseg_mid by simp
  have "last_addr 0 a (xs @ fr @ [c]) = ?p" "a + span (xs @ fr @ [c]) = ?p + (s1 + CK)" using c by simp_all
  then have "merge_blocks_prev fuel h (a + span (xs @ fr @ [c])) (last_addr 0 a (xs @ fr @ [c])) = Ret (a + span xs, h2)"
    using g pr h1(1) pr1 h2(1) snoc.prems(2) by (simp add: add.assoc del: last_addr_append span_simps)
  moreover have "same_outside a (a + span (xs @ (fr @ [c]) @ (s, True) # ys)) h h2"
    by (rule same_outside_trans [of _ _ _ h1]) (use h1(3) h2(3) c in \<open>simp_all add: add.assoc add.left_commute\<close>)
  ultimately show ?case using h2(2) c by (intro exI [of _ h2]) (simp add: add.assoc add.left_commute add.commute)
qed

section \<open>The invariant of the heap\<close>

definition arena_ok :: "cheap \<Rightarrow> nat \<times> nat \<Rightarrow> chunks \<Rightarrow> bool" where
  "arena_ok h ar cs \<longleftrightarrow> fst ar \<noteq> 0 \<and> cs \<noteq> [] \<and> cseg h 0 (fst ar) cs 0"

definition disjoint_from :: "nat \<times> nat \<Rightarrow> nat \<times> nat \<Rightarrow> bool" where
  "disjoint_from x y \<longleftrightarrow> fst x + snd x \<le> fst y \<or> fst y + snd y \<le> fst x"

text \<open>\<open>heap_inv hp css\<close>: the chunks of the arenas are \<open>css\<close>, and the arenas do not overlap.\<close>

definition heap_inv :: "heap \<Rightarrow> chunks list \<Rightarrow> bool" where
  "heap_inv hp css \<longleftrightarrow> length (hp_arenas hp) = length css \<and>
     (\<forall>i<length css. arena_ok (hp_chunks hp) (hp_arenas hp ! i) (css ! i)) \<and>
     (\<forall>i<length css. \<forall>j<length css. i \<noteq> j \<longrightarrow>
        disjoint_from (fst (hp_arenas hp ! i), span (css ! i)) (fst (hp_arenas hp ! j), span (css ! j)))"

definition base :: "heap \<Rightarrow> nat \<Rightarrow> nat" where
  "base hp i = fst (hp_arenas hp ! i)"

lemma heap_inv_arena:
  "heap_inv hp css \<Longrightarrow> i < length css \<Longrightarrow> base hp i \<noteq> 0 \<and> css ! i \<noteq> [] \<and> cseg (hp_chunks hp) 0 (base hp i) (css ! i) 0"
  by (simp add: heap_inv_def arena_ok_def base_def)

text \<open>An operation on one arena leaves the others as they were.\<close>

lemma heap_inv_upd:
  assumes inv: "heap_inv hp css" and i: "i < length css" and seg: "cseg h' 0 (base hp i) cs 0"
    and "cs \<noteq> []" and sp: "span cs = span (css ! i)"
    and out: "same_outside (base hp i) (base hp i + span (css ! i)) (hp_chunks hp) h'"
  shows "heap_inv (hp\<lparr> hp_chunks := h' \<rparr>) (css[i := cs])"
proof -
  have "arena_ok h' (hp_arenas hp ! j) (css[i := cs] ! j)" if j: "j < length css" for j
  proof (cases "j = i")
    case True
    then show ?thesis using seg assms(4) i heap_inv_arena [OF inv i] by (simp add: arena_ok_def base_def)
  next
    case False
    then have d: "disjoint_from (base hp i, span (css ! i)) (base hp j, span (css ! j))"
      using inv i j by (simp add: heap_inv_def base_def)
    have "cseg h' 0 (base hp j) (css ! j) 0 = cseg (hp_chunks hp) 0 (base hp j) (css ! j) 0"
      by (rule cseg_cong) (use d out in \<open>auto simp: disjoint_from_def same_outside_def\<close>)
    then show ?thesis using heap_inv_arena [OF inv j] False by (simp add: arena_ok_def base_def)
  qed
  moreover have "span (css[i := cs] ! j) = span (css ! j)" for j
    using sp i by (cases "j = i") auto
  ultimately show ?thesis using inv i by (simp add: heap_inv_def)
qed

text \<open>What an allocation and a release do to the chunks of their arena.\<close>

definition carved :: "nat \<Rightarrow> nat \<Rightarrow> bool \<Rightarrow> chunks" where
  "carved n s f = (if s - n < CK + SPLIT_THRESHOLD then [(s, f)] else [(n, f), (s - n - CK, True)])"

definition released :: "chunks \<Rightarrow> nat \<Rightarrow> chunks \<Rightarrow> chunks" where
  "released pre s ys = rev (dropWhile snd (rev pre)) @
     (span (rev (takeWhile snd (rev pre))) + s + span (takeWhile snd ys), True) # dropWhile snd ys"

lemma span_carved: "n \<le> s \<Longrightarrow> span (carved n s f) = s + CK"
  by (auto simp: carved_def SPLIT_THRESHOLD_def)

lemma pre_split: "rev (dropWhile snd (rev pre)) @ rev (takeWhile snd (rev pre)) = pre"
  by (metis rev_append rev_rev_ident takeWhile_dropWhile_id)

lemma span_released: "span (released pre s ys) = span (pre @ (s, f) # ys)"
proof -
  have "span (rev (dropWhile snd (rev pre))) + span (rev (takeWhile snd (rev pre))) = span pre"
    using pre_split [of pre] by (metis span_simps(3))
  moreover have "span (takeWhile snd ys) + span (dropWhile snd ys) = span ys"
    by (metis takeWhile_dropWhile_id span_simps(3))
  ultimately show ?thesis by (simp add: released_def)
qed

text \<open>No two neighbouring chunks are both free.\<close>

fun coalesced :: "chunks \<Rightarrow> bool" where
  "coalesced (c # d # cs) \<longleftrightarrow> \<not> (snd c \<and> snd d) \<and> coalesced (d # cs)"
| "coalesced cs \<longleftrightarrow> True"

lemma coalesced_append:
  "coalesced (xs @ ys) \<longleftrightarrow> coalesced xs \<and> coalesced ys \<and> (xs = [] \<or> ys = [] \<or> \<not> (snd (last xs) \<and> snd (hd ys)))"
  by (induction xs rule: coalesced.induct) (cases ys; auto)+

section \<open>Allocation\<close>

definition fit_addr :: "nat \<Rightarrow> nat \<times> nat \<Rightarrow> chunks \<Rightarrow> nat" where
  "fit_addr n ar cs = fst ar + span (takeWhile (\<lambda>c. \<not> fits n c) cs)"

lemma find_arenas_ok:
  "list_all2 (arena_ok h) ars css \<Longrightarrow> \<forall>cs\<in>set css. length cs < fuel \<Longrightarrow>
   (\<forall>cs\<in>set css. \<forall>c\<in>set cs. \<not> fits n c) \<and> find_arenas fuel h ars n = Ret (0, h) \<or>
   (\<exists>i<length css. (\<exists>c\<in>set (css ! i). fits n c) \<and>
      find_arenas fuel h ars n = bnd (split_chunk h (fit_addr n (ars ! i) (css ! i)) n)
        (\<lambda>h'. Ret (fit_addr n (ars ! i) (css ! i), h')))"
proof (induction ars css rule: list_all2_induct)
  case (Cons ar ars cs css)
  have fb: "find_block fuel h (fst ar) n = Ret (if \<exists>c\<in>set cs. fits n c then fit_addr n ar cs else 0)"
    using find_block_ok [of h 0 "fst ar" cs fuel n] Cons.hyps(1) Cons.prems by (simp add: arena_ok_def fit_addr_def)
  show ?case
  proof (cases "\<exists>c\<in>set cs. fits n c")
    case True
    have "fit_addr n ar cs \<noteq> 0" using Cons.hyps(1) by (simp add: arena_ok_def fit_addr_def)
    then show ?thesis using True fb by (intro disjI2 exI [of _ 0]) simp
  next
    case False
    then have step: "find_arenas fuel h (ar # ars) n = find_arenas fuel h ars n" using fb by simp
    have "\<forall>cs\<in>set css. length cs < fuel" using Cons.prems by simp
    from Cons.IH [OF this] show ?thesis unfolding step
    proof (elim disjE exE conjE, goal_cases)
      case 1 then show ?case using False by auto
    next
      case (2 i) then show ?case by (intro disjI2 exI [of _ "Suc i"]) simp
    qed
  qed
qed simp

lemma takeWhile_hit:
  assumes "\<exists>c\<in>set cs. P c"
  shows "\<exists>c ys. cs = takeWhile (\<lambda>c. \<not> P c) cs @ c # ys \<and> P c"
proof -
  have "dropWhile (\<lambda>c. \<not> P c) cs \<noteq> []" using assms by (simp add: dropWhile_eq_Nil_conv)
  then obtain c ys where d: "dropWhile (\<lambda>c. \<not> P c) cs = c # ys" by (cases "dropWhile (\<lambda>c. \<not> P c) cs") auto
  then have "P c" using hd_dropWhile [of "\<lambda>c. \<not> P c" cs] by simp
  then show ?thesis using takeWhile_dropWhile_id [of "\<lambda>c. \<not> P c" cs] d by metis
qed

lemma split_chunk_carved:
  assumes "cseg h p a (xs @ (s, f) # ys) 0" and "a \<noteq> 0" and "n \<le> s"
  shows "\<exists>h'. split_chunk h (a + span xs) n = Ret h' \<and> cseg h' p a (xs @ carved n s f @ ys) 0 \<and>
    same_outside a (a + span (xs @ (s, f) # ys)) h h'"
proof (cases "s - n < CK + SPLIT_THRESHOLD")
  case True
  have "h (a + span xs) \<noteq> None" "ck_size (the (h (a + span xs))) = s" using assms(1) by (auto simp: cseg_mid)
  then have "split_chunk h (a + span xs) n = Ret h"
    using assms(2,3) True by (auto simp: split_chunk_def)
  then show ?thesis using True assms(1) by (intro exI [of _ h]) (simp add: carved_def)
next
  case False
  then show ?thesis using split_chunk_ok [OF assms(1-3)] by (simp add: carved_def not_less)
qed

lemma heap_inv_list_all2: "heap_inv hp css \<Longrightarrow> list_all2 (arena_ok (hp_chunks hp)) (hp_arenas hp) css"
  by (simp add: heap_inv_def list_all2_conv_all_nth)

lemma carved_cases: "\<exists>r rs. carved n s f = (r, f) # rs"
  by (auto simp: carved_def)

lemma carved_free: "carved n s f = (r, f) # rs \<Longrightarrow> carved n s g = (r, g) # rs"
  by (auto simp: carved_def split: if_splits)

text \<open>The first chunk that fits is carved, wherever it is.\<close>

lemma kmalloc_fit:
  assumes inv: "heap_inv hp css" and "0 < n" and fuel: "\<forall>cs\<in>set css. length cs < fuel"
    and fit: "\<exists>cs\<in>set css. \<exists>c\<in>set cs. fits n c"
  shows "\<exists>i pre s ys hp'. i < length css \<and> css ! i = pre @ (s, True) # ys \<and> n \<le> s \<and>
    kmalloc fuel hp n = Ret (base hp i + span pre + CK, hp') \<and>
    heap_inv hp' (css[i := pre @ carved n s False @ ys]) \<and> hp_arenas hp' = hp_arenas hp \<and>
    hp_pfa hp' = hp_pfa hp \<and> hp_mem hp' = hp_mem hp"
proof -
  let ?h = "hp_chunks hp"
  obtain i where i: "i < length css" "\<exists>c\<in>set (css ! i). fits n c"
      "find_arenas fuel ?h (hp_arenas hp) n = bnd (split_chunk ?h (fit_addr n (hp_arenas hp ! i) (css ! i)) n)
        (\<lambda>h'. Ret (fit_addr n (hp_arenas hp ! i) (css ! i), h'))"
    using find_arenas_ok [OF heap_inv_list_all2 [OF inv] fuel, of n] fit by blast
  let ?pre = "takeWhile (\<lambda>c. \<not> fits n c) (css ! i)"
  obtain c ys where "css ! i = ?pre @ c # ys" "fits n c" using takeWhile_hit [OF i(2)] by blast
  then obtain s where s: "css ! i = ?pre @ (s, True) # ys" "n \<le> s" by (cases c) (auto simp: fits_def)
  let ?a = "base hp i" and ?blk = "base hp i + span ?pre"
  have blk: "fit_addr n (hp_arenas hp ! i) (css ! i) = ?blk" by (simp add: fit_addr_def base_def)
  note ar = heap_inv_arena [OF inv i(1)]
  then have seg: "cseg ?h 0 ?a (?pre @ (s, True) # ys) 0" using s(1) by metis
  obtain h1 where h1: "split_chunk ?h ?blk n = Ret h1" "cseg h1 0 ?a (?pre @ carved n s True @ ys) 0"
      "same_outside ?a (?a + span (css ! i)) ?h h1"
    using split_chunk_carved [OF seg _ s(2)] ar s(1) by metis
  obtain r rs where c: "carved n s True = (r, True) # rs" using carved_cases by blast
  have seg1: "cseg h1 0 ?a (?pre @ (r, True) # rs @ ys) 0" using h1(2) c by simp
  then obtain b where b: "h1 ?blk = Some b" by (auto simp: cseg_mid)
  let ?h2 = "h1(?blk \<mapsto> b\<lparr> ck_free := False \<rparr>)"
  have seg2: "cseg ?h2 0 ?a (?pre @ carved n s False @ ys) 0"
    using set_free_ok [OF seg1 b, of False] carved_free [OF c, of False] by simp
  have sp: "span (?pre @ carved n s False @ ys) = span (css ! i)"
    using span_carved [OF s(2), of False] s(1) by (metis fst_conv span_simps(2,3) add.assoc)
  have lt: "?blk < ?a + span (css ! i)" using s(1) by (metis CK_pos add_less_cancel_left fst_conv less_add_same_cancel1 span_simps(2,3) trans_less_add1 trans_less_add2 add.commute)
  have "same_outside ?a (?a + span (css ! i)) ?h ?h2" using lt h1(3) by (intro same_outside_upd) auto
  from heap_inv_upd [OF inv i(1) seg2 _ sp this] have
    "heap_inv (hp\<lparr> hp_chunks := ?h2 \<rparr>) (css[i := ?pre @ carved n s False @ ys])"
    using carved_cases [of n s False] by auto
  moreover have "kmalloc fuel hp n = Ret (?blk + CK, hp\<lparr> hp_chunks := ?h2 \<rparr>)"
    using i(3) h1(1) b ar assms(2) unfolding blk by (simp add: kmalloc_def find_free_def)
  ultimately show ?thesis using i(1) s by (intro exI [of _ i] exI [of _ ?pre] exI [of _ s] exI [of _ ys]) auto
qed

text \<open>A chunk released is merged with the free chunks on both sides.\<close>

lemma kfree_ok:
  assumes inv: "heap_inv hp css" and i: "i < length css" and cs: "css ! i = pre @ (s, f) # ys"
    and fuel: "length (css ! i) < fuel"
  shows "\<exists>hp'. kfree fuel hp (base hp i + span pre + CK) = Ret hp' \<and>
    heap_inv hp' (css[i := released pre s ys]) \<and> hp_arenas hp' = hp_arenas hp \<and> hp_pfa hp' = hp_pfa hp"
proof -
  let ?h = "hp_chunks hp" and ?a = "base hp i" and ?blk = "base hp i + span pre"
  let ?xs = "rev (dropWhile snd (rev pre))" and ?fl = "rev (takeWhile snd (rev pre))"
  let ?fr = "takeWhile snd ys" and ?zs = "dropWhile snd ys"
  note ar = heap_inv_arena [OF inv i]
  have a0: "?a \<noteq> 0" using ar by simp
  have seg: "cseg ?h 0 ?a (pre @ (s, f) # ys) 0" using ar cs by simp
  then obtain b where b: "?h ?blk = Some b" "ck_prev b = last_addr 0 ?a pre" by (auto simp: cseg_mid)
  let ?h1 = "?h(?blk \<mapsto> b\<lparr> ck_free := True \<rparr>)"
  have seg1: "cseg ?h1 0 ?a (?xs @ ?fl @ (s, True) # ys) 0"
    using set_free_ok [OF seg b(1), of True] pre_split [of pre] by (metis append.assoc)
  have xs: "?xs = [] \<or> \<not> snd (last ?xs)"
    using hd_dropWhile [of snd "rev pre"] by (auto simp: last_rev)
  have len: "length ?fl < fuel" "length ?fr < fuel"
    using fuel cs length_takeWhile_le [of snd "rev pre"] length_takeWhile_le [of snd ys] by auto
  obtain h2 where h2: "merge_blocks_prev fuel ?h1 ?blk (last_addr 0 ?a pre) = Ret (?a + span ?xs, h2)"
      "cseg h2 0 ?a (?xs @ (span ?fl + s, True) # ys) 0" "same_outside ?a (?a + span (?xs @ ?fl @ (s, True) # ys)) ?h1 h2"
    using merge_prev_ok [OF seg1 a0 _ xs len(1)] pre_split [of pre] by (auto dest: set_takeWhileD)
  have seg2: "cseg h2 0 ?a (?xs @ (span ?fl + s, True) # ?fr @ ?zs) 0" using h2(2) by simp
  have zs: "?zs = [] \<or> \<not> snd (hd ?zs)" using hd_dropWhile [of snd ys] by auto
  obtain h3 where h3: "merge_blocks_next fuel h2 (?a + span ?xs) (if ?fr @ ?zs = [] then 0 else ?a + span ?xs + (span ?fl + s + CK)) = Ret h3"
      "cseg h3 0 ?a (?xs @ (span ?fl + s + span ?fr, True) # ?zs) 0"
      "same_outside ?a (?a + span (?xs @ (span ?fl + s, True) # ?fr @ ?zs)) h2 h3"
    using merge_next_ok [OF seg2 a0 _ zs len(2)] by (auto dest: set_takeWhileD)
  have b2: "h2 (?a + span ?xs) = Some \<lparr> ck_size = span ?fl + s, ck_free = True,
      ck_next = (if ys = [] then 0 else ?a + span ?xs + (span ?fl + s + CK)), ck_prev = last_addr 0 ?a ?xs \<rparr>"
    using h2(2) unfolding cseg_mid by blast
  have run: "kfree fuel hp (?blk + CK) = Ret (hp\<lparr> hp_chunks := h3 \<rparr>)"
    using b h2(1) b2 h3(1) a0 by (simp add: kfree_def)
  have seg3: "cseg h3 0 ?a (released pre s ys) 0" using h3(2) by (simp add: released_def)
  have sp: "span (released pre s ys) = span (css ! i)" using span_released cs by metis
  have s1: "span (?xs @ ?fl @ (s, True) # ys) = span (css ! i)"
    using cs pre_split [of pre] by (metis append.assoc fst_conv span_simps(2,3))
  have s2: "span (?xs @ (span ?fl + s, True) # ?fr @ ?zs) = span (css ! i)"
    using s1 by (simp add: add.assoc)
  have lt: "?blk < ?a + span (css ! i)" using cs by simp
  have "same_outside ?a (?a + span (css ! i)) ?h ?h1" using lt by (intro same_outside_upd) auto
  then have "same_outside ?a (?a + span (css ! i)) ?h h3"
    using h2(3) h3(3) unfolding s1 s2 by (metis same_outside_trans)
  from heap_inv_upd [OF inv i seg3 _ sp this] show ?thesis using run by (auto simp: released_def)
qed

section \<open>The allocated blocks\<close>

fun allocs :: "nat \<Rightarrow> chunks \<Rightarrow> (nat \<times> nat) list" where
  "allocs a [] = []"
| "allocs a ((s, f) # cs) = (if f then [] else [(a + CK, s)]) @ allocs (a + (s + CK)) cs"

definition allocated :: "heap \<Rightarrow> chunks list \<Rightarrow> (nat \<times> nat) set" where
  "allocated hp css = (\<Union>i<length css. set (allocs (base hp i) (css ! i)))"

lemma allocs_append: "allocs a (xs @ ys) = allocs a xs @ allocs (a + span xs) ys"
  by (induction xs arbitrary: a) (auto simp: add.assoc)

lemma allocs_range: "r \<in> set (allocs a cs) \<Longrightarrow> a + CK \<le> fst r \<and> fst r + snd r \<le> a + span cs"
  by (induction a cs rule: allocs.induct) (force split: if_splits)+

lemma allocs_free: "\<forall>c\<in>set cs. snd c \<Longrightarrow> allocs a cs = []"
  by (induction a cs rule: allocs.induct) auto

lemma allocs_carved:
  "n \<le> s \<Longrightarrow> set (allocs a (pre @ carved n s False @ ys)) =
   insert (a + span pre + CK, if s - n < CK + SPLIT_THRESHOLD then s else n) (set (allocs a (pre @ (s, True) # ys)))"
  by (auto simp: allocs_append carved_def SPLIT_THRESHOLD_def ac_simps)

lemma allocs_released:
  "set (allocs a (released pre s ys)) = set (allocs a (pre @ (s, True) # ys))"
proof -
  let ?xs = "rev (dropWhile snd (rev pre))" and ?fl = "rev (takeWhile snd (rev pre))"
  have fl: "allocs b ?fl = []" for b by (rule allocs_free) (auto dest: set_takeWhileD)
  have fr: "allocs b (takeWhile snd ys) = []" for b by (rule allocs_free) (auto dest: set_takeWhileD)
  have "allocs a pre = allocs a ?xs" using fl pre_split [of pre] allocs_append [of a ?xs ?fl] by simp
  moreover have "span pre = span ?xs + span ?fl" using pre_split [of pre] by (metis span_simps(3))
  moreover have "allocs b ys = allocs (b + span (takeWhile snd ys)) (dropWhile snd ys)" for b
    using fr allocs_append [of b "takeWhile snd ys" "dropWhile snd ys"] by simp
  ultimately show ?thesis by (simp add: released_def allocs_append ac_simps)
qed

lemma allocated_upd:
  assumes "i < length css" and "hp_arenas hp' = hp_arenas hp"
  shows "allocated hp' (css[i := cs]) = set (allocs (base hp i) cs) \<union> (\<Union>j\<in>{..<length css} - {i}. set (allocs (base hp j) (css ! j)))"
proof -
  have b: "base hp' j = base hp j" for j using assms(2) by (simp add: base_def)
  have "{..<length css} = insert i ({..<length css} - {i})" using assms(1) by auto
  then have "allocated hp' (css[i := cs]) = (\<Union>j\<in>insert i ({..<length css} - {i}). set (allocs (base hp j) (css[i := cs] ! j)))"
    using b by (simp add: allocated_def)
  moreover have "(\<Union>j\<in>{..<length css} - {i}. set (allocs (base hp j) (css[i := cs] ! j)))
      = (\<Union>j\<in>{..<length css} - {i}. set (allocs (base hp j) (css ! j)))"
    by (rule SUP_cong) auto
  ultimately show ?thesis using assms(1) by (simp only: UN_insert nth_list_update_eq)
qed

lemma allocated_self:
  "i < length css \<Longrightarrow> allocated hp css = set (allocs (base hp i) (css ! i)) \<union> (\<Union>j\<in>{..<length css} - {i}. set (allocs (base hp j) (css ! j)))"
  using allocated_upd [of i css hp hp "css ! i"] by simp

text \<open>What lies in one chunk of an arena is disjoint from every other allocated block.\<close>

lemma chunk_disjoint:
  assumes inv: "heap_inv hp css" and i: "i < length css" and cs: "css ! i = pre @ (s, f) # ys" and "m \<le> s"
    and r: "r \<in> (\<Union>j\<in>{..<length css} - {i}. set (allocs (base hp j) (css ! j))) \<union>
      set (allocs (base hp i) pre) \<union> set (allocs (base hp i + span pre + (s + CK)) ys)"
  shows "disjoint_from (base hp i + span pre + CK, m) r"
proof -
  have sp: "span (css ! i) = span pre + (s + CK) + span ys" using cs by simp
  from r consider (other) j where "j < length css" "j \<noteq> i" "r \<in> set (allocs (base hp j) (css ! j))"
    | (before) "r \<in> set (allocs (base hp i) pre)" | (after) "r \<in> set (allocs (base hp i + span pre + (s + CK)) ys)" by blast
  then show ?thesis
  proof cases
    case other
    have "disjoint_from (base hp i, span (css ! i)) (base hp j, span (css ! j))"
      using inv i other(1,2) by (simp add: heap_inv_def base_def)
    then show ?thesis using allocs_range [OF other(3)] sp assms(4) by (auto simp: disjoint_from_def)
  next
    case before
    then show ?thesis using allocs_range [OF before] by (auto simp: disjoint_from_def)
  next
    case after
    then show ?thesis using allocs_range [OF after] assms(4) by (auto simp: disjoint_from_def)
  qed
qed

lemma chunk_unique:
  assumes inv: "heap_inv hp css" and i: "i < length css" and cs: "css ! i = pre @ (s, f) # ys"
    and r: "r \<in> (\<Union>j\<in>{..<length css} - {i}. set (allocs (base hp j) (css ! j))) \<union>
      set (allocs (base hp i) pre) \<union> set (allocs (base hp i + span pre + (s + CK)) ys)"
  shows "fst r \<noteq> base hp i + span pre + CK"
proof -
  have sp: "span (css ! i) = span pre + (s + CK) + span ys" using cs by simp
  from r consider (other) j where "j < length css" "j \<noteq> i" "r \<in> set (allocs (base hp j) (css ! j))"
    | (before) "r \<in> set (allocs (base hp i) pre)" | (after) "r \<in> set (allocs (base hp i + span pre + (s + CK)) ys)" by blast
  then show ?thesis
  proof cases
    case other
    have "disjoint_from (base hp i, span (css ! i)) (base hp j, span (css ! j))"
      using inv i other(1,2) by (simp add: heap_inv_def base_def)
    then show ?thesis using allocs_range [OF other(3)] sp by (auto simp: disjoint_from_def CK_def)
  next
    case before
    then show ?thesis using allocs_range [OF before] by (auto simp: CK_def)
  next
    case after
    then show ?thesis using allocs_range [OF after] by (auto simp: CK_def)
  qed
qed

section \<open>Heap and page allocator together\<close>

definition page_addr :: "nat \<Rightarrow> nat" where
  "page_addr p = p * 4096 + 0xffffffff80000000"

abbreviation pool :: "heap \<Rightarrow> nat multiset" where
  "pool hp \<equiv> zone_pages (zone_normal (hp_pfa hp))"

text \<open>No page is free twice, free pages lie below 2 GB and outside every arena.\<close>

definition heap_ok :: "heap \<Rightarrow> chunks list \<Rightarrow> bool" where
  "heap_ok hp css \<longleftrightarrow> heap_inv hp css \<and> pfa_inv (hp_pfa hp) \<and> no_page_twice (pool hp) \<and>
     (\<forall>p\<in>#pool hp. p < 2 ^ 19) \<and> (\<forall>cs\<in>set css. span cs \<le> 16384) \<and>
     (\<forall>i<length css. \<forall>p\<in>#pool hp. disjoint_from (base hp i, span (css ! i)) (page_addr p, 4096))"

text \<open>An arena has at most 655 chunks, so fuel 656 is enough for every loop.\<close>

lemma length_span: "CK * length cs \<le> span cs"
  by (induction cs) auto

lemma heap_ok_fuel: "heap_ok hp css \<Longrightarrow> cs \<in> set css \<Longrightarrow> length cs < 656"
  using length_span [of cs] by (fastforce simp: heap_ok_def CK_def)

lemma heap_ok_upd:
  assumes ok: "heap_ok hp css" and i: "i < length css" and inv: "heap_inv hp' (css[i := cs])"
    and sp: "span cs = span (css ! i)" and ar: "hp_arenas hp' = hp_arenas hp" and pfa: "hp_pfa hp' = hp_pfa hp"
  shows "heap_ok hp' (css[i := cs])"
proof -
  have b: "base hp' j = base hp j" for j using ar by (simp add: base_def)
  have s: "span (css[i := cs] ! j) = span (css ! j)" for j
    using sp i by (cases "j = i") auto
  have "\<forall>c\<in>set (css[i := cs]). span c \<le> 16384"
    using ok i sp by (auto simp: heap_ok_def dest!: set_update_subset_insert [THEN subsetD])
  then show ?thesis using ok inv b s pfa by (simp add: heap_ok_def)
qed

lemma allocated_mid:
  assumes "i < length css" and "css ! i = pre @ (s, f) # ys"
  shows "allocated hp css = (if f then {} else {(base hp i + span pre + CK, s)}) \<union>
    ((\<Union>j\<in>{..<length css} - {i}. set (allocs (base hp j) (css ! j))) \<union>
     set (allocs (base hp i) pre) \<union> set (allocs (base hp i + span pre + (s + CK)) ys))"
  unfolding allocated_self [OF assms(1)] assms(2) by (auto simp: allocs_append)

text \<open>Allocation when some chunk fits.\<close>

lemma kmalloc_fit_live:
  assumes ok: "heap_ok hp css" and "0 < n" and fit: "\<exists>cs\<in>set css. \<exists>c\<in>set cs. fits n c" and "656 \<le> fuel"
  shows "\<exists>q m hp' css'. kmalloc fuel hp n = Ret (q, hp') \<and> heap_ok hp' css' \<and> n \<le> m \<and>
    allocated hp' css' = insert (q, m) (allocated hp css) \<and> (\<forall>r\<in>allocated hp css. disjoint_from (q, m) r)"
proof -
  have inv: "heap_inv hp css" using ok by (simp add: heap_ok_def)
  have fuel: "\<forall>cs\<in>set css. length cs < fuel" using heap_ok_fuel [OF ok] assms(4) by fastforce
  obtain i pre s ys hp' where r: "i < length css" "css ! i = pre @ (s, True) # ys" "n \<le> s"
      "kmalloc fuel hp n = Ret (base hp i + span pre + CK, hp')"
      "heap_inv hp' (css[i := pre @ carved n s False @ ys])" "hp_arenas hp' = hp_arenas hp" "hp_pfa hp' = hp_pfa hp"
    using kmalloc_fit [OF inv assms(2) fuel fit] by blast
  let ?q = "base hp i + span pre + CK" and ?m = "if s - n < CK + SPLIT_THRESHOLD then s else n"
  have sp: "span (pre @ carved n s False @ ys) = span (css ! i)"
    using span_carved [OF r(3), of False] r(2) by simp
  have "heap_ok hp' (css[i := pre @ carved n s False @ ys])"
    by (rule heap_ok_upd [OF ok r(1) r(5) sp r(6,7)])
  moreover have "allocated hp' (css[i := pre @ carved n s False @ ys]) = insert (?q, ?m) (allocated hp css)"
    unfolding allocated_upd [OF r(1,6)] allocated_self [OF r(1), of hp] r(2) allocs_carved [OF r(3)] by simp
  moreover have "\<forall>r\<in>allocated hp css. disjoint_from (?q, ?m) r"
    unfolding allocated_mid [OF r(1,2)] using chunk_disjoint [OF inv r(1,2), of ?m] r(3) by auto
  moreover have "n \<le> ?m" using r(3) by simp
  ultimately show ?thesis using r(4) by blast
qed

text \<open>A new arena.\<close>

lemma page_addr_block:
  assumes "block_ok a 2" and "unat a < 2 ^ 31"
  shows "unat (amd64_p_to_v a) = page_addr (unat a div 4096)" and "0 < unat (amd64_p_to_v a)"
  using unat_p_to_v [OF assms(2)] assms(1) div_mult_mod_eq [of "unat a" 4096] by (simp_all add: page_addr_def block_ok_def)

lemma alloc_arena_ok:
  assumes ok: "heap_ok hp css" and r: "alloc_arena hp = Ret hp1"
  shows "heap_ok hp1 (css @ [[(16384 - CK, True)]]) \<and> allocated hp1 (css @ [[(16384 - CK, True)]]) = allocated hp css"
proof -
  obtain a s where a: "mm_block_alloc (hp_pfa hp) 1 2 = Ret (a, s)"
      "hp1 = hp\<lparr> hp_pfa := s, hp_chunks := (hp_chunks hp)(unat (amd64_p_to_v a) \<mapsto> new_arena_chunk),
         hp_arenas := hp_arenas hp @ [(unat (amd64_p_to_v a), 16384)] \<rparr>"
    using r by (auto simp: alloc_arena_def bnd_Ret_iff HEAP_ARENA_SIZE_def Let_def)
  have inv: "heap_inv hp css" and pfa: "pfa_inv (hp_pfa hp)" and nt: "no_page_twice (pool hp)"
    and low: "\<forall>p\<in>#pool hp. p < 2 ^ 19" and out: "\<forall>i<length css. \<forall>p\<in>#pool hp. disjoint_from (base hp i, span (css ! i)) (page_addr p, 4096)"
    using ok by (simp_all add: heap_ok_def)
  have t: "pfa_inv s" "block_ok a 2" "pool hp = zone_pages (zone_normal s) + block_pages a 2"
    using mm_block_alloc_takes [OF pfa _ a(1)] by (auto simp: takes_def)
  let ?p = "unat a div 4096" and ?b = "unat (amd64_p_to_v a)" and ?cs = "[(16384 - CK, True)]"
  have pg: "p \<in># block_pages a 2 \<longleftrightarrow> ?p \<le> p \<and> p < ?p + 4" for p by (auto simp: block_pages_def)
  have "unat a < 2 ^ 31"
  proof -
    have "?p \<in># pool hp" using t(3) pg [of ?p] by simp
    then have "?p < 2 ^ 19" using low by blast
    then show ?thesis using div_mult_mod_eq [of "unat a" 4096] t(2) by (simp add: block_ok_def)
  qed
  note b = page_addr_block [OF t(2) this]
  have len: "length (hp_arenas hp) = length css" using inv by (simp add: heap_inv_def)
  have base1: "base hp1 i = (if i < length css then base hp i else if i = length css then ?b else base hp1 i)" for i
    using a(2) len by (simp add: base_def nth_append)
  have csp: "span ?cs = 16384" by (simp add: CK_def)
  have far: "disjoint_from (base hp i, span (css ! i)) (?b, 16384)" if i: "i < length css" for i
  proof -
    have "disjoint_from (base hp i, span (css ! i)) (page_addr (?p + k), 4096)" if "k < 4" for k
      using out i that t(3) pg [of "?p + k"] by auto
    from this [of 0] this [of 1] this [of 2] this [of 3]
    have "disjoint_from (base hp i, span (css ! i)) (page_addr ?p, 4096)"
      "disjoint_from (base hp i, span (css ! i)) (page_addr ?p + 4096, 4096)"
      "disjoint_from (base hp i, span (css ! i)) (page_addr ?p + 8192, 4096)"
      "disjoint_from (base hp i, span (css ! i)) (page_addr ?p + 12288, 4096)"
      by (simp_all add: page_addr_def algebra_simps)
    moreover have "0 < span (css ! i)"
      using heap_inv_arena [OF inv i] by (cases "css ! i") (auto simp: CK_def)
    ultimately show ?thesis unfolding disjoint_from_def b(1) fst_conv snd_conv by linarith
  qed
  have keep: "cseg (hp_chunks hp1) 0 (base hp i) (css ! i) 0" if i: "i < length css" for i
  proof -
    have "cseg (hp_chunks hp1) 0 (base hp i) (css ! i) 0 = cseg (hp_chunks hp) 0 (base hp i) (css ! i) 0"
      unfolding a(2) using far [OF i] by (auto simp: disjoint_from_def intro!: cseg_upd)
    then show ?thesis using heap_inv_arena [OF inv i] by simp
  qed
  have new: "cseg (hp_chunks hp1) 0 ?b ?cs 0"
    by (simp add: a(2) new_arena_chunk_def HEAP_ARENA_SIZE_def)
  have inv1: "heap_inv hp1 (css @ [?cs])"
    unfolding heap_inv_def
  proof (intro conjI allI impI)
    show "length (hp_arenas hp1) = length (css @ [?cs])" using a(2) len by simp
  next
    fix i assume "i < length (css @ [?cs])"
    then show "arena_ok (hp_chunks hp1) (hp_arenas hp1 ! i) ((css @ [?cs]) ! i)"
      using heap_inv_arena [OF inv, of i] keep [of i] new b(2) base1 [of i]
      by (cases "i < length css") (auto simp: arena_ok_def base_def nth_append less_Suc_eq)
  next
    fix i j assume ij: "i < length (css @ [?cs])" "j < length (css @ [?cs])" "i \<noteq> j"
    have "disjoint_from (base hp i, span (css ! i)) (base hp j, span (css ! j))" if "i < length css" "j < length css"
      using inv ij(3) that by (simp add: heap_inv_def base_def)
    moreover have "disjoint_from x y \<longleftrightarrow> disjoint_from y x" for x y by (auto simp: disjoint_from_def)
    ultimately have "disjoint_from (base hp1 i, span ((css @ [?cs]) ! i)) (base hp1 j, span ((css @ [?cs]) ! j))"
      using ij far [of i] far [of j] base1 [of i] base1 [of j] csp by (auto simp: nth_append less_Suc_eq)
    then show "disjoint_from (fst (hp_arenas hp1 ! i), span ((css @ [?cs]) ! i)) (fst (hp_arenas hp1 ! j), span ((css @ [?cs]) ! j))"
      by (simp add: base_def)
  qed
  have pool1: "pool hp1 = zone_pages (zone_normal s)" by (simp add: a(2))
  have nt1: "no_page_twice (pool hp1)" using nt t(3) pool1 no_page_twice_add(1) by metis
  have out1: "disjoint_from (base hp1 i, span ((css @ [?cs]) ! i)) (page_addr p, 4096)"
    if i: "i < length (css @ [?cs])" and p: "p \<in># pool hp1" for i p
  proof (cases "i < length css")
    case True
    then show ?thesis using out p pool1 t(3) base1 [of i] by (auto simp: nth_append)
  next
    case False
    then have "i = length css" using i by simp
    moreover have "\<not> (?p \<le> p \<and> p < ?p + 4)"
      using no_page_twice_add(2) [of "zone_pages (zone_normal s)" "block_pages a 2" p] nt t(3) p pool1 pg [of p] by auto
    then have "disjoint_from (?b, 16384) (page_addr p, 4096)"
      unfolding disjoint_from_def b(1) fst_conv snd_conv page_addr_def by linarith
    ultimately show ?thesis using base1 [of i] csp by (simp add: nth_append)
  qed
  have "heap_ok hp1 (css @ [?cs])"
    unfolding heap_ok_def using inv1 nt1 out1 low t(1,3) ok csp pool1 by (auto simp: heap_ok_def a(2))
  moreover have "allocated hp1 (css @ [?cs]) = allocated hp css"
  proof -
    have "set (allocs (base hp1 i) ((css @ [?cs]) ! i)) = set (allocs (base hp i) (css ! i))" if "i < length css" for i
      using base1 [of i] that by (simp add: nth_append)
    then show ?thesis by (simp add: allocated_def lessThan_Suc)
  qed
  ultimately show ?thesis by blast
qed

lemma kmalloc_live:
  assumes ok: "heap_ok hp css" and n: "0 < n" and fuel: "656 \<le> fuel" and r: "kmalloc fuel hp n = Ret (q, hp')"
  shows "\<exists>m css'. heap_ok hp' css' \<and> n \<le> m \<and> allocated hp' css' = insert (q, m) (allocated hp css) \<and>
    (\<forall>r\<in>allocated hp css. disjoint_from (q, m) r)"
proof (cases "\<exists>cs\<in>set css. \<exists>c\<in>set cs. fits n c")
  case True
  then show ?thesis using kmalloc_fit_live [OF ok n True fuel] r by auto
next
  case False
  have inv: "heap_inv hp css" using ok by (simp add: heap_ok_def)
  have fl: "\<forall>cs\<in>set css. length cs < fuel" using heap_ok_fuel [OF ok] fuel by fastforce
  have none: "find_free fuel (hp_chunks hp) (hp_arenas hp) n = Ret (0, hp_chunks hp)"
    using find_arenas_ok [OF heap_inv_list_all2 [OF inv] fl, of n] False n by (auto simp: find_free_def)
  obtain hp1 where a: "alloc_arena hp = Ret hp1"
    using r none by (auto simp: kmalloc_def bnd_Ret_iff)
  let ?css1 = "css @ [[(16384 - CK, True)]]"
  have ok1: "heap_ok hp1 ?css1" "allocated hp1 ?css1 = allocated hp css" using alloc_arena_ok [OF ok a] by auto
  have inv1: "heap_inv hp1 ?css1" using ok1(1) by (simp add: heap_ok_def)
  have fl1: "\<forall>cs\<in>set ?css1. length cs < fuel" using heap_ok_fuel [OF ok1(1)] fuel by fastforce
  show ?thesis
  proof (cases "n \<le> 16384 - CK")
    case True
    then have fit: "\<exists>cs\<in>set ?css1. \<exists>c\<in>set cs. fits n c" by (simp add: fits_def)
    obtain q1 m hp1' css' where q1: "kmalloc fuel hp1 n = Ret (q1, hp1')" "heap_ok hp1' css'" "n \<le> m"
        "allocated hp1' css' = insert (q1, m) (allocated hp css)" "\<forall>r\<in>allocated hp css. disjoint_from (q1, m) r"
      using kmalloc_fit_live [OF ok1(1) n fit fuel] ok1(2) by auto
    obtain b h1 where f1: "find_free fuel (hp_chunks hp1) (hp_arenas hp1) n = Ret (b, h1)" and b0: "b \<noteq> 0"
    proof -
      obtain i pre s ys where i: "i < length ?css1"
          "find_arenas fuel (hp_chunks hp1) (hp_arenas hp1) n = bnd (split_chunk (hp_chunks hp1) (fit_addr n (hp_arenas hp1 ! i) (?css1 ! i)) n)
            (\<lambda>h'. Ret (fit_addr n (hp_arenas hp1 ! i) (?css1 ! i), h'))"
        using find_arenas_ok [OF heap_inv_list_all2 [OF inv1] fl1, of n] fit by blast
      have "fit_addr n (hp_arenas hp1 ! i) (?css1 ! i) \<noteq> 0"
        using heap_inv_arena [OF inv1 i(1)] by (simp add: fit_addr_def base_def)
      then show ?thesis using that i(2) q1(1) n
        by (auto simp: kmalloc_def find_free_def bnd_Ret_iff)
    qed
    have "kmalloc fuel hp n = kmalloc fuel hp1 n"
      using none a f1 b0 by (simp add: kmalloc_def)
    then show ?thesis using q1 r by auto
  next
    case False
    have "\<not> (\<exists>cs\<in>set ?css1. \<exists>c\<in>set cs. fits n c)"
      using \<open>\<not> (\<exists>cs\<in>set css. \<exists>c\<in>set cs. fits n c)\<close> False by (auto simp: fits_def)
    then have "find_arenas fuel (hp_chunks hp1) (hp_arenas hp1) n = Ret (0, hp_chunks hp1)"
      using find_arenas_ok [OF heap_inv_list_all2 [OF inv1] fl1, of n] nth_mem [of _ ?css1] by blast
    then have "find_free fuel (hp_chunks hp1) (hp_arenas hp1) n = Ret (0, hp_chunks hp1)"
      using n by (simp add: find_free_def)
    then have "kmalloc fuel hp n = Halt Panicked" using none a by (simp add: kmalloc_def)
    then show ?thesis using r by simp
  qed
qed

text \<open>Where an allocated block stands.\<close>

lemma allocs_mem: "(q, m) \<in> set (allocs a cs) \<Longrightarrow> \<exists>pre ys. cs = pre @ (m, False) # ys \<and> q = a + span pre + CK"
proof (induction a cs rule: allocs.induct)
  case (2 a s f cs)
  show ?case
  proof (cases "\<not> f \<and> (q, m) = (a + CK, s)")
    case True then show ?thesis by (intro exI [of _ "[]"] exI [of _ cs]) simp
  next
    case False
    then have "(q, m) \<in> set (allocs (a + (s + CK)) cs)" using 2(2) by (auto split: if_splits)
    then obtain pre ys where "cs = pre @ (m, False) # ys" "q = a + (s + CK) + span pre + CK" using 2(1) by blast
    then show ?thesis by (intro exI [of _ "(s, f) # pre"] exI [of _ ys]) simp
  qed
qed simp

lemma kfree_live:
  assumes ok: "heap_ok hp css" and "656 \<le> fuel" and m: "(q, m) \<in> allocated hp css"
  shows "\<exists>hp' css'. kfree fuel hp q = Ret hp' \<and> heap_ok hp' css' \<and> allocated hp' css' = allocated hp css - {(q, m)}"
proof -
  obtain i where i: "i < length css" "(q, m) \<in> set (allocs (base hp i) (css ! i))"
    using m by (auto simp: allocated_def)
  obtain pre ys where cs: "css ! i = pre @ (m, False) # ys" "q = base hp i + span pre + CK"
    using allocs_mem [OF i(2)] by blast
  have inv: "heap_inv hp css" using ok by (simp add: heap_ok_def)
  have "length (css ! i) < fuel" using heap_ok_fuel [OF ok] i(1) assms(2) by (meson le_trans less_le_trans nth_mem)
  then obtain hp' where r: "kfree fuel hp q = Ret hp'" "heap_inv hp' (css[i := released pre m ys])"
      "hp_arenas hp' = hp_arenas hp" "hp_pfa hp' = hp_pfa hp"
    using kfree_ok [OF inv i(1) cs(1)] cs(2) by blast
  have sp: "span (released pre m ys) = span (css ! i)" using span_released cs(1) by metis
  let ?rest = "(\<Union>j\<in>{..<length css} - {i}. set (allocs (base hp j) (css ! j))) \<union>
     set (allocs (base hp i) pre) \<union> set (allocs (base hp i + span pre + (m + CK)) ys)"
  have all: "allocated hp css = insert (q, m) ?rest" using allocated_mid [OF i(1) cs(1)] cs(2) by simp
  have "(q, m) \<notin> ?rest"
  proof
    assume "(q, m) \<in> ?rest"
    from chunk_unique [OF inv i(1) cs(1) this] show False using cs(2) by simp
  qed
  moreover have "allocated hp' (css[i := released pre m ys]) = ?rest"
    unfolding allocated_upd [OF i(1) r(3)] allocs_released by (auto simp: allocs_append)
  ultimately have "allocated hp' (css[i := released pre m ys]) = allocated hp css - {(q, m)}"
    unfolding all by (simp only: Diff_insert_absorb not_False_eq_True)
  moreover have "heap_ok hp' (css[i := released pre m ys])"
    by (rule heap_ok_upd [OF ok i(1) r(2) sp r(3,4)])
  ultimately show ?thesis using r(1) by (intro exI conjI)
qed

section \<open>The contract: an allocator of memory regions\<close>

primrec malloc_list :: "('s \<Rightarrow> nat \<Rightarrow> (nat \<times> 's) outcome) \<Rightarrow> 's \<Rightarrow> nat list \<Rightarrow> (nat list \<times> 's) outcome" where
  "malloc_list malloc s [] = Ret ([], s)"
| "malloc_list malloc s (n # ns) =
     bnd (malloc s n) (\<lambda>(q, s1). omap (\<lambda>(qs, s2). (q # qs, s2)) (malloc_list malloc s1 ns))"

text \<open>\<open>live s L\<close>: the regions \<open>L\<close> (address and size) are handed out in the state \<open>s\<close>.\<close>

locale region_allocator =
  fixes live :: "'s \<Rightarrow> (nat \<times> nat) set \<Rightarrow> bool"
    and malloc :: "'s \<Rightarrow> nat \<Rightarrow> (nat \<times> 's) outcome" and free :: "'s \<Rightarrow> nat \<Rightarrow> 's outcome"
  assumes malloc_fresh: "live s L \<Longrightarrow> 0 < n \<Longrightarrow> malloc s n = Ret (q, s') \<Longrightarrow>
      \<exists>m\<ge>n. live s' (insert (q, m) L) \<and> (\<forall>r\<in>L. disjoint_from (q, m) r)"
    and free_live: "live s L \<Longrightarrow> (q, m) \<in> L \<Longrightarrow> \<exists>s'. free s q = Ret s' \<and> live s' (L - {(q, m)})"
begin

text \<open>Blocks handed out one after the other do not overlap each other, nor older ones.\<close>

lemma malloc_list_disjoint:
  "live s L \<Longrightarrow> \<forall>n\<in>set ns. 0 < n \<Longrightarrow> malloc_list malloc s ns = Ret (qs, s') \<Longrightarrow>
   \<exists>L'. live s' L' \<and> L \<subseteq> L' \<and> length qs = length ns \<and>
     (\<forall>i<length qs. \<forall>r\<in>L. disjoint_from (qs ! i, ns ! i) r) \<and>
     (\<forall>i j. i < j \<longrightarrow> j < length qs \<longrightarrow> disjoint_from (qs ! i, ns ! i) (qs ! j, ns ! j))"
proof (induction ns arbitrary: s L qs)
  case (Cons n ns)
  obtain q s1 qs1 where q: "malloc s n = Ret (q, s1)" "malloc_list malloc s1 ns = Ret (qs1, s')" "qs = q # qs1"
    using Cons.prems(3) by (auto simp: bnd_Ret_iff omap_Ret_iff)
  obtain m where m: "n \<le> m" "live s1 (insert (q, m) L)" "\<forall>r\<in>L. disjoint_from (q, m) r"
    using malloc_fresh [OF Cons.prems(1) _ q(1)] Cons.prems(2) by auto
  obtain L' where L': "live s' L'" "insert (q, m) L \<subseteq> L'" "length qs1 = length ns"
      "\<forall>i<length qs1. \<forall>r\<in>insert (q, m) L. disjoint_from (qs1 ! i, ns ! i) r"
      "\<forall>i j. i < j \<longrightarrow> j < length qs1 \<longrightarrow> disjoint_from (qs1 ! i, ns ! i) (qs1 ! j, ns ! j)"
    using Cons.IH [OF m(2) _ q(2)] Cons.prems(2) by auto
  have small: "disjoint_from (q, n) r" if "disjoint_from (q, m) r" for r
    using that m(1) by (auto simp: disjoint_from_def)
  have "disjoint_from (qs ! i, (n # ns) ! i) r" if "i < length qs" "r \<in> L" for i r
    using that L'(4) m(3) small q(3) by (cases i) auto
  moreover have "disjoint_from (qs ! i, (n # ns) ! i) (qs ! j, (n # ns) ! j)" if ij: "i < j" "j < length qs" for i j
  proof -
    obtain j' where j': "j = Suc j'" using ij(1) by (cases j) auto
    show ?thesis
    proof (cases i)
      case 0
      then have "disjoint_from (qs1 ! j', ns ! j') (q, m)" using L'(4) ij j' q(3) by simp
      then show ?thesis using 0 j' q(3) m(1) by (auto simp: disjoint_from_def)
    next
      case (Suc i')
      then show ?thesis using L'(5) ij j' q(3) by simp
    qed
  qed
  ultimately show ?case using L'(1-3) q(3) by (intro exI [of _ L']) auto
qed auto

lemma malloc_free:
  assumes "live s L" and "0 < n" and "malloc s n = Ret (q, s')" and "\<forall>m. (q, m) \<notin> L"
  shows "\<exists>s''. free s' q = Ret s'' \<and> live s'' L"
proof -
  obtain m where m: "live s' (insert (q, m) L)" using malloc_fresh [OF assms(1-3)] by blast
  then obtain s'' where "free s' q = Ret s''" "live s'' (insert (q, m) L - {(q, m)})"
    using free_live [of s' "insert (q, m) L" q m] by blast
  moreover have "insert (q, m) L - {(q, m)} = L" using assms(4) by blast
  ultimately show ?thesis by metis
qed

end

definition heap_live :: "heap \<Rightarrow> (nat \<times> nat) set \<Rightarrow> bool" where
  "heap_live hp L \<longleftrightarrow> (\<exists>css. heap_ok hp css \<and> allocated hp css = L)"

interpretation hpr: region_allocator heap_live "kmalloc 656" "kfree 656"
proof (unfold_locales, goal_cases)
  case (1 s L n q s')
  then show ?case using kmalloc_live [of s _ n 656 q s'] unfolding heap_live_def by blast
next
  case (2 s L q m)
  then show ?case using kfree_live [of s _ 656 q m] unfolding heap_live_def by blast
qed

section \<open>Properties\<close>

text \<open>
  C1: blocks returned by a series of \<open>kmalloc\<close> calls overlap neither each other nor any
  block allocated before, whether they come from existing arenas or from new ones that
  the page allocator provides on the way.
\<close>

theorem kmalloc_disjoint:
  assumes "heap_live hp L" and "\<forall>n\<in>set ns. 0 < n" and "malloc_list (kmalloc 656) hp ns = Ret (qs, hp')"
  shows "(\<forall>i j. i < j \<longrightarrow> j < length qs \<longrightarrow> disjoint_from (qs ! i, ns ! i) (qs ! j, ns ! j)) \<and>
    (\<forall>i<length qs. \<forall>r\<in>L. disjoint_from (qs ! i, ns ! i) r) \<and> (\<exists>L'. heap_live hp' L' \<and> L \<subseteq> L')"
  using hpr.malloc_list_disjoint [OF assms] by blast

definition demo_heap :: heap where
  "demo_heap = \<lparr> hp_pfa = demo_pfa, hp_chunks = [0xffffffff80200000 \<mapsto> new_arena_chunk],
     hp_arenas = [(0xffffffff80200000, 16384)], hp_mem = Map.empty \<rparr>"

abbreviation demo_css :: "chunks list" where
  "demo_css \<equiv> [[(16359, True)]]"

lemma demo_heap_ok: "heap_ok demo_heap demo_css"
proof -
  have "heap_inv demo_heap demo_css"
    by (simp add: heap_inv_def arena_ok_def demo_heap_def new_arena_chunk_def HEAP_ARENA_SIZE_def CK_def)
  moreover have "pool demo_heap = mset [4096 ..< 4100]" using demo_pfa_pages by (simp add: demo_heap_def)
  moreover have "no_page_twice (mset [4096 ..< 4100])" by (simp add: no_page_twice_def)
  moreover have "disjoint_from (base demo_heap 0, 16384) (page_addr p, 4096)" if "4096 \<le> p" for p
    using that by (simp add: base_def demo_heap_def disjoint_from_def page_addr_def)
  moreover have "span (demo_css ! 0) = 16384" "span [(16359, True)] = 16384" by (simp_all add: CK_def)
  moreover have "hp_pfa demo_heap = demo_pfa" by (simp add: demo_heap_def)
  ultimately show ?thesis using demo_pfa_inv unfolding heap_ok_def
    by (intro conjI allI impI ballI) (auto simp del: span_simps)
qed

lemma demo_heap_live: "heap_live demo_heap {}"
  using demo_heap_ok by (auto simp: heap_live_def allocated_def intro!: exI [of _ demo_css])

lemma demo_kmalloc:
  "\<exists>q hp'. kmalloc 656 demo_heap 16 = Ret (q, hp') \<and> heap_ok hp' [carved 16 16359 False]"
proof -
  have inv: "heap_inv demo_heap demo_css" using demo_heap_ok by (simp add: heap_ok_def)
  obtain i pre s ys hp' where r: "i < length demo_css" "demo_css ! i = pre @ (s, True) # ys"
      "kmalloc 656 demo_heap 16 = Ret (base demo_heap i + span pre + CK, hp')"
      "heap_inv hp' (demo_css[i := pre @ carved 16 s False @ ys])" "hp_arenas hp' = hp_arenas demo_heap"
      "hp_pfa hp' = hp_pfa demo_heap"
    using kmalloc_fit [OF inv, of 16 656] by (auto simp: fits_def)
  have "i = 0" "pre = []" "s = 16359" "ys = []" using r(1,2) by (auto simp: Cons_eq_append_conv)
  moreover have "heap_ok hp' (demo_css[0 := carved 16 16359 False])"
    by (rule heap_ok_upd [OF demo_heap_ok]) (use r calculation span_carved [of 16 16359 False] in auto)
  ultimately show ?thesis using r(3) by auto
qed

lemma kmalloc_disjoint_witness:
  "\<exists>qs hp'. malloc_list (kmalloc 656) demo_heap [16, 100] = Ret (qs, hp') \<and>
    (\<forall>i j. i < j \<longrightarrow> j < length qs \<longrightarrow> disjoint_from (qs ! i, [16, 100] ! i) (qs ! j, [16, 100] ! j)) \<and>
    (\<forall>i<length qs. \<forall>r\<in>{}. disjoint_from (qs ! i, [16, 100] ! i) r) \<and> (\<exists>L'. heap_live hp' L' \<and> {} \<subseteq> L')"
proof -
  obtain q hp1 where q: "kmalloc 656 demo_heap 16 = Ret (q, hp1)" "heap_ok hp1 [carved 16 16359 False]"
    using demo_kmalloc by blast
  have "\<exists>cs\<in>set [carved 16 16359 False]. \<exists>c\<in>set cs. fits 100 c"
    by (simp add: carved_def fits_def CK_def SPLIT_THRESHOLD_def)
  from kmalloc_fit_live [OF q(2) _ this, of 656] obtain q2 hp2 where "kmalloc 656 hp1 100 = Ret (q2, hp2)" by auto
  then have r: "malloc_list (kmalloc 656) demo_heap [16, 100] = Ret ([q, q2], hp2)" using q(1) by simp
  have "\<forall>n\<in>set [16, 100 :: nat]. 0 < n" by simp
  from kmalloc_disjoint [OF demo_heap_live this r] r show ?thesis by blast
qed

text \<open>
  C2: \<open>kfree\<close> of an allocated block returns, keeps the heap well formed and removes exactly
  that block: every other block stays allocated where it was, so a \<open>kmalloc\<close> followed by
  its \<open>kfree\<close> gives back the set of allocated blocks from before.
\<close>

theorem kfree_correct:
  assumes "heap_live hp L" and "(q, m) \<in> L"
  shows "\<exists>hp'. kfree 656 hp q = Ret hp' \<and> heap_live hp' (L - {(q, m)})"
  by (rule hpr.free_live [OF assms])

lemma kfree_correct_witness:
  "\<exists>q m hp hp'. kmalloc 656 demo_heap 16 = Ret (q, hp) \<and> kfree 656 hp q = Ret hp' \<and> heap_live hp' ({(q, m)} - {(q, m)})"
proof -
  obtain q hp where q: "kmalloc 656 demo_heap 16 = Ret (q, hp)" using demo_kmalloc by blast
  obtain m where "heap_live hp {(q, m)}"
    using hpr.malloc_fresh [OF demo_heap_live _ q] by auto
  from kfree_correct [OF this, of q m] q show ?thesis by blast
qed

lemma released_carved:
  assumes "coalesced (pre @ (s, True) # ys)" and "n \<le> s" and "carved n s False = (r, False) # rs"
  shows "released pre r (rs @ ys) = pre @ (s, True) # ys"
proof -
  have pre: "takeWhile snd (rev pre) = []" "dropWhile snd (rev pre) = rev pre"
    using assms(1) by (cases pre rule: rev_cases; auto simp: coalesced_append)+
  have ys: "takeWhile snd ys = []" "dropWhile snd ys = ys"
    using assms(1) by (cases ys; auto simp: coalesced_append)+
  show ?thesis using assms(2,3) pre ys by (auto simp: released_def carved_def SPLIT_THRESHOLD_def split: if_splits)
qed

text \<open>
  C3: when no chunk next to another one is free, \<open>kfree\<close> undoes \<open>kmalloc\<close> completely: the
  remainder split off is merged again and the chunk list of every arena is the old one.
\<close>

theorem kmalloc_kfree_roundtrip:
  assumes "heap_inv hp css" and "\<forall>cs\<in>set css. coalesced cs" and "\<forall>cs\<in>set css. Suc (length cs) < fuel"
    and "0 < n" and "\<exists>cs\<in>set css. \<exists>c\<in>set cs. fits n c"
  shows "\<exists>q hp1 hp2. kmalloc fuel hp n = Ret (q, hp1) \<and> kfree fuel hp1 q = Ret hp2 \<and> heap_inv hp2 css"
proof -
  have "\<forall>cs\<in>set css. length cs < fuel" using assms(3) by auto
  from kmalloc_fit [OF assms(1,4) this assms(5)] obtain i pre s ys hp1 where
    r: "i < length css" "css ! i = pre @ (s, True) # ys" "n \<le> s"
      "kmalloc fuel hp n = Ret (base hp i + span pre + CK, hp1)"
      "heap_inv hp1 (css[i := pre @ carved n s False @ ys])" "hp_arenas hp1 = hp_arenas hp" by blast
  obtain r' rs where c: "carved n s False = (r', False) # rs" using carved_cases by blast
  let ?css1 = "css[i := pre @ (r', False) # rs @ ys]"
  have "length rs \<le> 1" using c by (auto simp: carved_def split: if_splits)
  moreover have "css ! i \<in> set css" using r(1) by simp
  ultimately have "length (?css1 ! i) < fuel" using r(1,2) assms(3) by fastforce
  then obtain hp2 where "kfree fuel hp1 (base hp1 i + span pre + CK) = Ret hp2"
      "heap_inv hp2 (?css1[i := released pre r' (rs @ ys)])"
    using kfree_ok [of hp1 ?css1 i pre r' False "rs @ ys" fuel] r(1,5) c by auto
  moreover have "base hp1 i = base hp i" using r(6) by (simp add: base_def)
  moreover have "coalesced (pre @ (s, True) # ys)" using assms(2) r(1,2) by (metis nth_mem)
  then have rel: "released pre r' (rs @ ys) = css ! i" using released_carved [OF _ r(3) c] r(2) by metis
  have "?css1[i := released pre r' (rs @ ys)] = css" unfolding rel by simp
  ultimately show ?thesis using r(4) by auto
qed

lemma kmalloc_kfree_roundtrip_witness:
  "\<exists>q hp1 hp2. kmalloc 9 demo_heap 16 = Ret (q, hp1) \<and> kfree 9 hp1 q = Ret hp2 \<and> heap_inv hp2 demo_css"
  by (rule kmalloc_kfree_roundtrip) (use demo_heap_ok in \<open>auto simp: heap_ok_def fits_def\<close>)

text \<open>
  The boot heap claims 16384 bytes but asks the boot allocator for two pages, 8192
  bytes: its first chunk reaches past the end of the memory it was given.
\<close>

lemma mm_heap_preinit_overrun:
  assumes "mm_bootmem_alloc_block mi 2 = Ret (mem, mi')" and "mem \<noteq> INVALID_ADDRESS"
  shows "\<exists>hp' c. mm_heap_preinit hp mi = Ret (hp', mi') \<and>
    hp_chunks hp' (unat (amd64_p_to_v mem)) = Some c \<and> CK + ck_size c = 16384 \<and> 2 * 4096 < CK + ck_size c"
  using assms by (simp add: mm_heap_preinit_def Let_def CK_def)

definition demo_range :: boot_range where
  "demo_range = \<lparr> r_start = 0x100000, r_bm = \<lparr> bm_len = 32, bm_bits = [0] \<rparr> \<rparr>"

lemma demo_range_find: "bm_find_first_unset_range (r_bm demo_range) 0 (bm_len (r_bm demo_range) - 1) 2 = Ret 0"
  by (simp add: demo_range_def bm_find_first_unset_range_def bm_find_first_range_def
      find_range_loop.simps [of _ 0] find_range_loop.simps [of _ "Suc 0"] bit_at_def)

lemma demo_range_mark: "bm_set_range (r_bm demo_range) 0 (nat 0 + 2) = Ret (0, \<lparr> bm_len = 32, bm_bits = [7] \<rparr>)"
  by (simp add: demo_range_def bm_set_range_def set_word_def set_loop.simps [of _ 0] set_loop.simps [of _ "Suc 0"]
      set_loop.simps [of _ "Suc (Suc 0)"] set_loop.simps [of _ "Suc (Suc (Suc 0))"])

lemma demo_boot_alloc:
  "\<exists>mi'. mm_bootmem_alloc_block \<lparr> ranges = [demo_range], mi_ptr = 1 \<rparr> 2 = Ret (0x100000, mi')"
proof -
  have "r_start demo_range = 0x100000" by (simp add: demo_range_def)
  then show ?thesis
    unfolding mm_bootmem_alloc_block_def
    using demo_range_mark by (subst alloc_loop.simps) (simp add: demo_range_find del: One_nat_def)
qed

lemma mm_heap_preinit_overrun_witness:
  "\<exists>mi mem mi' hp' c. mm_bootmem_alloc_block mi 2 = Ret (mem, mi') \<and> mm_heap_preinit demo_heap mi = Ret (hp', mi') \<and>
    hp_chunks hp' (unat (amd64_p_to_v mem)) = Some c \<and> CK + ck_size c = 16384 \<and> 2 * 4096 < CK + ck_size c"
proof -
  obtain mi' where r: "mm_bootmem_alloc_block \<lparr> ranges = [demo_range], mi_ptr = 1 \<rparr> 2 = Ret (0x100000, mi')"
    using demo_boot_alloc by blast
  have "(0x100000 :: u64) \<noteq> INVALID_ADDRESS" by (simp add: INVALID_ADDRESS_def)
  from mm_heap_preinit_overrun [OF r this, of demo_heap] r show ?thesis by blast
qed

end
