(* ===== verification/Slab.thy ===== *)
theory Slab
  imports Heap LinkedList
begin

text \<open>
  \<open>src/mm/slab.c\<close>: caches of equally sized entries, each page of entries under a
  \<open>cfe_t\<close>. The list cell of a descriptor has the descriptor's address
  (\<open>container_of\<close> is the identity); caches, descriptors and free chunks are kernel heap
  blocks. \<open>fuel\<close> is that of the heap's loops.
\<close>

section \<open>The state\<close>

record cfe =
  num_free :: u64
  next_free :: nat
  cfe_mem :: nat

record mm_cache =
  item_size :: nat
  capacity :: nat
  free_list :: nat
  used_list :: nat
  free_chunks :: nat

record slab =
  sl_heap :: heap
  sl_links :: lheap
  sl_cfes :: "nat \<rightharpoonup> cfe"
  sl_cfcs :: "nat \<rightharpoonup> nat"
  sl_caches :: "nat \<rightharpoonup> mm_cache"

text \<open>The address of the static list head \<open>__free_list\<close>, outside the heap, and the struct sizes.\<close>

definition FREE_LIST :: nat where "FREE_LIST = 8"
definition CFE_SIZE :: nat where "CFE_SIZE = 40"
definition CFC_SIZE :: nat where "CFC_SIZE = 24"
definition CACHE_SIZE :: nat where "CACHE_SIZE = 40"

definition MULTIPLE_OF_2 :: "nat \<Rightarrow> nat" where
  "MULTIPLE_OF_2 n = (n + 1) div 2 * 2"

section \<open>The operations\<close>

text \<open>A zeroed descriptor on the heap, set to the page at \<open>virtual\<close> and linked to nothing.\<close>

definition new_cfe :: "nat \<Rightarrow> slab \<Rightarrow> nat \<Rightarrow> (nat \<times> slab) outcome" where
  "new_cfe fuel s virtual =
     bnd (kzalloc fuel (sl_heap s) CFE_SIZE) (\<lambda>(entry, hp).
     bnd (list_init_null ((sl_links s)(entry \<mapsto> \<lparr> lh_next = 0, lh_prev = 0 \<rparr>)) entry) (\<lambda>links.
     Ret (entry, s\<lparr> sl_heap := hp, sl_links := links, sl_cfes := (sl_cfes s)(entry \<mapsto>
       \<lparr> num_free = 4096, next_free = virtual, cfe_mem = virtual \<rparr>) \<rparr>)))"

definition alloc_cfe :: "nat \<Rightarrow> slab \<Rightarrow> nat \<Rightarrow> (nat \<times> slab) outcome" where
  "alloc_cfe fuel s item =
     kassert (item \<noteq> 0)
       (bnd (get_next (sl_links s) FREE_LIST) (\<lambda>e.
        if e \<noteq> 0 then
          bnd (list_remove (sl_links s) e) (\<lambda>links.
          bnd (deref (sl_cfes s) e) (\<lambda>c.
          Ret (e, s\<lparr> sl_links := links,
                     sl_cfes := (sl_cfes s)(e \<mapsto> c\<lparr> num_free := of_nat (4096 div item) - 1 \<rparr>) \<rparr>)))
        else
          bnd (mm_block_alloc (hp_pfa (sl_heap s)) 1 1) (\<lambda>(mem, pfa).
          kassert (mem \<noteq> INVALID_ADDRESS)
            (new_cfe fuel (s\<lparr> sl_heap := (sl_heap s)\<lparr> hp_pfa := pfa \<rparr> \<rparr>) (unat (amd64_p_to_v mem))))))"

definition mm_cache_create :: "nat \<Rightarrow> slab \<Rightarrow> nat \<Rightarrow> (nat \<times> slab) outcome" where
  "mm_cache_create fuel s n =
     kassert (n > 0 \<and> n \<le> 4096)
       (bnd (kzalloc fuel (sl_heap s) CACHE_SIZE) (\<lambda>(c, hp).
        if c = 0 then Ret (0, s\<lparr> sl_heap := hp \<rparr>)
        else
          let item = MULTIPLE_OF_2 n in
          bnd (alloc_cfe fuel (s\<lparr> sl_heap := hp \<rparr>) item) (\<lambda>(e, s).
          Ret (c, s\<lparr> sl_caches := (sl_caches s)(c \<mapsto>
            \<lparr> item_size = item, capacity = 4096 div item, free_list = e, used_list = 0, free_chunks = 0 \<rparr>) \<rparr>))))"

definition mm_cache_destroy :: "nat \<Rightarrow> slab \<Rightarrow> nat \<Rightarrow> (int \<times> slab) outcome" where
  "mm_cache_destroy fuel s cache =
     kassert (cache \<noteq> 0)
       (bnd (deref (sl_caches s) cache) (\<lambda>c.
        if used_list c \<noteq> 0 then Ret (- EBUSY, s)
        else bnd (kfree fuel (sl_heap s) cache) (\<lambda>hp.
             Ret (0, s\<lparr> sl_heap := hp, sl_caches := (sl_caches s)(cache := None) \<rparr>))))"

text \<open>Reuse of a freed chunk: the head of \<open>free_chunks\<close> as it is.\<close>

definition pop_chunk :: "slab \<Rightarrow> nat \<Rightarrow> mm_cache \<Rightarrow> (nat \<times> slab) outcome" where
  "pop_chunk s cache c =
     bnd (deref (sl_cfcs s) (free_chunks c)) (\<lambda>ret.
     bnd (get_next (sl_links s) (free_chunks c)) (\<lambda>n.
     if n = 0 then
       Ret (ret, s\<lparr> sl_caches := (sl_caches s)(cache \<mapsto> c\<lparr> free_chunks := 0 \<rparr>) \<rparr>)
     else
       bnd (list_remove (sl_links s) (free_chunks c)) (\<lambda>links.
       Ret (ret, s\<lparr> sl_links := links, sl_caches := (sl_caches s)(cache \<mapsto> c\<lparr> free_chunks := n \<rparr>) \<rparr>))))"

text \<open>The next entry of the page of \<open>free_list\<close>, which moves to \<open>used_list\<close> with its last one.\<close>

definition take_entry :: "slab \<Rightarrow> nat \<Rightarrow> mm_cache \<Rightarrow> (nat \<times> slab) outcome" where
  "take_entry s cache c =
     bnd (deref (sl_cfes s) (free_list c)) (\<lambda>e.
     let ret = next_free e; e' = e\<lparr> num_free := num_free e - 1 \<rparr> in
     bnd (if num_free e' = 0 then
            bnd (if used_list c = 0 then Ret (c\<lparr> used_list := free_list c \<rparr>, sl_links s)
                 else omap (Pair c) (list_append (sl_links s) (used_list c) (free_list c))) (\<lambda>(c, links).
            Ret (s\<lparr> sl_links := links, sl_cfes := (sl_cfes s)(free_list c \<mapsto> e'),
                    sl_caches := (sl_caches s)(cache \<mapsto> c\<lparr> free_list := 0 \<rparr>) \<rparr>))
          else
            Ret (s\<lparr> sl_cfes := (sl_cfes s)(free_list c \<mapsto> e'\<lparr> next_free := next_free e + item_size c \<rparr>),
                    sl_caches := (sl_caches s)(cache \<mapsto> c) \<rparr>)) (\<lambda>s.
     bnd (kmemset (hp_mem (sl_heap s)) ret 0 (item_size c)) (\<lambda>m.
     Ret (ret, s\<lparr> sl_heap := (sl_heap s)\<lparr> hp_mem := m \<rparr> \<rparr>))))"

definition mm_cache_alloc_entry :: "nat \<Rightarrow> slab \<Rightarrow> nat \<Rightarrow> (nat \<times> slab) outcome" where
  "mm_cache_alloc_entry fuel s cache =
     kassert (cache \<noteq> 0)
       (bnd (deref (sl_caches s) cache) (\<lambda>c.
        if free_chunks c \<noteq> 0 then pop_chunk s cache c
        else if free_list c = 0 then
          bnd (alloc_cfe fuel s (item_size c)) (\<lambda>(e, s).
          take_entry s cache (c\<lparr> free_list := e, capacity := capacity c + 4096 div item_size c \<rparr>))
        else take_entry s cache c))"

definition mm_cache_free_entry :: "nat \<Rightarrow> slab \<Rightarrow> nat \<Rightarrow> nat \<Rightarrow> (int \<times> slab) outcome" where
  "mm_cache_free_entry fuel s cache entry =
     kassert (cache \<noteq> 0) (kassert (entry \<noteq> 0)
       (bnd (kmalloc fuel (sl_heap s) CFC_SIZE) (\<lambda>(cfc, hp).
        bnd (list_init_null ((sl_links s)(cfc \<mapsto> \<lparr> lh_next = 0, lh_prev = 0 \<rparr>)) cfc) (\<lambda>links.
        bnd (deref (sl_caches s) cache) (\<lambda>c.
        let s = s\<lparr> sl_heap := hp, sl_cfcs := (sl_cfcs s)(cfc \<mapsto> entry) \<rparr> in
        if free_chunks c = 0 then
          Ret (0, s\<lparr> sl_links := links, sl_caches := (sl_caches s)(cache \<mapsto> c\<lparr> free_chunks := cfc \<rparr>) \<rparr>)
        else
          bnd (list_append links (free_chunks c) cfc) (\<lambda>links. Ret (0, s\<lparr> sl_links := links \<rparr>)))))))"

primrec preinit_loop :: "nat \<Rightarrow> nat \<Rightarrow> slab \<Rightarrow> mem_info \<Rightarrow> (slab \<times> mem_info) outcome" where
  "preinit_loop fuel 0 s mi = Ret (s, mi)"
| "preinit_loop fuel (Suc i) s mi =
     bnd (mm_bootmem_alloc_block mi 1) (\<lambda>(mem, mi).
     bnd (new_cfe fuel s (unat (amd64_p_to_v mem))) (\<lambda>(entry, s).
     bnd (list_append (sl_links s) FREE_LIST entry) (\<lambda>links.
     preinit_loop fuel i (s\<lparr> sl_links := links \<rparr>) mi)))"

text \<open>\<open>__free_list\<close> is a static object, so its cell is always there.\<close>

definition mm_slab_preinit :: "nat \<Rightarrow> slab \<Rightarrow> mem_info \<Rightarrow> (int \<times> slab \<times> mem_info) outcome" where
  "mm_slab_preinit fuel s mi =
     bnd (list_init_null (sl_links s) FREE_LIST) (\<lambda>links.
     omap (Pair 0) (preinit_loop fuel 2 (s\<lparr> sl_links := links \<rparr>) mi))"

primrec init_loop :: "nat \<Rightarrow> nat \<Rightarrow> slab \<Rightarrow> slab outcome" where
  "init_loop fuel 0 s = Ret s"
| "init_loop fuel (Suc i) s =
     bnd (mm_block_alloc (hp_pfa (sl_heap s)) 1 1) (\<lambda>(mem, pfa).
     kassert (mem \<noteq> INVALID_ADDRESS)
       (bnd (new_cfe fuel (s\<lparr> sl_heap := (sl_heap s)\<lparr> hp_pfa := pfa \<rparr> \<rparr>) (unat (amd64_p_to_v mem))) (\<lambda>(entry, s).
        bnd (list_append (sl_links s) FREE_LIST entry) (\<lambda>links.
        init_loop fuel i (s\<lparr> sl_links := links \<rparr>)))))"

definition mm_slab_init :: "nat \<Rightarrow> slab \<Rightarrow> (int \<times> slab) outcome" where
  "mm_slab_init fuel s =
     bnd (list_init_null (sl_links s) FREE_LIST) (\<lambda>links.
     omap (Pair 0) (init_loop fuel 5 (s\<lparr> sl_links := links \<rparr>)))"

section \<open>What a cache has left\<close>

text \<open>
  \<open>cache_view s cache it fr fut L\<close>: the cache gives the freed chunks \<open>fr\<close> first and then the
  entries \<open>fut\<close> of its current page; the heap blocks \<open>L\<close> are live. A descriptor keeps its
  old \<open>next\<close> after \<open>list_remove\<close>, so the used list is no chain: all that is known of the
  descriptors' cells is that their \<open>next\<close> is one of them, the list head or NULL.
\<close>

definition cfe_cells :: "slab \<Rightarrow> nat set" where
  "cfe_cells s = insert FREE_LIST (dom (sl_cfes s))"

definition cells :: "nat set \<Rightarrow> lheap \<Rightarrow> bool" where
  "cells D h \<longleftrightarrow> 0 \<notin> D \<and> (\<forall>p\<in>D. \<exists>c. h p = Some c \<and> lh_next c \<in> insert 0 D)"

definition chunk_chain :: "slab \<Rightarrow> mm_cache \<Rightarrow> nat list \<Rightarrow> nat list \<Rightarrow> bool" where
  "chunk_chain s c cs fr \<longleftrightarrow> free_chunks c = hd_or 0 cs \<and> chain (sl_links s) cs \<and>
     map (sl_cfcs s) cs = map Some fr \<and> set cs \<inter> cfe_cells s = {}"

definition page_left :: "slab \<Rightarrow> mm_cache \<Rightarrow> nat list \<Rightarrow> bool" where
  "page_left s c fut \<longleftrightarrow>
     (if free_list c = 0 then fut = []
      else \<exists>e. sl_cfes s (free_list c) = Some e \<and> num_free e \<noteq> 0 \<and>
             fut = map (\<lambda>k. next_free e + k * item_size c) [0..<unat (num_free e)])"

definition mapped :: "slab \<Rightarrow> nat \<Rightarrow> nat \<Rightarrow> bool" where
  "mapped s a n \<longleftrightarrow> (\<forall>k<n. a + k < 2 ^ 64 \<and> hp_mem (sl_heap s) (a + k) \<noteq> None)"

definition cache_view :: "slab \<Rightarrow> nat \<Rightarrow> nat \<Rightarrow> nat list \<Rightarrow> nat list \<Rightarrow> (nat \<times> nat) set \<Rightarrow> bool" where
  "cache_view s cache it fr fut L \<longleftrightarrow>
     (\<exists>c cs. cache \<noteq> 0 \<and> sl_caches s cache = Some c \<and> item_size c = it \<and>
       chunk_chain s c cs fr \<and> page_left s c fut \<and> cells (cfe_cells s) (sl_links s) \<and>
       used_list c \<in> insert 0 (dom (sl_cfes s)) \<and> (\<forall>a\<in>set fut. mapped s a it) \<and>
       heap_live (sl_heap s) L \<and> (\<forall>p\<in>set cs \<union> dom (sl_cfes s). \<exists>m>0. (p, m) \<in> L))"

lemma hd_or_0_chain: "chain h cs \<Longrightarrow> hd_or 0 cs = 0 \<longleftrightarrow> cs = []"
  by (cases cs) (auto simp: chain_def)

lemma kmalloc_frame:
  "kmalloc fuel hp n = Ret (q, hp') \<Longrightarrow> hp_mem hp' = hp_mem hp \<and> CK \<le> q"
  by (auto simp: kmalloc_def alloc_arena_def outcome_ret_iff Let_def split: if_splits prod.splits)

lemma kmemset_total:
  "\<forall>k<n. a + k < 2 ^ 64 \<and> m (a + k) \<noteq> None \<Longrightarrow> \<exists>m'. kmemset m a v n = Ret m' \<and> dom m' = dom m"
proof (induction n arbitrary: a m)
  case (Suc n)
  from Suc.prems [rule_format, of 0] have a: "a < 2 ^ 64" "m a \<noteq> None" by simp_all
  have "\<forall>k<n. (a + 1) + k < 2 ^ 64 \<and> (m(a \<mapsto> v)) ((a + 1) + k) \<noteq> None"
    using Suc.prems [rule_format, of "Suc _"] by auto
  from Suc.IH [OF this] obtain m' where "kmemset (m(a \<mapsto> v)) (a + 1) v n = Ret m'" "dom m' = dom (m(a \<mapsto> v))" by blast
  then show ?case using a by (auto simp: st_def)
qed simp

text \<open>\<open>list_append\<close> among the descriptors returns and leaves all other cells alone.\<close>

definition same_off :: "nat set \<Rightarrow> lheap \<Rightarrow> lheap \<Rightarrow> bool" where
  "same_off D h h' \<longleftrightarrow> (\<forall>p. p \<notin> D \<longrightarrow> h' p = h p)"

lemma same_off_trans: "same_off D h h1 \<Longrightarrow> same_off D h1 h2 \<Longrightarrow> same_off D h h2"
  by (simp add: same_off_def)

lemma cells_set_next:
  assumes "cells D h" and "p \<in> D" and "v \<in> insert 0 D"
  obtains h' where "set_next h p v = Ret h'" "cells D h'" "same_off D h h'"
proof -
  obtain c where "p \<noteq> 0" "h p = Some c" using assms(1,2) unfolding cells_def by metis
  then have "set_next h p v = Ret (h(p \<mapsto> c\<lparr> lh_next := v \<rparr>))" by (simp add: set_next_def)
  moreover have "cells D (h(p \<mapsto> c\<lparr> lh_next := v \<rparr>))" using assms(1,3) by (simp add: cells_def)
  moreover have "same_off D h (h(p \<mapsto> c\<lparr> lh_next := v \<rparr>))" using assms(2) by (auto simp: same_off_def)
  ultimately show thesis by (rule that)
qed

lemma cells_set_prev:
  assumes "cells D h" and "p \<in> D"
  obtains h' where "set_prev h p v = Ret h'" "cells D h'" "same_off D h h'"
proof -
  obtain c where c: "p \<noteq> 0" "h p = Some c" "lh_next c \<in> insert 0 D" using assms unfolding cells_def by metis
  then have "set_prev h p v = Ret (h(p \<mapsto> c\<lparr> lh_prev := v \<rparr>))" by (simp add: set_prev_def)
  moreover have "cells D (h(p \<mapsto> c\<lparr> lh_prev := v \<rparr>))" using assms(1) c(3) by (simp add: cells_def)
  moreover have "same_off D h (h(p \<mapsto> c\<lparr> lh_prev := v \<rparr>))" using assms(2) by (auto simp: same_off_def)
  ultimately show thesis by (rule that)
qed

lemma cells_get_next:
  assumes "cells D h" and "p \<in> D"
  obtains n where "get_next h p = Ret n" "n \<in> insert 0 D"
proof -
  obtain c where "p \<noteq> 0" "h p = Some c" "lh_next c \<in> insert 0 D" using assms unfolding cells_def by metis
  then show thesis using that [of "lh_next c"] by (simp add: get_next_def)
qed

lemma list_append_cells:
  assumes c: "cells D h" and u: "u \<in> D" and t: "t \<in> D"
  shows "\<exists>h'. list_append h u t = Ret h' \<and> cells D h' \<and> same_off D h h'"
proof -
  obtain n where n: "get_next h u = Ret n" "n \<in> insert 0 D" using cells_get_next [OF c u] .
  obtain h1 where h1: "set_next h t n = Ret h1" "cells D h1" "same_off D h h1" using cells_set_next [OF c t n(2)] .
  obtain h2 where h2: "set_prev h1 t u = Ret h2" "cells D h2" "same_off D h1 h2" using cells_set_prev [OF h1(2) t] .
  obtain n2 where n2: "get_next h2 u = Ret n2" "n2 \<in> insert 0 D" using cells_get_next [OF h2(2) u] .
  obtain h3 where h3: "(if n2 \<noteq> 0 then set_prev h2 n2 t else Ret h2) = Ret h3" "cells D h3" "same_off D h2 h3"
  proof (cases "n2 = 0")
    case True then show thesis using that [of h2] h2 by (simp add: same_off_def)
  next
    case False
    then have "n2 \<in> D" using n2(2) by simp
    then obtain h3 where "set_prev h2 n2 t = Ret h3" "cells D h3" "same_off D h2 h3" using cells_set_prev [OF h2(2)] by blast
    then show thesis using that [of h3] False by simp
  qed
  obtain h4 where h4: "set_next h3 u t = Ret h4" "cells D h4" "same_off D h3 h4" using cells_set_next [OF h3(2) u] t by blast
  have "list_append h u t = Ret h4" using n h1 h2 n2 h3 h4 by (simp add: list_append_def)
  then show ?thesis using h4(2) h1(3) h2(3) h3(3) h4(3) same_off_trans by blast
qed

lemma dseg_cong: "\<forall>x\<in>set cs. h' x = h x \<Longrightarrow> dseg h p cs nx \<Longrightarrow> dseg h' p cs nx"
  by (induction cs arbitrary: p) auto

lemma chunk_chain_cong:
  assumes "chunk_chain s c cs fr" and "free_chunks c' = free_chunks c" and "sl_cfcs s' = sl_cfcs s"
    and "cfe_cells s' = cfe_cells s" and "same_off (cfe_cells s) (sl_links s) (sl_links s')"
  shows "chunk_chain s' c' cs fr"
proof -
  have "\<forall>x\<in>set cs. sl_links s' x = sl_links s x" using assms(1,5) by (auto simp: chunk_chain_def same_off_def)
  then show ?thesis using assms dseg_cong by (auto simp: chunk_chain_def chain_def)
qed

lemma pop_chunk_ok:
  assumes v: "cache_view s cache it (x # fr) fut L" and c: "sl_caches s cache = Some c"
  shows "free_chunks c \<noteq> 0 \<and> (\<exists>s'. pop_chunk s cache c = Ret (x, s') \<and> cache_view s' cache it fr fut L)"
proof -
  obtain cs where cs: "chunk_chain s c cs (x # fr)" "page_left s c fut" "cells (cfe_cells s) (sl_links s)"
      "\<forall>p\<in>set cs \<union> dom (sl_cfes s). \<exists>m>0. (p, m) \<in> L"
    using v c by (auto simp: cache_view_def)
  obtain d ds where d: "cs = d # ds" using cs(1) by (cases cs) (auto simp: chunk_chain_def)
  have f: "free_chunks c = d" "d \<noteq> 0" "chain (sl_links s) (d # ds)" "sl_cfcs s d = Some x"
      "map (sl_cfcs s) ds = map Some fr" "set (d # ds) \<inter> cfe_cells s = {}"
    using cs(1) d by (auto simp: chunk_chain_def chain_def)
  have n: "get_next (sl_links s) d = Ret (hd_or 0 ds)" using f(3) by (auto simp: chain_def get_next_def)
  have view: "cache_view (s\<lparr> sl_links := h, sl_caches := (sl_caches s)(cache \<mapsto> c\<lparr> free_chunks := hd_or 0 ds \<rparr>) \<rparr>) cache it fr fut L"
    if h: "chain h ds" "cells (cfe_cells s) h" for h
    unfolding cache_view_def
    by (rule exI [of _ "c\<lparr> free_chunks := hd_or 0 ds \<rparr>"], rule exI [of _ ds])
      (use v c cs f d h in \<open>auto simp: cache_view_def chunk_chain_def page_left_def cfe_cells_def mapped_def\<close>)
  show ?thesis
  proof (cases ds)
    case Nil
    have "pop_chunk s cache c = Ret (x, s\<lparr> sl_links := sl_links s, sl_caches := (sl_caches s)(cache \<mapsto> c\<lparr> free_chunks := hd_or 0 ds \<rparr>) \<rparr>)"
      using f n Nil by (simp add: pop_chunk_def)
    then show ?thesis using view [of "sl_links s"] cs(3) f Nil by (auto simp: chain_def)
  next
    case (Cons d2 ds2)
    then have d2: "d2 \<noteq> 0" "d2 \<noteq> d" using f(3) by (auto simp: chain_def)
    obtain h where h: "list_remove (sl_links s) d = Ret h" "chain h ds"
      using list_remove_chain [of "sl_links s" "[]" d ds] f(3) by auto
    have c1: "sl_links s d2 = Some \<lparr> lh_next = hd_or 0 ds2, lh_prev = d \<rparr>"
        "sl_links s d = Some \<lparr> lh_next = d2, lh_prev = 0 \<rparr>"
      using f(3) Cons by (auto simp: chain_def)
    have "h = (sl_links s)(d2 \<mapsto> \<lparr> lh_next = hd_or 0 ds2, lh_prev = 0 \<rparr>)"
      using h(1) c1 d2 f(2) by (auto simp: list_remove_def link_defs)
    then have "cells (cfe_cells s) h" using cs(3) f(6) Cons by (auto simp: cells_def)
    moreover have "pop_chunk s cache c = Ret (x, s\<lparr> sl_links := h, sl_caches := (sl_caches s)(cache \<mapsto> c\<lparr> free_chunks := hd_or 0 ds \<rparr>) \<rparr>)"
      using f n Cons d2 h(1) by (simp add: pop_chunk_def)
    ultimately show ?thesis using view [of h] h(2) f by auto
  qed
qed

lemma unat_pred: "w \<noteq> 0 \<Longrightarrow> unat (w :: u64) = Suc (unat (w - 1))"
  using unat_minus_one [of w] by (simp add: unat_gt_0)

text \<open>The cells of the state after an entry is taken; \<open>m\<close> is the memory after the \<open>kmemset\<close>.\<close>

lemma take_entry_ok:
  assumes v: "cache_view s cache it [] (x # fut) L" and c: "sl_caches s cache = Some c"
  shows "free_chunks c = 0 \<and> free_list c \<noteq> 0 \<and>
    (\<exists>s'. take_entry s cache c = Ret (x, s') \<and> cache_view s' cache it [] fut L)"
proof -
  have w: "cache \<noteq> 0" "item_size c = it" "chunk_chain s c [] []" "page_left s c (x # fut)"
      "cells (cfe_cells s) (sl_links s)" "used_list c \<in> insert 0 (dom (sl_cfes s))"
      "\<forall>a\<in>set (x # fut). mapped s a it" "heap_live (sl_heap s) L" "\<forall>p\<in>dom (sl_cfes s). \<exists>m>0. (p, m) \<in> L"
    using v c by (auto simp: cache_view_def chunk_chain_def)
  let ?f = "free_list c"
  obtain e where e: "?f \<noteq> 0" "sl_cfes s ?f = Some e" "num_free e \<noteq> 0"
      "x # fut = map (\<lambda>k. next_free e + k * it) [0..<unat (num_free e)]"
    using w(2,4) by (auto simp: page_left_def split: if_splits)
  let ?n = "unat (num_free e - 1)"
  have n: "unat (num_free e) = Suc ?n" using e(3) by (rule unat_pred)
  have x: "x = next_free e" using e(4) n by (simp add: upt_conv_Cons del: upt_Suc)
  have fut: "fut = map (\<lambda>k. (next_free e + it) + k * it) [0..<?n]"
    using e(4) n by (simp add: upt_conv_Cons map_Suc_upt [symmetric] add.assoc del: upt_Suc)
  obtain m where m: "kmemset (hp_mem (sl_heap s)) x 0 it = Ret m" "dom m = dom (hp_mem (sl_heap s))"
    using kmemset_total [of it x "hp_mem (sl_heap s)" 0] w(7) by (auto simp: mapped_def)
  have live: "heap_live ((sl_heap s)\<lparr> hp_mem := m \<rparr>) L"
    using w(8) by (auto simp: heap_live_def heap_ok_def heap_inv_def allocated_def base_def)
  have mp: "mapped s' a it" if "a \<in> set fut" "hp_mem (sl_heap s') = m" for s' a
    using w(7) that m(2) by (auto simp: mapped_def dom_def set_eq_iff)
  have dom: "insert ?f (dom (sl_cfes s)) = dom (sl_cfes s)" using e(2) by auto
  let ?e' = "e\<lparr> num_free := num_free e - 1 \<rparr>"
  show ?thesis
  proof (cases "num_free e - 1 = 0")
    case False
    let ?s' = "s\<lparr> sl_links := sl_links s, sl_cfes := (sl_cfes s)(?f \<mapsto> ?e'\<lparr> next_free := next_free e + it \<rparr>),
        sl_caches := (sl_caches s)(cache \<mapsto> c), sl_heap := (sl_heap s)\<lparr> hp_mem := m \<rparr> \<rparr>"
    have "take_entry s cache c = Ret (x, ?s')"
      using e w m False x by (simp add: take_entry_def Let_def)
    moreover have "page_left ?s' c fut"
      using fut w(2) False e(1) unfolding page_left_def by simp
    then have "cache_view ?s' cache it [] fut L"
      unfolding cache_view_def using w live mp dom
      by (intro exI [of _ c] exI [of _ "[]"]) (simp add: chunk_chain_def cfe_cells_def)
    ultimately show ?thesis using e(1) w(3) by (auto simp: chunk_chain_def)
  next
    case True
    then have fut0: "fut = []" using fut by simp
    obtain c' h where ch: "(if used_list c = 0 then Ret (c\<lparr> used_list := ?f \<rparr>, sl_links s)
          else omap (Pair c) (list_append (sl_links s) (used_list c) ?f)) = Ret (c', h)"
        "item_size c' = it" "free_chunks c' = 0" "free_list c' = ?f" "used_list c' \<in> dom (sl_cfes s)"
        "cells (cfe_cells s) h"
    proof (cases "used_list c = 0")
      case True
      then show thesis using that [of "c\<lparr> used_list := ?f \<rparr>" "sl_links s"] e(2) w by (auto simp: chunk_chain_def)
    next
      case False
      obtain h where "list_append (sl_links s) (used_list c) ?f = Ret h" "cells (cfe_cells s) h"
        using list_append_cells [OF w(5), of "used_list c" ?f] w(6) False e(2) by (auto simp: cfe_cells_def)
      then show thesis using that [of c h] False w by (auto simp: chunk_chain_def)
    qed
    let ?s' = "s\<lparr> sl_links := h, sl_cfes := (sl_cfes s)(?f \<mapsto> ?e'),
        sl_caches := (sl_caches s)(cache \<mapsto> c'\<lparr> free_list := 0 \<rparr>), sl_heap := (sl_heap s)\<lparr> hp_mem := m \<rparr> \<rparr>"
    have "take_entry s cache c = Ret (x, ?s')"
      using e w(2) m True x ch(1,4) by (simp add: take_entry_def Let_def)
    moreover have "cache_view ?s' cache it [] fut L"
      unfolding cache_view_def fut0 using w live dom ch
      by (intro exI [of _ "c'\<lparr> free_list := 0 \<rparr>"] exI [of _ "[]"]) (simp add: chunk_chain_def page_left_def chain_def cfe_cells_def)
    ultimately show ?thesis using e(1) w(3) by (auto simp: chunk_chain_def)
  qed
qed

lemma alloc_entry_ok:
  assumes "cache_view s cache it fr fut L" and "fr @ fut = x # xs"
  shows "\<exists>s' fr' fut'. mm_cache_alloc_entry fuel s cache = Ret (x, s') \<and> fr' @ fut' = xs \<and> cache_view s' cache it fr' fut' L"
proof -
  obtain c where c: "cache \<noteq> 0" "sl_caches s cache = Some c" using assms(1) by (auto simp: cache_view_def)
  show ?thesis
  proof (cases fr)
    case (Cons y fr')
    then obtain s' where "free_chunks c \<noteq> 0" "pop_chunk s cache c = Ret (x, s')" "cache_view s' cache it fr' fut L"
      using pop_chunk_ok [of s cache it y fr' fut L c] assms c by auto
    then show ?thesis using Cons assms(2) c
      by (intro exI [of _ s'] exI [of _ fr'] exI [of _ fut]) (simp add: mm_cache_alloc_entry_def)
  next
    case Nil
    then obtain s' where "free_chunks c = 0" "free_list c \<noteq> 0" "take_entry s cache c = Ret (x, s')" "cache_view s' cache it [] xs L"
      using take_entry_ok [of s cache it x xs L c] assms c by auto
    then show ?thesis using Nil assms(2) c
      by (intro exI [of _ s'] exI [of _ "[]"] exI [of _ xs]) (simp add: mm_cache_alloc_entry_def)
  qed
qed

text \<open>A freed entry goes behind the head of the free chunks.\<close>

lemma free_entry_ok:
  assumes v: "cache_view s cache it fr fut L" and x: "x \<noteq> 0"
    and r: "mm_cache_free_entry 656 s cache x = Ret (res, s')"
  shows "res = 0 \<and> (\<exists>L'. cache_view s' cache it (case fr of [] \<Rightarrow> [x] | y # ys \<Rightarrow> y # x # ys) fut L' \<and> L \<subseteq> L')"
proof -
  obtain c cs where w: "cache \<noteq> 0" "sl_caches s cache = Some c" "item_size c = it" "chunk_chain s c cs fr"
      "page_left s c fut" "cells (cfe_cells s) (sl_links s)" "used_list c \<in> insert 0 (dom (sl_cfes s))"
      "\<forall>a\<in>set fut. mapped s a it" "heap_live (sl_heap s) L" "\<forall>p\<in>set cs \<union> dom (sl_cfes s). \<exists>m>0. (p, m) \<in> L"
    using v by (auto simp: cache_view_def)
  obtain q hp where q: "kmalloc 656 (sl_heap s) CFC_SIZE = Ret (q, hp)"
    using r w x by (auto simp: mm_cache_free_entry_def bnd_Ret_iff)
  obtain m where m: "CFC_SIZE \<le> m" "heap_live hp (insert (q, m) L)" "\<forall>r\<in>L. disjoint_from (q, m) r"
    using hpr.malloc_fresh [OF w(9) _ q] by (auto simp: CFC_SIZE_def)
  have hp: "hp_mem hp = hp_mem (sl_heap s)" "q \<noteq> 0" "q \<noteq> FREE_LIST"
    using kmalloc_frame [OF q] by (auto simp: CK_def FREE_LIST_def)
  have "q \<noteq> p" if p: "p \<in> set cs \<union> dom (sl_cfes s)" for p
  proof -
    obtain k where "k > 0" "(p, k) \<in> L" using w(10) p by blast
    then have "disjoint_from (q, m) (p, k)" using m(3) by blast
    then show ?thesis using \<open>k > 0\<close> m(1) by (auto simp: disjoint_from_def CFC_SIZE_def)
  qed
  then have fresh: "q \<notin> set cs" "q \<notin> cfe_cells s" using hp(3) by (auto simp: cfe_cells_def)
  let ?h1 = "(sl_links s)(q \<mapsto> \<lparr> lh_next = 0, lh_prev = 0 \<rparr>)"
  have init: "list_init_null ?h1 q = Ret ?h1" using hp(2) by (simp add: list_init_null_def link_defs)
  have ch: "chain ?h1 cs" "free_chunks c = hd_or 0 cs" "map (sl_cfcs s) cs = map Some fr" "set cs \<inter> cfe_cells s = {}"
    using w(4) fresh(1) by (auto simp: chunk_chain_def chain_def)
  have cl: "cells (cfe_cells s) ?h1" using w(6) fresh(2) by (auto simp: cells_def)
  have view: "cache_view (s\<lparr> sl_heap := hp, sl_cfcs := (sl_cfcs s)(q \<mapsto> x), sl_links := h, sl_caches := cc \<rparr>) cache it fr' fut (insert (q, m) L)"
    if h: "cc cache = Some c'" "c' = c\<lparr> free_chunks := hd_or 0 cs' \<rparr>" "chain h cs'" "cells (cfe_cells s) h"
      "map ((sl_cfcs s)(q \<mapsto> x)) cs' = map Some fr'" "set cs' \<subseteq> insert q (set cs)"
    for h cc c' cs' fr'
    unfolding cache_view_def
  proof (intro exI [of _ c'] exI [of _ cs'] conjI)
    show "\<forall>p\<in>set cs' \<union> dom (sl_cfes (s\<lparr> sl_heap := hp, sl_cfcs := (sl_cfcs s)(q \<mapsto> x), sl_links := h, sl_caches := cc \<rparr>)).
        \<exists>k>0. (p, k) \<in> insert (q, m) L"
    proof
      fix p assume "p \<in> set cs' \<union> dom (sl_cfes (s\<lparr> sl_heap := hp, sl_cfcs := (sl_cfcs s)(q \<mapsto> x), sl_links := h, sl_caches := cc \<rparr>))"
      then have "p = q \<or> p \<in> set cs \<union> dom (sl_cfes s)" using h(6) by auto
      moreover have "0 < m" using m(1) by (simp add: CFC_SIZE_def)
      ultimately show "\<exists>k>0. (p, k) \<in> insert (q, m) L" using w(10) by blast
    qed
    show "chunk_chain (s\<lparr> sl_heap := hp, sl_cfcs := (sl_cfcs s)(q \<mapsto> x), sl_links := h, sl_caches := cc \<rparr>) c' cs' fr'"
      using h(2,3,5,6) ch(4) fresh(2) by (auto simp: chunk_chain_def cfe_cells_def)
  qed (use w(1,3,5,7,8) h(1,2,4) m(2) hp(1) in \<open>auto simp: page_left_def cfe_cells_def mapped_def split: if_splits\<close>)
  show ?thesis
  proof (cases cs)
    case Nil
    then have "fr = []" "hd_or 0 [q] = q" using ch(3) by auto
    have "s' = s\<lparr> sl_heap := hp, sl_cfcs := (sl_cfcs s)(q \<mapsto> x), sl_links := ?h1,
        sl_caches := (sl_caches s)(cache \<mapsto> c\<lparr> free_chunks := q \<rparr>) \<rparr> \<and> res = 0"
      using r q init w x ch(2) Nil by (auto simp: mm_cache_free_entry_def)
    moreover have "cache_view (s\<lparr> sl_heap := hp, sl_cfcs := (sl_cfcs s)(q \<mapsto> x), sl_links := ?h1,
        sl_caches := (sl_caches s)(cache \<mapsto> c\<lparr> free_chunks := q \<rparr>) \<rparr>) cache it [x] fut (insert (q, m) L)"
      by (rule view [of _ "c\<lparr> free_chunks := q \<rparr>" "[q]"]) (use hp(2) cl in \<open>simp_all add: chain_def\<close>)
    ultimately show ?thesis using \<open>fr = []\<close> by auto
  next
    case (Cons d ds)
    obtain y ys where fr: "fr = y # ys" using ch(3) Cons by (cases fr) auto
    have "h1 q \<noteq> None" if "h1 = ?h1" for h1 using that by simp
    then obtain h where h: "list_append ?h1 d q = Ret h" "chain h (d # q # ds)"
      using list_append_chain [of ?h1 "[]" d ds q] ch(1) Cons fresh(1) hp(2) by auto
    have d: "d \<noteq> 0" "?h1 d = Some \<lparr> lh_next = hd_or 0 ds, lh_prev = 0 \<rparr>" "d \<noteq> q" using ch(1) Cons fresh(1) by (auto simp: chain_def)
    have "same_off (set (q # cs)) ?h1 h"
      using h(1) d hp(2) ch(1) Cons fresh(1)
      by (cases ds) (auto simp: list_append_def link_defs same_off_def chain_def)
    then have "h p = ?h1 p" if "p \<in> cfe_cells s" for p using that ch(4) fresh(2) by (auto simp: same_off_def)
    then have cl2: "cells (cfe_cells s) h" using cl by (simp add: cells_def)
    have "s' = s\<lparr> sl_heap := hp, sl_cfcs := (sl_cfcs s)(q \<mapsto> x), sl_links := h, sl_caches := sl_caches s \<rparr> \<and> res = 0"
      using r q init w x ch(2) Cons d h(1) by (auto simp: mm_cache_free_entry_def)
    moreover have "cache_view (s\<lparr> sl_heap := hp, sl_cfcs := (sl_cfcs s)(q \<mapsto> x), sl_links := h, sl_caches := sl_caches s \<rparr>)
        cache it (y # x # ys) fut (insert (q, m) L)"
      by (rule view [of _ c "d # q # ds"]) (use w(2) ch Cons d h(2) cl2 fr fresh(1) in \<open>auto\<close>)
    ultimately show ?thesis using fr by auto
  qed
qed

section \<open>The contract: a cache of entries\<close>

datatype cache_op = CAlloc | CFree nat

text \<open>A client that allocates and gives back entry number \<open>i\<close> of those it has.\<close>

primrec run_cache :: "('s \<Rightarrow> (nat \<times> 's) outcome) \<Rightarrow> ('s \<Rightarrow> nat \<Rightarrow> (int \<times> 's) outcome) \<Rightarrow>
    's \<Rightarrow> nat list \<Rightarrow> cache_op list \<Rightarrow> (nat list \<times> 's) outcome" where
  "run_cache alloc free s live [] = Ret (live, s)"
| "run_cache alloc free s live (a # ops) =
     (case a of
        CAlloc \<Rightarrow> bnd (alloc s) (\<lambda>(x, s). run_cache alloc free s (live @ [x]) ops)
      | CFree i \<Rightarrow> bnd (rd live i) (\<lambda>x. bnd (free s x) (\<lambda>(_, s).
          run_cache alloc free s (take i live @ drop (Suc i) live) ops)))"

definition allocs_of :: "cache_op list \<Rightarrow> nat" where
  "allocs_of ops = length (filter (\<lambda>a. a = CAlloc) ops)"

lemma allocs_of_simps [simp]: "allocs_of [] = 0" "allocs_of (CAlloc # ops) = Suc (allocs_of ops)"
  "allocs_of (CFree i # ops) = allocs_of ops"
  by (simp_all add: allocs_of_def)

text \<open>\<open>holds s xs\<close>: in the state \<open>s\<close> the next entries are \<open>xs\<close>.\<close>

locale entry_cache =
  fixes holds :: "'s \<Rightarrow> nat list \<Rightarrow> bool"
    and alloc :: "'s \<Rightarrow> (nat \<times> 's) outcome" and free :: "'s \<Rightarrow> nat \<Rightarrow> (int \<times> 's) outcome"
  assumes alloc_pops: "holds s (x # xs) \<Longrightarrow> \<exists>s'. alloc s = Ret (x, s') \<and> holds s' xs"
    and free_adds: "holds s xs \<Longrightarrow> x \<noteq> 0 \<Longrightarrow> free s x = Ret (r, s') \<Longrightarrow>
      r = 0 \<and> (\<exists>ys. holds s' ys \<and> mset ys = add_mset x (mset xs))"
begin

text \<open>Entries are neither lost nor duplicated by any sequence of operations.\<close>

lemma run_conserves:
  "holds s xs \<Longrightarrow> 0 \<notin> set xs \<union> set live \<Longrightarrow> allocs_of ops \<le> length xs \<Longrightarrow>
   run_cache alloc free s live ops = Ret (live', s') \<Longrightarrow>
   \<exists>ys. holds s' ys \<and> mset live' + mset ys = mset live + mset xs"
proof (induction ops arbitrary: s live xs)
  case (Cons a ops)
  show ?case
  proof (cases a)
    case CAlloc
    then obtain x xs' where xs: "xs = x # xs'" using Cons.prems(3) by (cases xs) auto
    obtain s1 where s1: "alloc s = Ret (x, s1)" "holds s1 xs'" using alloc_pops Cons.prems(1) xs by blast
    have "\<exists>ys. holds s' ys \<and> mset live' + mset ys = mset (live @ [x]) + mset xs'"
      by (rule Cons.IH [OF s1(2)]) (use Cons.prems xs s1 CAlloc in auto)
    then show ?thesis using xs by auto
  next
    case (CFree i)
    obtain s1 r where i: "i < length live" "free s (live ! i) = Ret (r, s1)"
        "run_cache alloc free s1 (take i live @ drop (Suc i) live) ops = Ret (live', s')"
      using Cons.prems(4) CFree by (auto simp: bnd_Ret_iff rd_Ret_iff)
    have "live ! i \<noteq> 0" using Cons.prems(2) i(1) by (metis UnCI nth_mem)
    from free_adds [OF Cons.prems(1) this i(2)] obtain ys where
      ys: "holds s1 ys" "mset ys = add_mset (live ! i) (mset xs)" by blast
    have cut: "mset live = add_mset (live ! i) (mset (take i live @ drop (Suc i) live))"
      using i(1) by (metis id_take_nth_drop mset_append mset.simps(2) union_mset_add_mset_right)
    have "set ys = insert (live ! i) (set xs)" using ys(2) by (metis set_mset_add_mset_insert set_mset_mset)
    then have z: "0 \<notin> set ys \<union> set (take i live @ drop (Suc i) live)"
      using Cons.prems(2) \<open>live ! i \<noteq> 0\<close> by (auto dest: in_set_takeD in_set_dropD)
    have "length ys = Suc (length xs)" using ys(2) by (metis size_add_mset size_mset)
    then have "allocs_of ops \<le> length ys" using Cons.prems(3) CFree by simp
    from Cons.IH [OF ys(1) z this i(3)] ys(2) cut show ?thesis by (auto simp: add.commute)
  qed
qed auto

end

definition cache_holds :: "nat \<Rightarrow> nat \<Rightarrow> slab \<Rightarrow> nat list \<Rightarrow> bool" where
  "cache_holds cache it s xs \<longleftrightarrow> (\<exists>fr fut L. xs = fr @ fut \<and> cache_view s cache it fr fut L)"

interpretation slc: entry_cache "cache_holds cache it" "\<lambda>s. mm_cache_alloc_entry 656 s cache"
  "\<lambda>s. mm_cache_free_entry 656 s cache"
proof (unfold_locales, goal_cases)
  case (1 s x xs)
  then obtain fr fut L where v: "cache_view s cache it fr fut L" "fr @ fut = x # xs" by (auto simp: cache_holds_def)
  from alloc_entry_ok [OF this, of 656] show ?case by (auto simp: cache_holds_def)
next
  case (2 s xs x r s')
  then obtain fr fut L where v: "cache_view s cache it fr fut L" "xs = fr @ fut" by (auto simp: cache_holds_def)
  obtain L' where "r = 0" "cache_view s' cache it (case fr of [] \<Rightarrow> [x] | y # ys \<Rightarrow> y # x # ys) fut L'"
    using free_entry_ok [OF v(1) 2(2,3)] by blast
  moreover have "mset ((case fr of [] \<Rightarrow> [x] | y # ys \<Rightarrow> y # x # ys) @ fut) = add_mset x (mset xs)"
    using v(2) by (cases fr) simp_all
  ultimately show ?case unfolding cache_holds_def by blast
qed

section \<open>Properties\<close>

definition separated :: "nat \<Rightarrow> nat list \<Rightarrow> bool" where
  "separated it xs \<longleftrightarrow> distinct xs \<and> (\<forall>a\<in>set xs. \<forall>b\<in>set xs. a \<noteq> b \<longrightarrow> disjoint_from (a, it) (b, it))"

lemma separated_sub:
  assumes "separated it xs" and "mset ys + mset zs = mset xs"
  shows "separated it ys"
proof -
  have "mset xs = mset (ys @ zs)" using assms(2) by simp
  from mset_eq_setD [OF this] mset_eq_imp_distinct_iff [OF this]
  have "distinct (ys @ zs)" "set xs = set ys \<union> set zs" using assms(1) unfolding separated_def set_append by blast+
  then show ?thesis using assms(1) by (auto simp: separated_def)
qed


lemma demo_slab:
  "\<exists>s. cache_holds 1000 64 s [0x1000, 0x1040, 0x1080]"
proof -
  obtain q hp where q: "kmalloc 656 demo_heap 16 = Ret (q, hp)" using demo_kmalloc by blast
  obtain m where m: "heap_live hp {(q, m)}" "16 \<le> m"
    using hpr.malloc_fresh [OF demo_heap_live _ q] by auto
  have qn: "q \<noteq> 0" "q \<noteq> FREE_LIST" using kmalloc_frame [OF q] by (auto simp: CK_def FREE_LIST_def)
  let ?hp = "hp\<lparr> hp_mem := \<lambda>_. Some 0 \<rparr>"
  have live: "heap_live ?hp {(q, m)}"
    using m(1) by (auto simp: heap_live_def heap_ok_def heap_inv_def allocated_def base_def)
  let ?c = "\<lparr> item_size = 64, capacity = 64, free_list = q, used_list = 0, free_chunks = 0 \<rparr>"
  let ?s = "\<lparr> sl_heap = ?hp, sl_links = [FREE_LIST \<mapsto> \<lparr> lh_next = 0, lh_prev = 0 \<rparr>, q \<mapsto> \<lparr> lh_next = 0, lh_prev = 0 \<rparr>],
      sl_cfes = [q \<mapsto> \<lparr> num_free = 3, next_free = 0x1000, cfe_mem = 0x1000 \<rparr>], sl_cfcs = Map.empty,
      sl_caches = [1000 \<mapsto> ?c] \<rparr>"
  have "page_left ?s ?c [0x1000, 0x1040, 0x1080]" using qn by (simp add: page_left_def upt_rec)
  moreover have "cells (cfe_cells ?s) (sl_links ?s)" using qn by (auto simp: cells_def cfe_cells_def FREE_LIST_def)
  ultimately have "cache_view ?s 1000 64 [] [0x1000, 0x1040, 0x1080] {(q, m)}"
    unfolding cache_view_def using live m(2)
    by (intro exI [of _ ?c] exI [of _ "[]"]) (auto simp: chunk_chain_def chain_def mapped_def)
  then show ?thesis unfolding cache_holds_def by (metis append_Nil)
qed


text \<open>
  The block behind a new descriptor is overcommitted. When \<open>__free_list\<close> is empty,
  \<open>__alloc_cfe\<close> counts 4096 entries for the two pages it got, whatever their size, so entries
  of four bytes or more run past its end; and from \<open>__free_list\<close> it counts one entry less than fit,
  which is none for entries of more than half a page, a count that the first allocation
  wraps to \<open>2 ^ 64 - 1\<close>.
\<close>

lemma alloc_cfe_overcommits:
  assumes "alloc_cfe fuel s item = Ret (e, s')" and "get_next (sl_links s) FREE_LIST = Ret n"
    and "4 \<le> item" and "item \<le> 4096"
  shows "\<exists>c. sl_cfes s' e = Some c \<and>
    (if n = 0 then next_free c = cfe_mem c \<and> cfe_mem c + 8192 < next_free c + unat (num_free c) * item
     else if item \<le> 2048 then num_free c \<noteq> 0 \<and> (unat (num_free c) + 1) * item \<le> 4096
     else num_free c = 0 \<and> num_free c - 1 = 2 ^ 64 - 1)"
proof (cases "n = 0")
  case True
  then show ?thesis using assms by (auto simp: alloc_cfe_def new_cfe_def outcome_ret_iff split: prod.splits)
next
  case False
  then obtain c where c: "sl_cfes s' e = Some (c\<lparr> num_free := of_nat (4096 div item) - 1 \<rparr>)"
    using assms(1,2) by (auto simp: alloc_cfe_def outcome_ret_iff)
  show ?thesis
  proof (cases "item \<le> 2048")
    case True
    then have "2 \<le> 4096 div item" using assms(3) by (simp add: less_eq_div_iff_mult_less_eq)
    then have eq: "of_nat (4096 div item) - 1 = (of_nat (4096 div item - 1) :: u64)" "0 < 4096 div item - 1"
      by (simp_all add: of_nat_diff)
    have "4096 div item - 1 < 2 ^ 64" by (rule le_less_trans [OF le_trans [OF diff_le_self div_le_dividend]]) simp
    then have n: "unat (of_nat (4096 div item) - 1 :: u64) = 4096 div item - 1"
      unfolding eq(1) by (rule unat_of_nat_u64)
    let ?w = "of_nat (4096 div item) - 1 :: u64"
    have "?w \<noteq> 0" "unat ?w + 1 = 4096 div item" using n eq(2) by (auto simp: unat_eq_zero)
    moreover have "4096 div item * item \<le> 4096" by simp
    ultimately have "?w \<noteq> 0 \<and> (unat ?w + 1) * item \<le> 4096" by metis
    then show ?thesis using c \<open>n \<noteq> 0\<close> True by (intro exI [of _ "c\<lparr> num_free := ?w \<rparr>"]) simp
  next
    case False
    then have "4096 div item = 1" using assms(4) by (simp add: div_nat_eqI)
    then show ?thesis using c \<open>n \<noteq> 0\<close> False by simp
  qed
qed


lemma alloc_cfe_overcommits_witness:
  "let c = \<lparr> num_free = 4096, next_free = 0x1000, cfe_mem = 0x1000 \<rparr>;
       s = \<lparr> sl_heap = demo_heap, sl_links = [FREE_LIST \<mapsto> \<lparr> lh_next = 64, lh_prev = 0 \<rparr>, 64 \<mapsto> \<lparr> lh_next = 0, lh_prev = FREE_LIST \<rparr>],
             sl_cfes = [64 \<mapsto> c], sl_cfcs = Map.empty, sl_caches = Map.empty \<rparr> in
   \<exists>s' c'. alloc_cfe 656 s 4096 = Ret (64, s') \<and> sl_cfes s' 64 = Some c' \<and> num_free c' = 0 \<and> num_free c' - 1 = 2 ^ 64 - 1"
proof -
  let ?s = "\<lparr> sl_heap = demo_heap, sl_links = [FREE_LIST \<mapsto> \<lparr> lh_next = 64, lh_prev = 0 \<rparr>, 64 \<mapsto> \<lparr> lh_next = 0, lh_prev = FREE_LIST \<rparr>],
             sl_cfes = [64 \<mapsto> \<lparr> num_free = 4096, next_free = 0x1000, cfe_mem = 0x1000 \<rparr>], sl_cfcs = Map.empty, sl_caches = Map.empty \<rparr>"
  have n: "get_next (sl_links ?s) FREE_LIST = Ret 64" by (simp add: get_next_def FREE_LIST_def)
  have "\<exists>s'. alloc_cfe 656 ?s 4096 = Ret (64, s')"
    by (simp add: alloc_cfe_def list_remove_def link_defs FREE_LIST_def)
  then obtain s' where r: "alloc_cfe 656 ?s 4096 = Ret (64, s')" ..
  from alloc_cfe_overcommits [OF r n] r show ?thesis by (auto simp: Let_def)
qed

end
