(* ===== verification/Kprint.thy ===== *)
theory Kprint
  imports KString
begin

text \<open>
  \<open>src/kernel/kprint.c\<close>: formatted printing. What is printed is the list of bytes handed to
  \<open>tty_putc\<close>, in order; the format and the strings are read from memory, and an argument that is
  not there is a fault. The \<open>int\<close> width is a natural number: a width for which the
  \<open>int\<close> would overflow is far beyond the buffer, where the padding loop faults.
\<close>

section \<open>The code\<close>

definition EMAX :: int where "EMAX = 13"

definition errors :: "string option list" where
  "errors = map Some [''Success'', ''No space left on device'', ''No such file or directory'', ''Invalid value'',
     ''File exists'', ''Out of memory'', ''Device busy'', ''Argument list too long'', ''Illegal seek'',
     ''Funcion not implemented'', ''Not a directory'', ''Operation not supported''] @ [None]"

definition kstrerror :: "int \<Rightarrow> string option outcome" where
  "kstrerror err = (if err \<ge> EMAX \<or> err \<le> 0 then rd errors 0 else rd errors (nat err))"

function dec_loop :: "u8 list \<Rightarrow> nat \<Rightarrow> u64 \<Rightarrow> (u8 list \<times> nat) outcome" where
  "dec_loop c i v =
     bnd (wr c i (ucast (v mod 10) + 48)) (\<lambda>c.
       if v div 10 \<noteq> 0 then dec_loop c (i + 1) (v div 10) else Ret (c, i + 1))"
  by pat_completeness auto
termination
  by (relation "measure (\<lambda>(c, i, v). unat v)")
    (auto simp: unat_div unat_eq_zero simp flip: unat_gt_0 intro: Nat.gr0I)

declare dec_loop.simps [simp del]

function pad_loop :: "u8 list \<Rightarrow> nat \<Rightarrow> nat \<Rightarrow> u8 \<Rightarrow> (u8 list \<times> nat) outcome" where
  "pad_loop c i width ch =
     (if i < width then bnd (wr c i ch) (\<lambda>c. pad_loop c (i + 1) width ch) else Ret (c, i))"
  by pat_completeness auto
termination by (relation "measure (\<lambda>(c, i, width, ch). width - i)") auto

declare pad_loop.simps [simp del]

text \<open>\<open>while (--i >= 0) tty_putc(c[i])\<close>.\<close>

primrec emit :: "u8 list \<Rightarrow> nat \<Rightarrow> u8 list" where
  "emit c 0 = []"
| "emit c (Suc i) = c ! i # emit c i"

definition print_integer :: "u64 \<Rightarrow> nat \<Rightarrow> int \<Rightarrow> bool \<Rightarrow> u8 list outcome" where
  "print_integer value width sign_of zp =
     bnd (dec_loop (replicate 64 0) 0 value) (\<lambda>(c, nlen).
     bnd (pad_loop c nlen width (if zp then 48 else 32)) (\<lambda>(c, i).
     bnd (if sign_of = - 1 then wr c (if zp then i - 1 else nlen) 45 else Ret c) (\<lambda>c.
     Ret (emit c i))))"

function hex_loop :: "u8 list \<Rightarrow> nat \<Rightarrow> u64 \<Rightarrow> (u8 list \<times> nat) outcome" where
  "hex_loop c i v =
     bnd (wr c i (let d = ucast (v AND 0xf) in if d < 10 then d + 48 else d + 87)) (\<lambda>c.
       if drop_bit 4 v \<noteq> 0 then hex_loop c (i + 1) (drop_bit 4 v) else Ret (c, i + 1))"
  by pat_completeness auto
termination
  by (relation "measure (\<lambda>(c, i, v). unat v)") (auto simp: drop_bit_eq_div unat_div simp flip: unat_gt_0 intro: Nat.gr0I)

declare hex_loop.simps [simp del]

text \<open>The buffer of \<open>%x\<close> is static; what an earlier call left in it is never printed.\<close>

definition print_hex :: "u64 \<Rightarrow> nat \<Rightarrow> bool \<Rightarrow> u8 list outcome" where
  "print_hex value width zp =
     bnd (hex_loop (replicate 64 0) 0 value) (\<lambda>(c, n).
     bnd (pad_loop c n width (if zp then 48 else 32)) (\<lambda>(c, i).
     Ret (emit c i)))"

text \<open>The bytes that \<open>tty_puts\<close> gets: those of the string up to its terminator.\<close>

function str_bytes :: "mem \<Rightarrow> nat \<Rightarrow> u8 list outcome" where
  "str_bytes m p = bnd (ld m p) (\<lambda>c. if c = 0 then Ret [] else omap ((#) c) (str_bytes m (p + 1)))"
  by pat_completeness auto
termination by (relation "measure (\<lambda>(m, p). 2 ^ 64 - p)") (auto dest: ld_bound)

declare str_bytes.simps [simp del]

text \<open>\<open>while (*fmt >= '0' && *fmt <= '9')\<close>\<close>

function parse_width :: "mem \<Rightarrow> nat \<Rightarrow> nat \<Rightarrow> (nat \<times> nat) outcome" where
  "parse_width m fmt width =
     bnd (ld m fmt) (\<lambda>c.
       if 48 \<le> c \<and> c \<le> 57 then parse_width m (fmt + 1) (width * 10 + unat (c - 48))
       else Ret (fmt, width))"
  by pat_completeness auto
termination by (relation "measure (\<lambda>(m, fmt, width). 2 ^ 64 - fmt)") (auto dest: ld_bound)

declare parse_width.simps [simp del]

text \<open>An argument as \<open>va_arg\<close> gives it: 64 bits, read as \<open>int\<close>, \<open>long\<close> or a pointer.\<close>

definition va_arg :: "u64 list \<Rightarrow> (u64 \<times> u64 list) outcome" where
  "va_arg args = (case args of [] \<Rightarrow> Halt MemFault | a # as \<Rightarrow> Ret (a, as))"

text \<open>The conversion at \<open>*fmt\<close>: what it prints and the arguments it leaves.\<close>

definition convert :: "u8 \<Rightarrow> u64 list \<Rightarrow> nat \<Rightarrow> bool \<Rightarrow> (u8 list \<times> u64 list) outcome" where
  "convert c args width zp =
     (if c = 100 then
        bnd (va_arg args) (\<lambda>(tmp, args).
        omap (\<lambda>out. (out, args))
          (print_integer (if tmp <s 0 then - tmp else tmp) width (if tmp <s 0 then - 1 else 0) zp))
      else if c = 117 then
        bnd (va_arg args) (\<lambda>(tmp, args). omap (\<lambda>out. (out, args)) (print_integer tmp width 0 zp))
      else if c = 120 then
        bnd (va_arg args) (\<lambda>(tmp, args). omap (\<lambda>out. (out, args)) (print_hex tmp width zp))
      else Ret ([], args))"

lemma parse_width_mono: "parse_width m fmt w = Ret (fmt', w') \<Longrightarrow> fmt \<le> fmt' \<and> fmt' < 2 ^ 64"
proof (induction m fmt w rule: parse_width.induct)
  case (1 m fmt w)
  from 1(2) obtain c where c: "ld m fmt = Ret c"
      "(if 48 \<le> c \<and> c \<le> 57 then parse_width m (fmt + 1) (w * 10 + unat (c - 48)) else Ret (fmt, w)) = Ret (fmt', w')"
    by (subst (asm) parse_width.simps) (auto simp: bnd_Ret_iff)
  then show ?case using 1(1) [OF c(1)] ld_bound [OF c(1)] by (auto split: if_splits)
qed

function va_kprint :: "mem \<Rightarrow> nat \<Rightarrow> u64 list \<Rightarrow> u8 list outcome" where
  "va_kprint m fmt args =
     bnd (ld m fmt) (\<lambda>c.
     if c = 0 then Ret []
     else if c \<noteq> 37 then omap ((#) c) (va_kprint m (fmt + 1) args)
     else
       bnd (ld m (fmt + 1)) (\<lambda>d.
       if d = 37 then omap ((#) 37) (va_kprint m (fmt + 2) args)
       else if d = 99 then
         bnd (va_arg args) (\<lambda>(a, args). omap ((#) (ucast a)) (va_kprint m (fmt + 2) args))
       else if d = 115 then
         bnd (va_arg args) (\<lambda>(a, args).
         bnd (str_bytes m (unat a)) (\<lambda>str. omap ((@) str) (va_kprint m (fmt + 2) args)))
       else
         bnd (parse_width m (if d = 48 then fmt + 2 else fmt + 1) 0) (\<lambda>(fmt', width).
         bnd (ld m fmt') (\<lambda>e.
         bnd (convert e args width (d = 48)) (\<lambda>(out, args).
         omap ((@) out) (va_kprint m (fmt' + 1) args))))))"
  by pat_completeness auto
termination
proof (relation "measure (\<lambda>(m, fmt, args). 2 ^ 64 - fmt)", goal_cases)
  case (6 m fmt args c d p fmt' width e q out args')
  then show ?case using ld_bound [of m fmt c] parse_width_mono [of m "if d = 48 then fmt + 2 else fmt + 1" 0 fmt' width]
    by (auto split: if_splits)
qed (auto dest!: ld_bound)

declare va_kprint.simps [simp del]

definition kprint :: "mem \<Rightarrow> nat \<Rightarrow> u64 list \<Rightarrow> u8 list outcome" where
  "kprint m fmt args = va_kprint m fmt args"

definition vkprint :: "mem \<Rightarrow> nat \<Rightarrow> u64 list \<Rightarrow> u8 list outcome" where
  "vkprint m fmt args = omap (\<lambda>out. out @ [10]) (va_kprint m fmt args)"

section \<open>Digits\<close>

text \<open>The digits of \<open>n\<close> to the base \<open>b\<close>, least significant first, at least one.\<close>

function lsd :: "nat \<Rightarrow> nat \<Rightarrow> nat list" where
  "lsd b n = n mod b # (if n div b = 0 \<or> b < 2 then [] else lsd b (n div b))"
  by pat_completeness auto
termination by (relation "measure snd") (auto simp: div_greater_zero_iff intro!: div_less_dividend)

declare lsd.simps [simp del]

definition ascii :: "nat \<Rightarrow> u8" where
  "ascii d = (if d < 10 then of_nat d + 48 else of_nat d + 87)"

definition digits :: "nat \<Rightarrow> nat \<Rightarrow> u8 list" where
  "digits b n = map ascii (rev (lsd b n))"

definition digit_of :: "u8 \<Rightarrow> nat" where
  "digit_of c = (if c < 58 then unat c - 48 else unat c - 87)"

definition number :: "nat \<Rightarrow> u8 list \<Rightarrow> nat" where
  "number b ds = foldl (\<lambda>a d. a * b + digit_of d) 0 ds"

lemma lsd_bound: "2 \<le> b \<Longrightarrow> d \<in> set (lsd b n) \<Longrightarrow> d < b"
proof (induction b n rule: lsd.induct)
  case (1 b n)
  then show ?case by (subst (asm) (2) lsd.simps) (auto split: if_splits)
qed

lemma lsd_length: "2 \<le> b \<Longrightarrow> n < b ^ Suc k \<Longrightarrow> length (lsd b n) \<le> Suc k"
proof (induction k arbitrary: n)
  case 0 then show ?case by (subst lsd.simps) simp
next
  case (Suc k)
  have "n div b < b ^ Suc k" using Suc.prems by (simp add: less_mult_imp_div_less mult.commute)
  with Suc show ?case by (subst lsd.simps) simp
qed

lemma digit_of_ascii: "d < 16 \<Longrightarrow> digit_of (ascii d) = d"
  by (auto simp: digit_of_def ascii_def word_less_nat_alt unat_word_ariths unat_of_nat)

lemma number_digits: "2 \<le> b \<Longrightarrow> b \<le> 16 \<Longrightarrow> number b (digits b n) = n"
proof (induction b n rule: lsd.induct)
  case (1 b n)
  have d: "digit_of (ascii (n mod b)) = n mod b" using 1(2,3) by (intro digit_of_ascii) (meson mod_less_divisor le_trans less_le_trans zero_less_numeral)
  show ?case
  proof (cases "n div b = 0")
    case True
    then have "digits b n = [ascii (n mod b)]" by (simp add: digits_def lsd.simps [of b n])
    then show ?thesis using d True div_mult_mod_eq [of n b] by (simp add: number_def)
  next
    case False
    then have "digits b n = digits b (n div b) @ [ascii (n mod b)]" using 1(2) by (simp add: digits_def lsd.simps [of b n])
    then show ?thesis using 1 False d by (simp add: number_def)
  qed
qed

text \<open>The buffer with \<open>xs\<close> written from the start.\<close>

definition over :: "u8 list \<Rightarrow> u8 list \<Rightarrow> u8 list" where
  "over xs c = xs @ drop (length xs) c"

lemma over_wr: "length xs < length c \<Longrightarrow> wr (over xs c) (length xs) v = Ret (over (xs @ [v]) c)"
  by (auto simp: over_def list_update_append Cons_nth_drop_Suc [symmetric])

lemma length_over: "length xs \<le> length c \<Longrightarrow> length (over xs c) = length c"
  by (simp add: over_def)

lemma emit_over: "emit (over xs c) (length xs) = rev xs"
proof -
  have "emit c' n = rev (take n c')" if "n \<le> length c'" for c' n
    using that by (induction n) (auto simp: take_Suc_conv_app_nth)
  then show ?thesis by (simp add: over_def)
qed

lemma dec_loop_digits:
  "length xs + length (lsd 10 (unat v)) \<le> length c \<Longrightarrow>
   dec_loop (over xs c) (length xs) v = Ret (over (xs @ map ascii (lsd 10 (unat v))) c, length xs + length (lsd 10 (unat v)))"
proof (induction v arbitrary: xs rule: measure_induct_rule [of unat])
  case (less v)
  have l: "lsd 10 (unat v) = unat v mod 10 # (if v div 10 = 0 then [] else lsd 10 (unat (v div 10)))"
    by (subst lsd.simps) (simp add: unat_div flip: unat_eq_zero)
  have a: "(ucast (v mod 10) + 48 :: u8) = ascii (unat v mod 10)"
    by (rule word_unat_eq_iff [THEN iffD2]) (simp add: ascii_def unat_word_ariths unsigned_ucast_eq take_bit_eq_mod unat_of_nat unat_mod)
  have w: "wr (over xs c) (length xs) (ascii (unat v mod 10)) = Ret (over (xs @ [ascii (unat v mod 10)]) c)"
    by (rule over_wr) (use less.prems l in auto)
  show ?case
  proof (cases "v div 10 = 0")
    case True
    then show ?thesis using l w by (subst dec_loop.simps) (simp add: a)
  next
    case False
    have "unat (v div 10) < unat v" using False by (auto simp: unat_div simp flip: unat_gt_0 intro: Nat.gr0I)
    from less.IH [OF this, of "xs @ [ascii (unat v mod 10)]"] less.prems l False w
    show ?thesis by (subst dec_loop.simps) (simp add: a)
  qed
qed

lemma hex_loop_digits:
  "length xs + length (lsd 16 (unat v)) \<le> length c \<Longrightarrow>
   hex_loop (over xs c) (length xs) v = Ret (over (xs @ map ascii (lsd 16 (unat v))) c, length xs + length (lsd 16 (unat v)))"
proof (induction v arbitrary: xs rule: measure_induct_rule [of unat])
  case (less v)
  have dv: "unat (drop_bit 4 v) = unat v div 16" by (simp add: drop_bit_eq_div unat_div)
  have l: "lsd 16 (unat v) = unat v mod 16 # (if drop_bit 4 v = 0 then [] else lsd 16 (unat (drop_bit 4 v)))"
    by (subst lsd.simps) (simp add: dv unat_eq_zero [symmetric] del: unat_eq_zero)
  have *: "(15 :: u64) = mask 4" by (simp add: mask_eq_exp_minus_1)
  have u: "unat (ucast (v AND 15) :: u8) = unat v mod 16"
    unfolding * by (simp add: take_bit_eq_mask [symmetric] take_bit_eq_mod unat_mod unsigned_ucast_eq take_bit_eq_mod)
  have a: "(let d = ucast (v AND 0xf) in if d < 10 then d + 48 else d + 87 :: u8) = ascii (unat v mod 16)"
    using u unfolding Let_def ascii_def by (auto simp: word_less_nat_alt simp flip: u)
  have w: "wr (over xs c) (length xs) (ascii (unat v mod 16)) = Ret (over (xs @ [ascii (unat v mod 16)]) c)"
    by (rule over_wr) (use less.prems l in auto)
  show ?case
  proof (cases "drop_bit 4 v = 0")
    case True
    then show ?thesis using l w by (subst hex_loop.simps) (simp add: a del: Let_def)
  next
    case False
    have "unat (drop_bit 4 v) < unat v" using False dv by (auto simp: dv unat_eq_zero [symmetric] simp del: unat_eq_zero)
    from less.IH [OF this, of "xs @ [ascii (unat v mod 16)]"] less.prems l False w
    show ?thesis by (subst hex_loop.simps) (simp add: a del: Let_def)
  qed
qed

lemma pad_loop_over:
  "width \<le> length c \<Longrightarrow> length xs \<le> length c \<Longrightarrow>
   pad_loop (over xs c) (length xs) width ch =
     Ret (over (xs @ replicate (width - length xs) ch) c, max width (length xs))"
proof (induction "width - length xs" arbitrary: xs)
  case 0 then show ?case by (subst pad_loop.simps) simp
next
  case (Suc k)
  have "wr (over xs c) (length xs) ch = Ret (over (xs @ [ch]) c)" and "length xs < width"
    using Suc by (auto intro!: over_wr)
  moreover have "width - length xs = Suc (width - Suc (length xs))" using Suc.hyps(2) by simp
  ultimately show ?case using Suc.hyps(1) [of "xs @ [ch]"] Suc.hyps(2) Suc.prems
    by (subst pad_loop.simps) (simp add: max_def)
qed

lemma dec_length: "length (lsd 10 (unat (v :: u64))) \<le> 20"
  using lsd_length [of 10 "unat v" 19] unat_u64_less [of v] by simp

lemma hex_length: "length (lsd 16 (unat (v :: u64))) \<le> 16"
  using lsd_length [of 16 "unat v" 15] unat_u64_less [of v] by simp

lemma over_Nil [simp]: "over [] c = c"
  by (simp add: over_def)

lemma length_digits [simp]: "length (digits b n) = length (lsd b n)"
  by (simp add: digits_def)

lemma print_integer_buffer:
  assumes "width \<le> 64"
  shows "print_integer v width s zp =
    (let n = length (lsd 10 (unat v)); i = max width n;
         xs = map ascii (lsd 10 (unat v)) @ replicate (width - n) (if zp then 48 else 32) in
     bnd (if s = - 1 then wr (over xs (replicate 64 0)) (if zp then i - 1 else n) 45 else Ret (over xs (replicate 64 0)))
       (\<lambda>c. Ret (emit c i)))"
  using dec_loop_digits [of "[]" v "replicate 64 0"] dec_length [of v]
    pad_loop_over [of width "replicate 64 0" "map ascii (lsd 10 (unat v))" "if zp then 48 else 32"] assms
  by (simp add: print_integer_def Let_def)

lemma print_integer_plain:
  assumes "width \<le> 64"
  shows "print_integer v width 0 zp =
    Ret (replicate (width - length (digits 10 (unat v))) (if zp then 48 else 32) @ digits 10 (unat v))"
proof -
  let ?xs = "map ascii (lsd 10 (unat v)) @ replicate (width - length (lsd 10 (unat v))) (if zp then 48 else 32)"
  have "max width (length (lsd 10 (unat v))) = length ?xs" by simp
  then show ?thesis using print_integer_buffer [OF assms, of v 0 zp] emit_over [of ?xs]
    by (simp add: Let_def digits_def rev_map)
qed

lemma print_hex_plain:
  assumes "width \<le> 64"
  shows "print_hex v width zp =
    Ret (replicate (width - length (digits 16 (unat v))) (if zp then 48 else 32) @ digits 16 (unat v))"
proof -
  let ?xs = "map ascii (lsd 16 (unat v)) @ replicate (width - length (lsd 16 (unat v))) (if zp then 48 else 32)"
  have "max width (length (lsd 16 (unat v))) = length ?xs" by simp
  then show ?thesis
    using hex_loop_digits [of "[]" v "replicate 64 0"] hex_length [of v] emit_over [of ?xs]
      pad_loop_over [of width "replicate 64 0" "map ascii (lsd 16 (unat v))" "if zp then 48 else 32"] assms
    by (simp add: print_hex_def digits_def rev_map)
qed

section \<open>The format language\<close>

datatype conv = Lit u8 | Pct | Chr u64 | Str u64 "u8 list" | Dec u64 | Uns u64 | Hex u64

text \<open>Its bytes in the format, its argument and what it should print.\<close>

fun conv_bytes :: "conv \<Rightarrow> u8 list" where
  "conv_bytes (Lit c) = [c]"
| "conv_bytes Pct = [37, 37]"
| "conv_bytes (Chr a) = [37, 99]"
| "conv_bytes (Str p s) = [37, 115]"
| "conv_bytes (Dec v) = [37, 100]"
| "conv_bytes (Uns v) = [37, 117]"
| "conv_bytes (Hex v) = [37, 120]"

fun conv_args :: "conv \<Rightarrow> u64 list" where
  "conv_args (Lit c) = []"
| "conv_args Pct = []"
| "conv_args (Chr a) = [a]"
| "conv_args (Str p s) = [p]"
| "conv_args (Dec v) = [v]"
| "conv_args (Uns v) = [v]"
| "conv_args (Hex v) = [v]"

fun conv_out :: "conv \<Rightarrow> u8 list" where
  "conv_out (Lit c) = [c]"
| "conv_out Pct = [37]"
| "conv_out (Chr a) = [ucast a]"
| "conv_out (Str p s) = s"
| "conv_out (Dec v) = digits 10 (unat v)"
| "conv_out (Uns v) = digits 10 (unat v)"
| "conv_out (Hex v) = digits 16 (unat v)"

fun conv_ok :: "mem \<Rightarrow> conv \<Rightarrow> bool" where
  "conv_ok m (Lit c) \<longleftrightarrow> c \<noteq> 37 \<and> c \<noteq> 0"
| "conv_ok m (Str p s) \<longleftrightarrow> cstr m (unat p) s"
| "conv_ok m (Dec v) \<longleftrightarrow> 0 \<le>s v"
| "conv_ok m _ \<longleftrightarrow> True"

lemma str_bytes_cstr: "cstr m p s \<Longrightarrow> str_bytes m p = Ret s"
proof (induction s arbitrary: p)
  case Nil then show ?case by (subst str_bytes.simps) (simp add: ld_def)
next
  case (Cons c s) then show ?case by (subst str_bytes.simps) (simp add: ld_def)
qed

lemma parse_no_width: "ld m p = Ret c \<Longrightarrow> \<not> (48 \<le> c \<and> c \<le> 57) \<Longrightarrow> parse_width m p w = Ret (p, w)"
  by (subst parse_width.simps) auto

lemma append_one [simp]: "(@) [x] = (#) x"
  by (rule ext) simp

lemma va_kprint_conv:
  assumes "cstr m fmt (conv_bytes cv @ rest)" and "conv_ok m cv"
  shows "va_kprint m fmt (conv_args cv @ args) =
    omap ((@) (conv_out cv)) (va_kprint m (fmt + length (conv_bytes cv)) args)"
proof -
  have two: "ld m fmt = Ret 37" "ld m (fmt + 1) = Ret d" if "conv_bytes cv = [37, d]" for d
    using assms(1) that by (auto simp: ld_def)
  have w: "parse_width m (fmt + 1) 0 = Ret (fmt + 1, 0)" if "conv_bytes cv = [37, d]" "57 < d" for d
    by (rule parse_no_width [OF two(2) [OF that(1)]]) (use that(2) in auto)
  show ?thesis
  proof (cases cv)
    case (Lit c)
    then show ?thesis using assms by (subst va_kprint.simps) (simp add: ld_def)
  next
    case Pct
    then show ?thesis using two [of 37] by (subst va_kprint.simps) simp
  next
    case (Chr a)
    then show ?thesis using two [of 99] by (subst va_kprint.simps) (simp add: va_arg_def)
  next
    case (Str p s)
    then show ?thesis using two [of 115] assms(2) by (subst va_kprint.simps) (simp add: va_arg_def str_bytes_cstr)
  next
    case (Dec v)
    then have "\<not> v <s 0" using assms(2) by (simp add: signed.not_less)
    then show ?thesis using two [of 100] w [of 100] Dec print_integer_plain [of 0 v False]
      by (subst va_kprint.simps) (simp add: va_arg_def convert_def)
  next
    case (Uns v)
    then show ?thesis using two [of 117] w [of 117] print_integer_plain [of 0 v False]
      by (subst va_kprint.simps) (simp add: va_arg_def convert_def)
  next
    case (Hex v)
    then show ?thesis using two [of 120] w [of 120] print_hex_plain [of 0 v False]
      by (subst va_kprint.simps) (simp add: va_arg_def convert_def)
  qed
qed

lemma cstr_append: "cstr m p (xs @ ys) \<Longrightarrow> cstr m (p + length xs) ys"
  by (induction xs arbitrary: p) (fastforce simp: add.assoc)+

text \<open>A format of any conversions, by induction on them.\<close>

lemma va_kprint_formats:
  "cstr m fmt (concat (map conv_bytes cs)) \<Longrightarrow> \<forall>cv\<in>set cs. conv_ok m cv \<Longrightarrow>
   va_kprint m fmt (concat (map conv_args cs)) = Ret (concat (map conv_out cs))"
proof (induction cs arbitrary: fmt)
  case Nil
  then show ?case by (subst va_kprint.simps) (simp add: ld_def)
next
  case (Cons cv cs)
  have "cstr m (fmt + length (conv_bytes cv)) (concat (map conv_bytes cs))"
    using Cons.prems(1) by (auto intro: cstr_append)
  from Cons.IH [OF this] Cons.prems va_kprint_conv [of m fmt cv "concat (map conv_bytes cs)" "concat (map conv_args cs)"]
  show ?case by simp
qed

section \<open>Properties\<close>

text \<open>
  C28: \<open>kprint\<close> interprets its format: literal bytes, \<open>%%\<close>, \<open>%c\<close>, \<open>%s\<close>, \<open>%u\<close>, \<open>%x\<close> and
  \<open>%d\<close> of a number that is not negative, in any order and number, each taking its own
  argument, print what they should, and the call returns.
\<close>

theorem kprint_formats:
  assumes "cstr m fmt (concat (map conv_bytes cs))" and "\<forall>cv\<in>set cs. conv_ok m cv"
  shows "kprint m fmt (concat (map conv_args cs)) = Ret (concat (map conv_out cs))"
  unfolding kprint_def by (rule va_kprint_formats [OF assms])

lemma kprint_formats_witness:
  "let m = [8 \<mapsto> 105, 9 \<mapsto> 61, 10 \<mapsto> 37, 11 \<mapsto> 117, 12 \<mapsto> 0 :: u8] in
   kprint m 8 [42] = Ret [105, 61, 52, 50]"
proof -
  let ?m = "[8 \<mapsto> 105, 9 \<mapsto> 61, 10 \<mapsto> 37, 11 \<mapsto> 117, 12 \<mapsto> 0 :: u8]"
  have "digits 10 42 = [52, 50]" by (simp add: digits_def lsd.simps ascii_def)
  then show ?thesis using kprint_formats [of ?m 8 "[Lit 105, Lit 61, Uns 42]"] by (simp add: Let_def)
qed

text \<open>
  An unsigned number printed with a width of at most 64 comes out as its decimal
  digits, padded on the left to the width, and the digits read back give the number.
\<close>

lemma print_integer_correct:
  assumes "width \<le> 64"
  shows "\<exists>ds. print_integer v width 0 zp = Ret (replicate (width - length ds) (if zp then 48 else 32) @ ds) \<and>
    number 10 ds = unat v \<and> 0 < length ds \<and> length ds \<le> 20"
  using print_integer_plain [OF assms] number_digits [of 10 "unat v"] dec_length [of v]
  by (intro exI [of _ "digits 10 (unat v)"]) (simp add: lsd.simps [of 10 "unat v"])

lemma print_integer_correct_witness:
  "\<exists>ds. print_integer 1234 6 0 True = Ret (replicate (6 - length ds) 48 @ ds) \<and>
    number 10 ds = 1234 \<and> 0 < length ds \<and> length ds \<le> 20"
  using print_integer_correct [of 6 1234 True] by simp

text \<open>
  The sign of a negative number is mostly lost. Without zero padding it shows only
  when the width exceeds the digits; with zero padding it overwrites the first byte
  printed, which is a digit of the number when the digits fill the width.
\<close>

lemma print_integer_sign_lost:
  assumes "width \<le> length (digits 10 (unat v))"
  shows "print_integer v width (- 1) False = Ret (digits 10 (unat v)) \<and>
    print_integer v width (- 1) True = Ret (45 # tl (digits 10 (unat v)))"
proof -
  let ?ds = "map ascii (lsd 10 (unat v))" and ?c = "replicate 64 (0 :: u8)"
  have n: "length ?ds \<le> 20" "width \<le> length ?ds" using assms dec_length [of v] by simp_all
  have b: "width \<le> 64" using n by simp
  obtain d ds where ds: "?ds = ds @ [d]" by (cases ?ds rule: rev_cases) (auto simp: lsd.simps [of 10 "unat v"])
  have m: "max width (length (lsd 10 (unat v))) = length ?ds" "width - length (lsd 10 (unat v)) = 0" using n(2) by simp_all
  have "wr (over ?ds ?c) (length ?ds) 45 = Ret (over (?ds @ [45]) ?c)" by (rule over_wr) (use n in simp)
  moreover have "emit (over (?ds @ [45]) ?c) (length ?ds) = rev ?ds"
    using emit_over [of "?ds @ [45]" ?c] by simp
  moreover have "wr (over ?ds ?c) (length ?ds - 1) 45 = Ret (over (ds @ [45]) ?c)"
    using n(1) unfolding ds by (simp add: over_def wr_def list_update_append)
  moreover have "emit (over (ds @ [45]) ?c) (length ?ds) = 45 # rev ds"
    using emit_over [of "ds @ [45]" ?c] ds by simp
  moreover have "digits 10 (unat v) = rev ?ds" by (simp add: digits_def rev_map)
  ultimately show ?thesis using print_integer_buffer [OF b, of v "- 1"] m ds by (simp add: Let_def)
qed

lemma print_integer_sign_lost_witness:
  "print_integer 15 2 (- 1) False = Ret (digits 10 (unat (15 :: u64))) \<and>
   print_integer 15 2 (- 1) True = Ret [45, 53]"
proof -
  have d: "digits 10 15 = [49, 53]" by (simp add: digits_def lsd.simps ascii_def)
  then have "2 \<le> length (digits 10 (unat (15 :: u64)))" by simp
  from print_integer_sign_lost [OF this] show ?thesis by (simp add: d)
qed

end
