(* ===== verification/Dentry.thy ===== *)
theory Dentry
  imports Hashmap LinkedList
begin

unbundle bit_operations_syntax

text \<open>
  The objects of the virtual file system and the operations on a single one of them:
  \<open>src/fs/dentry.c\<close>, \<open>src/fs/inode.c\<close>, \<open>src/fs/file.c\<close> and the superblocks of
  \<open>src/fs/super.c\<close>. Objects live in stores keyed by address; a \<open>list_head\<close> member has the
  address of its object plus an offset of its own. A function pointer is a number, 0 is NULL, and
  what it points to is an argument of the operations that call it. \<open>v_pool\<close> is the list of
  addresses that the allocators will hand out, 0 for an allocation that fails; an entry from
  a slab cache starts zeroed, and fields that no code reads or writes are left out. A C string is its bytes, NULL is \<open>None\<close>.
\<close>

section \<open>The objects\<close>

type_synonym cstring = "u8 list"

record dentry =
  d_flags :: u32
  d_parent :: nat
  d_inode :: nat
  d_children :: "(cstring, nat) hashmap option"
  d_count :: int
  d_private :: nat
  d_name :: cstring

record inode_ops =
  io_create :: nat
  io_lookup :: nat
  io_link :: nat
  io_unlink :: nat
  io_symlink :: nat
  io_mkdir :: nat
  io_rmdir :: nat
  io_mknod :: nat
  io_rename :: nat
  io_follow_link :: nat
  io_put_link :: nat
  io_truncate :: nat
  io_permission :: nat

record file_ops =
  fo_read :: nat
  fo_write :: nat
  fo_open :: nat
  fo_close :: nat
  fo_seek :: nat

record inode =
  i_uid :: int
  i_gid :: int
  i_ino :: int
  i_size :: u32
  i_count :: int
  i_flags :: u32
  i_mask :: u32
  i_private :: nat
  i_sb :: nat
  i_iops :: nat
  i_fops :: nat
  i_cdev :: nat

record file_obj =
  f_dentry :: nat
  f_private :: nat
  f_count :: nat
  f_pos :: u64
  f_mode :: u32
  f_ops :: nat

record superblock =
  s_dev :: u32
  s_blocksize :: u32
  s_flags :: u32
  s_magic :: u32
  s_root :: nat
  s_count :: int
  s_dirty :: int
  s_ops :: nat
  s_bdev :: nat
  s_private :: nat

record super_ops =
  so_alloc_inode :: nat
  so_destroy_inode :: nat
  so_read_inode :: nat
  so_dirty_inode :: nat
  so_write_inode :: nat
  so_put_inode :: nat
  so_delete_inode :: nat
  so_put_super :: nat
  so_write_super :: nat
  so_sync_fs :: nat

record vobjs =
  v_dentries :: "nat \<rightharpoonup> dentry"
  v_inodes :: "nat \<rightharpoonup> inode"
  v_iops :: "nat \<rightharpoonup> inode_ops"
  v_fops :: "nat \<rightharpoonup> file_ops"
  v_files :: "nat \<rightharpoonup> file_obj"
  v_sbs :: "nat \<rightharpoonup> superblock"
  v_sops :: "nat \<rightharpoonup> super_ops"
  v_links :: lheap
  v_pool :: "nat list"
  v_errno :: int
  v_next_minor :: u32

text \<open>The offsets of the \<open>list_head\<close> members, \<open>d_list\<close> and so on.\<close>

definition D_LIST :: nat where "D_LIST = 1"
definition I_LIST :: nat where "I_LIST = 2"
definition S_LIST :: nat where "S_LIST = 3"
definition S_INO :: nat where "S_INO = 4"
definition S_INO_DIRTY :: nat where "S_INO_DIRTY = 5"
definition S_INSTANCES :: nat where "S_INSTANCES = 6"
definition MNT_LIST :: nat where "MNT_LIST = 7"
definition C_LIST :: nat where "C_LIST = 8"

abbreviation (input) T_IFCHR :: u32 where "T_IFCHR \<equiv> 4"
abbreviation (input) T_IFREG :: u32 where "T_IFREG \<equiv> 16"
abbreviation (input) T_IFDIR :: u32 where "T_IFDIR \<equiv> 32"

definition DENTRY_HM_LEN :: nat where "DENTRY_HM_LEN = 32"
definition DENTRY_NAME_MAXLEN :: nat where "DENTRY_NAME_MAXLEN = 128"

definition zero_cell :: list_head where "zero_cell = \<lparr> lh_next = 0, lh_prev = 0 \<rparr>"

definition zero_dentry :: dentry where
  "zero_dentry = \<lparr> d_flags = 0, d_parent = 0, d_inode = 0, d_children = None, d_count = 0, d_private = 0, d_name = [] \<rparr>"

definition zero_inode :: inode where
  "zero_inode = \<lparr> i_uid = 0, i_gid = 0, i_ino = 0, i_size = 0, i_count = 0, i_flags = 0, i_mask = 0,
     i_private = 0, i_sb = 0, i_iops = 0, i_fops = 0, i_cdev = 0 \<rparr>"

definition zero_iops :: inode_ops where
  "zero_iops = \<lparr> io_create = 0, io_lookup = 0, io_link = 0, io_unlink = 0, io_symlink = 0, io_mkdir = 0,
     io_rmdir = 0, io_mknod = 0, io_rename = 0, io_follow_link = 0, io_put_link = 0, io_truncate = 0, io_permission = 0 \<rparr>"

definition zero_fops :: file_ops where
  "zero_fops = \<lparr> fo_read = 0, fo_write = 0, fo_open = 0, fo_close = 0, fo_seek = 0 \<rparr>"

definition zero_file :: file_obj where
  "zero_file = \<lparr> f_dentry = 0, f_private = 0, f_count = 0, f_pos = 0, f_mode = 0, f_ops = 0 \<rparr>"

definition zero_sb :: superblock where
  "zero_sb = \<lparr> s_dev = 0, s_blocksize = 0, s_flags = 0, s_magic = 0, s_root = 0, s_count = 0, s_dirty = 0,
     s_ops = 0, s_bdev = 0, s_private = 0 \<rparr>"

definition zero_sops :: super_ops where
  "zero_sops = \<lparr> so_alloc_inode = 0, so_destroy_inode = 0, so_read_inode = 0, so_dirty_inode = 0, so_write_inode = 0,
     so_put_inode = 0, so_delete_inode = 0, so_put_super = 0, so_write_super = 0, so_sync_fs = 0 \<rparr>"

section \<open>Access and allocation\<close>

definition new :: "vobjs \<Rightarrow> (nat \<times> vobjs) outcome" where
  "new s = (case v_pool s of [] \<Rightarrow> Halt AssertFailed | a # as \<Rightarrow> Ret (a, s\<lparr> v_pool := as \<rparr>))"

definition upd_dentry :: "vobjs \<Rightarrow> nat \<Rightarrow> (dentry \<Rightarrow> dentry) \<Rightarrow> vobjs outcome" where
  "upd_dentry s p f =
     omap (\<lambda>d. s\<lparr> v_dentries := (v_dentries s)(p \<mapsto> f d) \<rparr>) (deref (v_dentries s) p)"

definition upd_inode :: "vobjs \<Rightarrow> nat \<Rightarrow> (inode \<Rightarrow> inode) \<Rightarrow> vobjs outcome" where
  "upd_inode s p f = omap (\<lambda>i. s\<lparr> v_inodes := (v_inodes s)(p \<mapsto> f i) \<rparr>) (deref (v_inodes s) p)"

definition upd_file :: "vobjs \<Rightarrow> nat \<Rightarrow> (file_obj \<Rightarrow> file_obj) \<Rightarrow> vobjs outcome" where
  "upd_file s p f = omap (\<lambda>x. s\<lparr> v_files := (v_files s)(p \<mapsto> f x) \<rparr>) (deref (v_files s) p)"

text \<open>A list operation on the cells of the objects.\<close>

definition on_links :: "vobjs \<Rightarrow> (lheap \<Rightarrow> lheap outcome) \<Rightarrow> vobjs outcome" where
  "on_links s f = omap (\<lambda>h. s\<lparr> v_links := h \<rparr>) (f (v_links s))"

definition fail :: "vobjs \<Rightarrow> int \<Rightarrow> (nat \<times> vobjs) outcome" where
  "fail s e = Ret (0, s\<lparr> v_errno := e \<rparr>)"

text \<open>\<open>hm_get\<close> as the callers use it: a stored pointer or NULL.\<close>

definition hm_ptr :: "(cstring, nat) hashmap option \<Rightarrow> cstring \<Rightarrow> nat outcome" where
  "hm_ptr hm name = omap (\<lambda>r. case r of None \<Rightarrow> 0 | Some p \<Rightarrow> p) (hm_get hm (Some name))"

section \<open>dentry.c\<close>

definition alloc_dentry :: "vobjs \<Rightarrow> (nat \<times> vobjs) outcome" where
  "alloc_dentry s =
     bnd (new s) (\<lambda>(a, s).
       if a = 0 then Ret (0, s)
       else Ret (a, s\<lparr> v_dentries := (v_dentries s)(a \<mapsto> zero_dentry),
                       v_links := (v_links s)(a + D_LIST \<mapsto> zero_cell) \<rparr>))"

text \<open>\<open>kstrlen(name)\<close> comes before the check of \<open>name\<close>.\<close>

definition dentry_alloc_empty :: "vobjs \<Rightarrow> nat \<Rightarrow> cstring option \<Rightarrow> (nat \<times> vobjs) outcome" where
  "dentry_alloc_empty s parent name =
     (case name of None \<Rightarrow> Halt MemFault
      | Some nm \<Rightarrow>
          if parent = 0 then fail s EINVAL
          else if length nm + 1 > DENTRY_NAME_MAXLEN then fail s E2BIG
          else
            bnd (deref (v_dentries s) parent) (\<lambda>p.
            bnd (hm_ptr (d_children p) nm) (\<lambda>r.
            if r \<noteq> 0 then fail s EEXIST
            else
              bnd (alloc_dentry s) (\<lambda>(dntr, s).
              if dntr = 0 then fail s ENOMEM
              else
                bnd (upd_dentry s dntr (\<lambda>d. d\<lparr> d_parent := parent, d_private := 0, d_inode := 0,
                       d_flags := 0, d_count := 1, d_name := nm \<rparr>)) (\<lambda>s.
                bnd (on_links s (\<lambda>h. list_init h (dntr + D_LIST))) (\<lambda>s.
                bnd (deref (v_dentries s) parent) (\<lambda>p.
                bnd (case d_children p of None \<Rightarrow> Halt AssertFailed
                     | Some hm \<Rightarrow> hm_insert (Some hm) (Some nm) dntr) (\<lambda>(e, hm).
                bnd (upd_dentry s parent (\<lambda>p. p\<lparr> d_children := Some hm \<rparr>)) (\<lambda>s.
                let s = s\<lparr> v_errno := e \<rparr> in
                if e < 0 then Ret (0, s)
                else
                  bnd (upd_dentry s parent (\<lambda>p. p\<lparr> d_count := d_count p + 1 \<rparr>)) (\<lambda>s.
                  bnd (on_links s (\<lambda>h. list_append h (parent + D_LIST) (dntr + D_LIST))) (\<lambda>s.
                  Ret (dntr, s))))))))))))"

text \<open>A freed object is gone: what still points to it faults.\<close>

definition dentry_dealloc :: "vobjs \<Rightarrow> nat \<Rightarrow> (int \<times> vobjs) outcome" where
  "dentry_dealloc s dntr =
     (if dntr = 0 then Ret (- EINVAL, s)
      else
        bnd (deref (v_dentries s) dntr) (\<lambda>d.
        if d_count d > 1 then Ret (- EBUSY, s)
        else
          bnd (if d_parent d = 0 then Ret (0, s)
               else
                 bnd (deref (v_dentries s) (d_parent d)) (\<lambda>p.
                 bnd (case d_children p of None \<Rightarrow> Halt AssertFailed
                      | Some hm \<Rightarrow> hm_remove (Some hm) (Some (d_name d))) (\<lambda>(ret, hm).
                 omap (Pair ret) (upd_dentry s (d_parent d) (\<lambda>p. p\<lparr> d_children := Some hm \<rparr>))))) (\<lambda>(ret, s).
          if ret < 0 then Ret (ret, s)
          else
            bnd (if d_inode d = 0 then Ret s
                 else upd_inode s (d_inode d) (\<lambda>i. i\<lparr> i_count := i_count i - 1 \<rparr>)) (\<lambda>s.
            bnd (on_links s (\<lambda>h. list_remove h (dntr + D_LIST))) (\<lambda>s.
            bnd (deref (v_dentries s) dntr) (\<lambda>d.
            bnd (hm_dealloc_hashmap (d_children d)) (\<lambda>_.
            Ret (ret, s\<lparr> v_dentries := (v_dentries s)(dntr := None) \<rparr>))))))))"

definition DOT :: cstring where "DOT = [46]"
definition DOTDOT :: cstring where "DOTDOT = [46, 46]"

text \<open>The map takes two blocks; NULL from either is the error path, which keeps the old \<open>errno\<close>.\<close>

definition dentry_init_children :: "vobjs \<Rightarrow> nat \<Rightarrow> nat \<Rightarrow> u32 \<Rightarrow> (int \<times> vobjs) outcome" where
  "dentry_init_children s parent dntr flags =
     bnd (new s) (\<lambda>(a, s).
     bnd (if a = 0 then Ret (0, s) else new s) (\<lambda>(b, s).
     let hm = hm_alloc_hashmap (a \<noteq> 0) (b \<noteq> 0) DENTRY_HM_LEN hm_hash_str in
     bnd (upd_dentry s dntr (\<lambda>d. d\<lparr> d_children := hm \<rparr>)) (\<lambda>s.
     if hm = None then Ret (- v_errno s, s)
     else
       bnd (dentry_alloc_empty s dntr (Some DOT)) (\<lambda>(this, s).
       if this = 0 then Ret (- v_errno s, s)
       else
         bnd (upd_dentry s this (\<lambda>d. d\<lparr> d_parent := 0, d_flags := T_IFREG \<rparr>)) (\<lambda>s.
         bnd (dentry_alloc_empty s dntr (Some DOTDOT)) (\<lambda>(prnt, s).
         if prnt = 0 then bnd (dentry_dealloc s this) (\<lambda>(_, s). Ret (- v_errno s, s))
         else
           bnd (upd_dentry s prnt (\<lambda>d. d\<lparr> d_parent := parent, d_flags := T_IFREG OR flags \<rparr>)) (\<lambda>s.
           if parent = 0 then Ret (0, s)
           else
             bnd (deref (v_dentries s) parent) (\<lambda>p.
             bnd (upd_dentry s prnt (\<lambda>d. d\<lparr> d_inode := d_inode p \<rparr>)) (\<lambda>s. Ret (0, s))))))))))"

definition dentry_alloc :: "vobjs \<Rightarrow> nat \<Rightarrow> cstring option \<Rightarrow> u32 \<Rightarrow> (nat \<times> vobjs) outcome" where
  "dentry_alloc s parent name flags =
     (if parent = 0 then fail s EINVAL
      else
        bnd (deref (v_dentries s) parent) (\<lambda>p.
        bnd (omap (\<lambda>r. case r of None \<Rightarrow> 0 | Some q \<Rightarrow> q) (hm_get (d_children p) name)) (\<lambda>r.
        if r \<noteq> 0 then fail s EEXIST
        else
          bnd (dentry_alloc_empty s parent name) (\<lambda>(dntr, s).
          if dntr = 0 then fail s ENOMEM
          else
            bnd (upd_dentry s dntr (\<lambda>d. d\<lparr> d_flags := flags \<rparr>)) (\<lambda>s.
            if flags AND T_IFDIR = 0 then Ret (dntr, s)
            else
              bnd (dentry_init_children s parent dntr flags) (\<lambda>(ret, s).
              if ret < 0 then bnd (dentry_dealloc s dntr) (\<lambda>(_, s). fail s (- ret))
              else Ret (dntr, s)))))))"

text \<open>\<open>kstrncpy\<close> into the 128 bytes of \<open>d_name\<close> without a check of the length.\<close>

definition dentry_alloc_orphan :: "vobjs \<Rightarrow> cstring option \<Rightarrow> u32 \<Rightarrow> (nat \<times> vobjs) outcome" where
  "dentry_alloc_orphan s name flags =
     bnd (alloc_dentry s) (\<lambda>(dntr, s).
     if dntr = 0 then fail s ENOMEM
     else
       case name of None \<Rightarrow> Halt MemFault
       | Some nm \<Rightarrow>
           if length nm + 1 > DENTRY_NAME_MAXLEN then Halt MemFault
           else
             bnd (upd_dentry s dntr (\<lambda>d. d\<lparr> d_count := 1, d_flags := flags, d_parent := 0, d_inode := 0,
                    d_name := nm \<rparr>)) (\<lambda>s.
             bnd (on_links s (\<lambda>h. list_init h (dntr + D_LIST))) (\<lambda>s.
             if flags AND T_IFDIR = 0 then Ret (dntr, s)
             else
               bnd (dentry_init_children s 0 dntr flags) (\<lambda>(ret, s).
               if ret < 0 then bnd (dentry_dealloc s dntr) (\<lambda>(_, s). fail s (- ret))
               else Ret (dntr, s)))))"

text \<open>The reference count of the inode grows even when the allocation fails.\<close>

definition dentry_alloc_ino :: "vobjs \<Rightarrow> nat \<Rightarrow> cstring option \<Rightarrow> nat \<Rightarrow> u32 \<Rightarrow> (nat \<times> vobjs) outcome" where
  "dentry_alloc_ino s parent name ino flags =
     (if ino = 0 then fail s EINVAL
      else
        bnd (dentry_alloc s parent name flags) (\<lambda>(dntr, s).
        bnd (if dntr = 0 then Ret s else upd_dentry s dntr (\<lambda>d. d\<lparr> d_inode := ino \<rparr>)) (\<lambda>s.
        bnd (upd_inode s ino (\<lambda>i. i\<lparr> i_count := i_count i + 1 \<rparr>)) (\<lambda>s. Ret (dntr, s)))))"

definition dentry_alloc_orphan_ino :: "vobjs \<Rightarrow> cstring option \<Rightarrow> nat \<Rightarrow> u32 \<Rightarrow> (nat \<times> vobjs) outcome" where
  "dentry_alloc_orphan_ino s name ino flags =
     (if ino = 0 then fail s EINVAL
      else
        bnd (dentry_alloc_orphan s name flags) (\<lambda>(dntr, s).
        bnd (if dntr = 0 then Ret s else upd_dentry s dntr (\<lambda>d. d\<lparr> d_inode := ino \<rparr>)) (\<lambda>s.
        bnd (upd_inode s ino (\<lambda>i. i\<lparr> i_count := i_count i + 1 \<rparr>)) (\<lambda>s. Ret (dntr, s)))))"

definition dentry_cache_lookup :: "cstring option \<Rightarrow> nat" where "dentry_cache_lookup name = 0"
definition dentry_cache_insert :: "nat \<Rightarrow> nat" where "dentry_cache_insert dntr = 0"
definition dentry_cache_evict :: "nat \<Rightarrow> int" where "dentry_cache_evict dntr = 0"

section \<open>inode.c\<close>

text \<open>The three allocations short-circuit; on failure the file operations leak.\<close>

definition inode_generic_alloc :: "vobjs \<Rightarrow> u32 \<Rightarrow> (nat \<times> vobjs) outcome" where
  "inode_generic_alloc s flags =
     bnd (new s) (\<lambda>(ino, s).
     if ino = 0 then fail s ENOMEM
     else
       bnd (new s) (\<lambda>(fops, s).
       if fops = 0 then fail s ENOMEM
       else
         bnd (new s) (\<lambda>(iops, s).
         if iops = 0 then fail s ENOMEM
         else
           Ret (ino, s\<lparr> v_fops := (v_fops s)(fops \<mapsto> zero_fops), v_iops := (v_iops s)(iops \<mapsto> zero_iops),
             v_inodes := (v_inodes s)(ino \<mapsto> zero_inode\<lparr> i_fops := fops, i_iops := iops, i_uid := - 1,
               i_gid := - 1, i_ino := - 1, i_size := - 1, i_mask := 0, i_count := 1, i_flags := flags \<rparr>),
             v_links := (v_links s)(ino + I_LIST \<mapsto> zero_cell) \<rparr>))))"

definition inode_generic_dealloc :: "vobjs \<Rightarrow> nat \<Rightarrow> (int \<times> vobjs) outcome" where
  "inode_generic_dealloc s ino =
     (if ino = 0 then Ret (- EINVAL, s)
      else
        bnd (deref (v_inodes s) ino) (\<lambda>i.
        if i_count i > 1 then Ret (- EBUSY, s)
        else kassert (i_iops i \<noteq> 0) (kassert (i_fops i \<noteq> 0)
          (Ret (0, s\<lparr> v_iops := (v_iops s)(i_iops i := None), v_fops := (v_fops s)(i_fops i := None),
                     v_inodes := (v_inodes s)(ino := None) \<rparr>)))))"

text \<open>What an \<open>i_iops->lookup\<close> pointer does: given the pointer, the state, the directory and the name.\<close>

type_synonym lookup_call = "nat \<Rightarrow> vobjs \<Rightarrow> nat \<Rightarrow> cstring \<Rightarrow> (nat \<times> vobjs) outcome"

definition inode_lookup :: "lookup_call \<Rightarrow> vobjs \<Rightarrow> nat \<Rightarrow> cstring option \<Rightarrow> (nat \<times> vobjs) outcome" where
  "inode_lookup call s dntr name =
     (if dntr = 0 then fail s EINVAL
      else
        bnd (deref (v_dentries s) dntr) (\<lambda>d.
        if d_inode d = 0 then fail s EINVAL
        else
          bnd (deref (v_inodes s) (d_inode d)) (\<lambda>i.
          case name of None \<Rightarrow> fail s EINVAL
          | Some nm \<Rightarrow>
              if i_iops i = 0 then fail s EINVAL
              else
                bnd (deref (v_iops s) (i_iops i)) (\<lambda>ops.
                if io_lookup ops = 0 then fail s ENOSYS else call (io_lookup ops) s dntr nm))))"

section \<open>file.c\<close>

definition file_generic_alloc :: "vobjs \<Rightarrow> (nat \<times> vobjs) outcome" where
  "file_generic_alloc s =
     bnd (new s) (\<lambda>(file, s).
     if file = 0 then fail s ENOMEM
     else
       bnd (new s) (\<lambda>(ops, s).
       if ops = 0 then fail s ENOMEM
       else Ret (file, s\<lparr> v_fops := (v_fops s)(ops \<mapsto> zero_fops),
              v_files := (v_files s)(file \<mapsto> zero_file\<lparr> f_ops := ops, f_count := 1, f_pos := 0 \<rparr>) \<rparr>)))"

definition file_generic_dealloc :: "vobjs \<Rightarrow> nat \<Rightarrow> (int \<times> vobjs) outcome" where
  "file_generic_dealloc s file =
     (if file = 0 then Ret (- EINVAL, s)
      else
        bnd (deref (v_files s) file) (\<lambda>f.
        if f_count f > 1 then Ret (- EBUSY, s)
        else
          bnd (if f_dentry f = 0 then Ret s
               else upd_dentry s (f_dentry f) (\<lambda>d. d\<lparr> d_count := d_count d - 1 \<rparr>)) (\<lambda>s.
          kassert (f_ops f \<noteq> 0)
            (Ret (0, s\<lparr> v_fops := (v_fops s)(f_ops f := None), v_files := (v_files s)(file := None) \<rparr>)))))"

text \<open>\<open>off_t\<close> is signed; \<open>FILE_SIZE\<close> is the size as an unsigned 32-bit number.\<close>

definition file_generic_seek :: "vobjs \<Rightarrow> nat \<Rightarrow> u64 \<Rightarrow> (int \<times> vobjs) outcome" where
  "file_generic_seek s file off =
     (if file = 0 then Ret (- EINVAL, s)
      else
        bnd (deref (v_files s) file) (\<lambda>f.
        if f_dentry f = 0 then Ret (- EINVAL, s)
        else
          bnd (deref (v_dentries s) (f_dentry f)) (\<lambda>d.
          if d_inode d = 0 then Ret (- EINVAL, s)
          else
            bnd (deref (v_inodes s) (d_inode d)) (\<lambda>i.
            if f_pos f <s - off \<or> ucast (i_size i) <s f_pos f + off then Ret (- ESPIPE, s)
            else omap (Pair 0) (upd_file s file (\<lambda>f. f\<lparr> f_pos := f_pos f + off \<rparr>))))))"

text \<open>What the pointers of \<open>file_ops\<close> do is an argument.\<close>

definition file_open :: "(nat \<Rightarrow> vobjs \<Rightarrow> nat \<Rightarrow> u32 \<Rightarrow> (nat \<times> vobjs) outcome) \<Rightarrow> vobjs \<Rightarrow> nat \<Rightarrow> u32 \<Rightarrow> (nat \<times> vobjs) outcome" where
  "file_open call s dntr mode =
     (if dntr = 0 then fail s EINVAL
      else
        bnd (deref (v_dentries s) dntr) (\<lambda>d.
        if d_inode d = 0 then fail s EINVAL
        else
          bnd (deref (v_inodes s) (d_inode d)) (\<lambda>i.
          if i_fops i = 0 then fail s EINVAL
          else
            bnd (deref (v_fops s) (i_fops i)) (\<lambda>ops.
            if fo_open ops = 0 then fail s ENOSYS else call (fo_open ops) s dntr mode))))"

text \<open>The operations structure of an open file.\<close>

definition ops_of :: "vobjs \<Rightarrow> nat \<Rightarrow> file_ops outcome" where
  "ops_of s file = bnd (deref (v_files s) file) (\<lambda>f. deref (v_fops s) (f_ops f))"

definition file_close :: "(nat \<Rightarrow> vobjs \<Rightarrow> nat \<Rightarrow> (int \<times> vobjs) outcome) \<Rightarrow> vobjs \<Rightarrow> nat \<Rightarrow> vobjs outcome" where
  "file_close call s file =
     (if file = 0 then Ret (s\<lparr> v_errno := EINVAL \<rparr>)
      else
        bnd (ops_of s file) (\<lambda>ops.
        if fo_close ops = 0 then Ret (s\<lparr> v_errno := ENOSYS \<rparr>) else omap snd (call (fo_close ops) s file)))"

definition file_seek :: "(nat \<Rightarrow> vobjs \<Rightarrow> nat \<Rightarrow> u64 \<Rightarrow> (int \<times> vobjs) outcome) \<Rightarrow> vobjs \<Rightarrow> nat \<Rightarrow> u64 \<Rightarrow> (int \<times> vobjs) outcome" where
  "file_seek call s file off =
     (if file = 0 then Ret (- EINVAL, s)
      else
        bnd (ops_of s file) (\<lambda>ops.
        if fo_seek ops = 0 then Ret (- ENOSYS, s) else call (fo_seek ops) s file off))"

type_synonym rw_call = "nat \<Rightarrow> vobjs \<Rightarrow> nat \<Rightarrow> u64 \<Rightarrow> u64 \<Rightarrow> nat \<Rightarrow> (int \<times> vobjs) outcome"

definition file_read :: "rw_call \<Rightarrow> vobjs \<Rightarrow> nat \<Rightarrow> u64 \<Rightarrow> u64 \<Rightarrow> nat \<Rightarrow> (int \<times> vobjs) outcome" where
  "file_read call s file offset n buffer =
     (if file = 0 \<or> buffer = 0 then Ret (- EINVAL, s)
      else
        bnd (ops_of s file) (\<lambda>ops.
        if fo_read ops = 0 then Ret (- ENOSYS, s) else call (fo_read ops) s file offset n buffer))"

definition file_write :: "rw_call \<Rightarrow> vobjs \<Rightarrow> nat \<Rightarrow> u64 \<Rightarrow> u64 \<Rightarrow> nat \<Rightarrow> (int \<times> vobjs) outcome" where
  "file_write call s file offset n buffer =
     (if file = 0 \<or> buffer = 0 then Ret (- EINVAL, s)
      else
        bnd (ops_of s file) (\<lambda>ops.
        if fo_write ops = 0 then Ret (- ENOSYS, s) else call (fo_write ops) s file offset n buffer))"

section \<open>super.c\<close>

text \<open>A superblock whose operations could not be allocated leaks.\<close>

definition alloc_generic_sb :: "vobjs \<Rightarrow> (nat \<times> vobjs) outcome" where
  "alloc_generic_sb s =
     bnd (new s) (\<lambda>(sb, s).
     if sb = 0 then Ret (0, s)
     else
       bnd (new s) (\<lambda>(ops, s).
       let s = s\<lparr> v_sbs := (v_sbs s)(sb \<mapsto> zero_sb\<lparr> s_ops := ops \<rparr>),
                  v_links := (v_links s)(sb + S_LIST \<mapsto> zero_cell, sb + S_INO \<mapsto> zero_cell,
                     sb + S_INO_DIRTY \<mapsto> zero_cell, sb + S_INSTANCES \<mapsto> zero_cell) \<rparr> in
       if ops = 0 then Ret (0, s)
       else Ret (sb, s\<lparr> v_sops := (v_sops s)(ops \<mapsto> zero_sops) \<rparr>)))"

definition upd_sb :: "vobjs \<Rightarrow> nat \<Rightarrow> (superblock \<Rightarrow> superblock) \<Rightarrow> vobjs outcome" where
  "upd_sb s p f = omap (\<lambda>b. s\<lparr> v_sbs := (v_sbs s)(p \<mapsto> f b) \<rparr>) (deref (v_sbs s) p)"

text \<open>\<open>major\<close> in the upper 12 bits, \<open>minor\<close> in the lower 20.\<close>

definition MAKE_DEV :: "u32 \<Rightarrow> u32 \<Rightarrow> u32" where
  "MAKE_DEV major minor = push_bit 20 (major AND 0xfff) OR (minor AND 0xfffff)"

definition DEV_MAJOR :: "u32 \<Rightarrow> u32" where "DEV_MAJOR dev = drop_bit 20 dev AND 0xfff"
definition DEV_MINOR :: "u32 \<Rightarrow> u32" where "DEV_MINOR dev = dev AND 0xfffff"

text \<open>\<open>devfs_alloc_minor\<close> of \<open>devfs.c\<close>: a static counter.\<close>

definition devfs_alloc_minor :: "vobjs \<Rightarrow> u32 \<Rightarrow> u32 \<times> vobjs" where
  "devfs_alloc_minor s major = (v_next_minor s, s\<lparr> v_next_minor := v_next_minor s + 1 \<rparr>)"

text \<open>\<open>fill\<close> is the function \<open>fill_super\<close>.\<close>

definition super_get_sb_single ::
    "(vobjs \<Rightarrow> nat \<Rightarrow> (int \<times> vobjs) outcome) \<Rightarrow> vobjs \<Rightarrow> u32 \<Rightarrow> (nat \<times> vobjs) outcome" where
  "super_get_sb_single fill s flags =
     bnd (alloc_generic_sb s) (\<lambda>(sb, s).
     if sb = 0 then Ret (0, s)
     else
       bnd (fill s sb) (\<lambda>(r, s).
       if r < 0 then Ret (0, s)
       else
         let (minor, s) = devfs_alloc_minor s 0 in
         omap (Pair sb) (upd_sb s sb (\<lambda>b. b\<lparr> s_flags := flags, s_bdev := 0, s_dev := MAKE_DEV 0 minor \<rparr>))))"

text \<open>The three other ways to get a superblock are stubs that give NULL.\<close>

definition super_get_sb_pseudo :: "vobjs \<Rightarrow> nat \<Rightarrow> (nat \<times> vobjs) outcome" where
  "super_get_sb_pseudo s ty = (if ty = 0 then fail s EINVAL else Ret (0, s))"

definition super_get_sb_nodev :: "vobjs \<Rightarrow> nat \<Rightarrow> (nat \<times> vobjs) outcome" where
  "super_get_sb_nodev s ty = (if ty = 0 then fail s EINVAL else Ret (0, s))"

definition super_get_sb_bdev :: "vobjs \<Rightarrow> nat \<Rightarrow> (nat \<times> vobjs) outcome" where
  "super_get_sb_bdev s ty = (if ty = 0 then fail s EINVAL else Ret (0, s))"

section \<open>Allocation of an entry\<close>

text \<open>The allocators hand out each address once and none that a dentry has.\<close>

definition pool_ok :: "vobjs \<Rightarrow> bool" where
  "pool_ok s \<longleftrightarrow> distinct (filter (\<lambda>a. a \<noteq> 0) (v_pool s)) \<and> (\<forall>a\<in>set (v_pool s). a \<noteq> 0 \<longrightarrow> v_dentries s a = None)"

lemma new_ok: "new s = Ret (a, s') \<Longrightarrow> pool_ok s \<Longrightarrow>
    \<exists>as. s' = s\<lparr> v_pool := as \<rparr> \<and> pool_ok s' \<and> set as \<subseteq> set (v_pool s) \<and> (a \<noteq> 0 \<longrightarrow> v_dentries s a = None \<and> a \<notin> set as)"
  by (rule exI [of _ "tl (v_pool s)"]) (auto simp: new_def pool_ok_def split: list.splits if_splits)

lemma upd_dentry_Ret: "upd_dentry s p f = Ret s' \<longleftrightarrow>
    (\<exists>d. p \<noteq> 0 \<and> v_dentries s p = Some d \<and> s' = s\<lparr> v_dentries := (v_dentries s)(p \<mapsto> f d) \<rparr>)"
  by (auto simp: upd_dentry_def omap_Ret_iff deref_def split: option.splits if_splits)

lemma upd_dentry_other: "upd_dentry s p f = Ret s' \<Longrightarrow> p \<noteq> a \<Longrightarrow> v_dentries s' a = v_dentries s a"
  by (auto simp: upd_dentry_Ret)

lemma on_links_Ret: "on_links s f = Ret s' \<longleftrightarrow> (\<exists>h. f (v_links s) = Ret h \<and> s' = s\<lparr> v_links := h \<rparr>)"
  by (auto simp: on_links_def omap_Ret_iff)

lemma deref_Ret: "deref h p = Ret c \<longleftrightarrow> p \<noteq> 0 \<and> h p = Some c"
  by (auto simp: deref_def split: option.splits)

lemmas vobj_ret_iff = outcome_ret_iff upd_dentry_Ret on_links_Ret deref_Ret fail_def

lemma fail_Ret: "fail s e = Ret (a, s') \<longleftrightarrow> a = 0 \<and> s' = s\<lparr> v_errno := e \<rparr>"
  by (auto simp: fail_def)

lemma dentry_alloc_empty_ok:
  assumes r: "dentry_alloc_empty s parent name = Ret (a, s')" and a: "a \<noteq> 0" and ok: "pool_ok s"
  shows "pool_ok s' \<and> v_dentries s a = None \<and> v_inodes s' = v_inodes s \<and>
    (\<exists>p nm h0 e hm. name = Some nm \<and> v_dentries s parent = Some p \<and> d_children p = Some h0 \<and>
       hm_insert (Some h0) (Some nm) a = Ret (e, hm) \<and> 0 \<le> e \<and> set (v_pool s') \<subseteq> set (v_pool s) \<and>
       v_dentries s' = (v_dentries s)(a \<mapsto> zero_dentry\<lparr> d_parent := parent, d_count := 1, d_name := nm \<rparr>,
         parent \<mapsto> p\<lparr> d_children := Some hm, d_count := d_count p + 1 \<rparr>))"
proof -
  obtain nm p where nm: "name = Some nm" "parent \<noteq> 0" "v_dentries s parent = Some p" "hm_ptr (d_children p) nm = Ret 0"
      "bnd (alloc_dentry s) (\<lambda>(dntr, s).
              if dntr = 0 then fail s ENOMEM
              else
                bnd (upd_dentry s dntr (\<lambda>d. d\<lparr> d_parent := parent, d_private := 0, d_inode := 0,
                       d_flags := 0, d_count := 1, d_name := nm \<rparr>)) (\<lambda>s.
                bnd (on_links s (\<lambda>h. list_init h (dntr + D_LIST))) (\<lambda>s.
                bnd (deref (v_dentries s) parent) (\<lambda>p.
                bnd (case d_children p of None \<Rightarrow> Halt AssertFailed
                     | Some hm \<Rightarrow> hm_insert (Some hm) (Some nm) dntr) (\<lambda>(e, hm).
                bnd (upd_dentry s parent (\<lambda>p. p\<lparr> d_children := Some hm \<rparr>)) (\<lambda>s.
                let s = s\<lparr> v_errno := e \<rparr> in
                if e < 0 then Ret (0, s)
                else
                  bnd (upd_dentry s parent (\<lambda>p. p\<lparr> d_count := d_count p + 1 \<rparr>)) (\<lambda>s.
                  bnd (on_links s (\<lambda>h. list_append h (parent + D_LIST) (dntr + D_LIST))) (\<lambda>s.
                  Ret (dntr, s))))))))) = Ret (a, s')"
    using r a unfolding dentry_alloc_empty_def
    by (auto simp: bnd_Ret_iff deref_Ret fail_Ret split: option.splits if_splits)
  obtain d s1 where d: "alloc_dentry s = Ret (d, s1)" using nm(5) by (auto simp: bnd_Ret_iff)
  have "d \<noteq> 0" using nm(5) d a by (cases "d = 0") (simp_all add: fail_def)
  then obtain as where s1: "s1 = s\<lparr> v_pool := as, v_dentries := (v_dentries s)(d \<mapsto> zero_dentry),
        v_links := (v_links s)(d + D_LIST \<mapsto> zero_cell) \<rparr>" "pool_ok (s\<lparr> v_pool := as \<rparr>)"
      "v_dentries s d = None" "d \<notin> set as" "set as \<subseteq> set (v_pool s)"
    using d new_ok [OF _ ok] by (auto simp: alloc_dentry_def bnd_Ret_iff split: if_splits)
  have "d \<noteq> parent" using s1(3) nm(3) by auto
  then obtain hm h0 e where s': "a = d" "d_children p = Some h0" "hm_insert (Some h0) (Some nm) a = Ret (e, hm)" "0 \<le> e"
       "v_dentries s' = (v_dentries s)(d \<mapsto> zero_dentry\<lparr> d_parent := parent, d_count := 1, d_name := nm \<rparr>,
         parent \<mapsto> p\<lparr> d_children := Some hm, d_count := d_count p + 1 \<rparr>)" "v_inodes s' = v_inodes s" "v_pool s' = as"
    using nm(5) d \<open>d \<noteq> 0\<close> nm(2,3) s1(1) a
    by (auto simp: vobj_ret_iff Let_def zero_dentry_def split: option.splits if_splits)
  then show ?thesis using s1 nm by (auto simp: pool_ok_def)
qed

text \<open>With a usable map and memory left, an entry is made unless a list cell is missing.\<close>

lemma dentry_alloc_empty_nz:
  assumes r: "dentry_alloc_empty s parent (Some nm) = Ret (x, s')" and p: "parent \<noteq> 0" "v_dentries s parent = Some p"
    and hm: "d_children p = Some hm" "hm_get (Some hm) (Some nm) = Ret None"
      "\<And>v. \<exists>hm'. hm_insert (Some hm) (Some nm) v = Ret (0, hm')"
    and len: "length nm < 128" and pool: "0 \<notin> set (v_pool s)" "pool_ok s"
  shows "x \<noteq> 0"
proof -
  have g: "hm_ptr (Some hm) nm = Ret 0" using hm(2) by (simp add: hm_ptr_def)
  obtain d s1 where d: "alloc_dentry s = Ret (d, s1)"
    using r p hm(1) g len by (auto simp: dentry_alloc_empty_def DENTRY_NAME_MAXLEN_def bnd_Ret_iff deref_def)
  have "d \<noteq> 0" "v_dentries s1 = (v_dentries s)(d \<mapsto> zero_dentry)" "v_dentries s d = None"
    using d pool by (auto simp: alloc_dentry_def new_def pool_ok_def split: list.splits)
  moreover obtain hm' where "hm_insert (Some hm) (Some nm) d = Ret (0, hm')" using hm(3) by blast
  ultimately show ?thesis
    using r p hm(1) g len d
    by (cases "d = parent") (auto simp: dentry_alloc_empty_def DENTRY_NAME_MAXLEN_def vobj_ret_iff Let_def upd_dentry_def deref_def)
qed

text \<open>The two entries every directory starts with, in a fresh map.\<close>

definition fresh_children :: "(cstring, nat) hashmap" where
  "fresh_children = \<lparr> hm_len = 0, hm_cap = 32, hm_elem = replicate 32 None, hm_hash = hm_hash_str \<rparr>"

definition dot_children :: "nat \<Rightarrow> (cstring, nat) hashmap" where
  "dot_children v = \<lparr> hm_len = 1, hm_cap = 32,
     hm_elem = (replicate 32 None)[19 := Some \<lparr> it_data = v, it_key = 177619, it_occupied = True \<rparr>], hm_hash = hm_hash_str \<rparr>"

lemma dot_hash: "hm_hash_str (Some DOT) = 177619" "hm_hash_str (Some DOTDOT) = 5861473"
  by (simp_all add: hm_hash_str_def DOT_def DOTDOT_def push_bit_eq_mult)

lemmas loop12 = find_free_loop.simps(2) [where n = 11, simplified] get_loop.simps(2) [where n = 11, simplified]

lemma dot_insert:
  "hm_insert (Some fresh_children) (Some DOT) v = Ret (0, dot_children v)"
  "hm_get (Some fresh_children) (Some DOT) = Ret None"
  "hm_get (Some (dot_children v)) (Some DOTDOT) = Ret None"
  "\<exists>hm'. hm_insert (Some (dot_children v)) (Some DOTDOT) w = Ret (0, hm')"
  by (simp_all add: hm_insert_def hm_get_def hm_find_free_bucket_def fresh_children_def dot_children_def dot_hash
      UINT32_MAX_def BUCKET_MAX_LEN_def loop12 Let_def)

text \<open>The count of a directory after its two own entries have been made.\<close>

lemma init_children_count:
  assumes r: "dentry_init_children s parent a flags = Ret (ret, s')" and ok: "pool_ok s" "0 \<notin> set (v_pool s)"
    and d: "v_dentries s a = Some d" "a \<noteq> 0"
  shows "\<exists>d'. v_dentries s' a = Some d' \<and> d_count d' = d_count d + 2"
proof -
  obtain m1 m2 as where as: "v_pool s = m1 # m2 # as"
    using r ok(2) by (auto simp: dentry_init_children_def new_def bnd_Ret_iff split: list.splits if_splits)
  let ?s1 = "s\<lparr> v_pool := as, v_dentries := (v_dentries s)(a \<mapsto> d\<lparr> d_children := Some fresh_children \<rparr>) \<rparr>"
  have ok1: "pool_ok ?s1" "0 \<notin> set (v_pool ?s1)" using ok as d by (auto simp: pool_ok_def split: if_splits)
  obtain this s2 where t: "dentry_alloc_empty ?s1 a (Some DOT) = Ret (this, s2)"
    using r as ok(2) d by (auto simp: dentry_init_children_def new_def bnd_Ret_iff hm_alloc_hashmap_def fresh_children_def
        DENTRY_HM_LEN_def upd_dentry_def deref_def)
  have "this \<noteq> 0"
    by (rule dentry_alloc_empty_nz [OF t d(2)]) (use ok1 dot_insert in \<open>auto simp: DOT_def\<close>)
  from dentry_alloc_empty_ok [OF t this ok1(1)] obtain e hm where
    s2: "pool_ok s2" "v_dentries ?s1 this = None" "hm_insert (Some fresh_children) (Some DOT) this = Ret (e, hm)"
      "v_dentries s2 = (v_dentries ?s1)(this \<mapsto> zero_dentry\<lparr> d_parent := a, d_count := 1, d_name := DOT \<rparr>,
         a \<mapsto> d\<lparr> d_children := Some hm, d_count := d_count d + 1 \<rparr>)" "set (v_pool s2) \<subseteq> set (v_pool ?s1)"
    by auto
  have hm: "hm = dot_children this" using s2(3) dot_insert(1) by simp
  have ta: "this \<noteq> a" using s2(2) d by auto
  obtain s3 prnt s4 where p: "upd_dentry s2 this (\<lambda>d. d\<lparr> d_parent := 0, d_flags := T_IFREG \<rparr>) = Ret s3"
      "dentry_alloc_empty s3 a (Some DOTDOT) = Ret (prnt, s4)"
      "(if prnt = 0 then bnd (dentry_dealloc s4 this) (\<lambda>(_, s). Ret (- v_errno s, s))
         else
           bnd (upd_dentry s4 prnt (\<lambda>d. d\<lparr> d_parent := parent, d_flags := T_IFREG OR flags \<rparr>)) (\<lambda>s.
           if parent = 0 then Ret (0, s)
           else
             bnd (deref (v_dentries s) parent) (\<lambda>p.
             bnd (upd_dentry s prnt (\<lambda>d. d\<lparr> d_inode := d_inode p \<rparr>)) (\<lambda>s. Ret (0, s))))) = Ret (ret, s')"
    using r as ok(2) d t \<open>this \<noteq> 0\<close> unfolding dentry_init_children_def new_def bnd_Ret_iff
    by (auto simp: bnd_Ret_iff hm_alloc_hashmap_def fresh_children_def DENTRY_HM_LEN_def upd_dentry_def deref_def)
  have va: "v_dentries s3 a = Some (d\<lparr> d_children := Some (dot_children this), d_count := d_count d + 1 \<rparr>)"
    using p(1) s2(4) ta hm by (auto simp: upd_dentry_Ret)
  have ok3: "pool_ok s3" "0 \<notin> set (v_pool s3)" using p(1) s2 ok1 ta by (auto simp: pool_ok_def upd_dentry_Ret)
  have "prnt \<noteq> 0"
    by (rule dentry_alloc_empty_nz [OF p(2) d(2) va]) (use ok3 dot_insert in \<open>auto simp: DOTDOT_def\<close>)
  from dentry_alloc_empty_ok [OF p(2) this ok3(1)] va obtain d4 where
    s4: "v_dentries s3 prnt = None" "v_dentries s4 a = Some d4" "d_count d4 = d_count d + 2"
    by auto
  have pa: "prnt \<noteq> a" using s4(1) va by auto
  obtain s5 where s5: "upd_dentry s4 prnt (\<lambda>d. d\<lparr> d_parent := parent, d_flags := T_IFREG OR flags \<rparr>) = Ret s5"
      "s' = s5 \<or> (\<exists>i. upd_dentry s5 prnt (\<lambda>d. d\<lparr> d_inode := i \<rparr>) = Ret s')"
    using p(3) \<open>prnt \<noteq> 0\<close> by (cases "parent = 0") (auto simp: bnd_Ret_iff)
  then have "v_dentries s' a = v_dentries s4 a" using upd_dentry_other [OF _ pa] by metis
  then show ?thesis using s4(2,3) by simp
qed

section \<open>Properties\<close>

text \<open>The parent and the allocator allow a new entry \<open>nm\<close> at address \<open>a\<close>.\<close>

definition can_add :: "vobjs \<Rightarrow> nat \<Rightarrow> dentry \<Rightarrow> (cstring, nat) hashmap \<Rightarrow> cstring \<Rightarrow> nat \<Rightarrow> bool" where
  "can_add s parent p hm nm a \<longleftrightarrow>
     v_pool s \<noteq> [] \<and> hd (v_pool s) = a \<and> a \<noteq> 0 \<and> v_dentries s a = None \<and>
     parent \<noteq> 0 \<and> v_dentries s parent = Some p \<and> d_children p = Some hm \<and>
     hm_inv hm \<and> hm_len hm < hm_cap hm \<and> hm_hash hm (Some nm) \<noteq> UINT32_MAX \<and>
     hm_map hm (hm_hash hm (Some nm)) = None \<and>
     (\<exists>i\<in>set (probes (hm_cap hm) (hm_hash hm (Some nm))). \<not> slot_occ (hm_elem hm ! i)) \<and> length nm < 128"

lemma dentry_alloc_empty_adds:
  assumes c: "can_add s parent p hm nm a" and ring: "ring (v_links s) ((parent + D_LIST) # bs)"
    and fr: "a + D_LIST \<notin> set ((parent + D_LIST) # bs)"
  shows "\<exists>h2 hm'. dentry_alloc_empty s parent (Some nm) = Ret (a, s\<lparr> v_pool := tl (v_pool s), v_links := h2, v_errno := 0,
      v_dentries := (v_dentries s)(a \<mapsto> zero_dentry\<lparr> d_parent := parent, d_count := 1, d_name := nm \<rparr>,
         parent \<mapsto> p\<lparr> d_children := Some hm', d_count := d_count p + 1 \<rparr>) \<rparr>) \<and>
    hm_insert (Some hm) (Some nm) a = Ret (0, hm') \<and>
    ring h2 ((parent + D_LIST) # (a + D_LIST) # bs) \<and>
    (\<forall>x. x \<notin> set ((parent + D_LIST) # (a + D_LIST) # bs) \<longrightarrow> h2 x = v_links s x)"
proof -
  have w: "a \<noteq> 0" "v_dentries s a = None" "parent \<noteq> 0" "v_dentries s parent = Some p" "d_children p = Some hm"
      "hm_inv hm" "hm_len hm < hm_cap hm" "hm_hash hm (Some nm) \<noteq> UINT32_MAX" "hm_map hm (hm_hash hm (Some nm)) = None"
      "length nm < 128"
    using c by (auto simp: can_add_def)
  obtain as where as: "v_pool s = a # as" using c by (cases "v_pool s") (auto simp: can_add_def)
  have g: "hm_ptr (Some hm) nm = Ret 0" using hm_get_map [OF w(6), of "Some nm"] w(8,9) by (simp add: hm_ptr_def)
  obtain hm' where ins: "hm_insert (Some hm) (Some nm) a = Ret (0, hm')"
    using hm_insert_cases [OF w(6,7), of "Some nm" a] w(8) c by (auto simp: can_add_def)
  have pa: "parent \<noteq> a" using w by auto
  let ?cell = "a + D_LIST" and ?h = "(v_links s)(a + D_LIST \<mapsto> zero_cell)"
  have i: "list_init ?h ?cell = Ret (?h(?cell \<mapsto> \<lparr> lh_next = ?cell, lh_prev = ?cell \<rparr>))" (is "_ = Ret ?h1")
    using w(1) by (simp add: list_init_def link_defs zero_cell_def)
  have r1: "ring ?h1 ((parent + D_LIST) # bs)" using ring fr by (simp add: ring_def)
  then obtain h2 where h2: "list_append ?h1 (parent + D_LIST) ?cell = Ret h2" "ring h2 ((parent + D_LIST) # ?cell # bs)"
    using list_append_head [of ?h1 "parent + D_LIST" bs ?cell] fr w(1) by auto
  have z: "zero_dentry\<lparr> d_parent := parent, d_private := 0, d_inode := 0, d_flags := 0, d_count := 1, d_name := nm \<rparr>
      = zero_dentry\<lparr> d_parent := parent, d_count := 1, d_name := nm \<rparr>"
    by (simp add: zero_dentry_def)
  show ?thesis
    by (intro exI [of _ h2] exI [of _ hm'])
       (use w as g ins i h2 pa z list_append_frame [OF r1 h2(1)] in
         \<open>simp add: dentry_alloc_empty_def DENTRY_NAME_MAXLEN_def alloc_dentry_def new_def upd_dentry_def on_links_def fun_upd_twist\<close>)
qed

lemma dentry_alloc_file:
  assumes c: "can_add s parent p hm nm a" and "flags AND T_IFDIR = 0"
    and ring: "ring (v_links s) ((parent + D_LIST) # bs)" and fr: "a + D_LIST \<notin> set ((parent + D_LIST) # bs)"
  shows "\<exists>h2 hm'. dentry_alloc s parent (Some nm) flags = Ret (a, s\<lparr> v_pool := tl (v_pool s), v_links := h2, v_errno := 0,
      v_dentries := (v_dentries s)(
         parent \<mapsto> p\<lparr> d_children := Some hm', d_count := d_count p + 1 \<rparr>,
         a \<mapsto> zero_dentry\<lparr> d_flags := flags, d_parent := parent, d_count := 1, d_name := nm \<rparr>) \<rparr>) \<and>
    hm_insert (Some hm) (Some nm) a = Ret (0, hm') \<and>
    ring h2 ((parent + D_LIST) # (a + D_LIST) # bs) \<and>
    (\<forall>x. x \<notin> set ((parent + D_LIST) # (a + D_LIST) # bs) \<longrightarrow> h2 x = v_links s x)"
proof -
  have w: "a \<noteq> 0" "parent \<noteq> 0" "v_dentries s parent = Some p" "d_children p = Some hm" "hm_inv hm"
      "hm_hash hm (Some nm) \<noteq> UINT32_MAX" "hm_map hm (hm_hash hm (Some nm)) = None" "parent \<noteq> a"
    using c by (auto simp: can_add_def)
  from dentry_alloc_empty_adds [OF c ring fr] show ?thesis
    by (elim ex_forward)
       (use w assms(2) hm_get_map [OF w(5), of "Some nm"] in
         \<open>auto simp: dentry_alloc_def upd_dentry_def zero_dentry_def fun_upd_twist\<close>)
qed


text \<open>A directory with an empty map at address 16 and memory for one more object at 32.\<close>

definition demo_dir :: dentry where
  "demo_dir = zero_dentry\<lparr> d_flags := T_IFDIR, d_count := 1, d_children := Some fresh_children \<rparr>"

definition demo_vfs :: vobjs where
  "demo_vfs = \<lparr> v_dentries = [16 \<mapsto> demo_dir], v_inodes = Map.empty, v_iops = Map.empty, v_fops = Map.empty,
     v_files = Map.empty, v_sbs = Map.empty, v_sops = Map.empty,
     v_links = [16 + D_LIST \<mapsto> \<lparr> lh_next = 16 + D_LIST, lh_prev = 16 + D_LIST \<rparr>], v_pool = [32, 48, 64, 80, 96], v_errno = 0,
     v_next_minor = 1 \<rparr>"

lemma fresh_children_inv: "hm_inv fresh_children" "hm_map fresh_children = Map.empty"
  using hm_alloc_inv [of True True 32 hm_hash_str fresh_children] by (simp_all add: hm_alloc_hashmap_def fresh_children_def)

lemma demo_can_add: "can_add demo_vfs 16 demo_dir fresh_children [97] 32"
proof -
  have h: "hm_hash_str (Some [97]) = 177670" by (simp add: hm_hash_str_def push_bit_eq_mult)
  have "(6 :: nat) \<in> set (probes 32 177670)" by (simp add: probes_def BUCKET_MAX_LEN_def upt_rec)
  then have "\<exists>i\<in>set (probes 32 177670). \<not> slot_occ (replicate 32 None ! i :: nat hm_item option)"
    by (intro bexI [of _ 6]) (simp_all add: slot_occ_def)
  then show ?thesis using fresh_children_inv h
    by (simp add: can_add_def demo_vfs_def demo_dir_def fresh_children_def UINT32_MAX_def)
qed


text \<open>
  A directory can never be given back: its own entries \<open>.\<close> and \<open>..\<close> raise its count to
  three and nothing lowers it again, so \<open>dentry_dealloc\<close> of a directory that
  \<open>dentry_alloc\<close> has just made refuses with \<open>-EBUSY\<close>.
\<close>

lemma directory_stays_busy:
  assumes "dentry_alloc s parent name flags = Ret (a, s')" and "a \<noteq> 0" and "flags AND T_IFDIR \<noteq> 0"
    and "pool_ok s" and "0 \<notin> set (v_pool s)"
  shows "dentry_dealloc s' a = Ret (- EBUSY, s')"
proof -
  obtain s1 where s1: "dentry_alloc_empty s parent name = Ret (a, s1)"
      "bnd (upd_dentry s1 a (\<lambda>d. d\<lparr> d_flags := flags \<rparr>)) (\<lambda>s.
         bnd (dentry_init_children s parent a flags) (\<lambda>(ret, s).
              if ret < 0 then bnd (dentry_dealloc s a) (\<lambda>(_, s). fail s (- ret))
              else Ret (a, s))) = Ret (a, s')"
    using assms(1-3) unfolding dentry_alloc_def
    by (auto simp: bnd_Ret_iff fail_Ret split: if_splits)
  note ok1 = dentry_alloc_empty_ok [OF s1(1) assms(2,4)]
  obtain s2 d where s2: "upd_dentry s1 a (\<lambda>d. d\<lparr> d_flags := flags \<rparr>) = Ret s2" "v_dentries s1 a = Some d"
    using s1(2) by (auto simp: bnd_Ret_iff upd_dentry_Ret)
  have d1: "d_count d = 1"
    using ok1 s2(2) by (auto split: if_splits)
  have "pool_ok s2" "0 \<notin> set (v_pool s2)" "v_dentries s2 a = Some (d\<lparr> d_flags := flags \<rparr>)"
    using ok1 s2 assms(5) by (auto simp: upd_dentry_Ret pool_ok_def split: if_splits)
  moreover obtain ret where "dentry_init_children s2 parent a flags = Ret (ret, s')"
    using s1(2) s2(1) assms(2) by (auto simp: bnd_Ret_iff fail_Ret split: if_splits)
  ultimately obtain d' where "v_dentries s' a = Some d'" "d_count d' = d_count d + 2"
    using init_children_count [of s2 parent a flags ret s'] assms(2) by force
  then show ?thesis using d1 assms(2) by (simp add: dentry_dealloc_def)
qed

lemma demo_new_dir: "\<exists>s'. dentry_alloc demo_vfs 16 (Some [97]) 32 = Ret (32, s')"
proof -
  have h: "hm_hash_str (Some [97]) = 177670" by (simp add: hm_hash_str_def push_bit_eq_mult)
  have g: "hm_get (Some fresh_children) (Some [97]) = Ret None"
    "hm_insert (Some fresh_children) (Some [97]) 32 = Ret (0, fresh_children\<lparr> hm_len := 1,
       hm_elem := (replicate 32 None)[6 := Some \<lparr> it_data = 32, it_key = 177670, it_occupied = True \<rparr>] \<rparr>)"
    by (simp_all add: hm_insert_def hm_get_def hm_find_free_bucket_def fresh_children_def h UINT32_MAX_def
        BUCKET_MAX_LEN_def loop12)
  have f: "\<lparr> hm_len = 0, hm_cap = 32, hm_elem = replicate 32 None, hm_hash = hm_hash_str \<rparr> = fresh_children"
    by (simp add: fresh_children_def)
  obtain hm2 where i2: "hm_insert (Some (dot_children 80)) (Some DOTDOT) 96 = Ret (0, hm2)" using dot_insert(4) by blast
  show ?thesis
    by (simp add: dentry_alloc_def dentry_alloc_empty_def dentry_init_children_def alloc_dentry_def new_def demo_vfs_def demo_dir_def
        upd_dentry_def on_links_def g hm_ptr_def DENTRY_NAME_MAXLEN_def zero_dentry_def zero_cell_def D_LIST_def
        list_init_def list_append_def link_defs hm_alloc_hashmap_def DENTRY_HM_LEN_def f dot_insert [unfolded DOT_def DOTDOT_def]
        i2 [unfolded DOT_def DOTDOT_def] DOT_def DOTDOT_def)
qed

lemma directory_stays_busy_witness:
  "\<exists>s'. dentry_alloc demo_vfs 16 (Some [97]) 32 = Ret (32, s') \<and> dentry_dealloc s' 32 = Ret (- EBUSY, s')"
proof -
  obtain s' where r: "dentry_alloc demo_vfs 16 (Some [97]) 32 = Ret (32, s')" using demo_new_dir ..
  have "pool_ok demo_vfs" "0 \<notin> set (v_pool demo_vfs)" by (simp_all add: pool_ok_def demo_vfs_def)
  from directory_stays_busy [OF r _ _ this] r show ?thesis by simp
qed

lemma seek_cases:
  assumes "v_files s file = Some f" and "file \<noteq> 0" and "f_dentry f \<noteq> 0" and "v_dentries s (f_dentry f) = Some d"
    and "d_inode d \<noteq> 0" and "v_inodes s (d_inode d) = Some i"
    and "\<bar>sint (f_pos f)\<bar> < 2 ^ 62" and "\<bar>sint off\<bar> < 2 ^ 62"
  shows "file_generic_seek s file off =
    (let pos = sint (f_pos f) + sint off in
     if 0 \<le> pos \<and> pos \<le> uint (i_size i)
     then Ret (0, s\<lparr> v_files := (v_files s)(file \<mapsto> f\<lparr> f_pos := word_of_int pos \<rparr>) \<rparr>)
     else Ret (- ESPIPE, s))"
proof -
  have wrap: "signed_take_bit 63 (x :: int) = x" if "\<bar>x\<bar> < 2 ^ 63" for x
    using that by (intro signed_take_bit_int_eq_self) auto
  have neg: "sint (- off) = - sint off"
    using wrap [of "- sint off"] assms(8) by (simp add: sint_word_ariths)
  have sum: "sint (f_pos f + off) = sint (f_pos f) + sint off"
    using wrap [of "sint (f_pos f) + sint off"] assms(7,8) by (simp add: sint_word_ariths)
  have small: "sint (ucast (i_size i) :: u64) = uint (i_size i)"
    using uint_bounded [of "i_size i"] using wrap [of "uint (i_size i)"] by (simp add: sint_uint uint_up_ucast is_up)
  have wi: "f_pos f + off = word_of_int (sint (f_pos f) + sint off)" by simp
  show ?thesis
    using assms(1-6) neg sum small unfolding wi [symmetric]
    by (auto simp: file_generic_seek_def word_sless_alt upd_file_def deref_def Let_def)
qed

text \<open>
  \<open>file_generic_seek\<close> moves the position by the signed offset exactly when the new
  position lies between 0 and the size of the inode as an unsigned 32-bit number, and
  otherwise gives \<open>-ESPIPE\<close> and changes nothing, for positions and offsets below \<open>2 ^ 62\<close>
  in absolute value.
\<close>

lemma file_generic_seek_bounds:
  assumes "v_files s file = Some f" and "file \<noteq> 0" and "f_dentry f \<noteq> 0" and "v_dentries s (f_dentry f) = Some d"
    and "d_inode d \<noteq> 0" and "v_inodes s (d_inode d) = Some i"
    and "\<bar>sint (f_pos f)\<bar> < 2 ^ 62" and "\<bar>sint off\<bar> < 2 ^ 62"
  shows "file_generic_seek s file off =
    (let pos = sint (f_pos f) + sint off in
     if 0 \<le> pos \<and> pos \<le> uint (i_size i)
     then Ret (0, s\<lparr> v_files := (v_files s)(file \<mapsto> f\<lparr> f_pos := word_of_int pos \<rparr>) \<rparr>)
     else Ret (- ESPIPE, s))"
  by (rule seek_cases [OF assms])

lemma file_generic_seek_bounds_witness:
  "let i = zero_inode\<lparr> i_size := 10 \<rparr>; d = zero_dentry\<lparr> d_inode := 8 \<rparr>; f = zero_file\<lparr> f_dentry := 16, f_pos := 4 \<rparr>;
       s = demo_vfs\<lparr> v_inodes := [8 \<mapsto> i], v_dentries := [16 \<mapsto> d], v_files := [24 \<mapsto> f] \<rparr> in
   file_generic_seek s 24 7 = Ret (- ESPIPE, s) \<and>
   file_generic_seek s 24 (- 4) = Ret (0, s\<lparr> v_files := (v_files s)(24 \<mapsto> f\<lparr> f_pos := 0 \<rparr>) \<rparr>)"
proof -
  let ?i = "zero_inode\<lparr> i_size := 10 \<rparr>" and ?d = "zero_dentry\<lparr> d_inode := 8 \<rparr>" and ?f = "zero_file\<lparr> f_dentry := 16, f_pos := 4 \<rparr>"
  let ?s = "demo_vfs\<lparr> v_inodes := [8 \<mapsto> ?i], v_dentries := [16 \<mapsto> ?d], v_files := [24 \<mapsto> ?f] \<rparr>"
  have "file_generic_seek ?s 24 off =
    (let pos = sint (f_pos ?f) + sint off in
     if 0 \<le> pos \<and> pos \<le> uint (i_size ?i)
     then Ret (0, ?s\<lparr> v_files := (v_files ?s)(24 \<mapsto> ?f\<lparr> f_pos := word_of_int pos \<rparr>) \<rparr>)
     else Ret (- ESPIPE, ?s))" if "\<bar>sint off\<bar> < 2 ^ 62" for off
    by (rule file_generic_seek_bounds [where d = ?d]) (use that in \<open>simp_all add: zero_dentry_def zero_inode_def zero_file_def\<close>)
  from this [of 7] this [of "- 4"] show ?thesis by (simp add: Let_def)
qed

end
