(* ===== verification/Vfs.thy ===== *)
theory Vfs
  imports Dentry
begin

unbundle bit_operations_syntax

text \<open>
  \<open>src/fs/fs.c\<close>: mount points, path lookup, registered file systems and the contexts of a
  process. The state adds to the objects of the theory Dentry the mounts, the file system types
  and the contexts. A lookup works on a private copy of its path, so the path that
  \<open>vfs_extract_child\<close> cuts in place is here a byte string and what is left of it. The loops over
  the mount points have fuel. What \<open>get_sb\<close> pointers do is an argument.
\<close>

section \<open>The state\<close>

record mount =
  mnt_sb :: nat
  mnt_mount :: nat
  mnt_root :: nat
  mnt_devname :: "cstring option"
  mnt_type :: "cstring option"

record fs_type =
  fs_name :: cstring
  fs_get_sb :: nat
  fs_kill_sb :: nat

record fs_ctx =
  fc_count :: int
  fc_root :: nat
  fc_pwd :: nat

record file_ctx =
  fx_count :: int
  fx_numfd :: int
  fx_fd :: "nat list"

record path =
  p_dentry :: nat
  p_flags :: u32
  p_status :: u32

record vfs =
  vo :: vobjs
  v_mounts :: "nat \<rightharpoonup> mount"
  v_types :: "nat \<rightharpoonup> fs_type"
  v_fsctx :: "nat \<rightharpoonup> fs_ctx"
  v_filectx :: "nat \<rightharpoonup> file_ctx"
  fs_types :: "(cstring, nat) hashmap option"
  root_fs :: nat

text \<open>The static list heads \<open>mountpoints\<close> and \<open>superblocks\<close>.\<close>

definition mountpoints :: nat where "mountpoints = 1"
definition superblocks :: nat where "superblocks = 2"

abbreviation (input) LOOKUP_PARENT :: u32 where "LOOKUP_PARENT \<equiv> 1"
abbreviation (input) LOOKUP_CREATE :: u32 where "LOOKUP_CREATE \<equiv> 2"
abbreviation (input) LOOKUP_OPEN :: u32 where "LOOKUP_OPEN \<equiv> 4"
abbreviation (input) LOOKUP_STAT_SUCCESS :: u32 where "LOOKUP_STAT_SUCCESS \<equiv> 0"
abbreviation (input) LOOKUP_STAT_ENOENT :: u32 where "LOOKUP_STAT_ENOENT \<equiv> 1"
abbreviation (input) LOOKUP_STAT_EEXISTS :: u32 where "LOOKUP_STAT_EEXISTS \<equiv> 2"
abbreviation (input) LOOKUP_STAT_EINVAL :: u32 where "LOOKUP_STAT_EINVAL \<equiv> 4"

text \<open>An operation on the objects.\<close>

definition on_vo :: "vfs \<Rightarrow> (vobjs \<Rightarrow> ('a \<times> vobjs) outcome) \<Rightarrow> ('a \<times> vfs) outcome" where
  "on_vo s f = omap (\<lambda>(x, o'). (x, s\<lparr> vo := o' \<rparr>)) (f (vo s))"

definition on_vo1 :: "vfs \<Rightarrow> (vobjs \<Rightarrow> vobjs outcome) \<Rightarrow> vfs outcome" where
  "on_vo1 s f = omap (\<lambda>o'. s\<lparr> vo := o' \<rparr>) (f (vo s))"

definition set_errno :: "vfs \<Rightarrow> int \<Rightarrow> vfs" where
  "set_errno s e = s\<lparr> vo := (vo s)\<lparr> v_errno := e \<rparr> \<rparr>"

section \<open>Mounts and file system types\<close>

definition alloc_empty_mount :: "vfs \<Rightarrow> (nat \<times> vfs) outcome" where
  "alloc_empty_mount s =
     bnd (on_vo s new) (\<lambda>(mnt, s).
     if mnt = 0 then Ret (0, s)
     else
       bnd (on_vo1 s (\<lambda>v. on_links v (\<lambda>h. list_init (h(mnt + MNT_LIST \<mapsto> zero_cell)) (mnt + MNT_LIST)))) (\<lambda>s.
       Ret (mnt, s\<lparr> v_mounts := (v_mounts s)(mnt \<mapsto>
         \<lparr> mnt_sb = 0, mnt_mount = 0, mnt_root = 0, mnt_devname = None, mnt_type = None \<rparr>) \<rparr>)))"

text \<open>\<open>FOREACH(mountpoints, m)\<close>: the mounts it visits.\<close>

definition mounts :: "nat \<Rightarrow> vfs \<Rightarrow> nat list outcome" where
  "mounts fuel s =
     (case FOREACH fuel (v_links (vo s)) mountpoints of
        None \<Rightarrow> Halt NoReturn
      | Some r \<Rightarrow> omap (map (\<lambda>m. m - MNT_LIST)) r)"

text \<open>Is a file system of the type mounted? \<open>kstrcmp_s\<close> reads both strings.\<close>

primrec type_mounted :: "vfs \<Rightarrow> cstring \<Rightarrow> nat list \<Rightarrow> bool outcome" where
  "type_mounted s ty [] = Ret False"
| "type_mounted s ty (m # ms) =
     bnd (deref (v_mounts s) m) (\<lambda>mnt.
       case mnt_type mnt of None \<Rightarrow> Halt MemFault
       | Some t \<Rightarrow> if t = ty then Ret True else type_mounted s ty ms)"

definition vfs_register_fs :: "vfs \<Rightarrow> nat \<Rightarrow> (int \<times> vfs) outcome" where
  "vfs_register_fs s fs =
     (if fs = 0 then Ret (- EINVAL, s)
      else
        bnd (deref (v_types s) fs) (\<lambda>t.
        if fs_get_sb t = 0 \<or> fs_kill_sb t = 0 then Ret (- EINVAL, s)
        else
          bnd (hm_ptr (fs_types s) (fs_name t)) (\<lambda>r.
          if r \<noteq> 0 then Ret (- EEXIST, s)
          else
            bnd (hm_insert (fs_types s) (Some (fs_name t)) fs) (\<lambda>(e, hm).
            Ret (e, s\<lparr> fs_types := Some hm \<rparr>)))))"

definition vfs_unregister_fs :: "nat \<Rightarrow> vfs \<Rightarrow> cstring option \<Rightarrow> (int \<times> vfs) outcome" where
  "vfs_unregister_fs fuel s name =
     (case name of None \<Rightarrow> Ret (- EINVAL, s)
      | Some ty \<Rightarrow>
          bnd (hm_ptr (fs_types s) ty) (\<lambda>r.
          if r = 0 then Ret (- EINVAL, s)
          else
            bnd (mounts fuel s) (\<lambda>ms.
            bnd (type_mounted s ty ms) (\<lambda>busy.
            if busy then Ret (- EBUSY, s)
            else
              bnd (hm_remove (fs_types s) (Some ty)) (\<lambda>(e, hm). Ret (e, s\<lparr> fs_types := Some hm \<rparr>))))))"

text \<open>A \<open>get_sb\<close> pointer: the pointer, the state, the device name and the data give a superblock.\<close>

type_synonym get_sb_call = "nat \<Rightarrow> vobjs \<Rightarrow> cstring option \<Rightarrow> nat \<Rightarrow> (nat \<times> vobjs) outcome"

definition vfs_mount_pseudo :: "get_sb_call \<Rightarrow> vfs \<Rightarrow> cstring option \<Rightarrow> cstring option \<Rightarrow> nat \<Rightarrow> (int \<times> vfs) outcome" where
  "vfs_mount_pseudo get_sb s target name mountpoint =
     (case (target, name) of
        (Some _, Some ty) \<Rightarrow>
          if mountpoint = 0 then Ret (- EINVAL, s)
          else
            bnd (hm_ptr (fs_types s) ty) (\<lambda>fs.
            if fs = 0 then Ret (- ENOSYS, s)
            else
              bnd (alloc_empty_mount s) (\<lambda>(mnt, s).
              if mnt = 0 then Ret (- ENOMEM, s)
              else
                bnd (deref (v_types s) fs) (\<lambda>t.
                bnd (on_vo s (\<lambda>v. get_sb (fs_get_sb t) v None 0)) (\<lambda>(sb, s).
                bnd (deref (v_sbs (vo s)) sb) (\<lambda>b.
                bnd (on_vo1 s (\<lambda>v. upd_dentry v mountpoint (\<lambda>d. d\<lparr> d_count := d_count d + 1 \<rparr>))) (\<lambda>s.
                bnd (on_vo1 s (\<lambda>v. on_links v (\<lambda>h. list_append h mountpoints (mnt + MNT_LIST)))) (\<lambda>s.
                Ret (0, s\<lparr> v_mounts := (v_mounts s)(mnt \<mapsto> \<lparr> mnt_sb = sb, mnt_mount = mountpoint,
                  mnt_root = s_root b, mnt_devname = Some ty, mnt_type = Some ty \<rparr>) \<rparr>))))))))
      | _ \<Rightarrow> Ret (- EINVAL, s))"

section \<open>Path lookup\<close>

abbreviation (input) SLASH :: u8 where "SLASH \<equiv> 47"

text \<open>The component at the start of the path, and what is left: \<open>None\<close> at the end of the path.\<close>

definition vfs_extract_child :: "cstring \<Rightarrow> cstring option \<times> cstring option" where
  "vfs_extract_child p =
     (let i = length (takeWhile (\<lambda>c. c \<noteq> SLASH) p) in
      (if p = [] then None else Some (take i p),
       if i \<noteq> length p then Some (drop (i + 1) p) else None))"

lemma extract_shorter: "vfs_extract_child p = (n, Some p') \<Longrightarrow> length p' < length p"
  using length_takeWhile_le [of "\<lambda>c. c \<noteq> SLASH" p] by (auto simp: vfs_extract_child_def Let_def split: if_splits)

text \<open>The entry a file system finds for a name that has no dentry yet.\<close>

definition lookup_new :: "lookup_call \<Rightarrow> vobjs \<Rightarrow> nat \<Rightarrow> cstring option \<Rightarrow> (nat \<times> vobjs) outcome" where
  "lookup_new call s parent next_name =
     bnd (inode_lookup call s parent next_name) (\<lambda>(ino, s).
     if ino = 0 then Ret (0, s)
     else bnd (deref (v_inodes s) ino) (\<lambda>i. dentry_alloc_ino s parent next_name ino (i_flags i)))"

function vfs_walk_path :: "lookup_call \<Rightarrow> vobjs \<Rightarrow> nat \<Rightarrow> cstring \<Rightarrow> u32 \<Rightarrow> (nat \<times> vobjs) outcome" where
  "vfs_walk_path call s parent p flags =
     (if parent = 0 then fail s EINVAL
      else
        case vfs_extract_child p of
          (name, None) \<Rightarrow>
            if flags AND LOOKUP_PARENT \<noteq> 0 then Ret (parent, s)
            else
              bnd (deref (v_dentries s) parent) (\<lambda>d.
              bnd (hm_get (d_children d) name) (\<lambda>r.
              case r of
                Some dntr \<Rightarrow> if dntr \<noteq> 0 then Ret (dntr, s) else lookup_new call s parent name
              | None \<Rightarrow> lookup_new call s parent name))
        | (name, Some p') \<Rightarrow>
            bnd (deref (v_dentries s) parent) (\<lambda>d.
            if d_children d = None then fail s EINVAL
            else
              bnd (hm_get (d_children d) name) (\<lambda>r.
              if r \<noteq> None \<and> r \<noteq> Some 0 then vfs_walk_path call s (the r) p' flags
              else
                bnd (lookup_new call s parent name) (\<lambda>(dntr, s).
                if dntr = 0 then Ret (0, s) else vfs_walk_path call s dntr p' flags))))"
  by pat_completeness auto
termination by (relation "measure (\<lambda>(call, s, parent, p, flags). length p)") (auto dest!: extract_shorter [OF sym])

declare vfs_walk_path.simps [simp del]

text \<open>The mount whose mount point has the name.\<close>

primrec mount_named :: "vfs \<Rightarrow> cstring \<Rightarrow> nat list \<Rightarrow> nat outcome" where
  "mount_named s nm [] = Ret 0"
| "mount_named s nm (m # ms) =
     bnd (deref (v_mounts s) m) (\<lambda>mnt.
     bnd (deref (v_dentries (vo s)) (mnt_mount mnt)) (\<lambda>d.
     if d_name d = nm then Ret m else mount_named s nm ms))"

definition mnt_root_of :: "vfs \<Rightarrow> nat \<Rightarrow> nat outcome" where
  "mnt_root_of s m = omap mnt_root (deref (v_mounts s) m)"

definition vfs_find_bootstrap :: "nat \<Rightarrow> vfs \<Rightarrow> cstring \<Rightarrow> (nat \<times> cstring option) outcome" where
  "vfs_find_bootstrap fuel s p =
     kassert (p \<noteq> [] \<and> hd p = SLASH)
       (let p = tl p in
        if p = [] then omap (\<lambda>r. (r, None)) (mnt_root_of s (root_fs s))
        else
          case fst (vfs_extract_child p) of None \<Rightarrow> Halt MemFault
          | Some mnt \<Rightarrow>
              bnd (mounts fuel s) (\<lambda>ms.
              bnd (mount_named s mnt ms) (\<lambda>m.
              if m = 0 then Ret (0, Some p)
              else
                bnd (mnt_root_of s m) (\<lambda>r.
                let p = drop (length mnt) p in
                Ret (r, if p = [] then None else Some (tl p))))))"

text \<open>The flags and the outcome of the walk decide the status.\<close>

definition lookup_end :: "nat \<Rightarrow> u32 \<Rightarrow> nat \<Rightarrow> vfs \<Rightarrow> (path \<times> vfs) outcome" where
  "lookup_end start flags dntr s =
     (if dntr = 0 then
        Ret (\<lparr> p_dentry = (if flags AND LOOKUP_CREATE \<noteq> 0 \<and> flags AND LOOKUP_PARENT \<noteq> 0 then start else 0), p_flags = flags,
               p_status = (if flags AND LOOKUP_CREATE \<noteq> 0 then LOOKUP_STAT_SUCCESS else LOOKUP_STAT_ENOENT) \<rparr>, s)
      else
        bnd (on_vo1 s (\<lambda>v. upd_dentry v dntr (\<lambda>d. d\<lparr> d_count := d_count d + 1 \<rparr>))) (\<lambda>s.
        Ret (\<lparr> p_dentry = dntr, p_flags = flags,
               p_status = (if flags AND LOOKUP_OPEN \<noteq> 0 then LOOKUP_STAT_SUCCESS
                 else if flags AND LOOKUP_CREATE \<noteq> 0 \<and> flags AND LOOKUP_PARENT = 0 then LOOKUP_STAT_EEXISTS
                 else LOOKUP_STAT_ENOENT) \<rparr>, s)))"

definition vfs_path_lookup :: "nat \<Rightarrow> lookup_call \<Rightarrow> vfs \<Rightarrow> cstring option \<Rightarrow> u32 \<Rightarrow> (path \<times> vfs) outcome" where
  "vfs_path_lookup fuel call s p flags =
     (if p = None \<or> p = Some [] then
        Ret (\<lparr> p_dentry = 0, p_flags = flags, p_status = LOOKUP_STAT_EINVAL \<rparr>, s)
      else if hd (the p) \<noteq> SLASH then Halt Panicked
      else
        bnd (vfs_find_bootstrap fuel s (the p)) (\<lambda>(start, rest).
        case rest of
          None \<Rightarrow>
            bnd (if flags AND LOOKUP_PARENT \<noteq> 0 then mnt_root_of s (root_fs s) else Ret start) (\<lambda>d.
            Ret (\<lparr> p_dentry = d, p_flags = flags,
                   p_status = (if flags AND LOOKUP_OPEN \<noteq> 0 \<and> start \<noteq> 0 then LOOKUP_STAT_SUCCESS
                     else if flags AND LOOKUP_CREATE \<noteq> 0 \<and> start \<noteq> 0 then LOOKUP_STAT_EEXISTS
                     else LOOKUP_STAT_ENOENT) \<rparr>, s))
        | Some q \<Rightarrow>
            bnd (if start = 0 then mnt_root_of s (root_fs s) else Ret start) (\<lambda>start.
            if start = 0 then Halt Panicked
            else
              bnd (on_vo s (\<lambda>v. vfs_walk_path call v start q flags)) (\<lambda>(dntr, s).
              lookup_end start flags dntr s))))"

definition vfs_path_release :: "vfs \<Rightarrow> path option \<Rightarrow> (int \<times> vfs) outcome" where
  "vfs_path_release s p =
     (case p of None \<Rightarrow> Ret (- EINVAL, s)
      | Some pt \<Rightarrow>
          if p_dentry pt = 0 then Ret (- EINVAL, s)
          else
            bnd (on_vo1 s (\<lambda>v. upd_dentry v (p_dentry pt) (\<lambda>d. d\<lparr> d_count := d_count d - 1 \<rparr>))) (\<lambda>s.
            bnd (deref (v_dentries (vo s)) (p_dentry pt)) (\<lambda>d.
            if d_count d = 1 then
              bnd (on_vo s (\<lambda>v. dentry_dealloc v (p_dentry pt))) (\<lambda>(_, s). Ret (0, s))
            else Ret (0, s))))"

section \<open>Mounting\<close>

definition str :: "string \<Rightarrow> cstring" where "str = map (\<lambda>c. of_nat (of_char c))"

text \<open>The source path, checked for all but the pseudo file systems.\<close>

definition check_source :: "nat \<Rightarrow> lookup_call \<Rightarrow> vfs \<Rightarrow> cstring option \<Rightarrow> cstring \<Rightarrow> (int \<times> vfs) outcome" where
  "check_source fuel call s source ty =
     (if ty = str ''devfs'' \<or> ty = str ''sysfs'' \<or> ty = str ''procfs'' then
        if source \<noteq> None then Ret (- EINVAL, s)
        else
          bnd (mounts fuel s) (\<lambda>ms.
          bnd (type_mounted s ty ms) (\<lambda>b. Ret (if b then - EEXIST else 0, s)))
      else if source = None then Ret (if ty \<noteq> str ''tmpfs'' then - EINVAL else 0, s)
      else
        bnd (vfs_path_lookup fuel call s source 0) (\<lambda>(p, s).
        Ret (if p_dentry p = 0 then - ENOENT else 0, s)))"

text \<open>\<open>dst\<close> stays NULL, and its count is raised.\<close>

definition vfs_mount :: "nat \<Rightarrow> lookup_call \<Rightarrow> get_sb_call \<Rightarrow> vfs \<Rightarrow> cstring option \<Rightarrow> cstring option \<Rightarrow> cstring option \<Rightarrow> (int \<times> vfs) outcome" where
  "vfs_mount fuel call get_sb s source target name =
     (if target = None \<or> name = None then Ret (- EINVAL, s)
      else
        let ty = the name; dst = 0 in
        bnd (hm_ptr (fs_types s) ty) (\<lambda>fs.
        if fs = 0 then Ret (- ENOTSUP, s)
        else
          bnd (check_source fuel call s source ty) (\<lambda>(r, s).
          if r < 0 then Ret (r, s)
          else
            bnd (vfs_path_lookup fuel call s target 0) (\<lambda>(p, s).
            if p_dentry p = 0 then Ret (- ENOENT, s)
            else
              bnd (mounts fuel s) (\<lambda>ms.
              bnd (type_mounted s ty ms) (\<lambda>b.
              if b then Ret (- EEXIST, s)
              else
                bnd (alloc_empty_mount s) (\<lambda>(mnt, s).
                if mnt = 0 then Ret (- ENOMEM, s)
                else
                  bnd (deref (v_types s) fs) (\<lambda>t.
                  bnd (on_vo s (\<lambda>v. get_sb (fs_get_sb t) v source 0)) (\<lambda>(sb, s).
                  bnd (on_vo1 s (\<lambda>v. upd_dentry v dst (\<lambda>d. d\<lparr> d_count := d_count d + 1 \<rparr>))) (\<lambda>s.
                  bnd (on_vo1 s (\<lambda>v. on_links v (\<lambda>h. list_append h mountpoints (mnt + MNT_LIST)))) (\<lambda>s.
                  Ret (0, s\<lparr> v_mounts := (v_mounts s)(mnt \<mapsto> \<lparr> mnt_sb = sb, mnt_mount = dst,
                    mnt_root = 0, mnt_devname = source, mnt_type = Some ty \<rparr>) \<rparr>))))))))))))"

text \<open>\<open>get\<close> is \<open>initramfs_get_sb\<close>, which is called whatever the type.\<close>

definition vfs_install_rootfs :: "(vobjs \<Rightarrow> nat \<Rightarrow> (nat \<times> vobjs) outcome) \<Rightarrow> vfs \<Rightarrow> cstring \<Rightarrow> nat \<Rightarrow> (int \<times> vfs) outcome" where
  "vfs_install_rootfs get s ty data =
     bnd (hm_ptr (fs_types s) ty) (\<lambda>fs.
     if fs = 0 then Ret (- ENOTSUP, s)
     else
       bnd (deref (v_mounts s) (root_fs s)) (\<lambda>m.
       if mnt_sb m \<noteq> 0 then Ret (- EBUSY, s)
       else
         bnd (on_vo s (\<lambda>v. get v data)) (\<lambda>(sb, s).
         let s = s\<lparr> v_mounts := (v_mounts s)(root_fs s \<mapsto> m\<lparr> mnt_sb := sb \<rparr>) \<rparr> in
         if sb = 0 then Ret (- v_errno (vo s), s)
         else
           bnd (deref (v_sbs (vo s)) sb) (\<lambda>b.
           bnd (on_vo1 s (\<lambda>v. on_links v (\<lambda>h. list_append h superblocks (sb + S_LIST)))) (\<lambda>s.
           Ret (0, s\<lparr> v_mounts := (v_mounts s)(root_fs s \<mapsto> m\<lparr> mnt_sb := sb, mnt_root := s_root b,
             mnt_type := Some (str ''initramfs''), mnt_devname := None \<rparr>) \<rparr>))))))"

section \<open>Contexts\<close>

definition vfs_alloc_fs_ctx :: "vfs \<Rightarrow> nat \<Rightarrow> (nat \<times> vfs) outcome" where
  "vfs_alloc_fs_ctx s pwd =
     bnd (on_vo s new) (\<lambda>(ctx, s).
     if ctx = 0 then Ret (0, s)
     else
       bnd (mnt_root_of s (root_fs s)) (\<lambda>r.
       Ret (ctx, s\<lparr> v_fsctx := (v_fsctx s)(ctx \<mapsto> \<lparr> fc_count = 1, fc_root = r, fc_pwd = pwd \<rparr>) \<rparr>)))"

text \<open>The descriptor array is not cleared; a slot is 0 until it is written.\<close>

definition vfs_alloc_file_ctx :: "vfs \<Rightarrow> int \<Rightarrow> (nat \<times> vfs) outcome" where
  "vfs_alloc_file_ctx s numfd =
     bnd (on_vo s new) (\<lambda>(ctx, s).
     if ctx = 0 then Ret (0, s)
     else Ret (ctx, s\<lparr> v_filectx := (v_filectx s)(ctx \<mapsto>
            \<lparr> fx_count = 1, fx_numfd = numfd, fx_fd = replicate (nat numfd) 0 \<rparr>) \<rparr>))"

text \<open>
  The copy takes one byte less than the new array has, seven more than the old one: all old
  slots, and seven bytes for the new slot, which is then written whole.
\<close>

definition vfs_alloc_fd :: "vfs \<Rightarrow> nat \<Rightarrow> (int \<times> vfs) outcome" where
  "vfs_alloc_fd s ctx =
     (if ctx = 0 then Ret (- EINVAL, s)
      else
        bnd (deref (v_filectx s) ctx) (\<lambda>c.
        bnd (on_vo s file_generic_alloc) (\<lambda>(file, s).
        let s = s\<lparr> v_filectx := (v_filectx s)(ctx \<mapsto> c\<lparr> fx_numfd := fx_numfd c + 1, fx_fd := fx_fd c @ [file] \<rparr>) \<rparr> in
        if file = 0 then Ret (- ENOMEM, s) else Ret (fx_numfd c, s))))"

definition vfs_free_fs_ctx :: "vfs \<Rightarrow> nat \<Rightarrow> (int \<times> vfs) outcome" where
  "vfs_free_fs_ctx s ctx =
     (if ctx = 0 then Ret (- EINVAL, s)
      else
        bnd (deref (v_fsctx s) ctx) (\<lambda>c.
        if fc_count c \<ge> 2 then
          Ret (- EBUSY, s\<lparr> v_fsctx := (v_fsctx s)(ctx \<mapsto> c\<lparr> fc_count := fc_count c - 1 \<rparr>) \<rparr>)
        else
          bnd (on_vo s (\<lambda>v. dentry_dealloc v (fc_root c))) (\<lambda>(_, s).
          bnd (on_vo s (\<lambda>v. dentry_dealloc v (fc_pwd c))) (\<lambda>(_, s). Ret (0, s)))))"

definition vfs_free_file_ctx :: "vfs \<Rightarrow> nat \<Rightarrow> (int \<times> vfs) outcome" where
  "vfs_free_file_ctx s ctx =
     (if ctx = 0 then Ret (- EINVAL, s)
      else
        bnd (deref (v_filectx s) ctx) (\<lambda>c.
        if fx_count c \<ge> 2 then
          Ret (- EBUSY, s\<lparr> v_filectx := (v_filectx s)(ctx \<mapsto> c\<lparr> fx_count := fx_count c - 1 \<rparr>) \<rparr>)
        else Ret (0, if fx_numfd c > 0 then s\<lparr> v_filectx := (v_filectx s)(ctx \<mapsto> c\<lparr> fx_fd := [] \<rparr>) \<rparr> else s)))"

section \<open>Resolving a path in the cached tree\<close>

text \<open>The child of a dentry under a name, as its map has it.\<close>

definition child :: "vobjs \<Rightarrow> nat \<Rightarrow> cstring \<Rightarrow> nat option" where
  "child s d nm =
     (case v_dentries s d of None \<Rightarrow> None
      | Some x \<Rightarrow> (case d_children x of None \<Rightarrow> None
         | Some hm \<Rightarrow>
             if d = 0 \<or> \<not> hm_inv hm \<or> hm_hash hm (Some nm) = UINT32_MAX then None
             else (case hm_map hm (hm_hash hm (Some nm)) of None \<Rightarrow> None | Some c \<Rightarrow> if c = 0 then None else Some c)))"

primrec resolve :: "vobjs \<Rightarrow> nat \<Rightarrow> cstring list \<Rightarrow> nat option" where
  "resolve s d [] = Some d"
| "resolve s d (n # ns) = (case child s d n of None \<Rightarrow> None | Some c \<Rightarrow> resolve s c ns)"

fun path_of :: "cstring list \<Rightarrow> cstring" where
  "path_of [] = []"
| "path_of [n] = n"
| "path_of (n # ns) = n @ SLASH # path_of ns"

definition component :: "cstring \<Rightarrow> bool" where
  "component n \<longleftrightarrow> n \<noteq> [] \<and> SLASH \<notin> set n"

lemma child_Some: "child s d nm = Some c \<longleftrightarrow>
    (\<exists>x hm. d \<noteq> 0 \<and> c \<noteq> 0 \<and> v_dentries s d = Some x \<and> d_children x = Some hm \<and> hm_inv hm \<and>
       hm_hash hm (Some nm) \<noteq> UINT32_MAX \<and> hm_map hm (hm_hash hm (Some nm)) = Some c)"
  by (auto simp: child_def split: option.splits)

lemma child_get: "child s d nm = Some c \<Longrightarrow>
    \<exists>x hm. d \<noteq> 0 \<and> c \<noteq> 0 \<and> v_dentries s d = Some x \<and> d_children x = Some hm \<and> hm_get (Some hm) (Some nm) = Ret (Some c)"
  unfolding child_Some by (elim exE conjE) (use hm_get_map in fastforce)

lemma takeWhile_component:
  "component n \<Longrightarrow> takeWhile (\<lambda>c. c \<noteq> SLASH) n = n" "component n \<Longrightarrow> takeWhile (\<lambda>c. c \<noteq> SLASH) (n @ SLASH # p) = n"
proof -
  assume "component n"
  then have n: "\<forall>c\<in>set n. c \<noteq> SLASH" by (auto simp: component_def)
  then show "takeWhile (\<lambda>c. c \<noteq> SLASH) n = n" by simp
  from n show "takeWhile (\<lambda>c. c \<noteq> SLASH) (n @ SLASH # p) = n" by (subst takeWhile_append2) auto
qed

lemma extract_last: assumes "component n" shows "vfs_extract_child n = (Some n, None)"
  using assms unfolding vfs_extract_child_def Let_def takeWhile_component(1) [OF assms] by (simp add: component_def)

lemma extract_inner: assumes "component n" shows "vfs_extract_child (n @ SLASH # p) = (Some n, Some p)"
  unfolding vfs_extract_child_def Let_def takeWhile_component(2) [OF assms] by simp

lemma walk_path_resolve:
  "ns \<noteq> [] \<Longrightarrow> \<forall>n\<in>set ns. component n \<Longrightarrow> resolve s d ns = Some e \<Longrightarrow> flags AND LOOKUP_PARENT = 0 \<Longrightarrow>
   vfs_walk_path call s d (path_of ns) flags = Ret (e, s)"
proof (induction ns arbitrary: d rule: path_of.induct)
  case (2 n)
  then obtain c where c: "child s d n = Some c" "e = c" by (auto split: option.splits)
  from child_get [OF c(1)] c(2) 2 show ?case
    by (subst vfs_walk_path.simps) (auto simp: extract_last)
next
  case (3 n n' ns)
  then obtain c where c: "child s d n = Some c" "resolve s c (n' # ns) = Some e" by (auto split: option.splits)
  have "vfs_walk_path call s c (path_of (n' # ns)) flags = Ret (e, s)"
    by (rule "3.IH") (use "3.prems" c(2) in auto)
  with child_get [OF c(1)] "3.prems" show ?case
    by (subst vfs_walk_path.simps) (auto simp: extract_inner)
qed simp

lemma walk_path_parent:
  "ns \<noteq> [] \<Longrightarrow> \<forall>n\<in>set ns. component n \<Longrightarrow> resolve s d (butlast ns) = Some e \<Longrightarrow> d \<noteq> 0 \<Longrightarrow> flags AND LOOKUP_PARENT \<noteq> 0 \<Longrightarrow>
   vfs_walk_path call s d (path_of ns) flags = Ret (e, s)"
proof (induction ns arbitrary: d rule: path_of.induct)
  case (2 n)
  then show ?case by (subst vfs_walk_path.simps) (auto simp: extract_last)
next
  case (3 n n' ns)
  then obtain c where c: "child s d n = Some c" "resolve s c (butlast (n' # ns)) = Some e" by (auto split: option.splits)
  have "vfs_walk_path call s c (path_of (n' # ns)) flags = Ret (e, s)"
    by (rule "3.IH") (use "3.prems" c child_get [OF c(1)] in auto)
  with child_get [OF c(1)] "3.prems" show ?case
    by (subst vfs_walk_path.simps) (auto simp: extract_inner)
qed simp

text \<open>The last component below a dentry without a child map fails an assertion in the hash map.\<close>

lemma walk_below_file:
  "component n \<Longrightarrow> d \<noteq> 0 \<Longrightarrow> v_dentries s d = Some x \<Longrightarrow> d_children x = None \<Longrightarrow> flags AND LOOKUP_PARENT = 0 \<Longrightarrow>
   vfs_walk_path call s d n flags = Halt AssertFailed"
  by (subst vfs_walk_path.simps) (simp add: extract_last hm_get_def)

text \<open>The start of an absolute path that names no mount point is the root file system.\<close>

lemma bootstrap_root:
  assumes "ns \<noteq> []" and "\<forall>n\<in>set ns. component n" and "mounts fuel s = Ret ms" and "mount_named s (hd ns) ms = Ret 0"
  shows "vfs_find_bootstrap fuel s (SLASH # path_of ns) = Ret (0, Some (path_of ns))"
proof -
  have "path_of ns \<noteq> []" using assms(1,2) by (cases ns rule: path_of.cases) (auto simp: component_def)
  moreover have "fst (vfs_extract_child (path_of ns)) = Some (hd ns)"
    using assms(1,2) by (cases ns rule: path_of.cases) (auto simp: extract_last extract_inner)
  ultimately show ?thesis using assms(3,4) by (simp add: vfs_find_bootstrap_def)
qed

text \<open>A key that the map holds is found by the removal loop.\<close>

lemma remove_loop_held:
  "length elem = cap \<Longrightarrow> 0 < cap \<Longrightarrow> look elem key (map (\<lambda>j. (k + j) mod cap) [0..<n]) = Some v \<Longrightarrow>
   \<exists>es. remove_loop elem cap key (k mod cap) n = Ret (0, es)"
proof (induction n arbitrary: k)
  case (Suc n)
  then show ?case
    unfolding upt_mod_shift using Suc.IH [of "Suc k"] by (auto simp: mod_Suc_eq split: option.splits if_splits)
qed simp

lemma hm_remove_held:
  assumes "hm_inv hm" and "hm_hash hm k \<noteq> UINT32_MAX" and "hm_map hm (hm_hash hm k) = Some v"
  shows "\<exists>hm'. hm_remove (Some hm) k = Ret (0, hm')"
  using remove_loop_held [of "hm_elem hm" "hm_cap hm" "hm_hash hm k" "unat (hm_hash hm k)" BUCKET_MAX_LEN v] assms
  by (auto simp: hm_remove_def Let_def hm_inv_def hm_map_def probes_def)

section \<open>Properties\<close>

text \<open>
  C13: an absolute path whose components are all cached and which crosses no mount point is
  resolved as its components say: \<open>vfs_path_lookup\<close> gives the dentry reached from the root by
  taking the children of these names one after the other, or the directory before the last one
  with \<open>LOOKUP_PARENT\<close>, and the lookup changes nothing but the count of that dentry.
\<close>

theorem vfs_path_lookup_resolves:
  assumes "ns \<noteq> []" and "\<forall>n\<in>set ns. component n" and "mounts fuel s = Ret ms" and "mount_named s (hd ns) ms = Ret 0"
    and "mnt_root_of s (root_fs s) = Ret r" and "r \<noteq> 0"
    and "resolve (vo s) r (if flags AND LOOKUP_PARENT = 0 then ns else butlast ns) = Some e" and "v_dentries (vo s) e = Some d"
    and "e \<noteq> 0"
  shows "\<exists>st. vfs_path_lookup fuel call s (Some (SLASH # path_of ns)) flags =
    Ret (\<lparr> p_dentry = e, p_flags = flags, p_status = st \<rparr>,
         s\<lparr> vo := (vo s)\<lparr> v_dentries := (v_dentries (vo s))(e \<mapsto> d\<lparr> d_count := d_count d + 1 \<rparr>) \<rparr> \<rparr>)"
proof -
  have b: "vfs_find_bootstrap fuel s (SLASH # path_of ns) = Ret (0, Some (path_of ns))"
    by (rule bootstrap_root [OF assms(1-4)])
  have "vfs_walk_path call (vo s) r (path_of ns) flags = Ret (e, vo s)"
    using walk_path_resolve [OF assms(1,2)] walk_path_parent [OF assms(1,2)] assms(6,7) by (cases "flags AND LOOKUP_PARENT = 0") auto
  then show ?thesis using b assms(5,6,8,9)
    by (simp add: vfs_path_lookup_def on_vo_def lookup_end_def on_vo1_def upd_dentry_def deref_def)
qed

text \<open>A root directory at 16 with the file \<open>a\<close> at 32, and the root mount at 100.\<close>

definition one_child :: "(cstring, nat) hashmap" where
  "one_child = fresh_children\<lparr> hm_len := 1,
     hm_elem := (replicate 32 None)[6 := Some \<lparr> it_data = 32, it_key = 177670, it_occupied = True \<rparr>] \<rparr>"

definition demo_file :: dentry where
  "demo_file = zero_dentry\<lparr> d_parent := 16, d_count := 1, d_name := [97] \<rparr>"

definition demo_tree :: vfs where
  "demo_tree = \<lparr> vo = demo_vfs\<lparr> v_dentries := [16 \<mapsto> zero_dentry\<lparr> d_count := 2, d_children := Some one_child \<rparr>,
       32 \<mapsto> demo_file, 48 \<mapsto> zero_dentry\<lparr> d_name := [SLASH] \<rparr>],
       v_links := [17 \<mapsto> \<lparr> lh_next = 33, lh_prev = 33 \<rparr>, 33 \<mapsto> \<lparr> lh_next = 17, lh_prev = 17 \<rparr>,
         1 \<mapsto> \<lparr> lh_next = 107, lh_prev = 107 \<rparr>, 107 \<mapsto> \<lparr> lh_next = 1, lh_prev = 1 \<rparr>] \<rparr>,
     v_mounts = [100 \<mapsto> \<lparr> mnt_sb = 0, mnt_mount = 48, mnt_root = 16, mnt_devname = None, mnt_type = Some [] \<rparr>],
     v_types = Map.empty, v_fsctx = Map.empty, v_filectx = Map.empty, fs_types = Some fresh_children, root_fs = 100 \<rparr>"

lemma hash_a: "hm_hash_str (Some [97]) = 177670"
  by (simp add: hm_hash_str_def push_bit_eq_mult)

lemma one_child_ok: "hm_inv one_child" "hm_map one_child 177670 = Some 32" "hm_hash one_child = hm_hash_str"
proof -
  have i: "hm_insert (Some fresh_children) (Some [97]) 32 = Ret (0, one_child)"
    by (simp add: hm_insert_def hm_find_free_bucket_def one_child_def fresh_children_def hash_a UINT32_MAX_def
        BUCKET_MAX_LEN_def loop12)
  have "hm_hash fresh_children = hm_hash_str" by (simp add: fresh_children_def)
  then show "hm_inv one_child" "hm_map one_child 177670 = Some 32" "hm_hash one_child = hm_hash_str"
    using hm_insert_map [OF fresh_children_inv(1) i] fresh_children_inv(2) hash_a by auto
qed

lemma demo_tree_ok:
  "mounts 5 demo_tree = Ret [100]" "mount_named demo_tree [97] [100] = Ret 0" "mnt_root_of demo_tree (root_fs demo_tree) = Ret 16"
  "child (vo demo_tree) 16 [97] = Some 32" "v_dentries (vo demo_tree) 32 = Some demo_file" "component [97]"
  "ring (v_links (vo demo_tree)) [17, 33]"
proof -
  show "mounts 5 demo_tree = Ret [100]"
    by (simp add: mounts_def demo_tree_def FOREACH_def mountpoints_def get_next_def MNT_LIST_def numeral_eq_Suc)
  show "mount_named demo_tree [97] [100] = Ret 0" "mnt_root_of demo_tree (root_fs demo_tree) = Ret 16"
    by (simp_all add: demo_tree_def mnt_root_of_def zero_dentry_def)
  show "child (vo demo_tree) 16 [97] = Some 32"
    using one_child_ok hash_a by (simp add: child_Some demo_tree_def UINT32_MAX_def)
  show "v_dentries (vo demo_tree) 32 = Some demo_file" by (simp add: demo_tree_def)
  show "component [97]" by (simp add: component_def)
  show "ring (v_links (vo demo_tree)) [17, 33]" by (simp add: demo_tree_def ring_def)
qed

lemma vfs_path_lookup_resolves_witness:
  "\<exists>st. vfs_path_lookup 5 (\<lambda>_ v _ _. Ret (0, v)) demo_tree (Some [SLASH, 97]) 4 =
    Ret (\<lparr> p_dentry = 32, p_flags = 4, p_status = st \<rparr>,
         demo_tree\<lparr> vo := (vo demo_tree)\<lparr> v_dentries := (v_dentries (vo demo_tree))(32 \<mapsto> demo_file\<lparr> d_count := d_count demo_file + 1 \<rparr>) \<rparr> \<rparr>)"
  using vfs_path_lookup_resolves [of "[[97]]" 5 demo_tree "[100]" 16 4 32 demo_file "\<lambda>_ v _ _. Ret (0, v)"] demo_tree_ok
  by simp

text \<open>
  Opening a path and releasing it again destroys the node when nothing else counts it:
  the lookup raises the count of a node from 1 to 2, and \<open>vfs_path_release\<close>, which lowers it to
  1, takes that for the last reference, removes the node from its parent's map and frees it.
\<close>

lemma lookup_release_drops_node:
  assumes "ns \<noteq> []" and "\<forall>n\<in>set ns. component n" and "mounts fuel s = Ret ms" and "mount_named s (hd ns) ms = Ret 0"
    and "mnt_root_of s (root_fs s) = Ret r" and "r \<noteq> 0" and "flags AND LOOKUP_PARENT = 0"
    and "resolve (vo s) r (butlast ns) = Some q" and "child (vo s) q (last ns) = Some e"
    and "v_dentries (vo s) e = Some d" and "d_count d = 1" and "d_parent d = q" and "d_name d = last ns"
    and "d_children d = None" and "d_inode d = 0" and "e \<noteq> q"
    and "ring (v_links (vo s)) (as @ (e + D_LIST) # bs)" and "as @ bs \<noteq> []"
  shows "\<exists>pt s1 s2. vfs_path_lookup fuel call s (Some (SLASH # path_of ns)) flags = Ret (pt, s1) \<and> p_dentry pt = e \<and>
    vfs_path_release s1 (Some pt) = Ret (0, s2) \<and> v_dentries (vo s2) e = None"
proof -
  have e0: "e \<noteq> 0" using assms(9) by (auto simp: child_Some)
  have res: "resolve (vo s) r ns = Some e"
  proof -
    have "resolve v a (xs @ [x]) = (case resolve v a xs of None \<Rightarrow> None | Some b \<Rightarrow> child v b x)" for v a xs x
      by (induction xs arbitrary: a) (auto split: option.splits)
    from this [of "vo s" r "butlast ns" "last ns"] show ?thesis using assms(1,8,9) by simp
  qed
  have b: "vfs_find_bootstrap fuel s (SLASH # path_of ns) = Ret (0, Some (path_of ns))"
    by (rule bootstrap_root [OF assms(1-4)])
  have w: "vfs_walk_path call (vo s) r (path_of ns) flags = Ret (e, vo s)"
    by (rule walk_path_resolve [OF assms(1,2) res assms(7)])
  let ?s1 = "s\<lparr> vo := (vo s)\<lparr> v_dentries := (v_dentries (vo s))(e \<mapsto> d\<lparr> d_count := 2 \<rparr>) \<rparr> \<rparr>"
  obtain pt where l: "vfs_path_lookup fuel call s (Some (SLASH # path_of ns)) flags = Ret (pt, ?s1)" "p_dentry pt = e"
    using b w assms(5,6,10,11) e0 by (simp add: vfs_path_lookup_def on_vo_def lookup_end_def on_vo1_def upd_dentry_def deref_def)
  obtain x hm where q: "q \<noteq> 0" "v_dentries (vo s) q = Some x" "d_children x = Some hm" "hm_inv hm"
      "hm_hash hm (Some (last ns)) \<noteq> UINT32_MAX" "hm_map hm (hm_hash hm (Some (last ns))) = Some e"
    using assms(9) by (auto simp: child_Some)
  obtain hm' where rm: "hm_remove (Some hm) (Some (last ns)) = Ret (0, hm')" using hm_remove_held [OF q(4-6)] by blast
  obtain h where h: "list_remove (v_links (vo s)) (e + D_LIST) = Ret h" using list_remove_ring [OF assms(17,18)] by blast
  have "\<exists>s2. vfs_path_release ?s1 (Some pt) = Ret (0, s2) \<and> v_dentries (vo s2) e = None"
    using l(2) e0 q(1-3) rm h assms(11-16)
    by (simp add: vfs_path_release_def on_vo_def on_vo1_def upd_dentry_def dentry_dealloc_def on_links_def
        hm_dealloc_hashmap_def)
  then show ?thesis using l by blast
qed

lemma lookup_release_drops_node_witness:
  "\<exists>pt s1 s2. vfs_path_lookup 5 (\<lambda>_ v _ _. Ret (0, v)) demo_tree (Some [SLASH, 97]) 4 = Ret (pt, s1) \<and> p_dentry pt = 32 \<and>
    vfs_path_release s1 (Some pt) = Ret (0, s2) \<and> v_dentries (vo s2) 32 = None"
proof -
  have f: "d_count demo_file = 1" "d_parent demo_file = 16" "d_name demo_file = [97]" "d_children demo_file = None"
    "d_inode demo_file = 0" by (simp_all add: demo_file_def zero_dentry_def)
  show ?thesis
    using lookup_release_drops_node [of "[[97]]" 5 demo_tree "[100]" 16 4 16 32 demo_file "[17]" "[]" "\<lambda>_ v _ _. Ret (0, v)"]
      demo_tree_ok f by (simp add: D_LIST_def)
qed



end
