(* ===== verification/Devfs.thy ===== *)
theory Devfs
  imports Vfs Bitmap
begin

unbundle bit_operations_syntax

text \<open>
  The device file system and what hangs on it: \<open>src/fs/devfs.c\<close>, the character devices of
  \<open>src/fs/char.c\<close>, the loaders of \<open>src/fs/binfmt.c\<close>, and \<open>vfs_init\<close> of \<open>src/fs/fs.c\<close>, which
  brings all of the virtual file system up. A code pointer is a number; the functions of this
  theory have the numbers below, and what another number does is an argument.
\<close>

section \<open>The state\<close>

record cdev =
  c_name :: cstring
  c_dev :: u32
  c_ops :: nat

record devst =
  dv :: vfs
  cdev_cache :: nat
  bm_devnums :: "bitmap option"
  v_cdevs :: "nat \<rightharpoonup> cdev"
  v_loaders :: "nat \<rightharpoonup> nat"

text \<open>Static list heads: \<open>chr_devs\<close>, \<open>blk_devs\<close> and \<open>loaders\<close>; the member \<open>list\<close> of \<open>binfmt_t\<close>.\<close>

definition chr_devs :: nat where "chr_devs = 3"
definition blk_devs :: nat where "blk_devs = 4"
definition loaders :: nat where "loaders = 5"
definition B_LIST :: nat where "B_LIST = 9"

text \<open>Code pointers, and the two entries of \<open>fs_arr\<close>.\<close>

definition DEVFS_LOOKUP :: nat where "DEVFS_LOOKUP = 1"
definition DEVFS_MKNOD :: nat where "DEVFS_MKNOD = 2"
definition DEVFS_MKDIR :: nat where "DEVFS_MKDIR = 3"
definition DEVFS_RMDIR :: nat where "DEVFS_RMDIR = 4"
definition DEVFS_DESTROY :: nat where "DEVFS_DESTROY = 5"
definition DEVFS_ALLOC :: nat where "DEVFS_ALLOC = 6"
definition DEVFS_READ :: nat where "DEVFS_READ = 7"
definition DEVFS_GET_SB :: nat where "DEVFS_GET_SB = 8"
definition DEVFS_KILL_SB :: nat where "DEVFS_KILL_SB = 9"
definition INITRAMFS_GET_SB :: nat where "INITRAMFS_GET_SB = 10"
definition INITRAMFS_KILL_SB :: nat where "INITRAMFS_KILL_SB = 11"
definition FS_ARR :: "nat list" where "FS_ARR = [1, 2]"

definition on_dv :: "devst \<Rightarrow> (vfs \<Rightarrow> ('a \<times> vfs) outcome) \<Rightarrow> ('a \<times> devst) outcome" where
  "on_dv s f = omap (\<lambda>(x, v). (x, s\<lparr> dv := v \<rparr>)) (f (dv s))"

text \<open>An operation on the objects, from the state of the devices.\<close>

definition on_ob :: "devst \<Rightarrow> (vobjs \<Rightarrow> ('a \<times> vobjs) outcome) \<Rightarrow> ('a \<times> devst) outcome" where
  "on_ob s f = on_dv s (\<lambda>v. on_vo v f)"

definition on_ob1 :: "devst \<Rightarrow> (vobjs \<Rightarrow> vobjs outcome) \<Rightarrow> devst outcome" where
  "on_ob1 s f = omap (\<lambda>v. s\<lparr> dv := v \<rparr>) (on_vo1 (dv s) f)"

lemma on_ob_Ret: "on_ob s f = Ret (x, s') \<longleftrightarrow> (\<exists>w. f (vo (dv s)) = Ret (x, w) \<and> s' = s\<lparr> dv := (dv s)\<lparr> vo := w \<rparr> \<rparr>)"
  by (cases "f (vo (dv s))") (auto simp: on_ob_def on_dv_def on_vo_def)

lemma on_ob1_Ret: "on_ob1 s f = Ret s' \<longleftrightarrow> (\<exists>w. f (vo (dv s)) = Ret w \<and> s' = s\<lparr> dv := (dv s)\<lparr> vo := w \<rparr> \<rparr>)"
  by (cases "f (vo (dv s))") (auto simp: on_ob1_def on_vo1_def)

section \<open>devfs.c\<close>

definition devfs_mkdir :: "vobjs \<Rightarrow> nat \<Rightarrow> nat \<Rightarrow> (int \<times> vobjs) outcome" where
  "devfs_mkdir s dir dntr =
     (if dir = 0 \<or> dntr = 0 then Ret (- EINVAL, s)
      else
        bnd (deref (v_dentries s) dir) (\<lambda>p.
        bnd (deref (v_dentries s) dntr) (\<lambda>d.
        if d_flags p AND T_IFDIR = 0 \<or> d_flags d AND T_IFDIR = 0 then Ret (- EINVAL, s)
        else
          bnd (hm_ptr (d_children p) (d_name d)) (\<lambda>r.
          if r \<noteq> 0 then Ret (- EEXIST, s)
          else
            bnd (hm_insert (d_children p) (Some (d_name d)) dntr) (\<lambda>(e, hm).
            bnd (upd_dentry s dir (\<lambda>p. p\<lparr> d_children := Some hm \<rparr>)) (\<lambda>s.
            let s = s\<lparr> v_errno := - e \<rparr> in
            if - e > 0 then Ret (e, s)
            else
              bnd (on_links s (\<lambda>h. list_append h (dir + D_LIST) (dntr + D_LIST))) (\<lambda>s. Ret (0, s))))))))"

definition devfs_rmdir :: "vobjs \<Rightarrow> nat \<Rightarrow> nat \<Rightarrow> (int \<times> vobjs) outcome" where
  "devfs_rmdir s dir dntr =
     (if dir = 0 \<or> dntr = 0 then Ret (- EINVAL, s)
      else
        bnd (deref (v_dentries s) dntr) (\<lambda>d.
        if d_count d > 1 then Ret (- EBUSY, s) else dentry_dealloc s dntr))"

definition devfs_mknod :: "nat \<Rightarrow> nat \<Rightarrow> int" where
  "devfs_mknod dir dntr = (if dir = 0 \<or> dntr = 0 then - EINVAL else - ENOSYS)"

definition devfs_inode_lookup :: "vobjs \<Rightarrow> nat \<Rightarrow> cstring \<Rightarrow> (nat \<times> vobjs) outcome" where
  "devfs_inode_lookup s parent name = Ret (0, s)"

definition devfs_iops :: inode_ops where
  "devfs_iops = zero_iops\<lparr> io_lookup := DEVFS_LOOKUP, io_mknod := DEVFS_MKNOD, io_mkdir := DEVFS_MKDIR,
     io_rmdir := DEVFS_RMDIR \<rparr>"

definition devfs_inode_alloc :: "vobjs \<Rightarrow> nat \<Rightarrow> (nat \<times> vobjs) outcome" where
  "devfs_inode_alloc s sb =
     (if sb = 0 then fail s EINVAL
      else
        bnd (inode_generic_alloc s 0) (\<lambda>(ino, s).
        if ino = 0 then Ret (0, s)
        else
          bnd (upd_inode s ino (\<lambda>i. i\<lparr> i_uid := 0, i_gid := 0, i_size := 0, i_sb := sb \<rparr>)) (\<lambda>s.
          bnd (deref (v_inodes s) ino) (\<lambda>i.
          let s = s\<lparr> v_iops := (v_iops s)(i_iops i \<mapsto> devfs_iops), v_fops := (v_fops s)(i_fops i \<mapsto> zero_fops) \<rparr> in
          bnd (on_links s (\<lambda>h. list_append h (sb + S_INO) (ino + I_LIST))) (\<lambda>s. Ret (ino, s))))))"

definition devfs_inode_destroy :: "nat \<Rightarrow> int" where "devfs_inode_destroy ino = - ENOSYS"
definition devfs_inode_read :: "nat \<Rightarrow> int" where "devfs_inode_read ino = - ENOSYS"

definition devfs_fill_super :: "vobjs \<Rightarrow> nat \<Rightarrow> (int \<times> vobjs) outcome" where
  "devfs_fill_super s sb =
     (if sb = 0 then Ret (- EINVAL, s)
      else
        bnd (upd_sb s sb (\<lambda>b. b\<lparr> s_blocksize := 0, s_count := 1, s_dirty := 0, s_magic := 0, s_private := 0 \<rparr>)) (\<lambda>s.
        bnd (dentry_alloc_orphan s (Some (str ''dev'')) T_IFDIR) (\<lambda>(root, s).
        bnd (upd_sb s sb (\<lambda>b. b\<lparr> s_root := root \<rparr>)) (\<lambda>s.
        bnd (devfs_inode_alloc s sb) (\<lambda>(ino, s).
        bnd (upd_dentry s root (\<lambda>d. d\<lparr> d_inode := ino \<rparr>)) (\<lambda>s.
        bnd (deref (v_sbs s) sb) (\<lambda>b.
        bnd (deref (v_sops s) (s_ops b)) (\<lambda>_.
        let s = s\<lparr> v_sops := (v_sops s)(s_ops b \<mapsto> zero_sops\<lparr> so_destroy_inode := DEVFS_DESTROY,
              so_alloc_inode := DEVFS_ALLOC, so_read_inode := DEVFS_READ \<rparr>) \<rparr> in
        bnd (on_links s (\<lambda>h. list_init h (sb + S_INO))) (\<lambda>s.
        bnd (on_links s (\<lambda>h. list_init h (sb + S_INO_DIRTY))) (\<lambda>s.
        bnd (on_links s (\<lambda>h. list_init h (sb + S_INSTANCES))) (\<lambda>s.
        bnd (on_links s (\<lambda>h. list_init h chr_devs)) (\<lambda>s.
        bnd (on_links s (\<lambda>h. list_init h blk_devs)) (\<lambda>s. Ret (0, s))))))))))))))"

definition devfs_get_sb :: "vobjs \<Rightarrow> u32 \<Rightarrow> (nat \<times> vobjs) outcome" where
  "devfs_get_sb s flags = super_get_sb_single devfs_fill_super s flags"

definition devfs_kill_sb :: "vobjs \<Rightarrow> nat \<Rightarrow> int outcome" where
  "devfs_kill_sb s sb =
     (if sb = 0 then Ret (- EINVAL)
      else omap (\<lambda>b. if s_count b > 1 then - EBUSY else 0) (deref (v_sbs s) sb))"

text \<open>
  The path that \<open>kstrcat_s\<close> builds has no terminator of its own (theory KString): \<open>rest\<close> are the
  bytes that follow in its block and memory up to the first zero byte.
\<close>

definition devfs_add_cdev :: "devst \<Rightarrow> path \<Rightarrow> nat \<Rightarrow> cstring \<Rightarrow> (int \<times> devst) outcome" where
  "devfs_add_cdev s pt dev name =
     (if p_status pt AND LOOKUP_STAT_EEXISTS \<noteq> 0 then Ret (- EEXIST, s)
      else
        bnd (deref (v_dentries (vo (dv s))) (p_dentry pt)) (\<lambda>p.
        bnd (deref (v_inodes (vo (dv s))) (d_inode p)) (\<lambda>pi.
        bnd (on_ob s (\<lambda>v. devfs_inode_alloc v (i_sb pi))) (\<lambda>(ino, s).
        if ino = 0 then Ret (- v_errno (vo (dv s)), s)
        else
          bnd (on_ob s (\<lambda>v. dentry_alloc_ino v (p_dentry pt) (Some name) ino T_IFCHR)) (\<lambda>(dntr, s).
          if dntr = 0 then Ret (- v_errno (vo (dv s)), s)
          else
            bnd (deref (v_cdevs s) dev) (\<lambda>c.
            bnd (on_ob1 s (\<lambda>v. upd_inode v ino (\<lambda>i. i\<lparr> i_cdev := dev, i_flags := T_IFCHR, i_fops := c_ops c \<rparr>))) (\<lambda>s.
            bnd (on_ob1 s (\<lambda>v. on_links v (\<lambda>h. list_append h chr_devs (dev + C_LIST)))) (\<lambda>s. Ret (0, s)))))))))"

definition devfs_register_cdev ::
    "nat \<Rightarrow> lookup_call \<Rightarrow> cstring \<Rightarrow> devst \<Rightarrow> nat \<Rightarrow> cstring \<Rightarrow> (int \<times> devst) outcome" where
  "devfs_register_cdev fuel call rest s dev name =
     bnd (on_dv s (\<lambda>v. vfs_path_lookup fuel call v (Some (str ''/dev/'' @ name @ rest)) (LOOKUP_PARENT OR LOOKUP_CREATE))) (\<lambda>(pt, s).
     bnd (devfs_add_cdev s pt dev name) (\<lambda>(ret, s).
     bnd (on_dv s (\<lambda>v. vfs_path_release v (Some pt))) (\<lambda>(_, s). Ret (ret, s))))"

definition devfs_unregister_cdev :: "nat \<Rightarrow> int" where "devfs_unregister_cdev dev = 0"
definition devfs_register_bdev :: "nat \<Rightarrow> cstring \<Rightarrow> int" where "devfs_register_bdev dev name = 0"
definition devfs_unregister_bdev :: "nat \<Rightarrow> int" where "devfs_unregister_bdev dev = 0"

section \<open>char.c\<close>

definition cdev_alloc_devnum :: "devst \<Rightarrow> int outcome" where
  "cdev_alloc_devnum s =
     (case bm_devnums s of None \<Rightarrow> Halt MemFault | Some bm \<Rightarrow> bm_find_first_unset bm 0 (bm_len bm - 1))"

text \<open>What an \<open>i_iops->mkdir\<close> pointer does.\<close>

type_synonym mkdir_call = "nat \<Rightarrow> vobjs \<Rightarrow> nat \<Rightarrow> nat \<Rightarrow> (int \<times> vobjs) outcome"

definition cdev_make_dir :: "mkdir_call \<Rightarrow> devst \<Rightarrow> path \<Rightarrow> (int \<times> devst) outcome" where
  "cdev_make_dir mkdir s pt =
     (if p_status pt = LOOKUP_STAT_ENOENT then Ret (- ENOENT, s)
      else
        bnd (on_ob s (\<lambda>v. dentry_alloc_orphan v (Some (str ''char'')) T_IFDIR)) (\<lambda>(dntr, s).
        if dntr = 0 then Ret (- v_errno (vo (dv s)), s)
        else
          bnd (deref (v_dentries (vo (dv s))) (p_dentry pt)) (\<lambda>p.
          if d_inode p = 0 then Ret (- EINVAL, s)
          else
            bnd (deref (v_inodes (vo (dv s))) (d_inode p)) (\<lambda>i.
            bnd (deref (v_iops (vo (dv s))) (i_iops i)) (\<lambda>ops.
            if io_mkdir ops = 0 then Ret (- ENOSYS, s)
            else on_ob s (\<lambda>v. mkdir (io_mkdir ops) v (p_dentry pt) dntr))))))"

text \<open>The bitmap takes two blocks; the cache one.\<close>

definition cdev_init :: "nat \<Rightarrow> lookup_call \<Rightarrow> mkdir_call \<Rightarrow> devst \<Rightarrow> (int \<times> devst) outcome" where
  "cdev_init fuel call mkdir s =
     bnd (on_ob s new) (\<lambda>(c, s).
     let s = s\<lparr> cdev_cache := c \<rparr> in
     if c = 0 then Ret (- ENOMEM, s)
     else
       bnd (on_ob s new) (\<lambda>(a, s).
       bnd (if a = 0 then Ret (0, s) else on_ob s new) (\<lambda>(b, s).
       bnd (bm_alloc_bitmap (a \<noteq> 0) (b \<noteq> 0) 256) (\<lambda>bm.
       let s = s\<lparr> bm_devnums := bm \<rparr> in
       if bm = None then Ret (- ENOMEM, s)
       else
         bnd (on_dv s (\<lambda>v. vfs_path_lookup fuel call v (Some (str ''/dev'')) LOOKUP_OPEN)) (\<lambda>(pt, s).
         bnd (cdev_make_dir mkdir s pt) (\<lambda>(ret, s).
         bnd (on_dv s (\<lambda>v. vfs_path_release v (Some pt))) (\<lambda>(_, s). Ret (ret, s))))))))"

definition cdev_alloc :: "devst \<Rightarrow> cstring option \<Rightarrow> nat \<Rightarrow> u32 \<Rightarrow> (nat \<times> devst) outcome" where
  "cdev_alloc s name ops major =
     (case name of None \<Rightarrow> on_ob s (\<lambda>v. fail v EINVAL)
      | Some nm \<Rightarrow>
          if ops = 0 then on_ob s (\<lambda>v. fail v EINVAL)
          else
            bnd (cdev_alloc_devnum s) (\<lambda>minor.
            if minor < 0 then Ret (0, s)
            else
              bnd (on_ob s new) (\<lambda>(dev, s).
              if dev = 0 then
                case bm_devnums s of None \<Rightarrow> Halt MemFault
                | Some bm \<Rightarrow> bnd (bm_unset_bit bm (nat minor)) (\<lambda>(_, bm). Ret (0, s\<lparr> bm_devnums := Some bm \<rparr>))
              else
                bnd (on_ob1 s (\<lambda>v. on_links v (\<lambda>h. list_init (h(dev + C_LIST \<mapsto> zero_cell)) (dev + C_LIST)))) (\<lambda>s.
                Ret (dev, s\<lparr> v_cdevs := (v_cdevs s)(dev \<mapsto>
                  \<lparr> c_name = nm, c_dev = MAKE_DEV major (word_of_int minor), c_ops = ops \<rparr>) \<rparr>)))))"

definition cdev_dealloc :: "devst \<Rightarrow> nat \<Rightarrow> devst outcome" where
  "cdev_dealloc s dev =
     (if dev = 0 then Ret s
      else
        bnd (deref (v_cdevs s) dev) (\<lambda>c.
        case bm_devnums s of None \<Rightarrow> Halt MemFault
        | Some bm \<Rightarrow>
            bnd (bm_unset_bit bm (unat (DEV_MINOR (c_dev c)))) (\<lambda>(_, bm).
            Ret (s\<lparr> bm_devnums := Some bm, v_cdevs := (v_cdevs s)(dev := None) \<rparr>))))"

section \<open>binfmt.c\<close>

definition binfmt_init :: "vobjs \<Rightarrow> vobjs outcome" where
  "binfmt_init s = on_links s (\<lambda>h. list_init h loaders)"

text \<open>The block from \<open>kmalloc\<close> is used unchecked.\<close>

definition binfmt_add_loader :: "devst \<Rightarrow> nat \<Rightarrow> devst outcome" where
  "binfmt_add_loader s loader =
     bnd (on_ob s new) (\<lambda>(b, s).
     if b = 0 then Halt MemFault
     else
       bnd (on_ob1 s (\<lambda>v. on_links v (\<lambda>h. list_init (h(b + B_LIST \<mapsto> zero_cell)) (b + B_LIST)))) (\<lambda>s.
       on_ob1 (s\<lparr> v_loaders := (v_loaders s)(b \<mapsto> loader) \<rparr>)
         (\<lambda>v. on_links v (\<lambda>h. list_append h loaders (b + B_LIST)))))"

text \<open>A loader that returns true ends in \<open>kpanic\<close>; one that starts the program does not return.\<close>

primrec binfmt_loop :: "nat \<Rightarrow> (nat \<Rightarrow> devst \<Rightarrow> (bool \<times> devst) outcome) \<Rightarrow> devst \<Rightarrow> nat \<Rightarrow> (bool \<times> devst) outcome" where
  "binfmt_loop 0 load s i = Halt NoReturn"
| "binfmt_loop (Suc fuel) load s i =
     (if i = loaders then Ret (False, s)
      else
        bnd (deref (v_loaders s) (i - B_LIST)) (\<lambda>l.
        bnd (if l = 0 then Ret (False, s) else load l s) (\<lambda>(r, s).
        if r then Halt Panicked
        else bnd (get_next (v_links (vo (dv s))) i) (\<lambda>i. binfmt_loop fuel load s i))))"

definition binfmt_load :: "nat \<Rightarrow> (nat \<Rightarrow> devst \<Rightarrow> (bool \<times> devst) outcome) \<Rightarrow> devst \<Rightarrow> (bool \<times> devst) outcome" where
  "binfmt_load fuel load s =
     bnd (get_next (v_links (vo (dv s))) loaders) (\<lambda>i. binfmt_loop fuel load s i)"

section \<open>Bringing the file system up\<close>

text \<open>A slab cache whose absence is fatal, and one whose absence is only remembered.\<close>

definition cache_or_panic :: "vobjs \<Rightarrow> vobjs outcome" where
  "cache_or_panic s = bnd (new s) (\<lambda>(c, s). if c = 0 then Halt Panicked else Ret s)"

definition dentry_init :: "vobjs \<Rightarrow> vobjs outcome" where "dentry_init s = cache_or_panic s"

definition inode_init :: "vobjs \<Rightarrow> vobjs outcome" where
  "inode_init s = bnd (cache_or_panic s) (\<lambda>s. bnd (cache_or_panic s) cache_or_panic)"

definition file_init :: "vobjs \<Rightarrow> vobjs outcome" where
  "file_init s = bnd (cache_or_panic s) cache_or_panic"

definition pipe_init :: "vobjs \<Rightarrow> (int \<times> vobjs) outcome" where
  "pipe_init s = omap (\<lambda>(c, s). (if c = 0 then - ENOMEM else 0, s)) (new s)"

text \<open>The static tables: the two known file systems, and \<open>devfs\<close> to be mounted at \<open>dev\<close>.\<close>

definition fs_arr :: "nat \<rightharpoonup> fs_type" where
  "fs_arr = [FS_ARR ! 0 \<mapsto> \<lparr> fs_name = str ''devfs'', fs_get_sb = DEVFS_GET_SB, fs_kill_sb = DEVFS_KILL_SB \<rparr>,
     FS_ARR ! 1 \<mapsto> \<lparr> fs_name = str ''initramfs'', fs_get_sb = INITRAMFS_GET_SB, fs_kill_sb = INITRAMFS_KILL_SB \<rparr>]"

definition file_systems :: "(cstring \<times> cstring) list" where
  "file_systems = [(str ''devfs'', str ''dev'')]"

text \<open>A registration that fails is only reported.\<close>

primrec register_all :: "vfs \<Rightarrow> nat list \<Rightarrow> vfs outcome" where
  "register_all s [] = Ret s"
| "register_all s (fs # rest) = bnd (vfs_register_fs s fs) (\<lambda>(_, s). register_all s rest)"

primrec mount_all :: "get_sb_call \<Rightarrow> nat \<Rightarrow> vfs \<Rightarrow> (cstring \<times> cstring) list \<Rightarrow> vfs outcome" where
  "mount_all get_sb root s [] = Ret s"
| "mount_all get_sb root s (f # rest) =
     bnd (on_vo s (\<lambda>v. dentry_alloc v root (Some (snd f)) T_IFDIR)) (\<lambda>(m, s).
     bnd (if m = 0 then Ret (0, s) else vfs_mount_pseudo get_sb s (Some (snd f)) (Some (fst f)) m) (\<lambda>(_, s).
     mount_all get_sb root s rest))"

text \<open>What the pointers of this kernel do, given what those of \<open>initramfs\<close> do.\<close>

definition sb_dispatch :: "get_sb_call \<Rightarrow> get_sb_call" where
  "sb_dispatch other p s dev data = (if p = DEVFS_GET_SB then devfs_get_sb s 0 else other p s dev data)"

definition lookup_dispatch :: "lookup_call \<Rightarrow> lookup_call" where
  "lookup_dispatch other p s d nm = (if p = DEVFS_LOOKUP then devfs_inode_lookup s d nm else other p s d nm)"

definition mkdir_dispatch :: "mkdir_call \<Rightarrow> mkdir_call" where
  "mkdir_dispatch other p s d e = (if p = DEVFS_MKDIR then devfs_mkdir s d e else other p s d e)"

definition init_lists :: "vfs \<Rightarrow> vfs outcome" where
  "init_lists s =
     bnd (on_vo1 s (\<lambda>v. on_links v (\<lambda>h. list_init h mountpoints))) (\<lambda>s.
     bnd (on_vo1 s (\<lambda>v. on_links v (\<lambda>h. list_init h superblocks))) (\<lambda>s.
     bnd (on_vo1 s dentry_init) (\<lambda>s.
     bnd (on_vo1 s inode_init) (\<lambda>s.
     bnd (on_vo1 s file_init) (\<lambda>s.
     bnd (on_vo s pipe_init) (\<lambda>(_, s). on_vo1 s binfmt_init))))))"

definition init_root :: "vfs \<Rightarrow> vfs outcome" where
  "init_root s =
     bnd (alloc_empty_mount s) (\<lambda>(m, s).
     let s = s\<lparr> root_fs := m \<rparr> in
     if m = 0 then Halt MemFault
     else
       bnd (on_vo s (\<lambda>v. dentry_alloc_orphan v (Some (str ''/'')) T_IFDIR)) (\<lambda>(d, s).
       bnd (deref (v_mounts s) m) (\<lambda>mnt.
       on_vo1 (s\<lparr> v_mounts := (v_mounts s)(m \<mapsto> mnt\<lparr> mnt_mount := d, mnt_type := Some (str ''rootfs'') \<rparr>) \<rparr>)
         (\<lambda>v. on_links v (\<lambda>h. list_append h mountpoints (m + MNT_LIST))))))"

definition vfs_init :: "nat \<Rightarrow> lookup_call \<Rightarrow> mkdir_call \<Rightarrow> get_sb_call \<Rightarrow> devst \<Rightarrow> devst outcome" where
  "vfs_init fuel call mkdir get_sb s =
     bnd (on_ob s new) (\<lambda>(a, s).
     bnd (if a = 0 then Ret (0, s) else on_ob s new) (\<lambda>(b, s).
     bnd (on_ob s new) (\<lambda>(_, s).
     let v = (dv s)\<lparr> fs_types := hm_alloc_hashmap (a \<noteq> 0) (b \<noteq> 0) 16 hm_hash_str \<rparr> in
     bnd (init_lists v) (\<lambda>v.
     bnd (register_all (v\<lparr> v_types := v_types v ++ fs_arr \<rparr>) FS_ARR) (\<lambda>v.
     bnd (init_root v) (\<lambda>v.
     bnd (deref (v_mounts v) (root_fs v)) (\<lambda>m.
     bnd (mount_all get_sb (mnt_mount m) v file_systems) (\<lambda>v.
     bnd (cdev_init fuel call mkdir (s\<lparr> dv := v \<rparr>)) (\<lambda>(e, s).
     let s = s\<lparr> dv := set_errno (dv s) e \<rparr> in
     if e < 0 then Halt Panicked
     else bnd (on_ob s new) (\<lambda>(_, s). bnd (on_ob s new) (\<lambda>(_, s). Ret s)))))))))))"

section \<open>A registered device can be found\<close>

text \<open>
  The device file system is mounted at \<open>/dev\<close> with root \<open>r\<close> and superblock \<open>sb\<close>: the lists of
  its inodes, of its entries and of the character devices are rings of their own, beside the
  ring of the mount points.
\<close>

definition devfs_mounted :: "nat \<Rightarrow> devst \<Rightarrow> nat \<Rightarrow> nat \<Rightarrow> nat list \<Rightarrow> nat list \<Rightarrow> nat list \<Rightarrow> nat list \<Rightarrow> bool" where
  "devfs_mounted fuel s r sb ms inos ents devs \<longleftrightarrow>
     (let v = vo (dv s); h = v_links v in
      length ms < fuel \<and> sb \<noteq> 0 \<and> r \<noteq> 0 \<and>
      (\<exists>m mnt. mount_named (dv s) (str ''dev'') (map (\<lambda>m. m - MNT_LIST) ms) = Ret m \<and> m \<noteq> 0 \<and>
         v_mounts (dv s) m = Some mnt \<and> mnt_root mnt = r) \<and>
      (\<exists>p i. v_dentries v r = Some p \<and> 1 \<le> d_count p \<and> d_inode p \<noteq> 0 \<and> v_inodes v (d_inode p) = Some i \<and> i_sb i = sb) \<and>
      ring h (mountpoints # ms) \<and> ring h ((sb + S_INO) # inos) \<and> ring h ((r + D_LIST) # ents) \<and> ring h (chr_devs # devs) \<and>
      distinct (mountpoints # ms @ (sb + S_INO) # inos @ (r + D_LIST) # ents @ chr_devs # devs))"

lemma ring_frame: "ring h ns \<Longrightarrow> \<forall>x. x \<notin> A \<longrightarrow> h' x = h x \<Longrightarrow> A \<inter> set ns = {} \<Longrightarrow> ring h' ns"
  by (erule ring_agree) blast

text \<open>Names stay while dentries come and their other fields change.\<close>

definition names_kept :: "vobjs \<Rightarrow> vobjs \<Rightarrow> bool" where
  "names_kept v w \<longleftrightarrow> (\<forall>x d. v_dentries v x = Some d \<longrightarrow> (\<exists>d'. v_dentries w x = Some d' \<and> d_name d' = d_name d))"

lemma mount_named_kept:
  "mount_named s nm ms = Ret m \<Longrightarrow> v_mounts s' = v_mounts s \<Longrightarrow> names_kept (vo s) (vo s') \<Longrightarrow> mount_named s' nm ms = Ret m"
  by (induction ms) (force simp: outcome_ret_iff deref_Ret names_kept_def split: if_splits)+

lemma str_dev: "component (str ''dev'')" "str ''/dev/'' = SLASH # str ''dev'' @ [SLASH]"
  by (simp_all add: component_def str_def)

lemma devfs_bootstrap:
  assumes "devfs_mounted fuel s r sb ms inos ents devs"
  shows "vfs_find_bootstrap fuel (dv s) (str ''/dev/'' @ nm) = Ret (r, Some nm)"
proof -
  have "mounts fuel (dv s) = Ret (map (\<lambda>m. m - MNT_LIST) ms)"
    using FOREACH_ring [of "v_links (vo (dv s))" mountpoints ms fuel] assms
    by (simp add: mounts_def devfs_mounted_def Let_def)
  moreover have "drop (length (str ''dev'')) (str ''dev'' @ SLASH # nm) = SLASH # nm" by simp
  ultimately show ?thesis
    using assms extract_inner [OF str_dev(1), of nm] str_dev(2)
    by (auto simp: vfs_find_bootstrap_def devfs_mounted_def Let_def mnt_root_of_def deref_def)
qed

text \<open>A lookup of a name below \<open>/dev\<close>, and one of its parent.\<close>

lemma devfs_lookup:
  assumes m: "devfs_mounted fuel s r sb ms inos ents devs" and "component nm" and "child (vo (dv s)) r nm = Some a"
    and "v_dentries (vo (dv s)) a = Some d"
  shows "\<exists>s'. vfs_path_lookup fuel call (dv s) (Some (str ''/dev/'' @ nm)) LOOKUP_OPEN =
    Ret (\<lparr> p_dentry = a, p_flags = LOOKUP_OPEN, p_status = LOOKUP_STAT_SUCCESS \<rparr>, s')"
proof -
  have "vfs_walk_path call (vo (dv s)) r nm LOOKUP_OPEN = Ret (a, vo (dv s))"
    using walk_path_resolve [of "[nm]" "vo (dv s)" r a LOOKUP_OPEN call] assms(2,3) by simp
  moreover have "a \<noteq> 0" "r \<noteq> 0" using assms(3) by (auto simp: child_Some)
  ultimately show ?thesis using devfs_bootstrap [OF m] assms(4) str_dev(2)
    by (simp add: vfs_path_lookup_def on_vo_def lookup_end_def on_vo1_def upd_dentry_def deref_def)
qed

lemma devfs_lookup_parent:
  assumes m: "devfs_mounted fuel s r sb ms inos ents devs" and "component nm" and "v_dentries (vo (dv s)) r = Some p"
  shows "vfs_path_lookup fuel call (dv s) (Some (str ''/dev/'' @ nm)) (LOOKUP_PARENT OR LOOKUP_CREATE) =
    Ret (\<lparr> p_dentry = r, p_flags = 3, p_status = LOOKUP_STAT_ENOENT \<rparr>, (dv s)\<lparr> vo := (vo (dv s))
      \<lparr> v_dentries := (v_dentries (vo (dv s)))(r \<mapsto> p\<lparr> d_count := d_count p + 1 \<rparr>) \<rparr> \<rparr>)"
proof -
  have r: "r \<noteq> 0" using m by (auto simp: devfs_mounted_def Let_def)
  have "vfs_walk_path call (vo (dv s)) r nm 3 = Ret (r, vo (dv s))"
    using walk_path_parent [of "[nm]" "vo (dv s)" r r 3 call] assms(2) r by simp
  then show ?thesis using devfs_bootstrap [OF m] assms(3) str_dev(2) r
    by (simp add: vfs_path_lookup_def on_vo_def lookup_end_def on_vo1_def upd_dentry_def deref_def)
qed

lemma devfs_inode_alloc_ok:
  assumes pool: "v_pool v = ino # fo # io # as" "ino \<noteq> 0" "fo \<noteq> 0" "io \<noteq> 0" and sb: "sb \<noteq> 0"
    and ring: "ring (v_links v) ((sb + S_INO) # inos)" and fr: "ino + I_LIST \<notin> set ((sb + S_INO) # inos)"
  shows "\<exists>h2 i. devfs_inode_alloc v sb = Ret (ino, v\<lparr> v_pool := as, v_iops := (v_iops v)(io \<mapsto> devfs_iops),
      v_fops := (v_fops v)(fo \<mapsto> zero_fops), v_inodes := (v_inodes v)(ino \<mapsto> i), v_links := h2 \<rparr>) \<and> i_sb i = sb \<and>
    ring h2 ((sb + S_INO) # (ino + I_LIST) # inos) \<and>
    (\<forall>x. x \<notin> set ((sb + S_INO) # (ino + I_LIST) # inos) \<longrightarrow> h2 x = v_links v x)"
proof -
  let ?h = "(v_links v)(ino + I_LIST \<mapsto> zero_cell)"
  have r1: "ring ?h ((sb + S_INO) # inos)" using ring fr by (simp add: ring_def)
  then obtain h2 where h2: "list_append ?h (sb + S_INO) (ino + I_LIST) = Ret h2" "ring h2 ((sb + S_INO) # (ino + I_LIST) # inos)"
    using list_append_head [of ?h "sb + S_INO" inos "ino + I_LIST"] fr pool(2) by auto
  let ?i = "zero_inode\<lparr> i_fops := fo, i_iops := io, i_ino := - 1, i_mask := 0, i_count := 1, i_flags := 0, i_uid := 0,
     i_gid := 0, i_size := 0, i_sb := sb \<rparr>"
  show ?thesis
    by (intro exI [of _ h2] exI [of _ ?i])
       (use pool sb h2 list_append_frame [OF r1 h2(1)] in
         \<open>simp add: devfs_inode_alloc_def inode_generic_alloc_def new_def upd_inode_def on_links_def zero_inode_def\<close>)
qed

text \<open>
  The addresses that the allocators give for the inode, its operations and the dentry are new,
  and so are the list cells in them and in the device.
\<close>

definition fresh_objects :: "devst \<Rightarrow> nat list \<Rightarrow> nat \<Rightarrow> nat \<Rightarrow> nat \<Rightarrow> bool" where
  "fresh_objects s cells ino a dev \<longleftrightarrow>
     (\<exists>fo io as. v_pool (vo (dv s)) = ino # fo # io # a # as \<and> 0 \<notin> {ino, fo, io}) \<and>
     v_inodes (vo (dv s)) ino = None \<and> v_links (vo (dv s)) (dev + C_LIST) \<noteq> None \<and> dev \<noteq> 0 \<and>
     distinct [ino + I_LIST, a + D_LIST, dev + C_LIST] \<and>
     {ino + I_LIST, a + D_LIST, dev + C_LIST} \<inter> set cells = {}"

lemma upd_inode_Ret: "upd_inode s p f = Ret s' \<longleftrightarrow>
    (\<exists>i. p \<noteq> 0 \<and> v_inodes s p = Some i \<and> s' = s\<lparr> v_inodes := (v_inodes s)(p \<mapsto> f i) \<rparr>)"
  by (auto simp: upd_inode_def omap_Ret_iff deref_Ret)

lemma devfs_add_cdev_ok:
  fixes s :: devst
  defines "v \<equiv> vo (dv s)"
  assumes m: "v_dentries v r = Some p" "r \<noteq> 0" "d_inode p \<noteq> 0" "v_inodes v (d_inode p) = Some pi" "i_sb pi = sb" "sb \<noteq> 0"
    and rings: "ring (v_links v) ((sb + S_INO) # inos)" "ring (v_links v) ((r + D_LIST) # ents)" "ring (v_links v) (chr_devs # devs)"
    and d: "distinct ((sb + S_INO) # inos @ (r + D_LIST) # ents @ chr_devs # devs)"
    and fr: "fresh_objects s ((sb + S_INO) # inos @ (r + D_LIST) # ents @ chr_devs # devs) ino a dev"
    and add: "can_add (v\<lparr> v_pool := drop 3 (v_pool v) \<rparr>) r p hm nm a" and c: "v_cdevs s dev = Some c"
    and st: "p_dentry pt = r" "p_status pt = LOOKUP_STAT_ENOENT"
  shows "\<exists>w hm' i. devfs_add_cdev s pt dev nm = Ret (0, s\<lparr> dv := (dv s)\<lparr> vo := w \<rparr> \<rparr>) \<and> hm_insert (Some hm) (Some nm) a = Ret (0, hm') \<and>
    v_dentries w = (v_dentries v)(
         r \<mapsto> p\<lparr> d_children := Some hm', d_count := d_count p + 1 \<rparr>,
         a \<mapsto> zero_dentry\<lparr> d_flags := T_IFCHR, d_parent := r, d_count := 1, d_name := nm, d_inode := ino \<rparr>) \<and>
    v_inodes w = (v_inodes v)(ino \<mapsto> i) \<and> i_fops i = c_ops c \<and> i_cdev i = dev \<and> i_flags i = T_IFCHR \<and>
    ring (v_links w) ((sb + S_INO) # (ino + I_LIST) # inos) \<and> ring (v_links w) ((r + D_LIST) # (a + D_LIST) # ents) \<and>
    ring (v_links w) (chr_devs # (dev + C_LIST) # devs) \<and>
    (\<forall>x. x \<notin> set ((sb + S_INO) # inos @ (r + D_LIST) # ents @ chr_devs # devs) \<union> {ino + I_LIST, a + D_LIST, dev + C_LIST} \<longrightarrow>
       v_links w x = v_links v x)"
proof -
  obtain fo io as where pool: "v_pool v = ino # fo # io # a # as" "ino \<noteq> 0" "fo \<noteq> 0" "io \<noteq> 0"
    using fr by (auto simp: fresh_objects_def v_def)
  have ino: "v_inodes v ino = None" and cl: "v_links v (dev + C_LIST) \<noteq> None" "dev \<noteq> 0"
    and dd: "distinct [ino + I_LIST, a + D_LIST, dev + C_LIST]"
    and dj: "{ino + I_LIST, a + D_LIST, dev + C_LIST} \<inter> set ((sb + S_INO) # inos @ (r + D_LIST) # ents @ chr_devs # devs) = {}"
    using fr by (auto simp: fresh_objects_def v_def)
  obtain h2 i where a1: "devfs_inode_alloc v sb = Ret (ino, v\<lparr> v_pool := a # as, v_iops := (v_iops v)(io \<mapsto> devfs_iops),
      v_fops := (v_fops v)(fo \<mapsto> zero_fops), v_inodes := (v_inodes v)(ino \<mapsto> i), v_links := h2 \<rparr>)" (is "_ = Ret (ino, ?v1)")
     "ring h2 ((sb + S_INO) # (ino + I_LIST) # inos)" "\<forall>x. x \<notin> set ((sb + S_INO) # (ino + I_LIST) # inos) \<longrightarrow> h2 x = v_links v x"
    using devfs_inode_alloc_ok [OF pool m(6) rings(1)] dj by auto
  have add1: "can_add ?v1 r p hm nm a" using add pool(1) by (simp add: can_add_def)
  have "ring (v_links ?v1) ((r + D_LIST) # ents)" using ring_frame [OF rings(2) a1(3)] d dj by (auto simp: Int_Un_distrib)
  moreover have "a + D_LIST \<notin> set ((r + D_LIST) # ents)" using dj by auto
  ultimately obtain h3 hm' where a2: "dentry_alloc ?v1 r (Some nm) T_IFCHR = Ret (a, ?v1\<lparr> v_pool := as, v_links := h3, v_errno := 0,
      v_dentries := (v_dentries v)(
         r \<mapsto> p\<lparr> d_children := Some hm', d_count := d_count p + 1 \<rparr>,
         a \<mapsto> zero_dentry\<lparr> d_flags := T_IFCHR, d_parent := r, d_count := 1, d_name := nm \<rparr>) \<rparr>)" (is "_ = Ret (a, ?v2)")
     "hm_insert (Some hm) (Some nm) a = Ret (0, hm')"
     "ring h3 ((r + D_LIST) # (a + D_LIST) # ents)" "\<forall>x. x \<notin> set ((r + D_LIST) # (a + D_LIST) # ents) \<longrightarrow> h3 x = h2 x"
    using dentry_alloc_file [OF add1, of T_IFCHR ents] by auto
  have ne: "a \<noteq> 0" "ino \<noteq> d_inode p" "r \<noteq> a" using add m ino by (auto simp: can_add_def)
  have "ring h3 (chr_devs # devs)" using ring_frame [OF ring_frame [OF rings(3) a1(3)] a2(4)] d dj by (auto simp: Int_Un_distrib)
  moreover have "h3 (dev + C_LIST) \<noteq> None" using a1(3) a2(4) cl(1) dj dd by auto
  ultimately obtain h4 where a3: "list_append h3 chr_devs (dev + C_LIST) = Ret h4" "ring h4 (chr_devs # (dev + C_LIST) # devs)"
     "\<forall>x. x \<notin> set (chr_devs # (dev + C_LIST) # devs) \<longrightarrow> h4 x = h3 x"
    using list_append_head [of h3 chr_devs devs "dev + C_LIST"] list_append_frame [of h3 chr_devs devs "dev + C_LIST"] dj cl(2)
    by auto
  have r1: "ring h4 ((sb + S_INO) # (ino + I_LIST) # inos)" using ring_frame [OF ring_frame [OF a1(2) a2(4)] a3(3)] d dj dd by (auto simp: Int_Un_distrib Int_commute)
  have r2: "ring h4 ((r + D_LIST) # (a + D_LIST) # ents)" using ring_frame [OF a2(3) a3(3)] d dj dd by (auto simp: Int_Un_distrib Int_commute)
  let ?i = "i\<lparr> i_count := i_count i + 1, i_cdev := dev, i_flags := T_IFCHR, i_fops := c_ops c \<rparr>"
  let ?w = "?v2\<lparr> v_dentries := (v_dentries v)(
         r \<mapsto> p\<lparr> d_children := Some hm', d_count := d_count p + 1 \<rparr>,
         a \<mapsto> zero_dentry\<lparr> d_flags := T_IFCHR, d_parent := r, d_count := 1, d_name := nm, d_inode := ino \<rparr>),
       v_inodes := (v_inodes v)(ino \<mapsto> ?i), v_links := h4 \<rparr>"
  have "devfs_add_cdev s pt dev nm = Ret (0, s\<lparr> dv := (dv s)\<lparr> vo := ?w \<rparr> \<rparr>)"
    using m st a1(1) a2(1) a3(1) ne pool(2) c cl(2) unfolding v_def
    by (simp add: devfs_add_cdev_def on_ob_def on_dv_def on_vo_def on_ob1_def on_vo1_def dentry_alloc_ino_def upd_dentry_def
        upd_inode_def on_links_def)
  then show ?thesis
    using a2(2) r1 r2 a1(3) a2(4) a3(2,3)
    by (intro exI [of _ ?w] exI [of _ hm'] exI [of _ ?i]) simp
qed

section \<open>Properties\<close>

text \<open>
  C20: registering a character device makes it visible: \<open>devfs_register_cdev\<close> gives 0 whatever
  bytes without a slash follow the unterminated path, \<open>/dev\<close> stays mounted with its lists one
  entry longer, and a later lookup of \<open>/dev/\<close> and the name finds the new dentry, a character
  device whose inode has the operations of the device.
\<close>

theorem register_cdev_visible:
  assumes m: "devfs_mounted fuel s r sb ms inos ents devs" and p: "v_dentries (vo (dv s)) r = Some p"
    and fr: "fresh_objects s (mountpoints # ms @ (sb + S_INO) # inos @ (r + D_LIST) # ents @ chr_devs # devs) ino a dev"
    and add: "can_add ((vo (dv s))\<lparr> v_pool := drop 3 (v_pool (vo (dv s))) \<rparr>) r p hm nm a"
    and c: "v_cdevs s dev = Some c" and nm: "component nm" "SLASH \<notin> set rest"
  shows "\<exists>s' s''. devfs_register_cdev fuel call rest s dev nm = Ret (0, s') \<and>
    devfs_mounted fuel s' r sb ms ((ino + I_LIST) # inos) ((a + D_LIST) # ents) ((dev + C_LIST) # devs) \<and>
    vfs_path_lookup fuel call (dv s') (Some (str ''/dev/'' @ nm)) LOOKUP_OPEN =
      Ret (\<lparr> p_dentry = a, p_flags = LOOKUP_OPEN, p_status = LOOKUP_STAT_SUCCESS \<rparr>, s'') \<and>
    (\<exists>d i. v_dentries (vo (dv s')) a = Some d \<and> d_flags d = T_IFCHR \<and> d_name d = nm \<and> d_inode d = ino \<and>
       v_inodes (vo (dv s')) ino = Some i \<and> i_fops i = c_ops c \<and> i_cdev i = dev)"
proof -
  let ?v = "vo (dv s)" and ?p1 = "p\<lparr> d_count := d_count p + 1 \<rparr>"
  let ?s1 = "s\<lparr> dv := (dv s)\<lparr> vo := ?v\<lparr> v_dentries := (v_dentries ?v)(r \<mapsto> ?p1) \<rparr> \<rparr> \<rparr>"
  let ?pt = "\<lparr> p_dentry = r, p_flags = 3, p_status = LOOKUP_STAT_ENOENT \<rparr>"
  have l: "vfs_path_lookup fuel call (dv s) (Some (str ''/dev/'' @ nm @ rest)) (LOOKUP_PARENT OR LOOKUP_CREATE) = Ret (?pt, dv ?s1)"
    using devfs_lookup_parent [OF m _ p, of "nm @ rest"] nm by (simp add: component_def)
  obtain pi where dm: "r \<noteq> 0" "1 \<le> d_count p" "d_inode p \<noteq> 0" "v_inodes ?v (d_inode p) = Some pi" "i_sb pi = sb" "sb \<noteq> 0"
    using m p by (auto simp: devfs_mounted_def Let_def)
  have rings: "ring (v_links ?v) (mountpoints # ms)" "ring (v_links ?v) ((sb + S_INO) # inos)" "ring (v_links ?v) ((r + D_LIST) # ents)"
      "ring (v_links ?v) (chr_devs # devs)"
    and d: "distinct (mountpoints # ms @ (sb + S_INO) # inos @ (r + D_LIST) # ents @ chr_devs # devs)"
    using m by (simp_all add: devfs_mounted_def Let_def)
  have "\<exists>w hm' i. devfs_add_cdev ?s1 ?pt dev nm = Ret (0, ?s1\<lparr> dv := (dv ?s1)\<lparr> vo := w \<rparr> \<rparr>) \<and> hm_insert (Some hm) (Some nm) a = Ret (0, hm') \<and>
    v_dentries w = (v_dentries (vo (dv ?s1)))(
         r \<mapsto> ?p1\<lparr> d_children := Some hm', d_count := d_count ?p1 + 1 \<rparr>,
         a \<mapsto> zero_dentry\<lparr> d_flags := T_IFCHR, d_parent := r, d_count := 1, d_name := nm, d_inode := ino \<rparr>) \<and>
    v_inodes w = (v_inodes (vo (dv ?s1)))(ino \<mapsto> i) \<and> i_fops i = c_ops c \<and> i_cdev i = dev \<and> i_flags i = T_IFCHR \<and>
    ring (v_links w) ((sb + S_INO) # (ino + I_LIST) # inos) \<and> ring (v_links w) ((r + D_LIST) # (a + D_LIST) # ents) \<and>
    ring (v_links w) (chr_devs # (dev + C_LIST) # devs) \<and>
    (\<forall>x. x \<notin> set ((sb + S_INO) # inos @ (r + D_LIST) # ents @ chr_devs # devs) \<union> {ino + I_LIST, a + D_LIST, dev + C_LIST} \<longrightarrow>
       v_links w x = v_links (vo (dv ?s1)) x)"
    by (rule devfs_add_cdev_ok [where pi = pi]) (use dm rings d fr add c in \<open>auto simp: fresh_objects_def can_add_def\<close>)
  then obtain w hm' i where a: "devfs_add_cdev ?s1 ?pt dev nm = Ret (0, ?s1\<lparr> dv := (dv s)\<lparr> vo := w \<rparr> \<rparr>)"
    "hm_insert (Some hm) (Some nm) a = Ret (0, hm')"
    "v_dentries w = (v_dentries ?v)(r \<mapsto> p\<lparr> d_children := Some hm', d_count := d_count p + 2 \<rparr>,
         a \<mapsto> zero_dentry\<lparr> d_flags := T_IFCHR, d_parent := r, d_count := 1, d_name := nm, d_inode := ino \<rparr>)"
    "v_inodes w = (v_inodes ?v)(ino \<mapsto> i)" "i_fops i = c_ops c" "i_cdev i = dev"
    "ring (v_links w) ((sb + S_INO) # (ino + I_LIST) # inos)" "ring (v_links w) ((r + D_LIST) # (a + D_LIST) # ents)"
    "ring (v_links w) (chr_devs # (dev + C_LIST) # devs)"
    "\<forall>x. x \<notin> set ((sb + S_INO) # inos @ (r + D_LIST) # ents @ chr_devs # devs) \<union> {ino + I_LIST, a + D_LIST, dev + C_LIST} \<longrightarrow>
       v_links w x = v_links ?v x"
    by (elim exE conjE) (rule that; simp add: add.commute [of 2])
  have ra: "r \<noteq> a" "a \<noteq> 0" "v_dentries ?v a = None" "d_children p = Some hm" "hm_inv hm" "hm_map hm (hm_hash hm (Some nm)) = None"
      "hm_hash hm (Some nm) \<noteq> UINT32_MAX"
    using add p by (auto simp: can_add_def)
  let ?r' = "p\<lparr> d_children := Some hm', d_count := d_count p + 1 \<rparr>"
  let ?w = "w\<lparr> v_dentries := (v_dentries ?v)(r \<mapsto> ?r',
         a \<mapsto> zero_dentry\<lparr> d_flags := T_IFCHR, d_parent := r, d_count := 1, d_name := nm, d_inode := ino \<rparr>) \<rparr>"
  let ?s' = "s\<lparr> dv := (dv s)\<lparr> vo := ?w \<rparr> \<rparr>"
  have reg: "devfs_register_cdev fuel call rest s dev nm = Ret (0, ?s')"
    using l a(1,3) ra dm(1,2)
    by (simp add: devfs_register_cdev_def on_dv_def vfs_path_release_def on_vo1_def upd_dentry_def fun_upd_twist add.commute [of 1])
  have "ring (v_links w) (mountpoints # ms)"
    by (rule ring_frame [OF rings(1) a(10)]) (use d fr in \<open>auto simp: fresh_objects_def\<close>)
  moreover have "names_kept ?v ?w" using p ra(3) by (auto simp: names_kept_def)
  then have "\<exists>m mnt. mount_named (dv ?s') (str ''dev'') (map (\<lambda>m. m - MNT_LIST) ms) = Ret m \<and> m \<noteq> 0 \<and>
         v_mounts (dv ?s') m = Some mnt \<and> mnt_root mnt = r"
    using m mount_named_kept [of "dv s" "str ''dev''" "map (\<lambda>m. m - MNT_LIST) ms" _ "dv ?s'"] by (auto simp: devfs_mounted_def Let_def)
  moreover have "ino \<noteq> d_inode p" using fr dm(4) by (auto simp: fresh_objects_def)
  then have "\<exists>p i. v_dentries ?w r = Some p \<and> 1 \<le> d_count p \<and> d_inode p \<noteq> 0 \<and> v_inodes ?w (d_inode p) = Some i \<and> i_sb i = sb"
    using dm ra(1) a(4) by simp
  moreover have "distinct (mountpoints # ms @ (sb + S_INO) # ((ino + I_LIST) # inos) @ (r + D_LIST) # ((a + D_LIST) # ents) @
      chr_devs # ((dev + C_LIST) # devs))"
    using d fr by (auto simp: fresh_objects_def)
  moreover have "length ms < fuel" using m by (simp add: devfs_mounted_def Let_def)
  ultimately have m': "devfs_mounted fuel ?s' r sb ms ((ino + I_LIST) # inos) ((a + D_LIST) # ents) ((dev + C_LIST) # devs)"
    unfolding devfs_mounted_def Let_def using a(7-9) dm(1,6) by (intro conjI) simp_all
  have "child (vo (dv ?s')) r nm = Some a"
    using hm_insert_map [OF ra(5) a(2)] ra dm(1) by (simp add: child_Some)
  from devfs_lookup [OF m' nm(1) this] obtain s'' where
    "vfs_path_lookup fuel call (dv ?s') (Some (str ''/dev/'' @ nm)) LOOKUP_OPEN =
      Ret (\<lparr> p_dentry = a, p_flags = LOOKUP_OPEN, p_status = LOOKUP_STAT_SUCCESS \<rparr>, s'')" by fastforce
  with reg m' a(4-6) show ?thesis by (intro exI [of _ ?s'] exI [of _ s'']) simp
qed

text \<open>\<open>/dev\<close> mounted with an empty root at 16, a device at 320 and memory for one more file.\<close>

definition demo_dev :: devst where
  "demo_dev = \<lparr> dv = demo_tree\<lparr> vo := demo_vfs\<lparr> v_dentries := [16 \<mapsto> demo_dir\<lparr> d_inode := 512 \<rparr>,
         64 \<mapsto> zero_dentry\<lparr> d_name := str ''dev'' \<rparr>],
       v_inodes := [512 \<mapsto> zero_inode\<lparr> i_sb := 128 \<rparr>],
       v_links := [1 \<mapsto> \<lparr> lh_next = 263, lh_prev = 263 \<rparr>, 263 \<mapsto> \<lparr> lh_next = 1, lh_prev = 1 \<rparr>,
         132 \<mapsto> \<lparr> lh_next = 132, lh_prev = 132 \<rparr>, 17 \<mapsto> \<lparr> lh_next = 17, lh_prev = 17 \<rparr>,
         3 \<mapsto> \<lparr> lh_next = 3, lh_prev = 3 \<rparr>, 328 \<mapsto> zero_cell],
       v_pool := [1024, 1040, 1056, 1072] \<rparr>,
     v_mounts := [256 \<mapsto> \<lparr> mnt_sb = 128, mnt_mount = 64, mnt_root = 16, mnt_devname = None, mnt_type = Some [] \<rparr>] \<rparr>,
     cdev_cache = 1, bm_devnums = Some \<lparr> bm_len = 32, bm_bits = [0] \<rparr>,
     v_cdevs = [320 \<mapsto> \<lparr> c_name = [97], c_dev = 0, c_ops = 2048 \<rparr>], v_loaders = Map.empty \<rparr>"

lemmas list_offsets = D_LIST_def I_LIST_def S_INO_def C_LIST_def MNT_LIST_def chr_devs_def mountpoints_def

lemma demo_dev_mounted: "devfs_mounted 5 demo_dev 16 128 [263] [] [] []"
proof -
  have "mount_named (dv demo_dev) (str ''dev'') [256] = Ret 256" by (simp add: demo_dev_def)
  then show ?thesis
    by (simp add: devfs_mounted_def Let_def demo_dev_def ring_def list_offsets demo_dir_def zero_inode_def zero_dentry_def)
qed

lemma demo_dev_fresh: "fresh_objects demo_dev [1, 263, 132, 17, 3] 1024 1072 320"
  by (simp add: fresh_objects_def demo_dev_def list_offsets)

lemma demo_dev_can_add:
  "can_add ((vo (dv demo_dev))\<lparr> v_pool := drop 3 (v_pool (vo (dv demo_dev))) \<rparr>) 16 (demo_dir\<lparr> d_inode := 512 \<rparr>) fresh_children [97] 1072"
  using demo_can_add by (simp add: can_add_def demo_dev_def demo_vfs_def demo_dir_def)

lemma register_cdev_visible_witness:
  "\<exists>s' s''. devfs_register_cdev 5 (\<lambda>_ v _ _. Ret (0, v)) [1, 2] demo_dev 320 [97] = Ret (0, s') \<and>
    vfs_path_lookup 5 (\<lambda>_ v _ _. Ret (0, v)) (dv s') (Some (str ''/dev/'' @ [97])) LOOKUP_OPEN =
      Ret (\<lparr> p_dentry = 1072, p_flags = LOOKUP_OPEN, p_status = LOOKUP_STAT_SUCCESS \<rparr>, s'') \<and>
    (\<exists>i. v_inodes (vo (dv s')) 1024 = Some i \<and> i_fops i = 2048)"
proof -
  have 1: "v_dentries (vo (dv demo_dev)) 16 = Some (demo_dir\<lparr> d_inode := 512 \<rparr>)" by (simp add: demo_dev_def)
  have 2: "fresh_objects demo_dev (mountpoints # [263] @ (128 + S_INO) # [] @ (16 + D_LIST) # [] @ chr_devs # []) 1024 1072 320"
    using demo_dev_fresh by (simp add: mountpoints_def S_INO_def D_LIST_def chr_devs_def)
  have 3: "v_cdevs demo_dev 320 = Some \<lparr> c_name = [97], c_dev = 0, c_ops = 2048 \<rparr>" by (simp add: demo_dev_def)
  have 4: "component [97]" "SLASH \<notin> set [1, 2]" by (simp_all add: component_def)
  obtain s' s'' i where w: "devfs_register_cdev 5 (\<lambda>_ v _ _. Ret (0, v)) [1, 2] demo_dev 320 [97] = Ret (0, s')"
    "vfs_path_lookup 5 (\<lambda>_ v _ _. Ret (0, v)) (dv s') (Some (str ''/dev/'' @ [97])) LOOKUP_OPEN =
      Ret (\<lparr> p_dentry = 1072, p_flags = LOOKUP_OPEN, p_status = LOOKUP_STAT_SUCCESS \<rparr>, s'')"
    "v_inodes (vo (dv s')) 1024 = Some i" "i_fops i = c_ops \<lparr> c_name = [97], c_dev = 0, c_ops = 2048 \<rparr>"
    using register_cdev_visible [OF demo_dev_mounted 1 2 demo_dev_can_add 3 4, where call = "\<lambda>_ v _ _. Ret (0, v)"]
    by (elim exE conjE) (rule that; assumption)
  show ?thesis by (intro exI [of _ s'] exI [of _ s''] exI [of _ i] conjI) (use w in simp_all)
qed

lemma cdev_alloc_number:
  assumes "cdev_alloc s (Some n) ops major = Ret (d, s')" and "d \<noteq> 0"
  shows "\<exists>minor. cdev_alloc_devnum s = Ret minor \<and> bm_devnums s' = bm_devnums s \<and>
    v_cdevs s' = (v_cdevs s)(d \<mapsto> \<lparr> c_name = n, c_dev = MAKE_DEV major (word_of_int minor), c_ops = ops \<rparr>)"
proof -
  have ops: "ops \<noteq> 0" using assms by (cases "ops = 0") (simp_all add: cdev_alloc_def on_ob_Ret fail_Ret)
  obtain minor where m: "cdev_alloc_devnum s = Ret minor"
    using assms(1) ops by (cases "cdev_alloc_devnum s") (simp_all add: cdev_alloc_def)
  have "\<not> minor < 0" using assms ops m by (cases "minor < 0") (simp_all add: cdev_alloc_def)
  obtain dev s1 where d: "on_ob s new = Ret (dev, s1)"
    using assms(1) ops m \<open>\<not> minor < 0\<close> by (cases "on_ob s new") (auto simp: cdev_alloc_def)
  have "dev \<noteq> 0"
    using assms ops m d \<open>\<not> minor < 0\<close>
    by (cases "dev = 0"; cases "bm_devnums s1") (simp_all add: cdev_alloc_def bnd_Ret_iff split_beta)
  then obtain s2 where "on_ob1 s1 (\<lambda>v. on_links v (\<lambda>h. list_init (h(dev + C_LIST \<mapsto> zero_cell)) (dev + C_LIST))) = Ret s2"
      "d = dev" "s' = s2\<lparr> v_cdevs := (v_cdevs s2)(dev \<mapsto>
                  \<lparr> c_name = n, c_dev = MAKE_DEV major (word_of_int minor), c_ops = ops \<rparr>) \<rparr>"
    using assms(1) ops m d \<open>\<not> minor < 0\<close> by (simp add: cdev_alloc_def bnd_Ret_iff) metis
  then show ?thesis using m d by (auto simp: on_ob_Ret on_ob1_Ret)
qed

text \<open>
  No number is ever taken: \<open>cdev_alloc\<close> looks for a free minor number and does not mark it
  as used, so two devices of the same major number that are alive together have the same
  device number.
\<close>

lemma cdev_alloc_same_minor:
  assumes "cdev_alloc s (Some n1) ops1 major = Ret (d1, s1)" and "d1 \<noteq> 0"
    and "cdev_alloc s1 (Some n2) ops2 major = Ret (d2, s2)" and "d2 \<noteq> 0" and "d1 \<noteq> d2"
  shows "\<exists>c1 c2. v_cdevs s2 d1 = Some c1 \<and> v_cdevs s2 d2 = Some c2 \<and> c_dev c1 = c_dev c2"
proof -
  obtain m1 where "cdev_alloc_devnum s = Ret m1" "bm_devnums s1 = bm_devnums s"
      "v_cdevs s1 = (v_cdevs s)(d1 \<mapsto> \<lparr> c_name = n1, c_dev = MAKE_DEV major (word_of_int m1), c_ops = ops1 \<rparr>)"
    using cdev_alloc_number [OF assms(1,2)] by blast
  moreover from this have "cdev_alloc_devnum s1 = Ret m1" by (simp add: cdev_alloc_devnum_def)
  ultimately show ?thesis using cdev_alloc_number [OF assms(3,4)] assms(5) by auto
qed

lemma cdev_alloc_same_minor_witness:
  "\<exists>s1 s2 c1 c2. cdev_alloc demo_dev (Some [97]) 8 5 = Ret (1024, s1) \<and> cdev_alloc s1 (Some [98]) 9 5 = Ret (1040, s2) \<and>
    v_cdevs s2 1024 = Some c1 \<and> v_cdevs s2 1040 = Some c2 \<and> c_dev c1 = c_dev c2"
proof -
  have f: "bm_find_first_unset \<lparr> bm_len = 32, bm_bits = [0] \<rparr> 0 31 = Ret 0"
    by (simp add: bm_find_first_unset_def bm_find_first_def find_loop.simps [of _ 0] bit_at_def)
  obtain s1 where s1: "cdev_alloc demo_dev (Some [97]) 8 5 = Ret (1024, s1)" "v_pool (vo (dv s1)) = [1040, 1056, 1072]"
      "bm_devnums s1 = Some \<lparr> bm_len = 32, bm_bits = [0] \<rparr>"
    by (simp add: cdev_alloc_def cdev_alloc_devnum_def demo_dev_def f on_ob_def on_dv_def on_vo_def new_def on_ob1_def
        on_vo1_def on_links_def list_init_def link_defs zero_cell_def)
  obtain s2 where s2: "cdev_alloc s1 (Some [98]) 9 5 = Ret (1040, s2)"
    using s1(2,3) by (simp add: cdev_alloc_def cdev_alloc_devnum_def f on_ob_def on_dv_def on_vo_def new_def on_ob1_def
        on_vo1_def on_links_def list_init_def link_defs zero_cell_def)
  from cdev_alloc_same_minor [OF s1(1) _ s2] s1 s2 show ?thesis by fastforce
qed

text \<open>
  A lookup of the mount point itself gives the root of the mounted file system without counting
  it, and the release of that path lowers its count all the same.
\<close>

lemma devfs_root_uncounted:
  assumes m: "devfs_mounted fuel s r sb ms inos ents devs" and p: "v_dentries (vo (dv s)) r = Some p" and "d_count p > 2"
  shows "\<exists>pt. vfs_path_lookup fuel call (dv s) (Some (str ''/dev'')) LOOKUP_OPEN = Ret (pt, dv s) \<and>
    vfs_path_release (dv s) (Some pt) = Ret (0, (dv s)\<lparr> vo := (vo (dv s))
      \<lparr> v_dentries := (v_dentries (vo (dv s)))(r \<mapsto> p\<lparr> d_count := d_count p - 1 \<rparr>) \<rparr> \<rparr>)"
proof -
  have "mounts fuel (dv s) = Ret (map (\<lambda>m. m - MNT_LIST) ms)"
    using FOREACH_ring [of "v_links (vo (dv s))" mountpoints ms fuel] m
    by (simp add: mounts_def devfs_mounted_def Let_def)
  moreover have "str ''/dev'' = SLASH # str ''dev''" "str ''dev'' \<noteq> []" by (simp_all add: str_def)
  ultimately have "vfs_find_bootstrap fuel (dv s) (str ''/dev'') = Ret (r, None)"
    using m extract_last [OF str_dev(1)]
    by (auto simp: vfs_find_bootstrap_def devfs_mounted_def Let_def mnt_root_of_def deref_def)
  moreover have "r \<noteq> 0" using m by (simp add: devfs_mounted_def Let_def)
  ultimately show ?thesis
    using p assms(3) \<open>str ''/dev'' = SLASH # str ''dev''\<close>
    by (simp add: vfs_path_lookup_def vfs_path_release_def on_vo1_def upd_dentry_def deref_def)
qed

end
