(* ===== verification/Initramfs.thy ===== *)
theory Initramfs
  imports Dentry Multiboot
begin

unbundle bit_operations_syntax

text \<open>
  \<open>src/fs/initramfs.c\<close>: the read-only file system in the memory between the linker's symbols
  \<open>_ramfs_start\<close> and \<open>_ramfs_end\<close>, which are the arguments \<open>rstart\<close> and \<open>rend\<close>. The headers are
  read from byte memory at the offsets of the C structures; an argument \<open>char *name\<close> is an address
  in the same memory. The private structures of inodes, files and superblocks are stores of
  their own beside the objects of the theory \<open>Dentry\<close>.
\<close>

section \<open>The state\<close>

record ipriv =
  ip_pstart :: nat
  ip_vstart :: nat

record fpriv =
  fp_mapped :: bool
  fp_num_mapped :: int
  fp_pstart :: nat
  fp_vstart :: nat

record spriv =
  sp_header :: nat
  sp_start :: nat

record rstate =
  r_objs :: vobjs
  r_mem :: mem
  r_ipriv :: "nat \<rightharpoonup> ipriv"
  r_fpriv :: "nat \<rightharpoonup> fpriv"
  r_spriv :: "nat \<rightharpoonup> spriv"

definition HEADER_MAGIC :: nat where "HEADER_MAGIC = 0x13371338"
definition FILE_MAGIC :: nat where "FILE_MAGIC = 0xdeadbeef"
definition DIR_MAGIC :: nat where "DIR_MAGIC = 0xcafebabe"

text \<open>
  Sizes and offsets of \<open>disk_header_t\<close>, \<open>dir_header_t\<close> and \<open>file_header_t\<close>, which start with
  the 64 bytes of the name and have no padding.
\<close>

definition DISK_HDR :: nat where "DISK_HDR = 32"
definition FILE_HDR :: nat where "FILE_HDR = 76"
definition DIR_HDR :: nat where "DIR_HDR = 100"

abbreviation (input) "ld32 m p \<equiv> ldn m p 4"

definition RF_LOOKUP :: nat where "RF_LOOKUP = 31"
definition RF_READ :: nat where "RF_READ = 32"
definition RF_OPEN :: nat where "RF_OPEN = 33"
definition RF_CLOSE :: nat where "RF_CLOSE = 34"
definition RF_SEEK :: nat where "RF_SEEK = 35"
definition RF_DESTROY :: nat where "RF_DESTROY = 36"
definition RF_ALLOC :: nat where "RF_ALLOC = 37"

definition on_r :: "rstate \<Rightarrow> (vobjs \<Rightarrow> ('a \<times> vobjs) outcome) \<Rightarrow> ('a \<times> rstate) outcome" where
  "on_r s f = omap (\<lambda>(x, v). (x, s\<lparr> r_objs := v \<rparr>)) (f (r_objs s))"

definition on_r1 :: "rstate \<Rightarrow> (vobjs \<Rightarrow> vobjs outcome) \<Rightarrow> rstate outcome" where
  "on_r1 s f = omap (\<lambda>v. s\<lparr> r_objs := v \<rparr>) (f (r_objs s))"

lemma on_r_Ret: "on_r s f = Ret (x, s') \<longleftrightarrow> (\<exists>v. f (r_objs s) = Ret (x, v) \<and> s' = s\<lparr> r_objs := v \<rparr>)"
  by (cases "f (r_objs s)") (auto simp: on_r_def)

lemma on_r1_Ret: "on_r1 s f = Ret s' \<longleftrightarrow> (\<exists>v. f (r_objs s) = Ret v \<and> s' = s\<lparr> r_objs := v \<rparr>)"
  by (cases "f (r_objs s)") (auto simp: on_r1_def)

section \<open>Inodes\<close>

definition initramfs_inode_alloc :: "vobjs \<Rightarrow> nat \<Rightarrow> (nat \<times> vobjs) outcome" where
  "initramfs_inode_alloc s sb =
     bnd (inode_generic_alloc s 0) (\<lambda>(ino, s).
     if ino = 0 then Ret (0, s)
     else
       bnd (upd_inode s ino (\<lambda>i. i\<lparr> i_uid := 0, i_gid := 0, i_size := 0, i_sb := sb \<rparr>)) (\<lambda>s.
       bnd (deref (v_inodes s) ino) (\<lambda>i.
       bnd (deref (v_iops s) (i_iops i)) (\<lambda>io.
       bnd (deref (v_fops s) (i_fops i)) (\<lambda>fo.
       let s = s\<lparr> v_iops := (v_iops s)(i_iops i \<mapsto> io\<lparr> io_lookup := RF_LOOKUP, io_create := 0, io_link := 0,
                    io_unlink := 0, io_symlink := 0, io_mkdir := 0, io_rmdir := 0, io_mknod := 0, io_rename := 0,
                    io_follow_link := 0, io_put_link := 0, io_truncate := 0, io_permission := 0 \<rparr>),
                  v_fops := (v_fops s)(i_fops i \<mapsto> fo\<lparr> fo_read := RF_READ, fo_open := RF_OPEN,
                    fo_close := RF_CLOSE, fo_seek := RF_SEEK, fo_write := 0 \<rparr>) \<rparr> in
       bnd (on_links s (\<lambda>h. list_append h (sb + S_INO) (ino + I_LIST))) (\<lambda>s. Ret (ino, s)))))))"

definition initramfs_inode_destroy :: "vobjs \<Rightarrow> nat \<Rightarrow> (int \<times> vobjs) outcome" where
  "initramfs_inode_destroy s ino = inode_generic_dealloc s ino"

text \<open>
  The loop of \<open>initramfs_inode_lookup\<close>: number, size, kind and offset of the entry \<open>name\<close> of the
  directory header at \<open>dh\<close>. Each entry is looked at as a directory first, whatever it is.
\<close>

lemma ldn_less: "ldn m p n = Ret v \<Longrightarrow> v < 256 ^ n"
proof (induction n arbitrary: p v)
  case (Suc n)
  then obtain b w where "ld m p = Ret b" "ldn m (p + 1) n = Ret w" "v = unat b + 256 * w"
    by (auto simp: outcome_ret_iff)
  moreover have "unat b < 256" using unsigned_less [of b] by simp
  ultimately show ?case using Suc.IH by fastforce
qed simp

function find_item :: "mem \<Rightarrow> nat \<Rightarrow> nat \<Rightarrow> nat \<Rightarrow> (nat \<times> nat \<times> u32 \<times> nat) option outcome" where
  "find_item m dh name i =
     bnd (ld32 m (dh + 68)) (\<lambda>num_files.
     if i < num_files then
       bnd (ld32 m (dh + 80 + 4 * i)) (\<lambda>off.
       bnd (ld32 m (dh + off + 76)) (\<lambda>magic.
       bnd (if magic = DIR_MAGIC then omap (\<lambda>r. r = 0) (kstrcmp_s m (dh + off) name) else Ret False) (\<lambda>hit.
       if hit then
         bnd (ld32 m (dh + off + 72)) (\<lambda>ino. bnd (ld32 m (dh + off + 64)) (\<lambda>sz. Ret (Some (ino, sz, T_IFDIR, off))))
       else
         bnd (ld32 m (dh + off + 72)) (\<lambda>magic.
         bnd (if magic = FILE_MAGIC then omap (\<lambda>r. r = 0) (kstrcmp_s m (dh + off) name) else Ret False) (\<lambda>hit.
         if hit then
           bnd (ld32 m (dh + off + 68)) (\<lambda>ino. bnd (ld32 m (dh + off + 64)) (\<lambda>sz. Ret (Some (ino, sz, T_IFREG, off))))
         else find_item m dh name (i + 1))))))
     else Ret None)"
  by pat_completeness auto
termination
proof (relation "measure (\<lambda>(m, dh, name, i). 256 ^ 4 - i)", goal_cases)
  case (2 m dh name i num)
  then show ?case using ldn_less [of m "dh + 68" 4 num] by simp
qed simp

declare find_item.simps [simp del]

text \<open>The start of the memory of the entry; the arithmetic is on \<open>uint32_t\<close>.\<close>

definition place_entry :: "ipriv \<Rightarrow> nat \<Rightarrow> u32 \<Rightarrow> nat \<Rightarrow> ipriv" where
  "place_entry ip sz flags off =
     (let parent_start = (of_nat (ip_pstart ip) :: u32);
          boundary = parent_start AND NOT (4096 - 1);
          off_start = parent_start + of_nat off - boundary in
      if flags AND T_IFDIR \<noteq> 0 \<and> off_start + of_nat sz > 4096 then
        \<lparr> ip_pstart = ip_pstart ip + off, ip_vstart = ip_pstart ip + off \<rparr>
      else
        \<lparr> ip_pstart = ip_pstart ip + off,
          ip_vstart = (if flags AND T_IFDIR \<noteq> 0 then ip_vstart ip + off else 0) \<rparr>)"

text \<open>The private structure is allocated without a check; writing to NULL faults.\<close>

definition initramfs_inode_lookup :: "rstate \<Rightarrow> nat \<Rightarrow> nat \<Rightarrow> (nat \<times> rstate) outcome" where
  "initramfs_inode_lookup s parent name =
     (if parent = 0 \<or> name = 0 then on_r s (\<lambda>v. fail v EINVAL)
      else
        bnd (deref (v_dentries (r_objs s)) parent) (\<lambda>d.
        bnd (deref (v_inodes (r_objs s)) (d_inode d)) (\<lambda>pi.
        if i_flags pi AND T_IFDIR = 0 then on_r s (\<lambda>v. fail v ENOTDIR)
        else
          bnd (deref (r_ipriv s) (i_private pi)) (\<lambda>ip.
          bnd (find_item (r_mem s) (ip_vstart ip) name 0) (\<lambda>found.
          case found of
            None \<Rightarrow> on_r s (\<lambda>v. fail v ENOENT)
          | Some (ino, sz, flags, off) \<Rightarrow>
              bnd (on_r s (\<lambda>v. initramfs_inode_alloc v (i_sb pi))) (\<lambda>(inode, s).
              if inode = 0 then Ret (0, s)
              else
                bnd (on_r s new) (\<lambda>(priv, s).
                bnd (on_r1 s (\<lambda>v. upd_inode v inode (\<lambda>i. i\<lparr> i_ino := sint (of_nat ino :: u32), i_size := of_nat sz,
                       i_flags := flags, i_private := priv \<rparr>))) (\<lambda>s.
                if priv = 0 then Halt MemFault
                else Ret (inode, s\<lparr> r_ipriv := (r_ipriv s)(priv \<mapsto> place_entry ip sz flags off) \<rparr>)))))))))"

section \<open>Files\<close>

definition initramfs_file_seek :: "vobjs \<Rightarrow> nat \<Rightarrow> u64 \<Rightarrow> (int \<times> vobjs) outcome" where
  "initramfs_file_seek s file offset = file_generic_seek s file offset"

text \<open>\<open>off_t\<close> and \<open>i_size\<close> are signed. The position stays where the seek has put it.\<close>

definition initramfs_file_read :: "rstate \<Rightarrow> nat \<Rightarrow> u64 \<Rightarrow> u64 \<Rightarrow> nat \<Rightarrow> (int \<times> rstate) outcome" where
  "initramfs_file_read s file offset count buf =
     (if file = 0 \<or> buf = 0 then Ret (- EINVAL, s)
      else
        bnd (deref (v_files (r_objs s)) file) (\<lambda>f.
        bnd (deref (r_fpriv s) (f_private f)) (\<lambda>fp.
        let fp = (if fp_mapped fp then fp
                  else fp\<lparr> fp_mapped := True, fp_num_mapped := - 1, fp_vstart := fp_pstart fp \<rparr>);
            s = s\<lparr> r_fpriv := (r_fpriv s)(f_private f \<mapsto> fp) \<rparr> in
        bnd (on_r s (\<lambda>v. initramfs_file_seek v file offset)) (\<lambda>(ret, s).
        if ret < 0 then Ret (ret, s)
        else
          bnd (deref (v_files (r_objs s)) file) (\<lambda>f.
          bnd (deref (v_dentries (r_objs s)) (f_dentry f)) (\<lambda>d.
          bnd (deref (v_inodes (r_objs s)) (d_inode d)) (\<lambda>i.
          if scast (i_size i) <s count + f_pos f then Ret (- E2BIG, s)
          else
            bnd (kmemcpy (r_mem s) buf (fp_vstart fp + FILE_HDR + unat (f_pos f)) (unat count)) (\<lambda>m.
            Ret (sint count, s\<lparr> r_mem := m \<rparr>)))))))))"

text \<open>The operations that \<open>file_generic_alloc\<close> made for the file are replaced and leak.\<close>

definition initramfs_file_open :: "rstate \<Rightarrow> nat \<Rightarrow> u32 \<Rightarrow> (nat \<times> rstate) outcome" where
  "initramfs_file_open s dntr mode =
     (if dntr = 0 then on_r s (\<lambda>v. fail v EINVAL)
      else
        bnd (deref (v_dentries (r_objs s)) dntr) (\<lambda>d.
        if d_inode d = 0 then on_r s (\<lambda>v. fail v EINVAL)
        else if mode \<noteq> 2 then on_r s (\<lambda>v. fail v ENOTSUP)
        else
          bnd (deref (v_inodes (r_objs s)) (d_inode d)) (\<lambda>i.
          if i_flags i AND T_IFREG = 0 then on_r s (\<lambda>v. fail v EINVAL)
          else
            bnd (on_r s file_generic_alloc) (\<lambda>(file, s).
            if file = 0 then Ret (0, s)
            else
              bnd (on_r1 s (\<lambda>v. upd_file v file (\<lambda>f. f\<lparr> f_pos := 0, f_count := 1, f_mode := mode, f_dentry := dntr,
                     f_ops := i_fops i \<rparr>))) (\<lambda>s.
              bnd (on_r1 s (\<lambda>v. upd_dentry v dntr (\<lambda>d. d\<lparr> d_count := d_count d + 1 \<rparr>))) (\<lambda>s.
              bnd (on_r s new) (\<lambda>(priv, s).
              bnd (on_r1 s (\<lambda>v. upd_file v file (\<lambda>f. f\<lparr> f_private := priv \<rparr>))) (\<lambda>s.
              if priv = 0 then bnd (on_r s (\<lambda>v. file_generic_dealloc v file)) (\<lambda>(_, s). Ret (0, s))
              else
                bnd (deref (r_ipriv s) (i_private i)) (\<lambda>ip.
                Ret (file, s\<lparr> r_fpriv := (r_fpriv s)(priv \<mapsto> \<lparr> fp_mapped = False, fp_num_mapped = 0,
                  fp_pstart = ip_pstart ip, fp_vstart = 0 \<rparr>) \<rparr>))))))))))"

text \<open>\<open>kfree\<close> of NULL faults. \<open>file_generic_dealloc\<close> then frees the operations of the inode.\<close>

definition initramfs_file_close :: "rstate \<Rightarrow> nat \<Rightarrow> (int \<times> rstate) outcome" where
  "initramfs_file_close s file =
     (if file = 0 then Ret (- EINVAL, s)
      else
        bnd (deref (v_files (r_objs s)) file) (\<lambda>f.
        bnd (deref (r_fpriv s) (f_private f)) (\<lambda>_.
        on_r (s\<lparr> r_fpriv := (r_fpriv s)(f_private f := None) \<rparr>) (\<lambda>v. file_generic_dealloc v file))))"

section \<open>The superblock\<close>

text \<open>
  The magic number is also read for the message. Beside the result the state is given, which
  \<open>initramfs_get_sb\<close> goes on with whatever the result is.
\<close>

definition initramfs_init :: "nat \<Rightarrow> nat \<Rightarrow> rstate \<Rightarrow> nat \<Rightarrow> (int \<times> rstate) outcome" where
  "initramfs_init rstart rend s sb =
     bnd (ld32 (r_mem s) (rstart + 4)) (\<lambda>magic.
     if rend = rstart \<or> magic \<noteq> HEADER_MAGIC then Ret (- ENXIO, s)
     else
       bnd (on_r s (\<lambda>v. dentry_alloc_orphan v (Some [47]) T_IFDIR)) (\<lambda>(root, s).
       bnd (on_r1 s (\<lambda>v. upd_sb v sb (\<lambda>b. b\<lparr> s_root := root \<rparr>))) (\<lambda>s.
       bnd (on_r s (\<lambda>v. initramfs_inode_alloc v sb)) (\<lambda>(ino, s).
       bnd (on_r1 s (\<lambda>v. upd_dentry v root (\<lambda>d. d\<lparr> d_inode := ino \<rparr>))) (\<lambda>s.
       bnd (on_r s new) (\<lambda>(sp, s).
       bnd (on_r1 s (\<lambda>v. upd_sb v sb (\<lambda>b. b\<lparr> s_private := sp \<rparr>))) (\<lambda>s.
       if sp = 0 then Halt MemFault
       else
         let s = s\<lparr> r_spriv := (r_spriv s)(sp \<mapsto> \<lparr> sp_header = 0, sp_start = rstart \<rparr>) \<rparr> in
         bnd (on_r1 s (\<lambda>v. upd_inode v ino (\<lambda>i. i\<lparr> i_ino := 1, i_flags := T_IFDIR \<rparr>))) (\<lambda>s.
         bnd (on_r s new) (\<lambda>(ip, s).
         bnd (on_r1 s (\<lambda>v. upd_inode v ino (\<lambda>i. i\<lparr> i_private := ip \<rparr>))) (\<lambda>s.
         if ip = 0 then Halt MemFault
         else Ret (0, s\<lparr> r_ipriv := (r_ipriv s)(ip \<mapsto> \<lparr> ip_pstart = rstart + DISK_HDR, ip_vstart = rstart + DISK_HDR \<rparr>) \<rparr>)))))))))))"

definition initramfs_get_sb :: "nat \<Rightarrow> nat \<Rightarrow> rstate \<Rightarrow> (nat \<times> rstate) outcome" where
  "initramfs_get_sb rstart rend s =
     bnd (on_r s new) (\<lambda>(sb, s).
     if sb = 0 then on_r s (\<lambda>v. fail v ENOMEM)
     else
       bnd (on_r s new) (\<lambda>(ops, s).
       if ops = 0 then on_r s (\<lambda>v. fail v ENOMEM)
       else
         let v = r_objs s;
             v = v\<lparr> v_sbs := (v_sbs v)(sb \<mapsto> zero_sb\<lparr> s_ops := ops, s_blocksize := 0, s_count := 1, s_dirty := 0,
                      s_private := 0, s_root := 0, s_magic := of_nat HEADER_MAGIC \<rparr>),
                    v_sops := (v_sops v)(ops \<mapsto> zero_sops\<lparr> so_destroy_inode := RF_DESTROY, so_alloc_inode := RF_ALLOC \<rparr>),
                    v_links := (v_links v)(sb + S_LIST \<mapsto> zero_cell, sb + S_INO \<mapsto> zero_cell,
                      sb + S_INO_DIRTY \<mapsto> zero_cell, sb + S_INSTANCES \<mapsto> zero_cell) \<rparr> in
         bnd (on_links v (\<lambda>h. list_init h (sb + S_INO))) (\<lambda>v.
         bnd (on_links v (\<lambda>h. list_init h (sb + S_INO_DIRTY))) (\<lambda>v.
         bnd (on_links v (\<lambda>h. list_init h (sb + S_INSTANCES))) (\<lambda>v.
         bnd (initramfs_init rstart rend (s\<lparr> r_objs := v \<rparr>) sb) (\<lambda>(_, s). Ret (sb, s)))))))"

definition initramfs_kill_sb :: "rstate \<Rightarrow> nat \<Rightarrow> (int \<times> rstate) outcome" where
  "initramfs_kill_sb s sb =
     (if sb = 0 then Ret (- EINVAL, s)
      else
        bnd (deref (v_sbs (r_objs s)) sb) (\<lambda>b.
        if s_count b > 1 then Ret (- EBUSY, s)
        else
          bnd (deref (v_sops (r_objs s)) (s_ops b)) (\<lambda>_.
          bnd (deref (r_spriv s) (s_private b)) (\<lambda>_.
          Ret (0, s\<lparr> r_objs := (r_objs s)\<lparr> v_sops := (v_sops (r_objs s))(s_ops b := None),
                       v_sbs := (v_sbs (r_objs s))(sb := None) \<rparr>,
                     r_spriv := (r_spriv s)(s_private b := None) \<rparr>)))))"

section \<open>Reading headers\<close>

lemma hdr_fields:
  assumes b: "bytes_at m a (nm @ le_bytes x 4 @ le_bytes y 4 @ le_bytes z 4 @ rest)" and "length nm = 64"
    and "x < 2 ^ 32" and "y < 2 ^ 32" and "z < 2 ^ 32"
  shows "ldn m (a + 64) 4 = Ret x" and "ldn m (a + 68) 4 = Ret y" and "ldn m (a + 72) 4 = Ret z" and "bytes_at m (a + 76) rest"
proof -
  have "bytes_at m (a + 64) (le_bytes x 4)" "bytes_at m (a + 68) (le_bytes y 4)" "bytes_at m (a + 72) (le_bytes z 4)"
      "bytes_at m (a + 76) rest"
    using b assms(2) by (simp_all add: bytes_at_append add.assoc)
  then show "ldn m (a + 64) 4 = Ret x" and "ldn m (a + 68) 4 = Ret y" and "ldn m (a + 72) 4 = Ret z" and "bytes_at m (a + 76) rest"
    using assms(3-5) ldn_le_bytes [of m _ _ 4] by auto
qed

lemma ldn_array:
  "bytes_at m a (concat (map (\<lambda>x. le_bytes x 4) xs)) \<Longrightarrow> i < length xs \<Longrightarrow> xs ! i < 2 ^ 32 \<Longrightarrow>
   ldn m (a + 4 * i) 4 = Ret (xs ! i)"
proof (induction xs arbitrary: a i)
  case (Cons x xs)
  then have b: "bytes_at m a (le_bytes x 4)" "bytes_at m (a + 4) (concat (map (\<lambda>x. le_bytes x 4) xs))"
    by (simp_all add: bytes_at_append)
  show ?case
  proof (cases i)
    case 0
    then show ?thesis using ldn_le_bytes [OF b(1)] Cons.prems(3) by simp
  next
    case (Suc j)
    then show ?thesis using Cons.IH [OF b(2), of j] Cons.prems by (simp add: add.assoc)
  qed
qed simp

lemma cstr_field: "bytes_at m a (n @ 0 # rest) \<Longrightarrow> 0 \<notin> set n \<Longrightarrow> cstr m a n"
  by (induction n arbitrary: a) (auto simp: bytes_at_Cons)

section \<open>Finding an entry\<close>

text \<open>
  A directory as the kernel reads it: \<open>lists m dh items\<close> says that the header at \<open>dh\<close> has these
  entries. The inode number of a directory stands where a file has its magic number, and the first
  bytes of a file where a directory has its own, so neither may be taken for the other.
\<close>

record item =
  it_dir :: bool
  it_name :: cstring
  it_ino :: nat
  it_size :: nat
  it_off :: nat

definition item_at :: "mem \<Rightarrow> nat \<Rightarrow> item \<Rightarrow> bool" where
  "item_at m a x \<longleftrightarrow> cstr m a (it_name x) \<and> ld32 m (a + 64) = Ret (it_size x) \<and>
     (if it_dir x then ld32 m (a + 76) = Ret DIR_MAGIC \<and> ld32 m (a + 72) = Ret (it_ino x) \<and> it_ino x \<noteq> FILE_MAGIC
      else (\<exists>v. ld32 m (a + 76) = Ret v \<and> v \<noteq> DIR_MAGIC) \<and> ld32 m (a + 72) = Ret FILE_MAGIC \<and> ld32 m (a + 68) = Ret (it_ino x))"

definition lists :: "mem \<Rightarrow> nat \<Rightarrow> item list \<Rightarrow> bool" where
  "lists m dh xs \<longleftrightarrow> ld32 m (dh + 68) = Ret (length xs) \<and>
     (\<forall>i<length xs. ld32 m (dh + 80 + 4 * i) = Ret (it_off (xs ! i)) \<and> item_at m (dh + it_off (xs ! i)) (xs ! i))"

definition item_kind :: "item \<Rightarrow> u32" where
  "item_kind x = (if it_dir x then T_IFDIR else T_IFREG)"

lemma find_item_step:
  assumes "lists m dh xs" and "i < length xs" and "cstr m p n"
  shows "find_item m dh p i =
    (if it_name (xs ! i) = n then Ret (Some (it_ino (xs ! i), it_size (xs ! i), item_kind (xs ! i), it_off (xs ! i)))
     else find_item m dh p (i + 1))"
proof -
  let ?x = "xs ! i"
  have x: "ld32 m (dh + 68) = Ret (length xs)" "ld32 m (dh + 80 + 4 * i) = Ret (it_off ?x)" "item_at m (dh + it_off ?x) ?x"
    using assms(1,2) by (auto simp: lists_def)
  then obtain r where r: "kstrcmp_s m (dh + it_off ?x) p = Ret r" "r = 0 \<longleftrightarrow> it_name ?x = n"
    using kstrcmp_s_zero_iff [OF _ assms(3)] by (auto simp: item_at_def)
  show ?thesis
  proof (cases "it_dir ?x")
    case True
    then show ?thesis
      using x r assms(2) by (subst find_item.simps) (simp add: item_at_def item_kind_def)
  next
    case False
    moreover obtain v where "ld32 m (dh + it_off ?x + 76) = Ret v" "v \<noteq> DIR_MAGIC"
      using False x(3) by (auto simp: item_at_def)
    ultimately show ?thesis
      using x r assms(2) by (subst find_item.simps) (simp add: item_at_def item_kind_def)
  qed
qed

lemma find_item_from:
  assumes "lists m dh xs" and "cstr m p n" and "i \<le> length xs"
  shows "find_item m dh p i =
    Ret (map_option (\<lambda>x. (it_ino x, it_size x, item_kind x, it_off x)) (find (\<lambda>x. it_name x = n) (drop i xs)))"
  using assms(3)
proof (induction "length xs - i" arbitrary: i)
  case 0
  then show ?case using assms(1) by (subst find_item.simps) (simp add: lists_def)
next
  case (Suc k)
  then have i: "i < length xs" by simp
  then have "drop i xs = xs ! i # drop (i + 1) xs" by (simp add: Cons_nth_drop_Suc)
  then show ?case using find_item_step [OF assms(1) i assms(2)] Suc by simp
qed

lemma find_item_lists:
  assumes "lists m dh xs" and "cstr m p n"
  shows "find_item m dh p 0 = Ret (map_option (\<lambda>x. (it_ino x, it_size x, item_kind x, it_off x)) (find (\<lambda>x. it_name x = n) xs))"
  using find_item_from [OF assms, of 0] by simp

section \<open>Reading a file\<close>

text \<open>
  \<open>opened s file a pos content\<close>: the file is open at position \<open>pos\<close> and its bytes \<open>content\<close>
  stand at \<open>a\<close>, right behind its header.
\<close>

definition file_start :: "fpriv \<Rightarrow> nat" where
  "file_start fp = (if fp_mapped fp then fp_vstart fp else fp_pstart fp) + FILE_HDR"

definition opened :: "rstate \<Rightarrow> nat \<Rightarrow> nat \<Rightarrow> nat \<Rightarrow> u8 list \<Rightarrow> bool" where
  "opened s file a pos content \<longleftrightarrow> file \<noteq> 0 \<and> length content < 2 ^ 31 \<and> pos \<le> length content \<and>
     bytes_at (r_mem s) a content \<and>
     (\<exists>f fp d i. v_files (r_objs s) file = Some f \<and> f_pos f = of_nat pos \<and> f_private f \<noteq> 0 \<and>
        r_fpriv s (f_private f) = Some fp \<and> file_start fp = a \<and>
        f_dentry f \<noteq> 0 \<and> v_dentries (r_objs s) (f_dentry f) = Some d \<and>
        d_inode d \<noteq> 0 \<and> v_inodes (r_objs s) (d_inode d) = Some i \<and> i_size i = of_nat (length content))"

lemma bytes_at_mapped: "bytes_at m a bs \<Longrightarrow> i + n \<le> length bs \<Longrightarrow> mapped m (a + i) n"
  by (auto simp: bytes_at_def mapped_def add.assoc)

lemma bytes_at_moved_to:
  assumes "bytes_at m a bs" and "i + n \<le> length bs" and "mapped m d n"
  shows "bytes_at (moved m d (a + i) n) d (take n (drop i bs))"
  using assms by (auto simp: bytes_at_def moved_def mapped_def add.assoc)

lemma bytes_at_moved_apart:
  assumes "bytes_at m a bs" and "d + n \<le> a \<or> a + length bs \<le> d"
  shows "bytes_at (moved m d src n) a bs"
  using assms by (auto simp: bytes_at_def moved_def)

text \<open>The two comparisons of sizes, on lengths below two gigabytes.\<close>

lemma sint_small:
  assumes "n < 2 ^ 62" shows "sint (of_nat n :: u64) = int n"
proof -
  have "unat (of_nat n :: u64) = n" using assms by (simp add: unat_of_nat)
  moreover have "signed_take_bit 63 (int n) = int n" by (rule signed_take_bit_int_eq_self) (use assms in auto)
  ultimately show ?thesis by (simp add: sint_uint uint_nat)
qed

lemma u32_small: "n < 2 ^ 31 \<Longrightarrow> uint (of_nat n :: u32) = int n"
  by (simp add: uint_nat unat_of_nat)

lemma scast_small:
  assumes "n < 2 ^ 31" shows "sint (scast (of_nat n :: u32) :: u64) = int n"
proof -
  have "signed_take_bit 31 (int n) = int n" by (rule signed_take_bit_int_eq_self) (use assms in auto)
  then have "sint (of_nat n :: u32) = int n" using u32_small [OF assms] by (simp add: sint_uint)
  moreover have "sint (scast (of_nat n :: u32) :: u64) = sint (of_nat n :: u32)" by (rule sint_up_scast) (simp add: is_up)
  ultimately show ?thesis by simp
qed

section \<open>Lookup, opening and closing\<close>

definition ramfs_iops :: inode_ops where "ramfs_iops = zero_iops\<lparr> io_lookup := RF_LOOKUP \<rparr>"

definition ramfs_fops :: file_ops where
  "ramfs_fops = \<lparr> fo_read = RF_READ, fo_write = 0, fo_open = RF_OPEN, fo_close = RF_CLOSE, fo_seek = RF_SEEK \<rparr>"

lemma initramfs_inode_alloc_ok:
  assumes pool: "v_pool v = ino # fo # io # as" "ino \<noteq> 0" "fo \<noteq> 0" "io \<noteq> 0"
    and ring: "ring (v_links v) ((sb + S_INO) # inos)" and fr: "ino + I_LIST \<notin> set ((sb + S_INO) # inos)"
  shows "\<exists>h. initramfs_inode_alloc v sb = Ret (ino, v\<lparr> v_pool := as, v_iops := (v_iops v)(io \<mapsto> ramfs_iops),
      v_fops := (v_fops v)(fo \<mapsto> ramfs_fops), v_links := h,
      v_inodes := (v_inodes v)(ino \<mapsto> zero_inode\<lparr> i_fops := fo, i_iops := io, i_ino := - 1, i_count := 1, i_sb := sb \<rparr>) \<rparr>) \<and>
    ring h ((sb + S_INO) # (ino + I_LIST) # inos)"
proof -
  let ?h = "(v_links v)(ino + I_LIST \<mapsto> zero_cell)"
  have "ring ?h ((sb + S_INO) # inos)" using ring fr by (simp add: ring_def)
  then obtain h where h: "list_append ?h (sb + S_INO) (ino + I_LIST) = Ret h" "ring h ((sb + S_INO) # (ino + I_LIST) # inos)"
    using list_append_head [of ?h "sb + S_INO" inos "ino + I_LIST"] fr pool(2) by auto
  show ?thesis
    by (intro exI [of _ h])
       (use pool h in \<open>simp add: initramfs_inode_alloc_def inode_generic_alloc_def new_def upd_inode_def on_links_def
          zero_inode_def ramfs_iops_def zero_iops_def ramfs_fops_def zero_fops_def\<close>)
qed

text \<open>
  \<open>ramdir s parent base xs\<close>: the dentry is a directory of the file system whose header at \<open>base\<close>
  has the entries \<open>xs\<close>, and its superblock's list of inodes is a ring.
\<close>

definition ramdir :: "rstate \<Rightarrow> nat \<Rightarrow> nat \<Rightarrow> item list \<Rightarrow> bool" where
  "ramdir s parent base xs \<longleftrightarrow> parent \<noteq> 0 \<and> lists (r_mem s) base xs \<and>
     (\<exists>d pi inos. v_dentries (r_objs s) parent = Some d \<and> d_inode d \<noteq> 0 \<and> v_inodes (r_objs s) (d_inode d) = Some pi \<and>
        i_flags pi AND T_IFDIR \<noteq> 0 \<and> i_private pi \<noteq> 0 \<and>
        r_ipriv s (i_private pi) = Some \<lparr> ip_pstart = base, ip_vstart = base \<rparr> \<and>
        ring (v_links (r_objs s)) ((i_sb pi + S_INO) # inos) \<and>
        (\<forall>a as. v_pool (r_objs s) = a # as \<longrightarrow> a + I_LIST \<notin> set ((i_sb pi + S_INO) # inos)))"

text \<open>
  \<open>regular\<close>: a dentry of a regular file of the file system whose header is at \<open>a\<close>.
\<close>

definition regular :: "rstate \<Rightarrow> nat \<Rightarrow> nat \<Rightarrow> u8 list \<Rightarrow> bool" where
  "regular s dntr a content \<longleftrightarrow> dntr \<noteq> 0 \<and> length content < 2 ^ 31 \<and> bytes_at (r_mem s) (a + FILE_HDR) content \<and>
     (\<exists>d i ip. v_dentries (r_objs s) dntr = Some d \<and> d_inode d \<noteq> 0 \<and> v_inodes (r_objs s) (d_inode d) = Some i \<and>
        i_flags i AND T_IFREG \<noteq> 0 \<and> i_size i = of_nat (length content) \<and> i_private i \<noteq> 0 \<and> i_fops i \<noteq> 0 \<and>
        r_ipriv s (i_private i) = Some ip \<and> ip_pstart ip = a)"

lemma initramfs_open_state:
  assumes "regular s dntr a content" and pool: "v_pool (r_objs s) = file # ops # priv # as" "0 \<notin> {file, ops, priv}"
    and "v_dentries (r_objs s) dntr = Some d" and "v_inodes (r_objs s) (d_inode d) = Some i"
  shows "initramfs_file_open s dntr 2 = Ret (file, s\<lparr> r_objs := (r_objs s)\<lparr> v_pool := as,
      v_fops := (v_fops (r_objs s))(ops \<mapsto> zero_fops),
      v_files := (v_files (r_objs s))(file \<mapsto> zero_file\<lparr> f_dentry := dntr, f_private := priv, f_count := 1, f_mode := 2, f_ops := i_fops i \<rparr>),
      v_dentries := (v_dentries (r_objs s))(dntr \<mapsto> d\<lparr> d_count := d_count d + 1 \<rparr>) \<rparr>,
    r_fpriv := (r_fpriv s)(priv \<mapsto> \<lparr> fp_mapped = False, fp_num_mapped = 0, fp_pstart = a, fp_vstart = 0 \<rparr>) \<rparr>)"
  using assms
  by (auto simp: regular_def initramfs_file_open_def file_generic_alloc_def on_r_def on_r1_def new_def upd_file_def
      upd_dentry_def zero_file_def)

lemma initramfs_open_reads:
  assumes r: "regular s dntr a content" and pool: "v_pool (r_objs s) = file # ops # priv # as" "0 \<notin> {file, ops, priv}"
  shows "\<exists>s'. initramfs_file_open s dntr 2 = Ret (file, s') \<and> opened s' file (a + FILE_HDR) 0 content"
proof -
  obtain d i where d: "v_dentries (r_objs s) dntr = Some d" "v_inodes (r_objs s) (d_inode d) = Some i"
    using r by (auto simp: regular_def)
  show ?thesis
    by (rule exI, rule conjI, rule initramfs_open_state [OF r pool d])
       (use r pool d in \<open>auto simp: regular_def opened_def file_start_def zero_file_def\<close>)
qed

text \<open>
  For the witnesses: a directory header at 256 with one file \<open>a\<close> of four bytes behind it, the
  string \<open>a\<close> at 128 and a buffer of eight bytes at 64. The dentry 16 is the directory, 800 a
  regular file, and 912 is that file when it is open.
\<close>

definition demo_image :: "u8 list" where
  "demo_image = ([100] @ replicate 63 0) @ le_bytes 80 4 @ le_bytes 1 4 @ le_bytes 2 4 @
     le_bytes DIR_MAGIC 4 @ concat (map (\<lambda>x. le_bytes x 4) [100, 0, 0, 0, 0]) @
     ([97] @ replicate 63 0) @ le_bytes 4 4 @ le_bytes 3 4 @ le_bytes FILE_MAGIC 4 @ [1, 2, 3, 4]"

definition demo_rmem :: mem where
  "demo_rmem = (\<lambda>p. if 256 \<le> p \<and> p < 436 then Some (demo_image ! (p - 256))
     else if p = 128 then Some 97 else if p = 129 then Some 0 else if 64 \<le> p \<and> p < 72 then Some 0 else None)"

definition demo_ram :: rstate where
  "demo_ram = \<lparr> r_objs = demo_vfs\<lparr> v_dentries := [16 \<mapsto> zero_dentry\<lparr> d_inode := 32 \<rparr>, 800 \<mapsto> zero_dentry\<lparr> d_inode := 832, d_count := 1 \<rparr>],
       v_inodes := [32 \<mapsto> zero_inode\<lparr> i_flags := T_IFDIR, i_private := 48, i_sb := 512 \<rparr>,
                    832 \<mapsto> zero_inode\<lparr> i_flags := T_IFREG, i_private := 864, i_size := 4, i_fops := 896 \<rparr>],
       v_fops := [896 \<mapsto> ramfs_fops],
       v_files := [912 \<mapsto> zero_file\<lparr> f_dentry := 800, f_private := 928, f_pos := 1, f_count := 1, f_ops := 896 \<rparr>],
       v_links := [512 + S_INO \<mapsto> \<lparr> lh_next = 512 + S_INO, lh_prev = 512 + S_INO \<rparr>],
       v_pool := [600, 640, 680, 720] \<rparr>,
     r_mem = demo_rmem,
     r_ipriv = [48 \<mapsto> \<lparr> ip_pstart = 256, ip_vstart = 256 \<rparr>, 864 \<mapsto> \<lparr> ip_pstart = 356, ip_vstart = 0 \<rparr>],
     r_fpriv = [928 \<mapsto> \<lparr> fp_mapped = False, fp_num_mapped = 0, fp_pstart = 356, fp_vstart = 0 \<rparr>],
     r_spriv = Map.empty \<rparr>"

lemma demo_image_at: "bytes_at demo_rmem 256 demo_image"
proof -
  have "length demo_image = 180" by (simp add: demo_image_def)
  then show ?thesis by (simp add: bytes_at_def demo_rmem_def)
qed

lemma demo_file_at: "bytes_at demo_rmem 356 (([97] @ replicate 63 0) @ le_bytes 4 4 @ le_bytes 3 4 @ le_bytes FILE_MAGIC 4 @ [1, 2, 3, 4])"
  using demo_image_at bytes_at_drop [of demo_rmem 256 "([100] @ replicate 63 0) @ le_bytes 80 4 @ le_bytes 1 4 @ le_bytes 2 4 @
      le_bytes DIR_MAGIC 4 @ concat (map (\<lambda>x. le_bytes x 4) [100, 0, 0, 0, 0])" _ 100]
  by (simp add: demo_image_def del: le_bytes.simps)

lemma demo_lists: "lists demo_rmem 256 [\<lparr> it_dir = False, it_name = [97], it_ino = 3, it_size = 4, it_off = 100 \<rparr>]"
proof -
  note dir = hdr_fields [OF demo_image_at [unfolded demo_image_def]]
  have "bytes_at demo_rmem (256 + 76) (le_bytes DIR_MAGIC 4 @ concat (map (\<lambda>x. le_bytes x 4) [100, 0, 0, 0, 0]) @
     ([97] @ replicate 63 0) @ le_bytes 4 4 @ le_bytes 3 4 @ le_bytes FILE_MAGIC 4 @ [1, 2, 3, 4])"
    by (rule dir(4)) simp_all
  then have "bytes_at demo_rmem 336 (concat (map (\<lambda>x. le_bytes x 4) [100, 0, 0, 0, 0]))"
    by (simp add: bytes_at_append del: le_bytes.simps)
  from ldn_array [OF this, of 0] have off: "ldn demo_rmem 336 4 = Ret 100" by simp
  have num: "ldn demo_rmem 324 4 = Ret 1" using dir(2) by simp
  note fl = hdr_fields [OF demo_file_at]
  have f: "ldn demo_rmem 420 4 = Ret 4" "ldn demo_rmem 424 4 = Ret 3" "ldn demo_rmem 428 4 = Ret FILE_MAGIC"
      "bytes_at demo_rmem 432 [1, 2, 3, 4]"
    using fl by (simp_all add: FILE_MAGIC_def)
  have c: "cstr demo_rmem 356 [97]"
    using cstr_field [of demo_rmem 356 "[97]"] demo_file_at by (simp add: replicate_Suc [of 62, simplified] bytes_at_Cons)
  have v: "ldn demo_rmem 432 4 = Ret 0x04030201"
  proof (rule ldn_le_bytes)
    have "le_bytes v 4 = [of_nat (v mod 256), of_nat (v div 256 mod 256), of_nat (v div 256 div 256 mod 256),
        of_nat (v div 256 div 256 div 256 mod 256)]" for v
    proof -
      have four: "4 = Suc (Suc (Suc (Suc 0)))" by simp
      show ?thesis by (simp only: four le_bytes.simps)
    qed
    then show "bytes_at demo_rmem 432 (le_bytes 0x04030201 4)" using f(4) by simp
  qed simp
  show ?thesis using off num f c v by (simp add: lists_def item_at_def DIR_MAGIC_def)
qed

lemma demo_ramdir: "ramdir demo_ram 16 256 [\<lparr> it_dir = False, it_name = [97], it_ino = 3, it_size = 4, it_off = 100 \<rparr>]"
  using demo_lists by (auto simp: ramdir_def demo_ram_def zero_dentry_def zero_inode_def ring_def cell_def S_INO_def I_LIST_def
      intro!: exI [of _ "[]"])

lemma demo_regular: "regular demo_ram 800 356 [1, 2, 3, 4]"
  using hdr_fields(4) [OF demo_file_at]
  by (simp add: regular_def demo_ram_def zero_dentry_def zero_inode_def FILE_HDR_def FILE_MAGIC_def)

lemma demo_opened: "opened demo_ram 912 432 1 [1, 2, 3, 4]"
  using hdr_fields(4) [OF demo_file_at]
  by (simp add: opened_def demo_ram_def zero_dentry_def zero_inode_def zero_file_def file_start_def FILE_HDR_def FILE_MAGIC_def)

text \<open>
  C23: a read of an open file moves the position by its offset when that stays within the file,
  else it gives \<open>-ESPIPE\<close>. From there it copies exactly the bytes of the file into the buffer and
  changes no other byte when \<open>count\<close> of them are left; otherwise it gives \<open>-E2BIG\<close> and
  changes no memory. The file stays open, and the bytes read do not move its position.
\<close>

theorem initramfs_read_correct:
  assumes f: "opened s file a pos content" and "\<bar>sint off\<bar> < 2 ^ 61" and "count < 2 ^ 61"
    and "buf \<noteq> 0" and buf: "mapped (r_mem s) buf count" and apart: "buf + count \<le> a \<or> a + length content \<le> buf"
  shows "\<exists>s'. let p = int pos + sint off in
    if p < 0 \<or> int (length content) < p then
      initramfs_file_read s file off (of_nat count) buf = Ret (- ESPIPE, s') \<and> opened s' file a pos content \<and> r_mem s' = r_mem s
    else if int (length content) < p + int count then
      initramfs_file_read s file off (of_nat count) buf = Ret (- E2BIG, s') \<and> opened s' file a (nat p) content \<and> r_mem s' = r_mem s
    else
      initramfs_file_read s file off (of_nat count) buf = Ret (int count, s') \<and> opened s' file a (nat p) content \<and>
      bytes_at (r_mem s') buf (take count (drop (nat p) content)) \<and>
      (\<forall>x. x < buf \<or> buf + count \<le> x \<longrightarrow> r_mem s' x = r_mem s x)"
proof -
  obtain f fp d i where o: "file \<noteq> 0" "length content < 2 ^ 31" "pos \<le> length content" "bytes_at (r_mem s) a content"
      "v_files (r_objs s) file = Some f" "f_pos f = of_nat pos" "f_private f \<noteq> 0" "r_fpriv s (f_private f) = Some fp"
      "file_start fp = a" "f_dentry f \<noteq> 0" "v_dentries (r_objs s) (f_dentry f) = Some d" "d_inode d \<noteq> 0"
      "v_inodes (r_objs s) (d_inode d) = Some i" "i_size i = of_nat (length content)"
    using f unfolding opened_def by blast
  define fp' where "fp' = (if fp_mapped fp then fp else fp\<lparr> fp_mapped := True, fp_num_mapped := - 1, fp_vstart := fp_pstart fp \<rparr>)"
  define s1 where "s1 = s\<lparr> r_fpriv := (r_fpriv s)(f_private f \<mapsto> fp') \<rparr>"
  have fp': "file_start fp' = a" "fp_vstart fp' + FILE_HDR = a"
    using o(9) by (auto simp: fp'_def file_start_def)
  have pos: "sint (f_pos f) = int pos" using o(2,3,6) sint_small [of pos] by simp
  have sz: "uint (i_size i) = int (length content)" using u32_small [OF o(2)] o(14) by simp
  define p where "p = int pos + sint off"
  have seek: "file_generic_seek (r_objs s) file off =
    (if 0 \<le> p \<and> p \<le> int (length content)
     then Ret (0, (r_objs s)\<lparr> v_files := (v_files (r_objs s))(file \<mapsto> f\<lparr> f_pos := of_nat (nat p) \<rparr>) \<rparr>)
     else Ret (- ESPIPE, r_objs s))"
    using seek_cases [of "r_objs s" "file" f d i off] o assms(2) pos sz by (simp add: p_def Let_def)
  show ?thesis
  proof (cases "p < 0 \<or> int (length content) < p")
    case True
    then have "initramfs_file_read s file off (of_nat count) buf = Ret (- ESPIPE, s1)"
      using o assms(4) seek by (auto simp: initramfs_file_read_def initramfs_file_seek_def on_r_def Let_def fp'_def s1_def)
    moreover have "opened s1 file a pos content" using o fp' by (auto simp: opened_def s1_def)
    ultimately show ?thesis using True by (auto simp: p_def [symmetric] s1_def Let_def intro!: exI [of _ s1])
  next
    case False
    then obtain q where q: "p = int q" "q \<le> length content" by (metis int_ops(1) nonneg_int_cases not_less of_nat_le_iff)
    define s2 where "s2 = s1\<lparr> r_objs := (r_objs s)\<lparr> v_files := (v_files (r_objs s))(file \<mapsto> f\<lparr> f_pos := of_nat q \<rparr>) \<rparr> \<rparr>"
    have s2: "opened s2 file a q content" using o fp' q by (auto simp: opened_def s1_def s2_def)
    have "count + q < 2 ^ 62" using assms(3) o(2) q(2) by simp
    then have "sint (of_nat count + of_nat q :: u64) = int (count + q)" using sint_small [of "count + q"] by simp
    then have lt: "scast (i_size i) <s (of_nat count + of_nat q :: u64) \<longleftrightarrow> length content < count + q"
      using scast_small [OF o(2)] o(14) by (simp add: word_sless_alt) linarith
    have un: "unat (of_nat q :: u64) = q" "unat (of_nat count :: u64) = count"
      using q(2) o(2) assms(3) by (simp_all add: unat_of_nat)
    have r: "initramfs_file_read s file off (of_nat count) buf =
        (if length content < count + q then Ret (- E2BIG, s2)
         else bnd (kmemcpy (r_mem s) buf (a + q) count) (\<lambda>m. Ret (int count, s2\<lparr> r_mem := m \<rparr>)))"
      using o assms(4) seek q fp'(2) lt un sint_small [of count] assms(3)
      by (simp add: initramfs_file_read_def initramfs_file_seek_def on_r_def Let_def fp'_def [symmetric] s1_def s2_def)
    show ?thesis
    proof (cases "length content < count + q")
      case True
      then show ?thesis using r s2 q by (intro exI [of _ s2]) (simp add: p_def [symmetric] Let_def s1_def s2_def)
    next
      case fits: False
      let ?m = "moved (r_mem s) buf (a + q) count" and ?s3 = "s2\<lparr> r_mem := moved (r_mem s) buf (a + q) count \<rparr>"
      have n: "q + count \<le> length content" using fits by simp
      have "kmemcpy (r_mem s) buf (a + q) count = Ret ?m"
        using bytes_at_mapped [OF o(4) n] buf apart n by (intro kmemcpy_correct) auto
      moreover have "opened ?s3 file a q content"
        using s2 bytes_at_moved_apart [OF o(4) apart] unfolding opened_def by simp
      moreover have "bytes_at ?m buf (take count (drop q content))" by (rule bytes_at_moved_to [OF o(4) n buf])
      ultimately show ?thesis using r q fits
        by (intro exI [of _ ?s3]) (auto simp: p_def [symmetric] Let_def moved_def)
    qed
  qed
qed

lemma initramfs_read_correct_witness:
  "\<exists>s'. initramfs_file_read demo_ram 912 1 2 64 = Ret (2, s') \<and> bytes_at (r_mem s') 64 [3, 4] \<and> opened s' 912 432 2 [1, 2, 3, 4]"
proof -
  have "mapped (r_mem demo_ram) 64 2" by (simp add: mapped_def demo_ram_def demo_rmem_def)
  then show ?thesis using initramfs_read_correct [OF demo_opened, of 1 2 64] by (auto simp: Let_def)
qed

text \<open>
  C22: \<open>initramfs_inode_lookup\<close> in a directory finds exactly the names of its entries. For an
  entry the new inode has its number, size and kind and the file system's operations, and its
  memory starts at the entry; for any other name the result is NULL with \<open>ENOENT\<close>.
\<close>

theorem initramfs_lookup_finds:
  assumes dir: "ramdir s parent base xs" and nm: "name \<noteq> 0" "cstr (r_mem s) name n"
    and pool: "v_pool (r_objs s) = ino # fo # io # priv # as" "0 \<notin> {ino, fo, io, priv}"
  shows "case find (\<lambda>x. it_name x = n) xs of
      None \<Rightarrow> initramfs_inode_lookup s parent name = Ret (0, s\<lparr> r_objs := (r_objs s)\<lparr> v_errno := ENOENT \<rparr> \<rparr>)
    | Some x \<Rightarrow> (\<exists>s' i. initramfs_inode_lookup s parent name = Ret (ino, s') \<and> r_mem s' = r_mem s \<and>
        v_inodes (r_objs s') ino = Some i \<and> i_ino i = sint (of_nat (it_ino x) :: u32) \<and> i_size i = of_nat (it_size x) \<and>
        i_flags i = item_kind x \<and> v_fops (r_objs s') (i_fops i) = Some ramfs_fops \<and> i_private i = priv \<and>
        (\<exists>ip. r_ipriv s' priv = Some ip \<and> ip_pstart ip = base + it_off x \<and>
           (it_dir x \<longrightarrow> ip_vstart ip = base + it_off x)))"
proof -
  obtain d pi inos where w: "parent \<noteq> 0" "lists (r_mem s) base xs" "v_dentries (r_objs s) parent = Some d" "d_inode d \<noteq> 0"
      "v_inodes (r_objs s) (d_inode d) = Some pi" "i_flags pi AND T_IFDIR \<noteq> 0" "i_private pi \<noteq> 0"
      "r_ipriv s (i_private pi) = Some \<lparr> ip_pstart = base, ip_vstart = base \<rparr>"
      "ring (v_links (r_objs s)) ((i_sb pi + S_INO) # inos)" "ino + I_LIST \<notin> set ((i_sb pi + S_INO) # inos)"
    using dir pool(1) unfolding ramdir_def by blast
  note found = find_item_lists [OF w(2) nm(2)]
  show ?thesis
  proof (cases "find (\<lambda>x. it_name x = n) xs")
    case None
    then show ?thesis using w nm found by (simp add: initramfs_inode_lookup_def on_r_def fail_def)
  next
    case (Some x)
    obtain h where h: "initramfs_inode_alloc (r_objs s) (i_sb pi) = Ret (ino, (r_objs s)\<lparr> v_pool := priv # as,
        v_iops := (v_iops (r_objs s))(io \<mapsto> ramfs_iops), v_fops := (v_fops (r_objs s))(fo \<mapsto> ramfs_fops), v_links := h,
        v_inodes := (v_inodes (r_objs s))(ino \<mapsto> zero_inode\<lparr> i_fops := fo, i_iops := io, i_ino := - 1, i_count := 1, i_sb := i_sb pi \<rparr>) \<rparr>)"
      using initramfs_inode_alloc_ok [OF pool(1) _ _ _ w(9,10)] pool(2) by auto
    show ?thesis
      using w nm found Some h pool(2)
      by (auto simp: initramfs_inode_lookup_def on_r_def on_r1_def new_def upd_inode_def place_entry_def Let_def item_kind_def)
  qed
qed

lemma initramfs_lookup_finds_witness:
  "\<exists>s' i. initramfs_inode_lookup demo_ram 16 128 = Ret (600, s') \<and> v_inodes (r_objs s') 600 = Some i \<and>
     i_ino i = 3 \<and> i_size i = 4 \<and> i_flags i = T_IFREG"
proof -
  have "cstr (r_mem demo_ram) 128 [97]" by (simp add: demo_ram_def demo_rmem_def)
  moreover have "v_pool (r_objs demo_ram) = 600 # 640 # 680 # 720 # []" by (simp add: demo_ram_def)
  ultimately show ?thesis using initramfs_lookup_finds [OF demo_ramdir, of 128 "[97]" 600 640 680 720 "[]"]
    by (auto simp: item_kind_def)
qed

text \<open>
  Opening a regular file and closing it again frees the operations of its inode, although
  the inode lives on and still points to them: opening the file a second time through
  \<open>file_open\<close> follows a dangling pointer.
\<close>

lemma initramfs_close_frees_ops:
  assumes r: "regular s dntr a content" and pool: "v_pool (r_objs s) = file # ops # priv # as" "0 \<notin> {file, ops, priv}"
    and d: "v_dentries (r_objs s) dntr = Some d" and i: "v_inodes (r_objs s) (d_inode d) = Some i"
  shows "\<exists>s1 s2. initramfs_file_open s dntr 2 = Ret (file, s1) \<and> initramfs_file_close s1 file = Ret (0, s2) \<and>
    v_inodes (r_objs s2) (d_inode d) = Some i \<and> v_fops (r_objs s2) (i_fops i) = None \<and>
    file_open call (r_objs s2) dntr mode = Halt MemFault"
  using initramfs_open_state [OF assms] r pool d i
  by (auto simp: regular_def initramfs_file_close_def file_generic_dealloc_def on_r_def upd_dentry_def zero_file_def
      file_open_def deref_def)

lemma initramfs_close_frees_ops_witness:
  "\<exists>s1 s2. initramfs_file_open demo_ram 800 2 = Ret (600, s1) \<and> initramfs_file_close s1 600 = Ret (0, s2) \<and>
    file_open (\<lambda>_ s _ _. Ret (0, s)) (r_objs s2) 800 2 = Halt MemFault"
proof -
  have "v_pool (r_objs demo_ram) = 600 # 640 # 680 # [720]" "v_dentries (r_objs demo_ram) 800 = Some (zero_dentry\<lparr> d_inode := 832, d_count := 1 \<rparr>)"
    "v_inodes (r_objs demo_ram) 832 = Some (zero_inode\<lparr> i_flags := T_IFREG, i_private := 864, i_size := 4, i_fops := 896 \<rparr>)"
    by (simp_all add: demo_ram_def)
  then show ?thesis
    using initramfs_close_frees_ops [OF demo_regular, of 600 640 680 "[720]" "zero_dentry\<lparr> d_inode := 832, d_count := 1 \<rparr>" _
      "\<lambda>_ s _ _. Ret (0, s)" 2]
    by (auto simp: zero_dentry_def)
qed

end
