(* ===== verification/Mkinitrd.thy ===== *)
theory Mkinitrd
  imports Initramfs
begin

text \<open>
  \<open>toolchain/util/mkinitrd.c\<close>, the host tool that writes the image \<open>src/fs/initramfs.c\<close> reads. An
  argument \<open>-f <file> <path>\<close> is a pair of the contents of the file, \<open>None\<close> when it cannot be
  opened, and the path. Messages are left out. \<open>None\<close> as a result is the exit with -1. The
  second half shows that the kernel finds in the image what the tool was given.
\<close>

section \<open>The tool\<close>

record mkfile =
  mf_name :: "u8 list"
  mf_size :: u32
  mf_inode :: u32
  mf_magic :: u32
  mf_data :: "u8 list option"

record mkdata =
  md_name :: "u8 list"
  md_size :: u32
  md_num :: u32
  md_inode :: u32
  md_magic :: u32
  md_offsets :: "u32 list"
  md_count :: nat
  md_files :: "mkfile list"

record mkstate =
  mk_dirs :: "mkdata list"
  mk_ndirs :: nat
  mk_ptr :: nat
  mk_off :: u32
  mk_prev :: cstring
  mk_inode :: nat

definition MAX_FILES :: nat where "MAX_FILES = 5"
definition MAX_DIRS :: nat where "MAX_DIRS = 5"
definition NAME_MAXLEN :: nat where "NAME_MAXLEN = 64"

text \<open>
  What \<open>strncpy\<close> makes of a zeroed name field. Two names compare as equal up to 64 bytes exactly
  when their fields are the same.
\<close>

definition name_field :: "cstring \<Rightarrow> u8 list" where
  "name_field s = take NAME_MAXLEN (s @ replicate NAME_MAXLEN 0)"

definition zero_mkfile :: mkfile where
  "zero_mkfile = \<lparr> mf_name = name_field [], mf_size = 0, mf_inode = 0, mf_magic = 0, mf_data = None \<rparr>"

definition zero_mkdata :: mkdata where
  "zero_mkdata = \<lparr> md_name = name_field [], md_size = 0, md_num = 0, md_inode = 0, md_magic = 0,
     md_offsets = replicate MAX_FILES 0, md_count = 0, md_files = replicate MAX_FILES zero_mkfile \<rparr>"

text \<open>The root directory has taken inode number 1.\<close>

definition mk_init :: mkstate where
  "mk_init = \<lparr> mk_dirs = replicate MAX_DIRS zero_mkdata, mk_ndirs = 0, mk_ptr = 0, mk_off = 0, mk_prev = [], mk_inode = 2 \<rparr>"

text \<open>
  The file name stands behind the last slash, the directory between the first character and the
  next slash; without one the loop runs off the string, and a longer one off its buffer.
\<close>

definition parse_path :: "cstring \<Rightarrow> (cstring \<times> cstring) outcome" where
  "parse_path path =
     (if 47 \<notin> set path \<or> 47 \<notin> set (tl path) then Halt MemFault
      else
        let dir = takeWhile (\<lambda>c. c \<noteq> 47) (tl path) in
        if length dir \<ge> NAME_MAXLEN then Halt MemFault
        else Ret (dir, rev (takeWhile (\<lambda>c. c \<noteq> 47) (rev path))))"

definition mk_select :: "mkstate \<Rightarrow> cstring \<Rightarrow> mkstate option" where
  "mk_select s cur =
     (if cur = mk_prev s then Some s
      else
        case find (\<lambda>i. md_name (mk_dirs s ! i) = name_field cur) [0..<MAX_DIRS] of
          Some i \<Rightarrow> Some (s\<lparr> mk_ptr := i \<rparr>)
        | None \<Rightarrow>
            if mk_ndirs s = MAX_DIRS then None
            else Some (s\<lparr> mk_ptr := mk_ndirs s, mk_ndirs := mk_ndirs s + 1, mk_inode := mk_inode s + 1,
                   mk_dirs := (mk_dirs s)[mk_ndirs s := (mk_dirs s ! mk_ndirs s)\<lparr> md_inode := of_nat (mk_inode s),
                     md_magic := of_nat DIR_MAGIC, md_num := 0, md_name := name_field cur \<rparr>] \<rparr>))"

text \<open>Size and number of files grow before the two checks.\<close>

definition mk_put :: "mkstate \<Rightarrow> cstring \<Rightarrow> cstring \<Rightarrow> u8 list \<Rightarrow> mkstate" where
  "mk_put s cur fname content =
     (let d = mk_dirs s ! mk_ptr s;
          d = d\<lparr> md_size := md_size d + of_nat (length content) + of_nat FILE_HDR, md_num := md_num d + 1 \<rparr>;
          s = s\<lparr> mk_prev := cur, mk_dirs := (mk_dirs s)[mk_ptr s := d] \<rparr> in
      if name_field fname \<in> mf_name ` set (md_files d) \<or> md_count d = MAX_FILES then s
      else
        let fptr = md_count d;
            off = (if fptr = 0 then of_nat DIR_HDR
                   else mk_off s + of_nat FILE_HDR + mf_size (md_files d ! (fptr - 1)));
            d = d\<lparr> md_files := (md_files d)[fptr := \<lparr> mf_name = name_field fname, mf_size = of_nat (length content),
                     mf_inode = of_nat (mk_inode s), mf_magic = of_nat FILE_MAGIC, mf_data = Some content \<rparr>],
                   md_offsets := (md_offsets d)[fptr := off], md_count := md_count d + 1 \<rparr> in
        s\<lparr> mk_dirs := (mk_dirs s)[mk_ptr s := d], mk_off := off, mk_inode := mk_inode s + 1 \<rparr>)"

definition mk_add :: "mkstate \<Rightarrow> u8 list option \<times> cstring \<Rightarrow> mkstate option outcome" where
  "mk_add s arg =
     bnd (parse_path (snd arg)) (\<lambda>(cur, fname).
     case mk_select s cur of
       None \<Rightarrow> Ret None
     | Some s \<Rightarrow> (case fst arg of None \<Rightarrow> Halt MemFault | Some content \<Rightarrow> Ret (Some (mk_put s cur fname content))))"

fun mk_args :: "mkstate \<Rightarrow> (u8 list option \<times> cstring) list \<Rightarrow> mkstate option outcome" where
  "mk_args s [] = Ret (Some s)"
| "mk_args s (a # as) =
     bnd (mk_add s a) (\<lambda>r. case r of None \<Rightarrow> Ret None | Some s \<Rightarrow> mk_args s as)"

section \<open>Writing the image\<close>

definition w32 :: "u32 \<Rightarrow> u8 list" where "w32 x = le_bytes (unat x) 4"

definition dir_header :: "mkdata \<Rightarrow> u8 list" where
  "dir_header d = md_name d @ w32 (md_size d) @ w32 (md_num d) @ w32 (md_inode d) @ w32 (md_magic d) @
     concat (map w32 (md_offsets d))"

definition file_header :: "mkfile \<Rightarrow> u8 list" where
  "file_header f = mf_name f @ w32 (mf_size f) @ w32 (mf_inode f) @ w32 (mf_magic f)"

text \<open>\<open>fopen(NULL)\<close> for a slot that was never filled, and slots behind the array, fault.\<close>

fun write_files :: "mkfile list \<Rightarrow> nat \<Rightarrow> u8 list outcome" where
  "write_files fs 0 = Ret []"
| "write_files [] (Suc n) = Halt MemFault"
| "write_files (f # fs) (Suc n) =
     (case mf_data f of
        None \<Rightarrow> Halt MemFault
      | Some c \<Rightarrow> omap (\<lambda>bs. file_header f @ c @ bs) (write_files fs n))"

fun write_dirs :: "mkdata list \<Rightarrow> u8 list outcome" where
  "write_dirs [] = Ret []"
| "write_dirs (d # ds) =
     bnd (write_files (md_files d) (unat (md_num d))) (\<lambda>bs. omap (\<lambda>rest. dir_header d @ bs @ rest) (write_dirs ds))"

text \<open>The offset of each directory adds the size of the directory before the one last used.\<close>

fun root_offsets :: "mkstate \<Rightarrow> u32 list \<Rightarrow> nat list \<Rightarrow> u32 list outcome" where
  "root_offsets s offs [] = Ret offs"
| "root_offsets s offs (i # is) =
     (if mk_ptr s = 0 then Halt MemFault
      else root_offsets s (offs[i := offs ! (i - 1) + of_nat DIR_HDR + md_size (mk_dirs s ! (mk_ptr s - 1))]) is)"

definition mk_write :: "mkstate \<Rightarrow> u8 list outcome" where
  "mk_write s =
     (let ds = take (mk_ndirs s) (mk_dirs s) in
      bnd (write_dirs ds) (\<lambda>body.
      bnd (root_offsets s ((replicate MAX_FILES 0)[0 := of_nat DIR_HDR]) [1..<mk_ndirs s]) (\<lambda>offs.
      Ret (w32 (sum_list (map md_size ds)) @ w32 (of_nat HEADER_MAGIC) @ w32 0 @ concat (replicate MAX_DIRS (w32 0)) @
           dir_header \<lparr> md_name = name_field [47], md_size = of_nat (DIR_HDR * mk_ndirs s), md_num = of_nat (mk_ndirs s),
             md_inode = 1, md_magic = of_nat DIR_MAGIC, md_offsets = offs, md_count = 0, md_files = [] \<rparr> @ body))))"

definition mkinitrd :: "(u8 list option \<times> cstring) list \<Rightarrow> u8 list option outcome" where
  "mkinitrd args =
     (if args = [] then Ret None
      else bnd (mk_args mk_init args) (\<lambda>r. case r of None \<Rightarrow> Ret None | Some s \<Rightarrow> omap Some (mk_write s)))"

section \<open>The state the arguments build\<close>

text \<open>
  The tool is given whole directories one after the other: \<open>G\<close> is the list of directories with
  the names and contents of their files. \<open>built s G\<close> relates its state to them.
\<close>

type_synonym tree = "(cstring \<times> (cstring \<times> u8 list) list) list"

definition name_ok :: "cstring \<Rightarrow> bool" where
  "name_ok n \<longleftrightarrow> n \<noteq> [] \<and> length n < NAME_MAXLEN \<and> 0 \<notin> set n \<and> 47 \<notin> set n"

definition path_of :: "cstring \<Rightarrow> cstring \<Rightarrow> cstring" where
  "path_of d n = 47 # d @ 47 # n"

lemma parse_path_of: "name_ok d \<Longrightarrow> name_ok n \<Longrightarrow> parse_path (path_of d n) = Ret (d, n)"
proof -
  assume ok: "name_ok d" "name_ok n"
  then have "takeWhile (\<lambda>c. c \<noteq> 47) (d @ 47 # n) = d" by (subst takeWhile_append2) (auto simp: name_ok_def)
  moreover have "takeWhile (\<lambda>c. c \<noteq> 47) (rev (path_of d n)) = rev n"
    unfolding path_of_def by simp (subst takeWhile_append2, use ok in \<open>auto simp: name_ok_def\<close>)
  ultimately show ?thesis using ok by (simp add: parse_path_def path_of_def name_ok_def)
qed

lemma name_field_eq: "length n < NAME_MAXLEN \<Longrightarrow> name_field n = n @ 0 # replicate (NAME_MAXLEN - 1 - length n) 0"
  by (simp add: name_field_def NAME_MAXLEN_def flip: replicate_Suc)

lemma length_name_field [simp]: "length (name_field n) = 64"
  by (simp add: name_field_def NAME_MAXLEN_def)

lemma name_field_back: "length n < NAME_MAXLEN \<Longrightarrow> 0 \<notin> set n \<Longrightarrow> takeWhile (\<lambda>c. c \<noteq> 0) (name_field n) = n"
  by (simp add: name_field_eq, subst takeWhile_append2) auto

lemma name_field_inj: "name_ok n \<Longrightarrow> name_ok n' \<or> n' = [] \<Longrightarrow> name_field n = name_field n' \<longleftrightarrow> n = n'"
proof -
  assume "name_ok n" "name_ok n' \<or> n' = []"
  then have "length n < NAME_MAXLEN" "0 \<notin> set n" "length n' < NAME_MAXLEN" "0 \<notin> set n'"
    by (auto simp: name_ok_def NAME_MAXLEN_def)
  then show ?thesis using name_field_back by metis
qed

definition body_size :: "(cstring \<times> u8 list) list \<Rightarrow> nat" where
  "body_size fs = (\<Sum>x\<leftarrow>fs. FILE_HDR + length (snd x))"

definition entry_off :: "(cstring \<times> u8 list) list \<Rightarrow> nat \<Rightarrow> nat" where
  "entry_off fs k = DIR_HDR + body_size (take k fs)"

lemma body_size_simps [simp]: "body_size [] = 0" "body_size (fs @ [x]) = body_size fs + FILE_HDR + length (snd x)"
  by (simp_all add: body_size_def)

definition file_built :: "mkfile \<Rightarrow> cstring \<times> u8 list \<Rightarrow> bool" where
  "file_built f x \<longleftrightarrow> mf_name f = name_field (fst x) \<and> mf_size f = of_nat (length (snd x)) \<and>
     mf_magic f = of_nat FILE_MAGIC \<and> mf_data f = Some (snd x)"

definition dir_built :: "mkdata \<Rightarrow> cstring \<times> (cstring \<times> u8 list) list \<Rightarrow> bool" where
  "dir_built d g \<longleftrightarrow> md_name d = name_field (fst g) \<and> md_num d = of_nat (length (snd g)) \<and> md_count d = length (snd g) \<and>
     md_size d = of_nat (body_size (snd g)) \<and> md_magic d = of_nat DIR_MAGIC \<and> unat (md_inode d) < 64 \<and>
     length (md_offsets d) = 5 \<and> length (md_files d) = 5 \<and> length (snd g) \<le> 5 \<and>
     (\<forall>k<length (snd g). md_offsets d ! k = of_nat (entry_off (snd g) k) \<and> file_built (md_files d ! k) (snd g ! k)) \<and>
     (\<forall>k<5. length (snd g) \<le> k \<longrightarrow> md_files d ! k = zero_mkfile)"

definition built :: "mkstate \<Rightarrow> tree \<Rightarrow> bool" where
  "built s G \<longleftrightarrow> length (mk_dirs s) = 5 \<and> mk_ndirs s = length G \<and> length G \<le> 5 \<and>
     (\<forall>i<length G. dir_built (mk_dirs s ! i) (G ! i)) \<and> (\<forall>i<5. length G \<le> i \<longrightarrow> mk_dirs s ! i = zero_mkdata) \<and>
     mk_inode s = 2 + length G + (\<Sum>g\<leftarrow>G. length (snd g)) \<and>
     (G \<noteq> [] \<longrightarrow> mk_ptr s = length G - 1 \<and>
        (snd (last G) \<noteq> [] \<longrightarrow> mk_off s = of_nat (entry_off (snd (last G)) (length (snd (last G)) - 1))))"

lemma built_inode: "built s G \<Longrightarrow> mk_inode s \<le> 32"
proof -
  assume b: "built s G"
  have "\<forall>g\<in>set G. length (snd g) \<le> 5"
  proof
    fix g assume "g \<in> set G"
    then obtain i where "i < length G" "g = G ! i" by (auto simp: in_set_conv_nth)
    then show "length (snd g) \<le> 5" using b by (simp add: built_def dir_built_def)
  qed
  then have "(\<Sum>g\<leftarrow>G. length (snd g)) \<le> (\<Sum>g\<leftarrow>G. 5)" by (intro sum_list_mono) simp
  then show ?thesis using b by (simp add: built_def sum_list_triv)
qed

lemma unat_small32: "n < 2 ^ 32 \<Longrightarrow> unat (of_nat n :: u32) = n"
  by (simp add: unat_of_nat)

lemma select_new:
  assumes b: "built s G" and "length G < 5" and "name_ok d" and "\<forall>g\<in>set G. name_ok (fst g) \<and> fst g \<noteq> d" and "mk_prev s \<noteq> d"
  shows "\<exists>s'. mk_select s d = Some s' \<and> built s' (G @ [(d, [])])"
proof -
  have "md_name (mk_dirs s ! i) \<noteq> name_field d" if "i < 5" for i
  proof (cases "i < length G")
    case True
    then show ?thesis using b assms(3,4) name_field_inj [of d "fst (G ! i)"] nth_mem [OF True]
      by (auto simp: built_def dir_built_def)
  next
    case False
    then show ?thesis using b that assms(3) name_field_inj [of d "[]"] by (auto simp: built_def zero_mkdata_def name_ok_def)
  qed
  then have f: "find (\<lambda>i. md_name (mk_dirs s ! i) = name_field d) [0..<MAX_DIRS] = None"
    by (auto simp: find_None_iff MAX_DIRS_def)
  define j :: u32 where "j = of_nat (mk_inode s)"
  have j: "unat j < 64" using built_inode [OF b] by (simp add: j_def unat_small32)
  let ?s = "s\<lparr> mk_ptr := mk_ndirs s, mk_ndirs := mk_ndirs s + 1, mk_inode := mk_inode s + 1,
     mk_dirs := (mk_dirs s)[mk_ndirs s := (mk_dirs s ! mk_ndirs s)\<lparr> md_inode := j,
       md_magic := of_nat DIR_MAGIC, md_num := 0, md_name := name_field d \<rparr>] \<rparr>"
  have "mk_ndirs s = length G" using b by (simp add: built_def)
  then have "mk_select s d = Some ?s"
    using f assms(2,5) by (auto simp: mk_select_def MAX_DIRS_def j_def)
  moreover have "built ?s (G @ [(d, [])])"
    using b assms(2) j
    by (auto simp: built_def nth_append dir_built_def zero_mkdata_def MAX_FILES_def less_Suc_eq nth_list_update)
  ultimately show ?thesis by blast
qed

lemma put_dir:
  assumes d: "dir_built D (d, fs)" and "length fs < 5" and j: "j = (of_nat (length c) :: u32)"
  shows "dir_built (D\<lparr> md_size := md_size D + j + of_nat FILE_HDR, md_num := md_num D + 1,
      md_files := (md_files D)[length fs := \<lparr> mf_name = name_field n, mf_size = j, mf_inode = ino, mf_magic = of_nat FILE_MAGIC,
         mf_data = Some c \<rparr>],
      md_offsets := (md_offsets D)[length fs := of_nat (DIR_HDR + body_size fs)], md_count := length fs + 1 \<rparr>)
    (d, fs @ [(n, c)])"
  using assms by (auto simp: dir_built_def less_Suc_eq nth_append nth_list_update file_built_def entry_off_def add.assoc add.commute)

lemma next_offset:
  assumes b: "built s (G @ [(d, fs)])" and "fs \<noteq> []"
  shows "mk_off s + of_nat FILE_HDR + mf_size (md_files (mk_dirs s ! length G) ! (length fs - 1)) = of_nat (DIR_HDR + body_size fs)"
proof -
  obtain gs x where fs: "fs = gs @ [x]" using assms(2) by (cases fs rule: rev_cases) auto
  have "mk_off s = of_nat (entry_off fs (length fs - 1))" using assms by (auto simp: built_def)
  moreover have "dir_built (mk_dirs s ! length G) (d, fs)" using b by (auto simp: built_def nth_append)
  then have "mf_size (md_files (mk_dirs s ! length G) ! (length fs - 1)) = of_nat (length (snd x))"
    by (auto simp: dir_built_def fs file_built_def)
  ultimately show ?thesis by (simp add: fs entry_off_def add_ac)
qed

lemma put_file:
  assumes b: "built s (G @ [(d, fs)])" and "length fs < 5" and "name_ok n" and "\<forall>x\<in>set fs. name_ok (fst x) \<and> fst x \<noteq> n"
  shows "built (mk_put s d n c) (G @ [(d, fs @ [(n, c)])]) \<and> mk_prev (mk_put s d n c) = d"
proof -
  let ?D = "mk_dirs s ! length G"
  have db: "dir_built ?D (d, fs)" and ptr: "mk_ptr s = length G" and lens: "length (mk_dirs s) = 5" "length G < 5"
    using b by (auto simp: built_def nth_append)
  have "mf_name (md_files ?D ! k) \<noteq> name_field n" if "k < 5" for k
  proof (cases "k < length fs")
    case True
    then show ?thesis using db assms(3,4) name_field_inj [of n "fst (fs ! k)"] nth_mem [OF True]
      by (auto simp: dir_built_def file_built_def)
  next
    case False
    then show ?thesis using db that assms(3) name_field_inj [of n "[]"]
      by (auto simp: dir_built_def zero_mkfile_def name_ok_def)
  qed
  then have nn: "name_field n \<notin> mf_name ` set (md_files ?D)"
    using db by (fastforce simp: dir_built_def in_set_conv_nth)
  define off where "off = (of_nat (DIR_HDR + body_size fs) :: u32)"
  have off: "(if fs = [] then of_nat DIR_HDR
      else mk_off s + of_nat FILE_HDR + mf_size (md_files ?D ! (length fs - 1))) = off"
    using next_offset [OF b] by (simp add: off_def)
  define j where "j = (of_nat (length c) :: u32)"
  let ?D' = "?D\<lparr> md_size := md_size ?D + j + of_nat FILE_HDR, md_num := md_num ?D + 1,
      md_files := (md_files ?D)[length fs := \<lparr> mf_name = name_field n, mf_size = j, mf_inode = of_nat (mk_inode s),
        mf_magic = of_nat FILE_MAGIC, mf_data = Some c \<rparr>],
      md_offsets := (md_offsets ?D)[length fs := off], md_count := length fs + 1 \<rparr>"
  have cnt: "md_count ?D = length fs" using db by (simp add: dir_built_def)
  have r: "mk_put s d n c = s\<lparr> mk_prev := d, mk_dirs := (mk_dirs s)[length G := ?D'], mk_off := off, mk_inode := mk_inode s + 1 \<rparr>"
    using nn assms(2) off ptr lens cnt
    by (cases "fs = []") (simp_all add: mk_put_def Let_def MAX_FILES_def j_def)
  have "dir_built ?D' (d, fs @ [(n, c)])" unfolding off_def by (rule put_dir [OF db assms(2) j_def])
  then show ?thesis unfolding r using b lens ptr
    by (auto simp: built_def nth_append less_Suc_eq nth_list_update off_def entry_off_def)
qed

text \<open>The arguments for the files of one directory, and for a tree.\<close>

definition dir_args :: "cstring \<Rightarrow> (cstring \<times> u8 list) list \<Rightarrow> (u8 list option \<times> cstring) list" where
  "dir_args d fs = map (\<lambda>x. (Some (snd x), path_of d (fst x))) fs"

definition args_of :: "tree \<Rightarrow> (u8 list option \<times> cstring) list" where
  "args_of G = concat (map (\<lambda>g. dir_args (fst g) (snd g)) G)"

definition content_ok :: "u8 list \<Rightarrow> bool" where
  "content_ok c \<longleftrightarrow> length c \<ge> 4 \<and> take 4 c \<noteq> le_bytes DIR_MAGIC 4"

definition files_ok :: "(cstring \<times> u8 list) list \<Rightarrow> bool" where
  "files_ok fs \<longleftrightarrow> fs \<noteq> [] \<and> length fs \<le> 5 \<and> distinct (map fst fs) \<and> (\<forall>x\<in>set fs. name_ok (fst x) \<and> content_ok (snd x))"

definition tree_ok :: "tree \<Rightarrow> bool" where
  "tree_ok G \<longleftrightarrow> G \<noteq> [] \<and> length G \<le> 5 \<and> distinct (map fst G) \<and> (\<forall>g\<in>set G. name_ok (fst g) \<and> files_ok (snd g)) \<and>
     DISK_HDR + DIR_HDR + (\<Sum>g\<leftarrow>G. DIR_HDR + body_size (snd g)) < 2 ^ 31"

lemma args_more:
  assumes "built s (G @ [(d, fs)])" and "mk_prev s = d" and "name_ok d" and "files_ok (fs @ gs)"
  shows "\<exists>s'. mk_args s (dir_args d gs @ rest) = mk_args s' rest \<and> built s' (G @ [(d, fs @ gs)]) \<and> mk_prev s' = d"
  using assms
proof (induction gs arbitrary: s fs)
  case Nil
  then show ?case by (auto simp: dir_args_def)
next
  case (Cons x gs)
  obtain n c where x: "x = (n, c)" by (cases x)
  have ok: "name_ok n" "length fs < 5" "\<forall>y\<in>set fs. name_ok (fst y) \<and> fst y \<noteq> n"
    using Cons.prems(4) x by (auto simp: files_ok_def)
  let ?s = "mk_put s d n c"
  have put: "built ?s (G @ [(d, fs @ [x])])" "mk_prev ?s = d"
    using put_file [OF Cons.prems(1) ok(2,1,3)] x by auto
  have "mk_add s (Some c, path_of d n) = Ret (Some ?s)"
    using parse_path_of [OF assms(3) ok(1)] Cons.prems(2) by (simp add: mk_add_def mk_select_def)
  moreover have "files_ok ((fs @ [x]) @ gs)" using Cons.prems(4) by simp
  ultimately show ?case using Cons.IH [OF put Cons.prems(3)] x by (simp add: dir_args_def)
qed

lemma args_group:
  assumes b: "built s G" and "length G < 5" and ok: "name_ok d" "files_ok fs"
    and "\<forall>g\<in>set G. name_ok (fst g) \<and> fst g \<noteq> d" and "mk_prev s \<noteq> d"
  shows "\<exists>s'. mk_args s (dir_args d fs @ rest) = mk_args s' rest \<and> built s' (G @ [(d, fs)]) \<and> mk_prev s' = d"
proof -
  obtain n c gs where fs: "fs = (n, c) # gs" using ok(2) by (cases fs) (auto simp: files_ok_def)
  then have n: "name_ok n" using ok(2) by (simp add: files_ok_def)
  obtain s1 where s1: "mk_select s d = Some s1" "built s1 (G @ [(d, [])])"
    using select_new [OF b assms(2) ok(1) assms(5,6)] by blast
  let ?s = "mk_put s1 d n c"
  have put: "built ?s (G @ [(d, [(n, c)])])" "mk_prev ?s = d"
    using put_file [OF s1(2) _ n] by auto
  have "mk_add s (Some c, path_of d n) = Ret (Some ?s)"
    using parse_path_of [OF ok(1) n] s1(1) by (simp add: mk_add_def)
  moreover have "files_ok ([(n, c)] @ gs)" using ok(2) fs by simp
  ultimately show ?thesis using args_more [OF put ok(1), of gs rest] fs by (simp add: dir_args_def)
qed

lemma args_tree:
  assumes "built s H" and "length (H @ G) \<le> 5" and "distinct (map fst (H @ G))"
    and "\<forall>g\<in>set (H @ G). name_ok (fst g)" and "\<forall>g\<in>set G. files_ok (snd g)"
    and "mk_prev s = (if H = [] then [] else fst (last H))"
  shows "\<exists>s'. mk_args s (args_of G) = Ret (Some s') \<and> built s' (H @ G)"
  using assms
proof (induction G arbitrary: s H)
  case Nil
  then show ?case by (simp add: args_of_def)
next
  case (Cons g G)
  obtain d fs where g: "g = (d, fs)" by (cases g)
  have "mk_prev s \<noteq> d" using Cons.prems(3,4,6) g by (cases H rule: rev_cases) (auto simp: name_ok_def)
  moreover have "d \<notin> fst ` set H" using Cons.prems(3) g by simp
  then have "\<forall>h\<in>set H. name_ok (fst h) \<and> fst h \<noteq> d" using Cons.prems(4) by auto
  ultimately obtain s1 where s1: "mk_args s (dir_args d fs @ args_of G) = mk_args s1 (args_of G)"
      "built s1 (H @ [(d, fs)])" "mk_prev s1 = d"
    using args_group [OF Cons.prems(1), of d fs "args_of G"] Cons.prems g by auto
  have "\<exists>s'. mk_args s1 (args_of G) = Ret (Some s') \<and> built s' ((H @ [g]) @ G)"
  proof (rule Cons.IH)
    show "built s1 (H @ [g])" and "mk_prev s1 = (if H @ [g] = [] then [] else fst (last (H @ [g])))"
      using s1(2,3) g by simp_all
  qed (use Cons.prems in simp_all)
  then show ?case using s1(1) g by (simp add: args_of_def)
qed

lemma built_init: "built mk_init []"
  by (simp add: built_def mk_init_def MAX_DIRS_def)

section \<open>What is written\<close>

text \<open>One file and one directory in the image.\<close>

definition file_bytes :: "mkfile \<Rightarrow> u8 list" where
  "file_bytes f = file_header f @ the (mf_data f)"

definition dir_bytes :: "mkdata \<Rightarrow> u8 list" where
  "dir_bytes d = dir_header d @ concat (map file_bytes (take (md_count d) (md_files d)))"

lemma write_files_ok:
  "n \<le> length fs \<Longrightarrow> \<forall>k<n. mf_data (fs ! k) \<noteq> None \<Longrightarrow> write_files fs n = Ret (concat (map file_bytes (take n fs)))"
proof (induction fs n rule: write_files.induct)
  case (3 f fs n)
  have "\<forall>k<n. mf_data (fs ! k) \<noteq> None" using 3(3) by (auto dest: spec [of _ "Suc _"])
  then show ?case using 3 by (auto simp: file_bytes_def)
qed auto

lemma write_dirs_ok:
  assumes "list_all2 dir_built ds G"
  shows "write_dirs ds = Ret (concat (map dir_bytes ds))"
  using assms
proof (induction ds arbitrary: G)
  case (Cons d ds)
  then obtain g G' where G: "G = g # G'" "dir_built d g" "list_all2 dir_built ds G'" by (auto simp: list_all2_Cons1)
  have "unat (md_num d) = md_count d" "md_count d \<le> length (md_files d)" "\<forall>k<md_count d. mf_data (md_files d ! k) \<noteq> None"
    using G(2) by (auto simp: dir_built_def unat_small32 file_built_def)
  then show ?case using write_files_ok [of "md_count d" "md_files d"] Cons.IH [OF G(3)] by (simp add: dir_bytes_def)
qed simp

lemma length_w32 [simp]: "length (w32 x) = 4"
  by (simp add: w32_def)

lemma length_offsets: "length (concat (map w32 xs)) = 4 * length xs"
  by (induction xs) auto

lemma length_dir_header: "length (md_name d) = 64 \<Longrightarrow> length (md_offsets d) = 5 \<Longrightarrow> length (dir_header d) = DIR_HDR"
  by (simp add: dir_header_def DIR_HDR_def length_offsets)

lemma length_file_bytes: "file_built f x \<Longrightarrow> length (file_bytes f) = FILE_HDR + length (snd x)"
  by (simp add: file_built_def file_bytes_def file_header_def FILE_HDR_def)

text \<open>Where the parts of a concatenation stand.\<close>

lemma bytes_at_concat:
  "bytes_at m a (concat xs) \<Longrightarrow> i < length xs \<Longrightarrow> bytes_at m (a + (\<Sum>x\<leftarrow>take i xs. length x)) (xs ! i)"
proof (induction xs arbitrary: a i)
  case (Cons x xs)
  show ?case
  proof (cases i)
    case (Suc j)
    then show ?thesis using Cons.IH [of "a + length x" j] Cons.prems by (simp add: bytes_at_append add.assoc)
  qed (use Cons.prems in \<open>simp add: bytes_at_append\<close>)
qed simp

text \<open>A word read back, and four bytes of a file read as a magic number.\<close>

lemma ldn_w32: "bytes_at m a (w32 x) \<Longrightarrow> ldn m a 4 = Ret (unat x)"
  unfolding w32_def using unsigned_less [of x] by (intro ldn_le_bytes) simp_all

lemma ldn_some: "bytes_at m a bs \<Longrightarrow> \<exists>v. ldn m a (length bs) = Ret v \<and> le_bytes v (length bs) = bs"
proof (induction bs arbitrary: a)
  case (Cons b bs)
  then obtain v where v: "ldn m (a + 1) (length bs) = Ret v" "le_bytes v (length bs) = bs" "ld m a = Ret b"
    by (auto simp: bytes_at_Cons ld_def)
  have "unat b < 256" using unsigned_less [of b] by simp
  then have "(unat b + 256 * v) mod 256 = unat b" "(unat b + 256 * v) div 256 = v" by simp_all
  then show ?case using v by (simp add: ld_def)
qed simp

lemma not_dir_magic:
  assumes "bytes_at m a c" and "content_ok c"
  shows "\<exists>v. ldn m a 4 = Ret v \<and> v \<noteq> DIR_MAGIC"
proof -
  have "bytes_at m a (take 4 c)" using assms(1) bytes_at_append [of m a "take 4 c" "drop 4 c"] by simp
  moreover have "length (take 4 c) = 4" using assms(2) by (simp add: content_ok_def)
  ultimately show ?thesis using ldn_some [of m a "take 4 c"] assms(2) by (auto simp: content_ok_def)
qed

lemma dir_header_reads:
  assumes b: "bytes_at m a (dir_header d)" and "length (md_name d) = 64"
  shows "ldn m (a + 64) 4 = Ret (unat (md_size d))" and "ldn m (a + 68) 4 = Ret (unat (md_num d))"
    and "ldn m (a + 72) 4 = Ret (unat (md_inode d))" and "ldn m (a + 76) 4 = Ret (unat (md_magic d))"
    and "i < length (md_offsets d) \<Longrightarrow> ldn m (a + 80 + 4 * i) 4 = Ret (unat (md_offsets d ! i))"
    and "bytes_at m a (md_name d)"
proof -
  let ?offs = "concat (map w32 (md_offsets d))"
  have w: "bytes_at m (a + 64) (w32 (md_size d))" "bytes_at m (a + 68) (w32 (md_num d))"
      "bytes_at m (a + 72) (w32 (md_inode d))" "bytes_at m (a + 76) (w32 (md_magic d))"
      "bytes_at m (a + 80) ?offs" "bytes_at m a (md_name d)"
    using b assms(2) by (simp_all add: dir_header_def bytes_at_append add.assoc)
  show "ldn m (a + 64) 4 = Ret (unat (md_size d))" and "ldn m (a + 68) 4 = Ret (unat (md_num d))"
    and "ldn m (a + 72) 4 = Ret (unat (md_inode d))" and "ldn m (a + 76) 4 = Ret (unat (md_magic d))"
    and "bytes_at m a (md_name d)"
    using w by (simp_all add: ldn_w32)
  show "ldn m (a + 80 + 4 * i) 4 = Ret (unat (md_offsets d ! i))" if i: "i < length (md_offsets d)"
  proof -
    have "?offs = concat (map (\<lambda>x. le_bytes x 4) (map unat (md_offsets d)))"
      by (rule arg_cong [of _ _ concat]) (simp add: w32_def)
    then show ?thesis using ldn_array [of m "a + 80" "map unat (md_offsets d)" i] w(5) i
        unsigned_less [of "md_offsets d ! i"] by simp
  qed
qed

lemma cstr_name: "name_ok n \<Longrightarrow> bytes_at m a (name_field n) \<Longrightarrow> cstr m a n"
  by (rule cstr_field [of m a n]) (auto simp: name_ok_def name_field_eq)

definition dir_item :: "mkdata \<Rightarrow> cstring \<times> (cstring \<times> u8 list) list \<Rightarrow> nat \<Rightarrow> item" where
  "dir_item d g off = \<lparr> it_dir = True, it_name = fst g, it_ino = unat (md_inode d), it_size = body_size (snd g), it_off = off \<rparr>"

definition file_item :: "mkdata \<Rightarrow> (cstring \<times> u8 list) list \<Rightarrow> nat \<Rightarrow> item" where
  "file_item d fs k = \<lparr> it_dir = False, it_name = fst (fs ! k), it_ino = unat (mf_inode (md_files d ! k)),
     it_size = length (snd (fs ! k)), it_off = entry_off fs k \<rparr>"

lemma dir_item_at:
  assumes "dir_built d g" and "name_ok (fst g)" and "body_size (snd g) < 2 ^ 32" and "bytes_at m a (dir_header d)"
  shows "item_at m a (dir_item d g off)"
proof -
  have l: "length (md_name d) = 64" using assms(1) by (simp add: dir_built_def)
  note r = dir_header_reads [OF assms(4) l]
  show ?thesis using assms(1-3) r cstr_name [of "fst g" m a]
    by (auto simp: item_at_def dir_item_def dir_built_def unat_small32 DIR_MAGIC_def FILE_MAGIC_def)
qed

lemma file_item_at:
  assumes f: "file_built f x" and "name_ok (fst x)" and c: "content_ok (snd x)" and "length (snd x) < 2 ^ 32"
    and b: "bytes_at m a (file_bytes f)"
  shows "item_at m a \<lparr> it_dir = False, it_name = fst x, it_ino = unat (mf_inode f), it_size = length (snd x), it_off = off \<rparr>"
    and "bytes_at m (a + FILE_HDR) (snd x)"
proof -
  have w: "bytes_at m a (mf_name f)" "bytes_at m (a + 64) (w32 (mf_size f))" "bytes_at m (a + 68) (w32 (mf_inode f))"
      "bytes_at m (a + 72) (w32 (mf_magic f))" "bytes_at m (a + 76) (snd x)"
    using b f by (simp_all add: file_bytes_def file_header_def file_built_def bytes_at_append add.assoc)
  then show "bytes_at m (a + FILE_HDR) (snd x)" by (simp add: FILE_HDR_def)
  show "item_at m a \<lparr> it_dir = False, it_name = fst x, it_ino = unat (mf_inode f), it_size = length (snd x), it_off = off \<rparr>"
    using w f assms(2,4) not_dir_magic [OF w(5) c] cstr_name [of "fst x" m a]
    by (auto simp: item_at_def file_built_def ldn_w32 unat_small32 FILE_MAGIC_def)
qed

lemma body_size_le: "k < length fs \<Longrightarrow> body_size (take k fs) + FILE_HDR + length (snd (fs ! k)) \<le> body_size fs"
proof -
  assume k: "k < length fs"
  have "fs = take k fs @ fs ! k # drop (Suc k) fs" using k by (rule id_take_nth_drop)
  then have "body_size fs = body_size (take k fs) + (FILE_HDR + length (snd (fs ! k))) + body_size (drop (Suc k) fs)"
    by (metis (no_types, lifting) body_size_def map_append list.map(2) sum_list.append sum_list.Cons add.assoc)
  then show ?thesis by simp
qed

lemma dir_lists:
  assumes d: "dir_built d (n, fs)" and ok: "files_ok fs" and sz: "DIR_HDR + body_size fs < 2 ^ 31" and b: "bytes_at m a (dir_bytes d)"
  shows "lists m a (map (file_item d fs) [0..<length fs])"
    and "k < length fs \<Longrightarrow> bytes_at m (a + entry_off fs k + FILE_HDR) (snd (fs ! k))"
proof -
  have dd: "length (md_name d) = 64" "length (md_offsets d) = 5" "length (md_files d) = 5" "length fs \<le> 5" "md_count d = length fs"
      "unat (md_num d) = length fs"
    using d by (simp_all add: dir_built_def unat_small32)
  have h: "bytes_at m a (dir_header d)" and body: "bytes_at m (a + DIR_HDR) (concat (map file_bytes (take (length fs) (md_files d))))"
    using b dd length_dir_header [of d] by (simp_all add: dir_bytes_def bytes_at_append)
  note r = dir_header_reads [OF h dd(1)]
  have fl: "bytes_at m (a + entry_off fs k) (file_bytes (md_files d ! k))" "file_built (md_files d ! k) (fs ! k)"
      "unat (md_offsets d ! k) = entry_off fs k" "length (snd (fs ! k)) < 2 ^ 32"
    if k: "k < length fs" for k
  proof -
    have fb: "\<forall>i<length fs. file_built (md_files d ! i) (fs ! i)" and off: "md_offsets d ! k = of_nat (entry_off fs k)"
      using d k by (simp_all add: dir_built_def)
    have "(\<Sum>x\<leftarrow>take k (map file_bytes (take (length fs) (md_files d))). length x) = body_size (take k fs)"
      unfolding body_size_def
      by (rule arg_cong [of _ _ sum_list], rule nth_equalityI) (use k dd fb in \<open>auto simp: length_file_bytes\<close>)
    then show "bytes_at m (a + entry_off fs k) (file_bytes (md_files d ! k))"
      using bytes_at_concat [OF body, of k] k dd by (simp add: entry_off_def add.assoc)
    show "file_built (md_files d ! k) (fs ! k)" using fb k by simp
    have "entry_off fs k + FILE_HDR + length (snd (fs ! k)) < 2 ^ 31"
      using body_size_le [OF k] sz by (simp add: entry_off_def)
    then show "unat (md_offsets d ! k) = entry_off fs k" "length (snd (fs ! k)) < 2 ^ 32"
      using off by (simp_all add: unat_small32)
  qed
  have nm: "name_ok (fst (fs ! k))" "content_ok (snd (fs ! k))" if "k < length fs" for k
    using ok that by (simp_all add: files_ok_def)
  show "bytes_at m (a + entry_off fs k + FILE_HDR) (snd (fs ! k))" if "k < length fs"
    by (rule file_item_at(2) [OF fl(2) nm fl(4) fl(1)]) (use that in simp_all)
  have "item_at m (a + entry_off fs k) (file_item d fs k)" if "k < length fs" for k
    unfolding file_item_def by (rule file_item_at(1) [OF fl(2) nm fl(4) fl(1)]) (use that in simp_all)
  then show "lists m a (map (file_item d fs) [0..<length fs])"
    using r(2) r(5) dd fl(3) by (auto simp: lists_def) (simp add: file_item_def)+
qed

section \<open>The image read back by the kernel\<close>

lemma length_dir_bytes: "dir_built d (n, fs) \<Longrightarrow> length (dir_bytes d) = DIR_HDR + body_size fs"
proof -
  assume d: "dir_built d (n, fs)"
  have "(\<Sum>x\<leftarrow>map file_bytes (take (length fs) (md_files d)). length x) = body_size fs"
    unfolding body_size_def
    by (rule arg_cong [of _ _ sum_list], rule nth_equalityI) (use d in \<open>auto simp: dir_built_def length_file_bytes\<close>)
  then show ?thesis using d length_dir_header [of d] by (simp add: dir_bytes_def dir_built_def length_concat)
qed

text \<open>Where directory \<open>i\<close> starts, from the header of the root directory.\<close>

definition dir_off :: "tree \<Rightarrow> nat \<Rightarrow> nat" where
  "dir_off G i = DIR_HDR + (\<Sum>g\<leftarrow>take i G. DIR_HDR + body_size (snd g))"

definition root_header :: "tree \<Rightarrow> u32 list \<Rightarrow> mkdata" where
  "root_header G offs = \<lparr> md_name = name_field [47], md_size = of_nat (DIR_HDR * length G), md_num = of_nat (length G),
     md_inode = 1, md_magic = of_nat DIR_MAGIC, md_offsets = offs, md_count = 0, md_files = [] \<rparr>"

lemma root_offsets_two:
  assumes b: "built s G" and "G \<noteq> []" and "length G \<le> 2" and sz: "dir_off G (length G) < 2 ^ 31"
  shows "\<exists>offs. root_offsets s ((replicate MAX_FILES 0)[0 := of_nat DIR_HDR]) [1..<mk_ndirs s] = Ret offs \<and> length offs = 5 \<and>
    (\<forall>i<length G. unat (offs ! i) = dir_off G i)"
proof -
  have b': "mk_ndirs s = length G" "mk_ptr s = length G - 1" "dir_built (mk_dirs s ! 0) (G ! 0)"
    using b assms(2) by (auto simp: built_def)
  consider g where "G = [g]" | g h where "G = [g, h]"
    using assms(2,3) by (cases G; cases "tl G") auto
  then show ?thesis
  proof cases
    case 1
    then show ?thesis using b' by (auto simp: MAX_FILES_def dir_off_def DIR_HDR_def)
  next
    case 2
    have "unat (of_nat DIR_HDR + of_nat DIR_HDR + of_nat (body_size (snd g)) :: u32) = 2 * DIR_HDR + body_size (snd g)"
      using unat_small32 [of "DIR_HDR + DIR_HDR + body_size (snd g)"] sz by (simp add: dir_off_def 2)
    then show ?thesis using b' 2
      by (auto simp: MAX_FILES_def dir_off_def DIR_HDR_def less_Suc_eq dir_built_def)
  qed
qed

lemma write_ok:
  assumes b: "built s G" and "G \<noteq> []" and "length G \<le> 2" and sz: "dir_off G (length G) < 2 ^ 31"
  shows "\<exists>hdr offs. mk_write s = Ret (hdr @ dir_header (root_header G offs) @ concat (map dir_bytes (take (length G) (mk_dirs s)))) \<and>
    length hdr = DISK_HDR \<and> length offs = 5 \<and> (\<forall>i<length G. unat (offs ! i) = dir_off G i)"
proof -
  have n: "mk_ndirs s = length G" using b by (simp add: built_def)
  have "list_all2 dir_built (take (length G) (mk_dirs s)) G"
    using b by (auto simp: list_all2_conv_all_nth built_def)
  then have w: "write_dirs (take (length G) (mk_dirs s)) = Ret (concat (map dir_bytes (take (length G) (mk_dirs s))))"
    by (rule write_dirs_ok)
  obtain offs where "root_offsets s ((replicate MAX_FILES 0)[0 := of_nat DIR_HDR]) [1..<mk_ndirs s] = Ret offs"
      "length offs = 5" "\<forall>i<length G. unat (offs ! i) = dir_off G i"
    using root_offsets_two [OF assms] by blast
  then show ?thesis
    by (intro exI [of _ "w32 (sum_list (map md_size (take (length G) (mk_dirs s)))) @ w32 (of_nat HEADER_MAGIC) @ w32 0 @
          concat (replicate MAX_DIRS (w32 0))"] exI [of _ offs])
       (use w n in \<open>simp add: mk_write_def Let_def root_header_def DISK_HDR_def MAX_DIRS_def numeral_eq_Suc\<close>)
qed

lemma root_lists:
  assumes b: "built s G" and ok: "tree_ok G" and offs: "length offs = 5" "\<forall>i<length G. unat (offs ! i) = dir_off G i"
    and at: "bytes_at m a (dir_header (root_header G offs) @ concat (map dir_bytes (take (length G) (mk_dirs s))))"
  shows "lists m a (map (\<lambda>i. dir_item (mk_dirs s ! i) (G ! i) (dir_off G i)) [0..<length G])"
    and "i < length G \<Longrightarrow> bytes_at m (a + dir_off G i) (dir_bytes (mk_dirs s ! i))"
proof -
  let ?R = "root_header G offs"
  have lens: "length (dir_bytes (mk_dirs s ! i)) = DIR_HDR + body_size (snd (G ! i))" if "i < length G" for i
    by (rule length_dir_bytes [where n = "fst (G ! i)"]) (use b that in \<open>simp add: built_def\<close>)
  have len: "length G \<le> 5" "length (mk_dirs s) = 5" and db: "\<And>i. i < length G \<Longrightarrow> dir_built (mk_dirs s ! i) (G ! i)"
    using b by (simp_all add: built_def)
  have R: "length (md_name ?R) = 64" "md_offsets ?R = offs" "unat (md_num ?R) = length G"
    using len by (simp_all add: root_header_def unat_small32)
  have h: "bytes_at m a (dir_header ?R)" and body: "bytes_at m (a + DIR_HDR) (concat (map dir_bytes (take (length G) (mk_dirs s))))"
    using at R offs(1) length_dir_header [of ?R] by (simp_all add: bytes_at_append)
  show dir: "bytes_at m (a + dir_off G i) (dir_bytes (mk_dirs s ! i))" if i: "i < length G" for i
  proof -
    have "(\<Sum>x\<leftarrow>take i (map dir_bytes (take (length G) (mk_dirs s))). length x) = (\<Sum>g\<leftarrow>take i G. DIR_HDR + body_size (snd g))"
      by (rule arg_cong [of _ _ sum_list], rule nth_equalityI)
         (use i len lens in auto)
    then show ?thesis using bytes_at_concat [OF body, of i] i len by (simp add: dir_off_def add.assoc)
  qed
  have "item_at m (a + dir_off G i) (dir_item (mk_dirs s ! i) (G ! i) (dir_off G i))" if i: "i < length G" for i
  proof (rule dir_item_at [OF db [OF i]])
    show "name_ok (fst (G ! i))" using ok i by (simp add: tree_ok_def)
    have "body_size (snd (G ! i)) \<le> (\<Sum>g\<leftarrow>G. DIR_HDR + body_size (snd g))"
      using member_le_sum_list [of "DIR_HDR + body_size (snd (G ! i))" "map (\<lambda>g. DIR_HDR + body_size (snd g)) G"] i by simp
    then show "body_size (snd (G ! i)) < 2 ^ 32" using ok by (simp add: tree_ok_def)
    show "bytes_at m (a + dir_off G i) (dir_header (mk_dirs s ! i))"
      using dir [OF i] by (simp add: dir_bytes_def bytes_at_append)
  qed
  moreover have "ldn m (a + 80 + 4 * i) 4 = Ret (dir_off G i)" if "i < length G" for i
    using dir_header_reads(5) [OF h R(1), of i] R(2) offs that len by simp
  ultimately show "lists m a (map (\<lambda>i. dir_item (mk_dirs s ! i) (G ! i) (dir_off G i)) [0..<length G])"
    using dir_header_reads(2) [OF h R(1)] R(3) by (simp add: lists_def) (simp add: dir_item_def)
qed

lemma find_unique:
  assumes "i < length xs" and "\<And>j. j < length xs \<Longrightarrow> P (xs ! j) \<longleftrightarrow> j = i"
  shows "find P xs = Some (xs ! i)"
  using assms by (auto simp: find_Some_iff intro!: exI [of _ i])

lemma distinct_fst: "distinct (map fst xs) \<Longrightarrow> i < length xs \<Longrightarrow> j < length xs \<Longrightarrow> fst (xs ! j) = fst (xs ! i) \<longleftrightarrow> j = i"
  using nth_eq_iff_index_eq [of "map fst xs" j i] by simp

text \<open>
  C9: what the tool writes the kernel reads. For a tree of at most two directories, given one
  after the other, the tool succeeds, and wherever its image lies in memory, the kernel finds each
  directory below the root and in it each file with its size, and its bytes stand behind the
  header it finds.
\<close>

theorem mkinitrd_initramfs_roundtrip:
  assumes ok: "tree_ok G" and two: "length G \<le> 2"
  shows "\<exists>img. mkinitrd (args_of G) = Ret (Some img) \<and>
    (\<forall>m base d fs p. bytes_at m base img \<longrightarrow> (d, fs) \<in> set G \<longrightarrow> cstr m p d \<longrightarrow>
      (\<exists>ino sz off. find_item m (base + DISK_HDR) p 0 = Ret (Some (ino, sz, T_IFDIR, off)) \<and>
        (\<forall>n c q. (n, c) \<in> set fs \<longrightarrow> cstr m q n \<longrightarrow>
          (\<exists>ino' off'. find_item m (base + DISK_HDR + off) q 0 = Ret (Some (ino', length c, T_IFREG, off')) \<and>
             bytes_at m (base + DISK_HDR + off + off' + FILE_HDR) c))))"
proof -
  have G: "G \<noteq> []" "length G \<le> 5" "distinct (map fst G)" "\<forall>g\<in>set G. name_ok (fst g)" "\<forall>g\<in>set G. files_ok (snd g)"
    and sz: "dir_off G (length G) < 2 ^ 31"
    using ok by (simp_all add: tree_ok_def dir_off_def)
  obtain s where s: "mk_args mk_init (args_of G) = Ret (Some s)" "built s G"
    using args_tree [OF built_init, of G] G by (auto simp: mk_init_def)
  obtain hdr offs where w: "mk_write s = Ret (hdr @ dir_header (root_header G offs) @ concat (map dir_bytes (take (length G) (mk_dirs s))))"
      "length hdr = DISK_HDR" "length offs = 5" "\<forall>i<length G. unat (offs ! i) = dir_off G i"
    using write_ok [OF s(2) G(1) two sz] by blast
  have ne: "args_of G \<noteq> []" using G(1,5) by (cases G) (auto simp: args_of_def dir_args_def files_ok_def)
  let ?img = "hdr @ dir_header (root_header G offs) @ concat (map dir_bytes (take (length G) (mk_dirs s)))"
  have "mkinitrd (args_of G) = Ret (Some ?img)" using ne s(1) w(1) by (simp add: mkinitrd_def)
  moreover have "\<exists>ino sz off. find_item m (base + DISK_HDR) p 0 = Ret (Some (ino, sz, T_IFDIR, off)) \<and>
        (\<forall>n c q. (n, c) \<in> set fs \<longrightarrow> cstr m q n \<longrightarrow>
          (\<exists>ino' off'. find_item m (base + DISK_HDR + off) q 0 = Ret (Some (ino', length c, T_IFREG, off')) \<and>
             bytes_at m (base + DISK_HDR + off + off' + FILE_HDR) c))"
    if at: "bytes_at m base ?img" and g: "(d, fs) \<in> set G" and p: "cstr m p d" for m base d fs p
  proof -
    have "bytes_at m (base + DISK_HDR) (dir_header (root_header G offs) @ concat (map dir_bytes (take (length G) (mk_dirs s))))"
      using bytes_at_drop [OF at w(2)] .
    note root = root_lists [OF s(2) ok w(3,4) this]
    obtain i where i: "i < length G" "G ! i = (d, fs)" using g by (auto simp: in_set_conv_nth)
    let ?xs = "map (\<lambda>i. dir_item (mk_dirs s ! i) (G ! i) (dir_off G i)) [0..<length G]"
    have "find (\<lambda>x. it_name x = d) ?xs = Some (?xs ! i)"
      by (rule find_unique) (use i distinct_fst [OF G(3) i(1)] in \<open>simp_all add: dir_item_def\<close>)
    then have top: "find_item m (base + DISK_HDR) p 0 = Ret (Some (unat (md_inode (mk_dirs s ! i)), body_size fs, T_IFDIR, dir_off G i))"
      using find_item_lists [OF root(1) p] i by (simp add: dir_item_def item_kind_def)
    have db: "dir_built (mk_dirs s ! i) (d, fs)" using s(2) i by (auto simp: built_def)
    have fo: "files_ok fs" using G(5) g by auto
    have "DIR_HDR + body_size fs \<le> (\<Sum>g\<leftarrow>G. DIR_HDR + body_size (snd g))"
      using member_le_sum_list [of "DIR_HDR + body_size fs" "map (\<lambda>g. DIR_HDR + body_size (snd g)) G"] g by force
    then have "DIR_HDR + body_size fs < 2 ^ 31" using ok by (simp add: tree_ok_def)
    note dir = dir_lists [OF db fo this root(2) [OF i(1)]]
    have "\<exists>ino' off'. find_item m (base + DISK_HDR + dir_off G i) q 0 = Ret (Some (ino', length c, T_IFREG, off')) \<and>
             bytes_at m (base + DISK_HDR + dir_off G i + off' + FILE_HDR) c"
      if f: "(n, c) \<in> set fs" and q: "cstr m q n" for n c q
    proof -
      obtain k where k: "k < length fs" "fs ! k = (n, c)" using f by (auto simp: in_set_conv_nth)
      let ?ys = "map (file_item (mk_dirs s ! i) fs) [0..<length fs]"
      have "find (\<lambda>x. it_name x = n) ?ys = Some (?ys ! k)"
        by (rule find_unique) (use k distinct_fst [of fs k] fo in \<open>simp_all add: file_item_def files_ok_def\<close>)
      then show ?thesis
        using find_item_lists [OF dir(1) q] dir(2) [OF k(1)] k by (simp add: file_item_def item_kind_def)
    qed
    then show ?thesis using top by blast
  qed
  ultimately show ?thesis by blast
qed

text \<open>Two directories with one file each.\<close>

definition demo_files :: tree where
  "demo_files = [([97], [([98], [1, 2, 3, 4])]), ([99], [([100], [5, 6, 7, 8, 9])])]"

lemma four_bytes: "le_bytes v 4 = [of_nat (v mod 256), of_nat (v div 256 mod 256), of_nat (v div 256 div 256 mod 256),
    of_nat (v div 256 div 256 div 256 mod 256)]"
proof -
  have four: "4 = Suc (Suc (Suc (Suc 0)))" by simp
  show ?thesis by (simp only: four le_bytes.simps)
qed

lemma demo_files_ok: "tree_ok demo_files"
  by (simp add: tree_ok_def demo_files_def name_ok_def files_ok_def content_ok_def NAME_MAXLEN_def body_size_def
      DISK_HDR_def DIR_HDR_def FILE_HDR_def DIR_MAGIC_def four_bytes)

lemma mkinitrd_initramfs_roundtrip_witness:
  "\<exists>img. mkinitrd (args_of demo_files) = Ret (Some img) \<and>
    (\<forall>m base p q. bytes_at m base img \<longrightarrow> cstr m p [99] \<longrightarrow> cstr m q [100] \<longrightarrow>
      (\<exists>ino sz off ino' off'. find_item m (base + DISK_HDR) p 0 = Ret (Some (ino, sz, T_IFDIR, off)) \<and>
         find_item m (base + DISK_HDR + off) q 0 = Ret (Some (ino', 5, T_IFREG, off')) \<and>
         bytes_at m (base + DISK_HDR + off + off' + FILE_HDR) [5, 6, 7, 8, 9]))"
proof -
  have "length demo_files \<le> 2" and g: "([99], [([100], [5, 6, 7, 8, 9])]) \<in> set demo_files"
    by (simp_all add: demo_files_def)
  from mkinitrd_initramfs_roundtrip [OF demo_files_ok this(1)] obtain img where
    img: "mkinitrd (args_of demo_files) = Ret (Some img)"
      "\<And>m base d fs p. bytes_at m base img \<Longrightarrow> (d, fs) \<in> set demo_files \<Longrightarrow> cstr m p d \<Longrightarrow>
      (\<exists>ino sz off. find_item m (base + DISK_HDR) p 0 = Ret (Some (ino, sz, T_IFDIR, off)) \<and>
        (\<forall>n c q. (n, c) \<in> set fs \<longrightarrow> cstr m q n \<longrightarrow>
          (\<exists>ino' off'. find_item m (base + DISK_HDR + off) q 0 = Ret (Some (ino', length c, T_IFREG, off')) \<and>
             bytes_at m (base + DISK_HDR + off + off' + FILE_HDR) c)))" by blast
  show ?thesis
  proof (intro exI [of _ img] conjI allI impI)
    show "mkinitrd (args_of demo_files) = Ret (Some img)" by (rule img)
    fix m base p q assume a: "bytes_at m base img" "cstr m p [99]" "cstr m q [100]"
    from img(2) [OF a(1) g a(2)] a(3)
    show "\<exists>ino sz off ino' off'. find_item m (base + DISK_HDR) p 0 = Ret (Some (ino, sz, T_IFDIR, off)) \<and>
         find_item m (base + DISK_HDR + off) q 0 = Ret (Some (ino', 5, T_IFREG, off')) \<and>
         bytes_at m (base + DISK_HDR + off + off' + FILE_HDR) [5, 6, 7, 8, 9]" by fastforce
  qed
qed

text \<open>
  With a third directory the offsets go wrong: each step adds the size of the directory before
  the last one, so the second directory is looked for at a distance that the size of the
  second, not of the first, decides.
\<close>

lemma third_directory_misplaced:
  assumes b: "built s G" and "length G = 3" and sz: "2 * DIR_HDR + body_size (snd (G ! 1)) < 2 ^ 31"
  shows "\<exists>offs. root_offsets s ((replicate MAX_FILES 0)[0 := of_nat DIR_HDR]) [1..<mk_ndirs s] = Ret offs \<and>
    unat (offs ! 1) = 2 * DIR_HDR + body_size (snd (G ! 1)) \<and>
    (unat (offs ! 1) = dir_off G 1 \<longleftrightarrow> body_size (snd (G ! 1)) = body_size (snd (G ! 0)))"
proof -
  obtain g h i where G: "G = [g, h, i]" using assms(2) by (auto simp: numeral_3_eq_3 length_Suc_conv)
  have s: "mk_ndirs s = 3" "mk_ptr s = 2" "md_size (mk_dirs s ! 1) = of_nat (body_size (snd h))"
    using b G by (auto simp: built_def dir_built_def)
  have n: "[1..<3] = [1, 2]" by (simp add: upt_rec)
  have "unat (of_nat DIR_HDR + of_nat DIR_HDR + of_nat (body_size (snd h)) :: u32) = 2 * DIR_HDR + body_size (snd h)"
    using unat_small32 [of "DIR_HDR + DIR_HDR + body_size (snd h)"] sz G by simp
  then show ?thesis using s n G by (simp add: MAX_FILES_def dir_off_def DIR_HDR_def)
qed

text \<open>A file given twice is counted twice but stored once, and writing the image follows a NULL path.\<close>

lemma write_files_cases: "write_files fs n = Halt MemFault \<or> (\<forall>k<n. k < length fs \<and> mf_data (fs ! k) \<noteq> None)"
proof (induction fs n rule: write_files.induct)
  case (3 f fs n)
  then show ?case by (auto split: option.splits simp: less_Suc_eq_0_disj)
qed auto

lemma write_files_halt: "write_files fs n = Halt h \<Longrightarrow> h = MemFault"
proof (induction fs n rule: write_files.induct)
  case (3 f fs n)
  then show ?case by (cases "write_files fs n") (auto split: option.splits)
qed auto

lemma write_dirs_faults:
  "d \<in> set ds \<Longrightarrow> write_files (md_files d) (unat (md_num d)) = Halt MemFault \<Longrightarrow> write_dirs ds = Halt MemFault"
proof (induction ds)
  case (Cons e ds)
  then show ?case
  proof (cases "write_files (md_files e) (unat (md_num e))")
    case (Halt h)
    then show ?thesis using write_files_halt [OF Halt] by simp
  qed auto
qed simp

lemma duplicate_faults:
  assumes b: "built s (G @ [(d, fs)])" and "n \<in> fst ` set fs" and "length fs < 5"
  shows "write_dirs (take (mk_ndirs s) (mk_dirs (mk_put s d n c))) = Halt MemFault"
proof -
  let ?D = "mk_dirs s ! length G"
  let ?D' = "?D\<lparr> md_size := md_size ?D + of_nat (length c) + of_nat FILE_HDR, md_num := md_num ?D + 1 \<rparr>"
  have db: "dir_built ?D (d, fs)" and lens: "mk_ptr s = length G" "mk_ndirs s = length G + 1" "length (mk_dirs s) = 5" "length G < 5"
    using b by (auto simp: built_def nth_append)
  obtain k where k: "k < length fs" "fst (fs ! k) = n" using assms(2) by (auto simp: in_set_conv_nth)
  then have "md_files ?D ! k \<in> set (md_files ?D)" "mf_name (md_files ?D ! k) = name_field n"
    using db by (auto simp: dir_built_def file_built_def)
  then have "name_field n \<in> mf_name ` set (md_files ?D)" by (metis image_eqI)
  then have r: "mk_dirs (mk_put s d n c) = (mk_dirs s)[length G := ?D']"
    using lens by (simp add: mk_put_def Let_def)
  have "unat (md_num ?D') = length fs + 1"
    using db assms(3) unat_small32 [of "length fs + 1"] by (simp add: dir_built_def add.commute)
  moreover have "mf_data (md_files ?D' ! length fs) = None"
    using db assms(3) by (simp add: dir_built_def zero_mkfile_def)
  ultimately have "write_files (md_files ?D') (unat (md_num ?D')) = Halt MemFault"
    using write_files_cases [of "md_files ?D'" "unat (md_num ?D')"] by auto
  moreover have "?D' \<in> set (take (mk_ndirs s) (mk_dirs (mk_put s d n c)))"
    unfolding r using lens by (simp add: in_set_conv_nth) (intro exI [of _ "length G"], simp)
  ultimately show ?thesis using write_dirs_faults by blast
qed

end
