(* ===== verification/Pipe.thy ===== *)
theory Pipe
  imports Dentry KString
begin

text \<open>
  \<open>src/fs/pipe.c\<close>: a pipe is a buffer in byte memory with the number of bytes that wait in it.
  Numbers are \<open>size_t\<close>. The code pointers of the file operations are the numbers below; what
  another number does is an argument. The locale \<open>byte_queue\<close> is what a user of a pipe relies
  on, and the theory shows which part of it \<open>pipe.c\<close> keeps: a read that takes everything.
\<close>

section \<open>The operations\<close>

record pipe =
  pi_file :: nat
  pi_mem :: nat
  pi_size :: u64
  pi_ptr :: u64
  pi_nreaders :: u64
  pi_nwriters :: u64

record pstate =
  p_objs :: vobjs
  p_bytes :: mem
  p_pipes :: "nat \<rightharpoonup> pipe"
  p_cache :: nat

abbreviation (input) O_RDONLY :: u32 where "O_RDONLY \<equiv> 2"
abbreviation (input) O_WRONLY :: u32 where "O_WRONLY \<equiv> 8"

definition PIPE_OPEN :: nat where "PIPE_OPEN = 21"
definition PIPE_CLOSE :: nat where "PIPE_CLOSE = 22"
definition PIPE_READ :: nat where "PIPE_READ = 23"
definition PIPE_WRITE :: nat where "PIPE_WRITE = 24"

definition set_pipe :: "pstate \<Rightarrow> nat \<Rightarrow> pipe \<Rightarrow> pstate" where
  "set_pipe s a p = s\<lparr> p_pipes := (p_pipes s)(a \<mapsto> p) \<rparr>"

text \<open>\<open>__read\<close> and \<open>__write\<close>.\<close>

definition pipe_read_op :: "pstate \<Rightarrow> nat \<Rightarrow> u64 \<Rightarrow> u64 \<Rightarrow> nat \<Rightarrow> (int \<times> pstate) outcome" where
  "pipe_read_op s file offset sz buffer =
     (if file = 0 then Ret (- EINVAL, s)
      else
        bnd (deref (v_files (p_objs s)) file) (\<lambda>f.
        if f_private f = 0 \<or> buffer = 0 \<or> sz = 0 then Ret (- EINVAL, s)
        else
          bnd (deref (p_pipes s) (f_private f)) (\<lambda>p.
          if pi_ptr p = 0 then Ret (0, s)
          else
            let nread = (if sz < pi_ptr p then sz else pi_ptr p) in
            bnd (kmemcpy (p_bytes s) buffer (pi_mem p) (unat nread)) (\<lambda>m.
            if pi_ptr p \<le> sz then Ret (sint nread, set_pipe (s\<lparr> p_bytes := m \<rparr>) (f_private f) (p\<lparr> pi_ptr := 0 \<rparr>))
            else
              bnd (kmemmove m (pi_mem p) (pi_mem p + unat sz) (unat (pi_ptr p - nread))) (\<lambda>m.
              Ret (sint nread, set_pipe (s\<lparr> p_bytes := m \<rparr>) (f_private f) (p\<lparr> pi_ptr := sz + pi_ptr p - nread \<rparr>)))))))"

definition pipe_write_op :: "pstate \<Rightarrow> nat \<Rightarrow> u64 \<Rightarrow> u64 \<Rightarrow> nat \<Rightarrow> (int \<times> pstate) outcome" where
  "pipe_write_op s file offset sz buffer =
     (if file = 0 then Ret (- EINVAL, s)
      else
        bnd (deref (v_files (p_objs s)) file) (\<lambda>f.
        if f_private f = 0 \<or> buffer = 0 \<or> sz = 0 then Ret (- EINVAL, s)
        else
          bnd (deref (p_pipes s) (f_private f)) (\<lambda>p.
          if pi_size p - pi_ptr p < sz then Ret (- ENOSPC, s)
          else
            bnd (kmemcpy (p_bytes s) (pi_mem p + unat (pi_ptr p)) buffer (unat sz)) (\<lambda>m.
            Ret (sint sz, set_pipe (s\<lparr> p_bytes := m \<rparr>) (f_private f) (p\<lparr> pi_ptr := pi_ptr p + sz \<rparr>))))))"

text \<open>\<open>__open\<close> counts the user and returns NULL even when it succeeds; \<open>__close\<close> uncounts.\<close>

definition pipe_open_op :: "pstate \<Rightarrow> nat \<Rightarrow> u32 \<Rightarrow> (nat \<times> pstate) outcome" where
  "pipe_open_op s dntr mode =
     (if dntr = 0 then Ret (0, s\<lparr> p_objs := (p_objs s)\<lparr> v_errno := EINVAL \<rparr> \<rparr>)
      else
        bnd (deref (v_dentries (p_objs s)) dntr) (\<lambda>d.
        if d_private d = 0 then Ret (0, s\<lparr> p_objs := (p_objs s)\<lparr> v_errno := EINVAL \<rparr> \<rparr>)
        else
          bnd (deref (p_pipes s) (d_private d)) (\<lambda>p.
          Ret (0, if mode = O_WRONLY then set_pipe s (d_private d) (p\<lparr> pi_nwriters := pi_nwriters p + 1 \<rparr>)
                  else if mode = O_RDONLY then set_pipe s (d_private d) (p\<lparr> pi_nreaders := pi_nreaders p + 1 \<rparr>)
                  else s))))"

definition pipe_close_op :: "pstate \<Rightarrow> nat \<Rightarrow> (int \<times> pstate) outcome" where
  "pipe_close_op s file =
     (if file = 0 then Ret (- EINVAL, s)
      else
        bnd (deref (v_files (p_objs s)) file) (\<lambda>f.
        if f_mode f = O_WRONLY then
          bnd (deref (p_pipes s) (f_private f)) (\<lambda>p.
          Ret (0, set_pipe s (f_private f) (p\<lparr> pi_nwriters := pi_nwriters p - 1 \<rparr>)))
        else if f_mode f = O_RDONLY then
          bnd (deref (p_pipes s) (f_private f)) (\<lambda>p.
          Ret (0, set_pipe s (f_private f) (p\<lparr> pi_nreaders := pi_nreaders p - 1 \<rparr>)))
        else Ret (0, s)))"

text \<open>
  The two allocations of \<open>file_generic_alloc\<close> come between those of the pipe and of its memory;
  a fresh file has no dentry, which \<open>pipe_create\<close> follows all the same.
\<close>

definition pipe_create :: "pstate \<Rightarrow> u64 \<Rightarrow> (nat \<times> pstate) outcome" where
  "pipe_create s sz =
     (if p_cache s = 0 \<or> sz = 0 then Ret (0, s\<lparr> p_objs := (p_objs s)\<lparr> v_errno := EINVAL \<rparr> \<rparr>)
      else
        bnd (new (p_objs s)) (\<lambda>(pipe, v).
        let s = s\<lparr> p_objs := v \<rparr> in
        if pipe = 0 then Ret (0, s)
        else
          bnd (file_generic_alloc (p_objs s)) (\<lambda>(file, v).
          let s = s\<lparr> p_objs := v \<rparr> in
          if file = 0 then Ret (0, s)
          else
            bnd (deref (v_files v) file) (\<lambda>f.
            bnd (deref (v_fops v) (f_ops f)) (\<lambda>ops.
            let v = v\<lparr> v_fops := (v_fops v)(f_ops f \<mapsto> ops\<lparr> fo_open := PIPE_OPEN, fo_close := PIPE_CLOSE,
                  fo_read := PIPE_READ, fo_write := PIPE_WRITE \<rparr>),
                v_files := (v_files v)(file \<mapsto> f\<lparr> f_private := pipe \<rparr>) \<rparr> in
            bnd (upd_dentry v (f_dentry f) (\<lambda>d. d\<lparr> d_private := pipe \<rparr>)) (\<lambda>v.
            bnd (new v) (\<lambda>(m, v).
            Ret (pipe, set_pipe (s\<lparr> p_objs := v \<rparr>) pipe \<lparr> pi_file = file, pi_mem = m, pi_size = sz, pi_ptr = 0,
              pi_nreaders = 0, pi_nwriters = 0 \<rparr>))))))))"

text \<open>What the read and write pointers of a file do, given those that are not of this file.\<close>

type_synonym pipe_rw = "nat \<Rightarrow> pstate \<Rightarrow> nat \<Rightarrow> u64 \<Rightarrow> u64 \<Rightarrow> nat \<Rightarrow> (int \<times> pstate) outcome"

definition rw_dispatch :: "pipe_rw \<Rightarrow> pipe_rw" where
  "rw_dispatch other p =
     (if p = PIPE_READ then pipe_read_op else if p = PIPE_WRITE then pipe_write_op else other p)"

definition pipe_ops :: "pstate \<Rightarrow> nat \<Rightarrow> (pipe \<times> file_ops) outcome" where
  "pipe_ops s pipe = bnd (deref (p_pipes s) pipe) (\<lambda>p. omap (Pair p) (ops_of (p_objs s) (pi_file p)))"

definition pipe_read :: "pipe_rw \<Rightarrow> pstate \<Rightarrow> nat \<Rightarrow> nat \<Rightarrow> u64 \<Rightarrow> (int \<times> pstate) outcome" where
  "pipe_read other s pipe buffer sz =
     (if pipe = 0 \<or> buffer = 0 \<or> sz = 0 then Ret (- EINVAL, s)
      else bnd (pipe_ops s pipe) (\<lambda>(p, ops). rw_dispatch other (fo_read ops) s (pi_file p) 0 sz buffer))"

definition pipe_write :: "pipe_rw \<Rightarrow> pstate \<Rightarrow> nat \<Rightarrow> nat \<Rightarrow> u64 \<Rightarrow> (int \<times> pstate) outcome" where
  "pipe_write other s pipe buffer sz =
     (if pipe = 0 \<or> buffer = 0 \<or> sz = 0 then Ret (- EINVAL, s)
      else bnd (pipe_ops s pipe) (\<lambda>(p, ops). rw_dispatch other (fo_write ops) s (pi_file p) 0 sz buffer))"

definition pipe_open :: "(nat \<Rightarrow> pstate \<Rightarrow> nat \<Rightarrow> u32 \<Rightarrow> (nat \<times> pstate) outcome) \<Rightarrow> pstate \<Rightarrow> nat \<Rightarrow> u32 \<Rightarrow> (int \<times> pstate) outcome" where
  "pipe_open other s pipe mode =
     (if pipe = 0 then Ret (- EINVAL, s)
      else
        bnd (pipe_ops s pipe) (\<lambda>(p, ops).
        bnd (deref (v_files (p_objs s)) (pi_file p)) (\<lambda>f.
        let s = s\<lparr> p_objs := (p_objs s)\<lparr> v_files := (v_files (p_objs s))(pi_file p \<mapsto> f\<lparr> f_mode := mode \<rparr>) \<rparr> \<rparr> in
        bnd (if fo_open ops = PIPE_OPEN then pipe_open_op s (f_dentry f) mode else other (fo_open ops) s (f_dentry f) mode) (\<lambda>(_, s).
        Ret (0, s)))))"

definition pipe_close :: "(nat \<Rightarrow> pstate \<Rightarrow> nat \<Rightarrow> (int \<times> pstate) outcome) \<Rightarrow> pstate \<Rightarrow> nat \<Rightarrow> (int \<times> pstate) outcome" where
  "pipe_close other s pipe =
     (if pipe = 0 then Ret (- EINVAL, s)
      else
        bnd (pipe_ops s pipe) (\<lambda>(p, ops).
        if fo_close ops = PIPE_CLOSE then pipe_close_op s (pi_file p) else other (fo_close ops) s (pi_file p)))"

section \<open>What a user of a pipe relies on\<close>

text \<open>
  A bounded queue of bytes: \<open>holds s b xs\<close> says that the buffer \<open>b\<close> of the caller has the bytes
  \<open>xs\<close>. A write that fits appends the bytes of its buffer, one that does not changes nothing,
  and a read into a buffer with room for everything empties the queue.
\<close>

primrec put_seq :: "('s \<Rightarrow> 'b \<Rightarrow> u64 \<Rightarrow> (int \<times> 's) outcome) \<Rightarrow> 's \<Rightarrow> ('b \<times> u8 list) list \<Rightarrow> 's outcome" where
  "put_seq put s [] = Ret s"
| "put_seq put s (x # xs) = bnd (put s (fst x) (of_nat (length (snd x)))) (\<lambda>(_, s). put_seq put s xs)"

locale byte_queue =
  fixes inv :: "'s \<Rightarrow> bool"
    and content :: "'s \<Rightarrow> u8 list"
    and cap :: "'s \<Rightarrow> nat"
    and holds :: "'s \<Rightarrow> 'b \<Rightarrow> u8 list \<Rightarrow> bool"
    and put :: "'s \<Rightarrow> 'b \<Rightarrow> u64 \<Rightarrow> (int \<times> 's) outcome"
    and get :: "'s \<Rightarrow> 'b \<Rightarrow> u64 \<Rightarrow> (int \<times> 's) outcome"
  assumes put_fits: "inv s \<Longrightarrow> holds s b xs \<Longrightarrow> xs \<noteq> [] \<Longrightarrow> length (content s) + length xs \<le> cap s \<Longrightarrow>
      \<exists>s'. put s b (of_nat (length xs)) = Ret (int (length xs), s') \<and> inv s' \<and> content s' = content s @ xs \<and>
        cap s' = cap s \<and> (\<forall>c ys. holds s c ys \<longrightarrow> holds s' c ys)"
    and put_full: "inv s \<Longrightarrow> holds s b xs \<Longrightarrow> xs \<noteq> [] \<Longrightarrow> cap s < length (content s) + length xs \<Longrightarrow>
      put s b (of_nat (length xs)) = Ret (- ENOSPC, s)"
    and get_all: "inv s \<Longrightarrow> holds s b ys \<Longrightarrow> content s \<noteq> [] \<Longrightarrow> length (content s) \<le> length ys \<Longrightarrow>
      \<exists>s'. get s b (of_nat (length ys)) = Ret (int (length (content s)), s') \<and> inv s' \<and> content s' = [] \<and>
        holds s' b (content s @ drop (length (content s)) ys)"
begin

lemma put_seq_appends:
  "inv s \<Longrightarrow> \<forall>x\<in>set bs. holds s (fst x) (snd x) \<and> snd x \<noteq> [] \<Longrightarrow>
   length (content s) + length (concat (map snd bs)) \<le> cap s \<Longrightarrow>
   \<exists>s'. put_seq put s bs = Ret s' \<and> inv s' \<and> content s' = content s @ concat (map snd bs) \<and>
     (\<forall>c ys. holds s c ys \<longrightarrow> holds s' c ys)"
proof (induction bs arbitrary: s)
  case (Cons x bs)
  then obtain s1 where s1: "put s (fst x) (of_nat (length (snd x))) = Ret (int (length (snd x)), s1)" "inv s1"
      "content s1 = content s @ snd x" "cap s1 = cap s" "\<forall>c ys. holds s c ys \<longrightarrow> holds s1 c ys"
    using put_fits [of s "fst x" "snd x"] by auto
  then obtain s' where "put_seq put s1 bs = Ret s'" "inv s'" "content s' = content s1 @ concat (map snd bs)"
      "\<forall>c ys. holds s1 c ys \<longrightarrow> holds s' c ys"
    using Cons.IH [of s1] Cons.prems by auto
  then show ?case using s1 by auto
qed simp

lemma stream:
  assumes "inv s" and "\<forall>x\<in>set bs. holds s (fst x) (snd x) \<and> snd x \<noteq> []" and "content s = []" and "bs \<noteq> []"
    and "length (concat (map snd bs)) \<le> cap s" and "holds s b ys" and "length (concat (map snd bs)) \<le> length ys"
  shows "\<exists>s1 s2. put_seq put s bs = Ret s1 \<and> content s1 = concat (map snd bs) \<and>
    get s1 b (of_nat (length ys)) = Ret (int (length (concat (map snd bs))), s2) \<and> inv s2 \<and> content s2 = [] \<and>
    holds s2 b (concat (map snd bs) @ drop (length (concat (map snd bs))) ys)"
proof -
  obtain s1 where s1: "put_seq put s bs = Ret s1" "inv s1" "content s1 = concat (map snd bs)" "holds s1 b ys"
    using put_seq_appends [OF assms(1,2)] assms(3,5,6) by auto
  have "content s1 \<noteq> []" using s1(3) assms(2,4) by (cases bs) auto
  then show ?thesis using get_all [OF s1(2,4)] s1 assms(7) by auto
qed

end

section \<open>The pipe as a queue\<close>

text \<open>Pipe \<open>P\<close> is set up: its file leads back to it and has its operations, its buffer is mapped.\<close>

definition pipe_ok :: "nat \<Rightarrow> pstate \<Rightarrow> bool" where
  "pipe_ok P s \<longleftrightarrow> P \<noteq> 0 \<and>
     (\<exists>p f ops. p_pipes s P = Some p \<and> pi_file p \<noteq> 0 \<and> v_files (p_objs s) (pi_file p) = Some f \<and> f_private f = P \<and>
        f_ops f \<noteq> 0 \<and> v_fops (p_objs s) (f_ops f) = Some ops \<and> fo_read ops = PIPE_READ \<and> fo_write ops = PIPE_WRITE \<and>
        pi_ptr p \<le> pi_size p \<and> unat (pi_size p) < 2 ^ 63 \<and> mapped (p_bytes s) (pi_mem p) (unat (pi_size p)))"

definition bytes_at :: "mem \<Rightarrow> nat \<Rightarrow> nat \<Rightarrow> u8 list" where
  "bytes_at m a n = map (\<lambda>i. the (m (a + i))) [0..<n]"

definition the_pipe :: "nat \<Rightarrow> pstate \<Rightarrow> pipe" where "the_pipe P s = the (p_pipes s P)"

definition pipe_content :: "nat \<Rightarrow> pstate \<Rightarrow> u8 list" where
  "pipe_content P s = bytes_at (p_bytes s) (pi_mem (the_pipe P s)) (unat (pi_ptr (the_pipe P s)))"

definition pipe_cap :: "nat \<Rightarrow> pstate \<Rightarrow> nat" where "pipe_cap P s = unat (pi_size (the_pipe P s))"

text \<open>A caller's buffer: mapped, and apart from the memory of the pipe.\<close>

definition buf :: "nat \<Rightarrow> pstate \<Rightarrow> nat \<Rightarrow> u8 list \<Rightarrow> bool" where
  "buf P s b xs \<longleftrightarrow> b \<noteq> 0 \<and> mapped (p_bytes s) b (length xs) \<and> bytes_at (p_bytes s) b (length xs) = xs \<and>
     length xs < 2 ^ 63 \<and>
     (b + length xs \<le> pi_mem (the_pipe P s) \<or> pi_mem (the_pipe P s) + unat (pi_size (the_pipe P s)) \<le> b)"

lemma length_bytes_at [simp]: "length (bytes_at m a n) = n"
  by (simp add: bytes_at_def)

lemma bytes_at_cong: "(\<And>i. i < n \<Longrightarrow> m (a + i) = m' (a' + i)) \<Longrightarrow> bytes_at m a n = bytes_at m' a' n"
  by (simp add: bytes_at_def)

lemma bytes_at_add: "bytes_at m a (n + k) = bytes_at m a n @ bytes_at m (a + n) k"
  by (rule nth_equalityI) (auto simp: bytes_at_def nth_append)

lemma take_bytes_at: "n \<le> k \<Longrightarrow> take n (bytes_at m a k) = bytes_at m a n"
  and drop_bytes_at: "n \<le> k \<Longrightarrow> drop n (bytes_at m a k) = bytes_at m (a + n) (k - n)"
  using bytes_at_add [of m a n "k - n"] by simp_all

lemma mapped_sub:
  assumes "mapped m a n" and "i + k \<le> n"
  shows "mapped m (a + i) k"
  unfolding mapped_def
proof (intro allI impI)
  fix j assume "j < k"
  then show "a + i + j < 2 ^ 64 \<and> m (a + i + j) \<noteq> None"
    using assms by (auto simp: mapped_def add.assoc dest: spec [of _ "i + j"])
qed

lemma mapped_moved:
  assumes "mapped m s n" and "mapped m a k"
  shows "mapped (moved m d s n) a k"
  unfolding mapped_def
proof (intro allI impI)
  fix i assume i: "i < k"
  have "m (s + (a + i - d)) \<noteq> None" if "d \<le> a + i" "a + i < d + n"
    using assms(1) that by (auto simp: mapped_def dest: spec [of _ "a + i - d"])
  then show "a + i < 2 ^ 64 \<and> moved m d s n (a + i) \<noteq> None"
    using assms(2) i by (simp add: mapped_def moved_def)
qed

lemma bytes_at_moved: "bytes_at (moved m d s n) d n = bytes_at m s n"
  by (rule bytes_at_cong) (simp add: moved_def)

lemma bytes_at_moved_other: "a + k \<le> d \<or> d + n \<le> a \<Longrightarrow> bytes_at (moved m d s n) a k = bytes_at m a k"
  by (rule bytes_at_cong) (auto simp: moved_def)

lemma bytes_at_moved_within: "i + k \<le> n \<Longrightarrow> bytes_at (moved m d s n) (d + i) k = bytes_at m (s + i) k"
  by (rule bytes_at_cong) (simp add: moved_def add.assoc)

text \<open>The calls of the interface on a pipe that is set up.\<close>

lemma pipe_calls:
  assumes "pipe_ok P s" and "b \<noteq> 0" and "n \<noteq> 0"
  shows "pipe_read other s P b n = pipe_read_op s (pi_file (the_pipe P s)) 0 n b"
    and "pipe_write other s P b n = pipe_write_op s (pi_file (the_pipe P s)) 0 n b"
  using assms by (auto simp: pipe_ok_def pipe_read_def pipe_write_def pipe_ops_def ops_of_def rw_dispatch_def
      PIPE_READ_def PIPE_WRITE_def the_pipe_def)

lemma of_nat_len: "n < 2 ^ 63 \<Longrightarrow> unat (of_nat n :: u64) = n \<and> sint (of_nat n :: u64) = int n"
proof -
  assume n: "n < 2 ^ 63"
  then have "unat (of_nat n :: u64) = n" by (simp add: unat_of_nat)
  moreover have "signed_take_bit 63 (int n) = int n" by (rule signed_take_bit_int_eq_self) (use n in auto)
  ultimately show ?thesis by (simp add: sint_uint uint_nat)
qed

lemma pipe_okD:
  assumes "pipe_ok P s"
  obtains f where "P \<noteq> 0" "p_pipes s P = Some (the_pipe P s)" "pi_file (the_pipe P s) \<noteq> 0"
    "v_files (p_objs s) (pi_file (the_pipe P s)) = Some f" "f_private f = P"
    "unat (pi_ptr (the_pipe P s)) \<le> unat (pi_size (the_pipe P s))" "unat (pi_size (the_pipe P s)) < 2 ^ 63"
    "mapped (p_bytes s) (pi_mem (the_pipe P s)) (unat (pi_size (the_pipe P s)))"
  using assms that by (auto simp: pipe_ok_def the_pipe_def word_le_nat_alt)

text \<open>A step that keeps the memory and the size of the pipe keeps its invariant.\<close>

lemma pipe_ok_step:
  assumes "pipe_ok P s" and "unat k \<le> unat (pi_size (the_pipe P s))"
    and "mapped m (pi_mem (the_pipe P s)) (unat (pi_size (the_pipe P s)))"
  shows "pipe_ok P (set_pipe (s\<lparr> p_bytes := m \<rparr>) P ((the_pipe P s)\<lparr> pi_ptr := k \<rparr>))"
  using assms by (auto simp: pipe_ok_def the_pipe_def set_pipe_def word_le_nat_alt)

lemma the_pipe_step [simp]: "the_pipe P (set_pipe s P p) = p" "p_bytes (set_pipe s P p) = p_bytes s"
  by (simp_all add: the_pipe_def set_pipe_def)

lemma write_fits:
  assumes "pipe_ok P s" and "buf P s b xs" and "xs \<noteq> []" and "length (pipe_content P s) + length xs \<le> pipe_cap P s"
  shows "\<exists>s'. pipe_write other s P b (of_nat (length xs)) = Ret (int (length xs), s') \<and> pipe_ok P s' \<and>
    pipe_content P s' = pipe_content P s @ xs \<and> pipe_cap P s' = pipe_cap P s \<and> (\<forall>c ys. buf P s c ys \<longrightarrow> buf P s' c ys)"
proof -
  let ?p = "the_pipe P s" and ?n = "length xs" and ?k = "unat (pi_ptr (the_pipe P s))"
  let ?m = "moved (p_bytes s) (pi_mem ?p + ?k) b ?n"
  let ?s' = "set_pipe (s\<lparr> p_bytes := ?m \<rparr>) P (?p\<lparr> pi_ptr := pi_ptr ?p + of_nat ?n \<rparr>)"
  obtain f where p: "P \<noteq> 0" "p_pipes s P = Some ?p" "pi_file ?p \<noteq> 0" "v_files (p_objs s) (pi_file ?p) = Some f" "f_private f = P"
      "?k \<le> unat (pi_size ?p)" "unat (pi_size ?p) < 2 ^ 63" "mapped (p_bytes s) (pi_mem ?p) (unat (pi_size ?p))"
    by (rule pipe_okD [OF assms(1)])
  have b: "b \<noteq> 0" "mapped (p_bytes s) b ?n" "bytes_at (p_bytes s) b ?n = xs" "?n < 2 ^ 63"
      "b + ?n \<le> pi_mem ?p \<or> pi_mem ?p + unat (pi_size ?p) \<le> b"
    using assms(2) by (auto simp: buf_def)
  have n: "unat (of_nat ?n :: u64) = ?n" "sint (of_nat ?n :: u64) = int ?n" using of_nat_len [OF b(4)] by auto
  have n0: "(of_nat ?n :: u64) \<noteq> 0" using n(1) assms(3) by (metis length_0_conv unat_0)
  have fit: "?k + ?n \<le> unat (pi_size ?p)" using assms(4) by (simp add: pipe_content_def pipe_cap_def)
  have "unat (pi_size ?p - pi_ptr ?p) = unat (pi_size ?p) - ?k" using p(6) by (simp add: unat_sub word_le_nat_alt)
  then have space: "\<not> pi_size ?p - pi_ptr ?p < of_nat ?n" using fit n(1) by (simp add: word_less_nat_alt)
  have "kmemcpy (p_bytes s) (pi_mem ?p + ?k) b ?n = Ret ?m"
    by (rule kmemcpy_correct) (use b(2,5) fit mapped_sub [OF p(8) fit] in auto)
  then have r: "pipe_write other s P b (of_nat ?n) = Ret (int ?n, ?s')"
    using pipe_calls(2) [OF assms(1) b(1) n0] p b(1) n n0 space by (simp add: pipe_write_op_def)
  have sum: "unat (pi_ptr ?p + of_nat ?n) = ?k + ?n"
    using fit p(7) n(1) by (subst unat_add_u64) auto
  have ok: "pipe_ok P ?s'"
    by (rule pipe_ok_step [OF assms(1)]) (use sum fit mapped_moved [OF b(2) p(8)] in auto)
  have "pipe_content P ?s' = pipe_content P s @ xs"
    using sum b(3) by (simp add: pipe_content_def bytes_at_add bytes_at_moved bytes_at_moved_other)
  moreover have "buf P ?s' c ys" if "buf P s c ys" for c ys
    using that fit mapped_moved [OF b(2)] bytes_at_moved_other [of c "length ys" "pi_mem ?p + ?k" ?n]
    by (auto simp: buf_def)
  ultimately show ?thesis using r ok by (auto simp: pipe_cap_def)
qed

lemma write_full:
  assumes "pipe_ok P s" and "buf P s b xs" and "xs \<noteq> []" and "pipe_cap P s < length (pipe_content P s) + length xs"
  shows "pipe_write other s P b (of_nat (length xs)) = Ret (- ENOSPC, s)"
proof -
  let ?p = "the_pipe P s" and ?n = "length xs" and ?k = "unat (pi_ptr (the_pipe P s))"
  obtain f where p: "P \<noteq> 0" "p_pipes s P = Some ?p" "pi_file ?p \<noteq> 0" "v_files (p_objs s) (pi_file ?p) = Some f" "f_private f = P"
      "?k \<le> unat (pi_size ?p)" "unat (pi_size ?p) < 2 ^ 63" "mapped (p_bytes s) (pi_mem ?p) (unat (pi_size ?p))"
    by (rule pipe_okD [OF assms(1)])
  have b: "b \<noteq> 0" "?n < 2 ^ 63" using assms(2) by (auto simp: buf_def)
  have n: "unat (of_nat ?n :: u64) = ?n" using of_nat_len [OF b(2)] by auto
  have n0: "(of_nat ?n :: u64) \<noteq> 0" using n assms(3) by (metis length_0_conv unat_0)
  have "unat (pi_size ?p - pi_ptr ?p) = unat (pi_size ?p) - ?k" using p(6) by (simp add: unat_sub word_le_nat_alt)
  then have "pi_size ?p - pi_ptr ?p < of_nat ?n"
    using assms(4) n p(6) by (simp add: word_less_nat_alt pipe_content_def pipe_cap_def)
  then show ?thesis using pipe_calls(2) [OF assms(1) b(1) n0] p b(1) n0 by (simp add: pipe_write_op_def)
qed

lemma read_all:
  assumes "pipe_ok P s" and "buf P s b ys" and "pipe_content P s \<noteq> []" and "length (pipe_content P s) \<le> length ys"
  shows "\<exists>s'. pipe_read other s P b (of_nat (length ys)) = Ret (int (length (pipe_content P s)), s') \<and> pipe_ok P s' \<and>
    pipe_content P s' = [] \<and> buf P s' b (pipe_content P s @ drop (length (pipe_content P s)) ys)"
proof -
  let ?p = "the_pipe P s" and ?n = "length ys" and ?k = "unat (pi_ptr (the_pipe P s))"
  let ?m = "moved (p_bytes s) b (pi_mem ?p) ?k"
  let ?s' = "set_pipe (s\<lparr> p_bytes := ?m \<rparr>) P (?p\<lparr> pi_ptr := 0 \<rparr>)"
  obtain f where p: "P \<noteq> 0" "p_pipes s P = Some ?p" "pi_file ?p \<noteq> 0" "v_files (p_objs s) (pi_file ?p) = Some f" "f_private f = P"
      "?k \<le> unat (pi_size ?p)" "unat (pi_size ?p) < 2 ^ 63" "mapped (p_bytes s) (pi_mem ?p) (unat (pi_size ?p))"
    by (rule pipe_okD [OF assms(1)])
  have b: "b \<noteq> 0" "mapped (p_bytes s) b ?n" "bytes_at (p_bytes s) b ?n = ys" "?n < 2 ^ 63"
      "b + ?n \<le> pi_mem ?p \<or> pi_mem ?p + unat (pi_size ?p) \<le> b"
    using assms(2) by (auto simp: buf_def)
  have kn: "?k \<le> ?n" "0 < ?k" using assms(3,4) by (auto simp: pipe_content_def bytes_at_def)
  have n: "unat (of_nat ?n :: u64) = ?n" using of_nat_len [OF b(4)] by auto
  have n0: "(of_nat ?n :: u64) \<noteq> 0" using n kn by (metis le_zero_eq less_numeral_extra(3) unat_0)
  have k: "sint (pi_ptr ?p) = int ?k" using of_nat_len [of ?k] p(6,7) by simp
  have mk: "mapped (p_bytes s) (pi_mem ?p) ?k" using mapped_sub [OF p(8), of 0 ?k] p(6) by simp
  have mb: "mapped (p_bytes s) b ?k" using mapped_sub [OF b(2), of 0 ?k] kn by simp
  have "kmemcpy (p_bytes s) b (pi_mem ?p) ?k = Ret ?m"
    by (rule kmemcpy_correct [OF mk mb]) (use b(5) kn p(6) in auto)
  moreover have "\<not> of_nat ?n < pi_ptr ?p" "pi_ptr ?p \<noteq> 0" using n kn by (auto simp: word_less_nat_alt unat_eq_zero)
  moreover have "pi_ptr ?p \<le> of_nat ?n" using n kn by (simp add: word_le_nat_alt)
  ultimately have r: "pipe_read other s P b (of_nat ?n) = Ret (int ?k, ?s')"
    using pipe_calls(1) [OF assms(1) b(1) n0] p(1-5) b(1) n0 k by (simp add: pipe_read_op_def Let_def)
  have ok: "pipe_ok P ?s'"
    by (rule pipe_ok_step [OF assms(1)]) (use mapped_moved [OF mk p(8)] in auto)
  have c: "pipe_content P ?s' = []" by (simp add: pipe_content_def bytes_at_def)
  have "bytes_at ?m b ?n = bytes_at ?m b ?k @ bytes_at ?m (b + ?k) (?n - ?k)"
    using bytes_at_add [of ?m b ?k "?n - ?k"] kn by simp
  also have "\<dots> = pipe_content P s @ drop ?k ys"
    using drop_bytes_at [OF kn(1), of "p_bytes s" b] b(3)
    by (simp add: bytes_at_moved bytes_at_moved_other pipe_content_def)
  finally have "buf P ?s' b (pipe_content P s @ drop ?k ys)"
    using b mapped_moved [OF mk b(2)] kn by (simp add: buf_def pipe_content_def)
  then show ?thesis using r ok c by (auto simp: pipe_content_def)
qed

interpretation pq: byte_queue "pipe_ok P" "pipe_content P" "pipe_cap P" "buf P"
    "\<lambda>s. pipe_write other s P" "\<lambda>s. pipe_read other s P" for P other
  by unfold_locales (rule write_fits write_full read_all; assumption)+

section \<open>Properties\<close>

text \<open>
  C21: a pipe carries a stream: after any writes that fit into an empty pipe, one read into a
  buffer with room for all of it returns the bytes of all these writes, in their order and
  nothing else, and leaves the pipe empty and usable.
\<close>

theorem pipe_stream:
  assumes "pipe_ok P s" and "\<forall>x\<in>set bs. buf P s (fst x) (snd x) \<and> snd x \<noteq> []" and "pipe_content P s = []" and "bs \<noteq> []"
    and "length (concat (map snd bs)) \<le> pipe_cap P s" and "buf P s b ys" and "length (concat (map snd bs)) \<le> length ys"
  shows "\<exists>s1 s2. put_seq (\<lambda>s. pipe_write other s P) s bs = Ret s1 \<and> pipe_content P s1 = concat (map snd bs) \<and>
    pipe_read other s1 P b (of_nat (length ys)) = Ret (int (length (concat (map snd bs))), s2) \<and>
    pipe_ok P s2 \<and> pipe_content P s2 = [] \<and>
    buf P s2 b (concat (map snd bs) @ drop (length (concat (map snd bs))) ys)"
  by (rule pq.stream [OF assms])

text \<open>A pipe of four bytes at 32, two buffers of the caller at 8 and 64, and a free one at 96.\<close>

definition demo_pipe :: pstate where
  "demo_pipe = \<lparr> p_objs = demo_vfs\<lparr> v_files := [48 \<mapsto> zero_file\<lparr> f_private := 16, f_ops := 80 \<rparr>],
       v_fops := [80 \<mapsto> zero_fops\<lparr> fo_read := PIPE_READ, fo_write := PIPE_WRITE \<rparr>] \<rparr>,
     p_bytes = (\<lambda>a. if a < 128 then Some (of_nat a) else None),
     p_pipes = [16 \<mapsto> \<lparr> pi_file = 48, pi_mem = 32, pi_size = 4, pi_ptr = 0, pi_nreaders = 0, pi_nwriters = 0 \<rparr>], p_cache = 1 \<rparr>"

lemma demo_pipe_ok: "pipe_ok 16 demo_pipe" "pipe_content 16 demo_pipe = []" "pipe_cap 16 demo_pipe = 4"
  by (simp_all add: pipe_ok_def demo_pipe_def mapped_def zero_file_def zero_fops_def pipe_content_def bytes_at_def the_pipe_def pipe_cap_def)

lemma demo_bufs: "buf 16 demo_pipe 8 [8, 9]" "buf 16 demo_pipe 64 [64]" "buf 16 demo_pipe 96 [96, 97, 98, 99]" "buf 16 demo_pipe 96 [96]"
  by (simp_all add: buf_def demo_pipe_def bytes_at_def the_pipe_def mapped_def upt_rec)

lemma pipe_stream_witness:
  "\<exists>s1 s2. put_seq (\<lambda>s. pipe_write (\<lambda>_ s _ _ _ _. Ret (0, s)) s 16) demo_pipe [(8, [8, 9]), (64, [64])] = Ret s1 \<and>
    pipe_read (\<lambda>_ s _ _ _ _. Ret (0, s)) s1 16 96 4 = Ret (3, s2) \<and> pipe_content 16 s2 = [] \<and>
    buf 16 s2 96 [8, 9, 64, 99]"
  using pipe_stream [OF demo_pipe_ok(1) _ demo_pipe_ok(2) _ _ demo_bufs(3), of "[(8, [8, 9]), (64, [64])]" "\<lambda>_ s _ _ _ _. Ret (0, s)"]
    demo_bufs demo_pipe_ok(3) by auto

text \<open>
  A read of fewer bytes than wait in the pipe takes nothing: it gives the first \<open>n\<close> bytes
  and moves the rest down, but the fill count stays, so as many bytes wait as before, the last
  \<open>n\<close> of them once more than they were written.
\<close>

lemma pipe_partial_read:
  assumes "pipe_ok P s" and "buf P s b ys" and "ys \<noteq> []" and "length ys < length (pipe_content P s)"
  shows "\<exists>s'. pipe_read other s P b (of_nat (length ys)) = Ret (int (length ys), s') \<and>
    buf P s' b (take (length ys) (pipe_content P s)) \<and>
    pipe_content P s' = drop (length ys) (pipe_content P s) @
      drop (length (pipe_content P s) - length ys) (pipe_content P s)"
proof -
  let ?p = "the_pipe P s" and ?n = "length ys" and ?k = "unat (pi_ptr (the_pipe P s))"
  let ?m = "moved (p_bytes s) b (pi_mem ?p) ?n"
  let ?m' = "moved ?m (pi_mem ?p) (pi_mem ?p + ?n) (?k - ?n)"
  let ?s' = "set_pipe (s\<lparr> p_bytes := ?m' \<rparr>) P (?p\<lparr> pi_ptr := pi_ptr ?p \<rparr>)"
  obtain f where p: "P \<noteq> 0" "p_pipes s P = Some ?p" "pi_file ?p \<noteq> 0" "v_files (p_objs s) (pi_file ?p) = Some f" "f_private f = P"
      "?k \<le> unat (pi_size ?p)" "unat (pi_size ?p) < 2 ^ 63" "mapped (p_bytes s) (pi_mem ?p) (unat (pi_size ?p))"
    by (rule pipe_okD [OF assms(1)])
  have b: "b \<noteq> 0" "mapped (p_bytes s) b ?n" "?n < 2 ^ 63" "b + ?n \<le> pi_mem ?p \<or> pi_mem ?p + unat (pi_size ?p) \<le> b"
    using assms(2) by (auto simp: buf_def)
  have kn: "?n < ?k" "0 < ?n" using assms(3,4) by (auto simp: pipe_content_def)
  have n: "unat (of_nat ?n :: u64) = ?n" "sint (of_nat ?n :: u64) = int ?n" using of_nat_len [OF b(3)] by auto
  have n0: "(of_nat ?n :: u64) \<noteq> 0" using n(1) kn by (metis less_numeral_extra(3) unat_0)
  have lt: "of_nat ?n < pi_ptr ?p" "pi_ptr ?p \<noteq> 0" "\<not> pi_ptr ?p \<le> of_nat ?n"
    using n(1) kn by (auto simp: word_less_nat_alt word_le_nat_alt)
  have d: "unat (pi_ptr ?p - of_nat ?n) = ?k - ?n" using n(1) kn by (subst unat_sub) (auto simp: word_le_nat_alt)
  have mk: "mapped (p_bytes s) (pi_mem ?p) ?n" using mapped_sub [OF p(8), of 0 ?n] p(6) kn by simp
  have c1: "kmemcpy (p_bytes s) b (pi_mem ?p) ?n = Ret ?m"
    by (rule kmemcpy_correct [OF mk b(2)]) (use b(4) kn p(6) in auto)
  note mm = mapped_moved [OF mk p(8), of b]
  have s1: "mapped ?m (pi_mem ?p + ?n) (?k - ?n)" by (rule mapped_sub [OF mm]) (use p(6) kn in auto)
  have s2: "mapped ?m (pi_mem ?p) (?k - ?n)" using mapped_sub [OF mm, of 0 "?k - ?n"] p(6) by simp
  have c2: "kmemmove ?m (pi_mem ?p) (pi_mem ?p + ?n) (?k - ?n) = Ret ?m'"
    using kmemcpy_correct [OF s1 s2] kn by (simp add: kmemmove_def kmemcpy_def)
  have r: "pipe_read other s P b (of_nat ?n) = Ret (int ?n, ?s')"
    using pipe_calls(1) [OF assms(1) b(1) n0] p(1-5) b(1) n n0 lt d c1 c2 by (simp add: pipe_read_op_def Let_def)
  have same: "bytes_at ?m (pi_mem ?p + i) j = bytes_at (p_bytes s) (pi_mem ?p + i) j" if "i + j \<le> ?k" for i j
    using b(4) that p(6) by (intro bytes_at_moved_other) auto
  have "bytes_at ?m' (pi_mem ?p) ?k = bytes_at ?m' (pi_mem ?p) (?k - ?n) @ bytes_at ?m' (pi_mem ?p + (?k - ?n)) ?n"
    using bytes_at_add [of ?m' "pi_mem ?p" "?k - ?n" ?n] kn by simp
  also have "\<dots> = bytes_at ?m (pi_mem ?p + ?n) (?k - ?n) @ bytes_at ?m (pi_mem ?p + (?k - ?n)) ?n"
    by (simp add: bytes_at_moved bytes_at_moved_other)
  also have "\<dots> = drop ?n (pipe_content P s) @ drop (?k - ?n) (pipe_content P s)"
    using same [of ?n "?k - ?n"] same [of "?k - ?n" ?n] kn by (simp add: pipe_content_def drop_bytes_at)
  finally have c: "pipe_content P ?s' = drop ?n (pipe_content P s) @ drop (?k - ?n) (pipe_content P s)"
    by (simp add: pipe_content_def)
  have "bytes_at ?m' b ?n = bytes_at ?m b ?n" by (rule bytes_at_moved_other) (use b(4) p(6) in auto)
  then have "bytes_at ?m' b ?n = take ?n (pipe_content P s)"
    using kn by (simp add: bytes_at_moved pipe_content_def take_bytes_at)
  moreover have "mapped ?m' b ?n" by (rule mapped_moved [OF s1 mapped_moved [OF mk b(2)]])
  ultimately have "buf P ?s' b (take ?n (pipe_content P s))"
    using b kn by (simp add: buf_def pipe_content_def)
  then show ?thesis using r c by (auto simp: pipe_content_def)
qed

lemma pipe_partial_read_witness:
  "\<exists>s s'. pipe_content 16 s = [8, 9] \<and> pipe_read (\<lambda>_ s _ _ _ _. Ret (0, s)) s 16 96 1 = Ret (1, s') \<and> pipe_content 16 s' = [9, 9]"
proof -
  let ?o = "\<lambda>_ s _ _ _ _. Ret (0, s)"
  obtain s where s: "pipe_ok 16 s" "pipe_content 16 s = [8, 9]" "buf 16 s 96 [96]"
    using write_fits [OF demo_pipe_ok(1) demo_bufs(1), of ?o] demo_pipe_ok(2,3) demo_bufs(4) by auto
  obtain s' where "pipe_read ?o s 16 96 1 = Ret (1, s')" "pipe_content 16 s' = [9, 9]"
    using pipe_partial_read [OF s(1,3), of ?o] s(2) by auto
  with s(2) show ?thesis by blast
qed

end
