(* ===== verification/Mmu.thy ===== *)
theory Mmu
  imports PageAlloc
begin

unbundle bit_operations_syntax

text \<open>
  \<open>src/arch/amd64/mmu.c\<close>: the four levels of page tables. Memory is seen as pages of 512 entries, by
  the virtual address the kernel uses for them; a page that the kernel does not map faults.
  Frames come from the page frame allocator of the theory PageAlloc. \<open>int\<close> flags are given as
  the 64-bit number they widen to. Reading and loading \<open>cr3\<close> is a field of the state; flushing
  the translation buffer changes nothing here.
\<close>

section \<open>Tables and entries\<close>

record mmu =
  pf :: pfa
  tabs :: "u64 \<rightharpoonup> u64 list"
  cr3 :: u64

abbreviation (input) MM_PRESENT :: u64 where "MM_PRESENT \<equiv> 1"
abbreviation (input) MM_READWRITE :: u64 where "MM_READWRITE \<equiv> 2"
abbreviation (input) MM_READONLY :: u64 where "MM_READONLY \<equiv> 0"
abbreviation (input) MM_USER :: u64 where "MM_USER \<equiv> 4"
abbreviation (input) MM_2MB :: u64 where "MM_2MB \<equiv> 0x80"
abbreviation (input) MM_COW :: u64 where "MM_COW \<equiv> 0x200"

definition present :: "u64 \<Rightarrow> bool" where "present e \<longleftrightarrow> e AND MM_PRESENT \<noteq> 0"
definition big :: "u64 \<Rightarrow> bool" where "big e \<longleftrightarrow> e AND MM_2MB \<noteq> 0"

text \<open>The address bits of an entry, and the table at it.\<close>

definition frame_of :: "u64 \<Rightarrow> u64" where "frame_of e = e AND NOT 0xfff"
definition table_of :: "u64 \<Rightarrow> u64" where "table_of e = amd64_p_to_v (frame_of e)"

definition PML4_ATOEI :: "u64 \<Rightarrow> nat" where "PML4_ATOEI addr = unat (drop_bit 39 addr AND 0x1ff)"
definition PDPT_ATOEI :: "u64 \<Rightarrow> nat" where "PDPT_ATOEI addr = unat (drop_bit 30 addr AND 0x1ff)"
definition PD_ATOEI :: "u64 \<Rightarrow> nat" where "PD_ATOEI addr = unat (drop_bit 21 addr AND 0x1ff)"
definition PT_ATOEI :: "u64 \<Rightarrow> nat" where "PT_ATOEI addr = unat (drop_bit 12 addr AND 0x1ff)"
definition V_TO_P :: "u64 \<Rightarrow> u64" where "V_TO_P addr = addr - KVSTART + KPSTART"

definition rd_entry :: "mmu \<Rightarrow> u64 \<Rightarrow> nat \<Rightarrow> u64 outcome" where
  "rd_entry s t i = (case tabs s t of None \<Rightarrow> Halt MemFault | Some tab \<Rightarrow> rd tab i)"

definition wr_entry :: "mmu \<Rightarrow> u64 \<Rightarrow> nat \<Rightarrow> u64 \<Rightarrow> mmu outcome" where
  "wr_entry s t i e =
     (case tabs s t of None \<Rightarrow> Halt MemFault
      | Some tab \<Rightarrow> omap (\<lambda>tab. s\<lparr> tabs := (tabs s)(t \<mapsto> tab) \<rparr>) (wr tab i e))"

section \<open>The operations\<close>

text \<open>\<open>kmemset\<close> of the whole page.\<close>

definition zero_page :: "mmu \<Rightarrow> u64 \<Rightarrow> mmu outcome" where
  "zero_page s t =
     (case tabs s t of None \<Rightarrow> Halt MemFault
      | Some _ \<Rightarrow> Ret (s\<lparr> tabs := (tabs s)(t \<mapsto> replicate 512 0) \<rparr>))"

text \<open>The second argument of \<open>mm_block_alloc\<close> is the order: two pages are taken, one is used.\<close>

definition alloc_page_directory_entry :: "mmu \<Rightarrow> (u64 \<times> mmu) outcome" where
  "alloc_page_directory_entry s =
     bnd (mm_block_alloc (pf s) 1 1) (\<lambda>(addr, p).
     bnd (zero_page (s\<lparr> pf := p \<rparr>) (amd64_p_to_v addr)) (\<lambda>s.
     Ret (addr OR MM_PRESENT OR MM_READWRITE, s)))"

text \<open>One level: make the entry if it is missing, add the flags, go to the table below.\<close>

definition ensure_level :: "mmu \<Rightarrow> u64 \<Rightarrow> nat \<Rightarrow> u64 \<Rightarrow> (u64 \<times> mmu) outcome" where
  "ensure_level s t i flags =
     bnd (rd_entry s t i) (\<lambda>e.
     bnd (if present e then Ret s
          else bnd (alloc_page_directory_entry s) (\<lambda>(e, s). wr_entry s t i e)) (\<lambda>s.
     bnd (rd_entry s t i) (\<lambda>e.
     bnd (wr_entry s t i (e OR flags)) (\<lambda>s. Ret (table_of (e OR flags), s)))))"

definition amd64_map_page_to_dir :: "mmu \<Rightarrow> u64 \<Rightarrow> u64 \<Rightarrow> u64 \<Rightarrow> u64 \<Rightarrow> mmu outcome" where
  "amd64_map_page_to_dir s pml4 paddr vaddr flags =
     kassert (PAGE_ALIGNED paddr \<and> paddr \<noteq> INVALID_ADDRESS)
       (kassert (PAGE_ALIGNED vaddr \<and> vaddr \<noteq> INVALID_ADDRESS)
         (bnd (ensure_level s pml4 (PML4_ATOEI vaddr) flags) (\<lambda>(pdpt, s).
          bnd (ensure_level s pdpt (PDPT_ATOEI vaddr) flags) (\<lambda>(pd, s).
          bnd (ensure_level s pd (PD_ATOEI vaddr) flags) (\<lambda>(pt, s).
          wr_entry s pt (PT_ATOEI vaddr) (paddr OR flags OR MM_PRESENT))))))"

definition amd64_map_page :: "mmu \<Rightarrow> u64 \<Rightarrow> u64 \<Rightarrow> u64 \<Rightarrow> mmu outcome" where
  "amd64_map_page s paddr vaddr flags = amd64_map_page_to_dir s (amd64_p_to_v (cr3 s)) paddr vaddr flags"

text \<open>The two pages of \<open>__pd\<close>: entry \<open>i\<close> stands for the \<open>i\<close>th 2 MB.\<close>

definition pd_page :: "nat \<Rightarrow> u64 list" where
  "pd_page k = map (\<lambda>i. (of_nat (512 * k + i) * 0x200000) OR MM_PRESENT OR MM_READWRITE OR MM_2MB) [0..<512]"

text \<open>
  The first two gigabytes, once from address 0 and once at \<open>KVSTART - KPSTART\<close>, as 2 MB pages. The
  addresses of the static tables are arguments; \<open>__pd\<close> is two pages long.
\<close>

definition mm_native_init :: "mmu \<Rightarrow> u64 \<Rightarrow> u64 \<Rightarrow> u64 \<Rightarrow> mmu outcome" where
  "mm_native_init s pml4 pdpt pd =
     bnd (zero_page s pml4) (\<lambda>s.
     bnd (zero_page s pdpt) (\<lambda>s.
     bnd (zero_page s pd) (\<lambda>s.
     bnd (zero_page s (pd + 4096)) (\<lambda>s.
     let top = V_TO_P pdpt OR MM_PRESENT OR MM_READWRITE;
         low = V_TO_P pd OR MM_PRESENT OR MM_READWRITE;
         high = V_TO_P (pd + 4096) OR MM_PRESENT OR MM_READWRITE in
     bnd (wr_entry s pml4 0 top) (\<lambda>s.
     bnd (wr_entry s pml4 (PML4_ATOEI KVSTART) top) (\<lambda>s.
     let s = s\<lparr> tabs := (tabs s)(pd \<mapsto> pd_page 0, pd + 4096 \<mapsto> pd_page 1) \<rparr> in
     bnd (wr_entry s pdpt 0 low) (\<lambda>s.
     bnd (wr_entry s pdpt (PDPT_ATOEI KVSTART) low) (\<lambda>s.
     bnd (wr_entry s pdpt 1 high) (\<lambda>s.
     bnd (wr_entry s pdpt (PDPT_ATOEI KVSTART + 1) high) (\<lambda>s.
     Ret (s\<lparr> cr3 := V_TO_P pml4 \<rparr>)))))))))))"

text \<open>The loop maps the one page at \<open>a\<close> again and again.\<close>

primrec map_times :: "nat \<Rightarrow> mmu \<Rightarrow> u64 \<Rightarrow> u64 \<Rightarrow> mmu outcome" where
  "map_times 0 s pml4 a = Ret s"
| "map_times (Suc n) s pml4 a =
     bnd (amd64_map_page_to_dir s pml4 a a (MM_PRESENT OR MM_READWRITE)) (\<lambda>s. map_times n s pml4 a)"

text \<open>
  \<open>kpml4\<close> is the static \<open>__pml4\<close>, \<open>lapic\<close> and \<open>ioapic\<close> are the bases of the interrupt controllers and
  \<open>bar0\<close> is that of the graphics card, if there is one. The last entry is not cleared.
\<close>

definition amd64_build_dir :: "mmu \<Rightarrow> u64 \<Rightarrow> u64 \<Rightarrow> u64 \<Rightarrow> u32 option \<Rightarrow> (u64 \<times> mmu) outcome" where
  "amd64_build_dir s kpml4 lapic ioapic bar0 =
     bnd (mm_page_alloc (pf s) 1) (\<lambda>(pml4_p, p).
     let s = s\<lparr> pf := p \<rparr>; pml4_v = amd64_p_to_v pml4_p in
     kassert (pml4_p \<noteq> INVALID_ADDRESS)
       (case tabs s pml4_v of None \<Rightarrow> Halt MemFault
        | Some tab \<Rightarrow>
            let s = s\<lparr> tabs := (tabs s)(pml4_v \<mapsto> replicate 511 0 @ drop 511 tab) \<rparr> in
            bnd (rd_entry s kpml4 (PML4_ATOEI KVSTART)) (\<lambda>k.
            bnd (wr_entry s pml4_v (PML4_ATOEI KVSTART) k) (\<lambda>s.
            kassert (lapic \<noteq> INVALID_ADDRESS) (kassert (ioapic \<noteq> INVALID_ADDRESS)
              (bnd (amd64_map_page_to_dir s pml4_v lapic lapic (MM_PRESENT OR MM_READWRITE)) (\<lambda>s.
               bnd (amd64_map_page_to_dir s pml4_v ioapic ioapic (MM_PRESENT OR MM_READWRITE)) (\<lambda>s.
               case bar0 of None \<Rightarrow> Ret (pml4_v, s)
               | Some b \<Rightarrow> bnd (map_times 4096 s pml4_v (ucast b - 8)) (\<lambda>s. Ret (pml4_v, s))))))))))"

text \<open>A new table below an entry, for the user.\<close>

definition new_user_entry :: "mmu \<Rightarrow> u64 \<Rightarrow> nat \<Rightarrow> (u64 \<times> mmu) outcome" where
  "new_user_entry s t i =
     bnd (alloc_page_directory_entry s) (\<lambda>(e, s).
     bnd (wr_entry s t i (e OR MM_PRESENT OR MM_USER)) (\<lambda>s. Ret (table_of (e OR MM_PRESENT OR MM_USER), s)))"

text \<open>A leaf of the original becomes copy-on-write and is shared with the copy.\<close>

definition cow_leaf :: "u64 \<Rightarrow> mmu \<Rightarrow> u64 \<Rightarrow> u64 \<Rightarrow> nat \<Rightarrow> mmu outcome" where
  "cow_leaf extra s ov cv i =
     bnd (rd_entry s ov i) (\<lambda>e.
     let e = frame_of e OR (MM_COW OR MM_READONLY OR MM_PRESENT OR MM_USER OR extra) in
     bnd (wr_entry s ov i e) (\<lambda>s. wr_entry s cv i e))"

text \<open>The loop over the entries \<open>i, ..., i + n - 1\<close> of a table with a step for those present.\<close>

primrec each_present :: "nat \<Rightarrow> (mmu \<Rightarrow> nat \<Rightarrow> mmu outcome) \<Rightarrow> mmu \<Rightarrow> u64 \<Rightarrow> nat \<Rightarrow> mmu outcome" where
  "each_present 0 f s ov i = Ret s"
| "each_present (Suc n) f s ov i =
     bnd (rd_entry s ov i) (\<lambda>e.
     bnd (if present e then f s i else Ret s) (\<lambda>s. each_present n f s ov (i + 1)))"

definition dup_pt :: "mmu \<Rightarrow> u64 \<Rightarrow> u64 \<Rightarrow> mmu outcome" where
  "dup_pt s ov cv = each_present 512 (\<lambda>s i. cow_leaf 0 s ov cv i) s ov 0"

text \<open>After the entry of a 2 MB page has been shared, the page is taken for a table all the same.\<close>

definition dup_pd :: "mmu \<Rightarrow> u64 \<Rightarrow> u64 \<Rightarrow> mmu outcome" where
  "dup_pd s ov cv = each_present 512 (\<lambda>s i.
     bnd (rd_entry s ov i) (\<lambda>e.
     bnd (if big e then cow_leaf MM_2MB s ov cv i else Ret s) (\<lambda>s.
     bnd (new_user_entry s cv i) (\<lambda>(pt_cv, s).
     bnd (rd_entry s ov i) (\<lambda>e. dup_pt s (table_of e) pt_cv))))) s ov 0"

definition dup_pdpt :: "mmu \<Rightarrow> u64 \<Rightarrow> u64 \<Rightarrow> mmu outcome" where
  "dup_pdpt s ov cv = each_present 512 (\<lambda>s i.
     bnd (new_user_entry s cv i) (\<lambda>(pd_cv, s).
     bnd (rd_entry s ov i) (\<lambda>e. dup_pd s (table_of e) pd_cv))) s ov 0"

definition amd64_duplicate_dir :: "mmu \<Rightarrow> u64 \<Rightarrow> u64 \<Rightarrow> u64 \<Rightarrow> u32 option \<Rightarrow> (u64 \<times> mmu) outcome" where
  "amd64_duplicate_dir s kpml4 lapic ioapic bar0 =
     bnd (amd64_build_dir s kpml4 lapic ioapic bar0) (\<lambda>(cv, s).
     let ov = amd64_p_to_v (cr3 s) in
     bnd (each_present 511 (\<lambda>s i.
       bnd (new_user_entry s cv i) (\<lambda>(pdpt_cv, s).
       bnd (rd_entry s ov i) (\<lambda>e. dup_pdpt s (table_of e) pdpt_cv))) s ov 0) (\<lambda>s.
     Ret (cv, s)))"

text \<open>The page fault handler only walks the tables for its report, and then spins.\<close>

definition amd64_page_fault_handler :: "mmu \<Rightarrow> u64 \<Rightarrow> unit outcome" where
  "amd64_page_fault_handler s cr2 =
     bnd (rd_entry s (amd64_p_to_v (cr3 s)) (PML4_ATOEI cr2)) (\<lambda>e.
     if \<not> present e then Halt Panicked
     else
       bnd (rd_entry s (table_of e) (PDPT_ATOEI cr2)) (\<lambda>e.
       if \<not> present e then Halt Panicked
       else bnd (rd_entry s (table_of e) (PD_ATOEI cr2)) (\<lambda>e. Halt Panicked)))"

section \<open>What the processor makes of the tables\<close>

text \<open>
  The walk of the processor from a table down a list of indices: the leaf entry and the indices
  that are left, one of them when the leaf is a 2 MB page.
\<close>

fun walk :: "(u64 \<rightharpoonup> u64 list) \<Rightarrow> u64 \<Rightarrow> nat list \<Rightarrow> (u64 \<times> nat list) option" where
  "walk T t [] = None"
| "walk T t (j # js) =
     (case T t of None \<Rightarrow> None
      | Some tab \<Rightarrow>
          let e = tab ! j in
          if \<not> present e then None
          else if js = [] \<or> (length js = 1 \<and> big e) then Some (e, js)
          else walk T (table_of e) js)"

definition indices :: "u64 \<Rightarrow> nat list" where
  "indices vaddr = [PML4_ATOEI vaddr, PDPT_ATOEI vaddr, PD_ATOEI vaddr, PT_ATOEI vaddr]"

text \<open>The physical page of a virtual address.\<close>

definition translate :: "mmu \<Rightarrow> u64 \<Rightarrow> u64 \<Rightarrow> u64 option" where
  "translate s pml4 vaddr =
     (case walk (tabs s) pml4 (indices vaddr) of None \<Rightarrow> None
      | Some (e, js) \<Rightarrow> Some (if js = [] then frame_of e else (e AND NOT 0x1fffff) + of_nat (hd js) * 4096))"

text \<open>
  \<open>lvl\<close> gives the level of each page that is a table, 4 for the root: \<open>sub\<close> is the table below an
  entry. In a tree every table hangs below one entry only, and no free page is a table.
\<close>

definition entry :: "mmu \<Rightarrow> u64 \<Rightarrow> nat \<Rightarrow> u64" where "entry s t i = the (tabs s t) ! i"

definition sub :: "(u64 \<rightharpoonup> nat) \<Rightarrow> mmu \<Rightarrow> u64 \<Rightarrow> nat \<Rightarrow> u64 option" where
  "sub lvl s t i =
     (case lvl t of None \<Rightarrow> None
      | Some l \<Rightarrow> if 1 < l \<and> i < 512 \<and> present (entry s t i) \<and> \<not> (l = 2 \<and> big (entry s t i))
                  then Some (table_of (entry s t i)) else None)"

definition tree :: "(u64 \<rightharpoonup> nat) \<Rightarrow> mmu \<Rightarrow> bool" where
  "tree lvl s \<longleftrightarrow>
     (\<forall>t l. lvl t = Some l \<longrightarrow> (\<exists>tab. tabs s t = Some tab \<and> length tab = 512)) \<and>
     (\<forall>t l i u. lvl t = Some l \<longrightarrow> sub lvl s t i = Some u \<longrightarrow> lvl u = Some (l - 1)) \<and>
     (\<forall>t i t' i' u. sub lvl s t i = Some u \<longrightarrow> sub lvl s t' i' = Some u \<longrightarrow> t = t' \<and> i = i')"

definition free_apart :: "(u64 \<rightharpoonup> nat) \<Rightarrow> pfa \<Rightarrow> bool" where
  "free_apart lvl p \<longleftrightarrow> pfa_inv p \<and> no_page_twice (zone_pages (zone_normal p)) \<and>
     (\<forall>a. unat a mod 4096 = 0 \<longrightarrow> unat a div 4096 \<in># zone_pages (zone_normal p) \<longrightarrow> lvl (amd64_p_to_v a) = None)"

text \<open>The bits of an entry.\<close>

lemma low_and:
  assumes "(x :: u64) < 0x1000"
  shows "x AND NOT 0xfff = 0"
proof -
  have "unat x < 4096" using assms by (simp add: word_less_nat_alt)
  then have "unat (ROUND_DOWN x 4096) = 0" by (simp add: unat_ROUND_DOWN)
  then show ?thesis by (simp add: ROUND_DOWN_def unat_eq_zero)
qed

lemma frame_of_or: "x AND NOT 0xfff = 0 \<Longrightarrow> frame_of (e OR x) = frame_of e"
  by (simp add: frame_of_def bit.conj_disj_distrib2)

lemma frame_of_aligned: "unat a mod 4096 = 0 \<Longrightarrow> frame_of a = a"
proof -
  assume a: "unat a mod 4096 = 0"
  have "frame_of a = ROUND_DOWN a 4096" by (simp add: frame_of_def ROUND_DOWN_def)
  moreover have "unat (ROUND_DOWN a 4096) = unat a" using a unat_ROUND_DOWN [of a] by (metis div_mult_mod_eq add.right_neutral)
  ultimately show ?thesis by (simp add: word_unat_eq_iff)
qed

lemma present_or: "present e \<Longrightarrow> present (e OR x)"
  by (auto simp: present_def and_one_eq mod_2_eq_odd even_or_iff)

lemma big_or: "x AND 0x80 = 0 \<Longrightarrow> big (e OR x) = big e"
  by (simp add: big_def bit.conj_disj_distrib2)

lemma aligned_low: "unat (a :: u64) mod 4096 = 0 \<Longrightarrow> x AND NOT 0xfff = 0 \<Longrightarrow> a AND x = 0"
proof -
  assume a: "unat a mod 4096 = 0" and x: "x AND NOT 0xfff = 0"
  have "a = a AND NOT 0xfff" using frame_of_aligned [OF a] by (simp add: frame_of_def)
  then have "a AND x = a AND (NOT 0xfff AND x)" by (metis and.assoc)
  then show ?thesis using x by (simp add: and.commute)
qed

section \<open>Changing one entry\<close>

lemma entry_upd:
  "tabs s t = Some tab \<Longrightarrow> i < length tab \<Longrightarrow>
   entry (s\<lparr> tabs := (tabs s)(t \<mapsto> tab[i := e]) \<rparr>) v j = (if v = t \<and> j = i then e else entry s v j)"
  by (auto simp: entry_def nth_list_update)

lemma subD: "sub lvl s t i = Some u \<Longrightarrow>
    \<exists>l. lvl t = Some l \<and> 1 < l \<and> i < 512 \<and> present (entry s t i) \<and> \<not> (l = 2 \<and> big (entry s t i)) \<and> u = table_of (entry s t i)"
  by (auto simp: sub_def split: option.splits if_splits)

lemma subI: "lvl t = Some l \<Longrightarrow> 1 < l \<Longrightarrow> i < 512 \<Longrightarrow> present (entry s t i) \<Longrightarrow> l = 2 \<longrightarrow> \<not> big (entry s t i) \<Longrightarrow>
    sub lvl s t i = Some (table_of (entry s t i))"
  by (auto simp: sub_def)

lemma treeD:
  assumes "tree lvl s"
  shows "lvl t = Some l \<Longrightarrow> \<exists>tab. tabs s t = Some tab \<and> length tab = 512"
    and "lvl t = Some l \<Longrightarrow> sub lvl s t i = Some u \<Longrightarrow> lvl u = Some (l - 1)"
    and "sub lvl s t i = Some u \<Longrightarrow> sub lvl s t' i' = Some u \<Longrightarrow> t = t' \<and> i = i'"
  using assms unfolding tree_def by blast+

text \<open>An entry that leads on to the same table, or from nothing to an empty table.\<close>

definition same_way :: "nat \<Rightarrow> u64 \<Rightarrow> u64 \<Rightarrow> bool" where
  "same_way l e e' \<longleftrightarrow> 1 < l \<and> present e \<and> present e' \<and> table_of e' = table_of e \<and> \<not> (l = 2 \<and> (big e \<or> big e'))"

definition opens :: "nat \<Rightarrow> mmu \<Rightarrow> u64 \<Rightarrow> u64 \<Rightarrow> bool" where
  "opens l s' e e' \<longleftrightarrow> 1 < l \<and> \<not> present e \<and> present e' \<and> \<not> (l = 2 \<and> big e') \<and> tabs s' (table_of e') = Some (replicate 512 0)"

lemma walk_entry: "tabs s t = Some tab \<Longrightarrow>
   walk (tabs s) t (j # js) = (if \<not> present (entry s t j) then None
     else if js = [] \<or> (length js = 1 \<and> big (entry s t j)) then Some (entry s t j, js)
     else walk (tabs s) (table_of (entry s t j)) js)"
  by (simp add: entry_def Let_def)

declare walk.simps(2) [simp del]

lemma present_0 [simp]: "\<not> present 0"
  by (simp add: present_def)

lemma walk_same:
  assumes "tree lvl s" and tab: "\<And>v l. lvl v = Some l \<Longrightarrow> \<exists>tab. tabs s' v = Some tab"
    and e: "\<And>v l j. lvl v = Some l \<Longrightarrow> j < 512 \<Longrightarrow>
      entry s' v j = entry s v j \<or> same_way l (entry s v j) (entry s' v j) \<or> opens l s' (entry s v j) (entry s' v j)"
  shows "lvl v = Some (length js) \<Longrightarrow> \<forall>j\<in>set js. j < 512 \<Longrightarrow> walk (tabs s') v js = walk (tabs s) v js"
proof (induction js arbitrary: v)
  case (Cons j ks)
  have lv: "lvl v = Some (Suc (length ks))" using Cons.prems(1) by simp
  obtain t t' where t: "tabs s v = Some t" "tabs s' v = Some t'" using treeD(1) [OF assms(1) Cons.prems(1)] tab [OF Cons.prems(1)] by auto
  note w = walk_entry [OF t(1), of j ks] walk_entry [OF t(2), of j ks]
  have down: "lvl (table_of (entry s v j)) = Some (length ks)"
    if "present (entry s v j)" "ks \<noteq> []" "length ks = 1 \<longrightarrow> \<not> big (entry s v j)"
    using treeD(2) [OF assms(1) lv subI [of lvl v, OF lv]] Cons.prems(2) that by (cases ks) auto
  consider "entry s' v j = entry s v j" | "same_way (length (j # ks)) (entry s v j) (entry s' v j)"
    | "opens (length (j # ks)) s' (entry s v j) (entry s' v j)"
    using e [OF Cons.prems(1)] Cons.prems(2) by auto
  then show ?case
  proof cases
    case 1
    then show ?thesis using w down Cons.IH Cons.prems(2) by auto
  next
    case 2
    then have "ks \<noteq> []" "length ks = 1 \<longrightarrow> \<not> big (entry s v j) \<and> \<not> big (entry s' v j)" by (auto simp: same_way_def)
    then show ?thesis using 2 w down Cons.IH Cons.prems(2) by (auto simp: same_way_def)
  next
    case 3
    then obtain k ks' where "ks = k # ks'" by (cases ks) (auto simp: opens_def)
    then show ?thesis using 3 w Cons.prems(2) by (auto simp: opens_def walk.simps(2) [of _ _ k])
  qed
qed simp

text \<open>The table that an index list reaches, and the one way there is to it.\<close>

fun reach :: "(u64 \<rightharpoonup> nat) \<Rightarrow> mmu \<Rightarrow> u64 \<Rightarrow> nat list \<Rightarrow> u64 option" where
  "reach lvl s v [] = None"
| "reach lvl s v [j] = Some v"
| "reach lvl s v (j # js) = (case sub lvl s v j of None \<Rightarrow> None | Some u \<Rightarrow> reach lvl s u js)"

lemma reach_unique:
  assumes "tree lvl s"
  shows "reach lvl s v js = Some u \<Longrightarrow> reach lvl s v' js' = Some u \<Longrightarrow> length js = length js' \<Longrightarrow> v = v' \<and> butlast js = butlast js'"
proof (induction js arbitrary: v v' js')
  case (Cons j ks)
  obtain j' ks' where js': "js' = j' # ks'" "length ks = length ks'" using Cons.prems(3) by (cases js') auto
  show ?case
  proof (cases ks)
    case Nil
    then show ?thesis using Cons.prems js' by simp
  next
    case (Cons k ks0)
    obtain k' ks1 where ks': "ks' = k' # ks1" using js'(2) Cons by (cases ks') auto
    obtain w w' where w: "sub lvl s v j = Some w" "reach lvl s w ks = Some u" "sub lvl s v' j' = Some w'" "reach lvl s w' ks' = Some u"
      using Cons.prems js' Cons ks' by (auto split: option.splits)
    have "w = w' \<and> butlast ks = butlast ks'" by (rule Cons.IH [OF w(2,4) js'(2)])
    then show ?thesis using treeD(3) [OF assms w(1)] w(3) js'(1) Cons ks' by auto
  qed
qed simp

text \<open>Writing an entry of a table of the last level.\<close>

lemma walk_leaf:
  assumes tr: "tree lvl s" and pt: "lvl pt = Some 1" "tabs s pt = Some tab" "k < 512" and e: "present e"
    and s': "s' = s\<lparr> tabs := (tabs s)(pt \<mapsto> tab[k := e]) \<rparr>"
  shows "lvl v = Some (length js) \<Longrightarrow> \<forall>j\<in>set js. j < 512 \<Longrightarrow>
    walk (tabs s') v js = (if reach lvl s v js = Some pt \<and> last js = k then Some (e, []) else walk (tabs s) v js)"
proof (induction js arbitrary: v)
  case (Cons j ks)
  have lv: "lvl v = Some (Suc (length ks))" using Cons.prems(1) by simp
  have len: "length tab = 512" using treeD(1) [OF tr pt(1)] pt(2) by auto
  obtain t where t: "tabs s v = Some t" using treeD(1) [OF tr Cons.prems(1)] by auto
  obtain t' where t': "tabs s' v = Some t'" using t s' by (cases "v = pt") auto
  have en: "entry s' v j = (if v = pt \<and> j = k then e else entry s v j)" using entry_upd [OF pt(2)] len pt(3) s' by simp
  note w = walk_entry [OF t, of j ks] walk_entry [OF t', of j ks]
  show ?case
  proof (cases ks)
    case Nil
    then show ?thesis using w en e by auto
  next
    case (Cons k' ks')
    then have v: "v \<noteq> pt" using Cons.prems(1) pt(1) by auto
    have down: "sub lvl s v j = Some (table_of (entry s v j))" "lvl (table_of (entry s v j)) = Some (length ks)"
      if "present (entry s v j)" "length ks = 1 \<longrightarrow> \<not> big (entry s v j)"
      using subI [of lvl v, OF lv, of j s] treeD(2) [OF tr lv subI [of lvl v, OF lv]] Cons.prems(2) that Cons by auto
    have no: "sub lvl s v j = None" if "\<not> present (entry s v j) \<or> (length ks = 1 \<and> big (entry s v j))"
      using that Cons.prems(1) by (auto simp: sub_def)
    show ?thesis using w en v down no Cons.IH [of "table_of (entry s v j)"] Cons.prems(2) Cons by auto
  qed
qed simp

section \<open>One level of the mapping\<close>

lemma wr_entry_ok: "tabs s t = Some tab \<Longrightarrow> i < length tab \<Longrightarrow> wr_entry s t i e = Ret (s\<lparr> tabs := (tabs s)(t \<mapsto> tab[i := e]) \<rparr>)"
  by (simp add: wr_entry_def)

lemma rd_entry_ok: "tabs s t = Some tab \<Longrightarrow> i < length tab \<Longrightarrow> rd_entry s t i = Ret (entry s t i)"
  by (simp add: rd_entry_def entry_def)

text \<open>What each level of the mapping keeps, and what it gives.\<close>

definition grows :: "(u64 \<rightharpoonup> nat) \<Rightarrow> mmu \<Rightarrow> (u64 \<rightharpoonup> nat) \<Rightarrow> mmu \<Rightarrow> bool" where
  "grows lvl s lvl' s' \<longleftrightarrow> tree lvl' s' \<and> free_apart lvl' (pf s') \<and> lvl \<subseteq>\<^sub>m lvl' \<and>
     (\<forall>v j w. sub lvl s v j = Some w \<longrightarrow> sub lvl' s' v j = Some w) \<and>
     (\<forall>v js. lvl v = Some (length js) \<longrightarrow> (\<forall>j\<in>set js. j < 512) \<longrightarrow> walk (tabs s') v js = walk (tabs s) v js)"

lemma growsI:
  assumes tr: "tree lvl s" and fr: "free_apart lvl' (pf s')"
    and tab: "\<And>v l. lvl' v = Some l \<Longrightarrow> \<exists>tab. tabs s' v = Some tab \<and> length tab = 512"
    and e: "\<And>v l j. lvl v = Some l \<Longrightarrow> j < 512 \<Longrightarrow>
      entry s' v j = entry s v j \<or> same_way l (entry s v j) (entry s' v j) \<or> opens l s' (entry s v j) (entry s' v j)"
    and new: "\<And>v l j. lvl' v = Some l \<Longrightarrow> lvl v = None \<Longrightarrow> j < 512 \<Longrightarrow> entry s' v j = 0"
    and m: "lvl \<subseteq>\<^sub>m lvl'"
    and op: "\<And>v l j. lvl v = Some l \<Longrightarrow> j < 512 \<Longrightarrow> opens l s' (entry s v j) (entry s' v j) \<Longrightarrow>
      v = t \<and> j = i \<and> lvl (table_of (entry s' v j)) = None \<and> lvl' (table_of (entry s' v j)) = Some (l - 1)"
  shows "grows lvl s lvl' s'"
proof -
  have up: "lvl' v = Some l" if "lvl v = Some l" for v l using m that by (auto simp: map_le_def dom_def)
  have s1: "sub lvl' s' v j = Some w" if "sub lvl s v j = Some w" for v j w
  proof -
    from subD [OF that] obtain l where l: "lvl v = Some l" "1 < l" "j < 512" "present (entry s v j)"
        "\<not> (l = 2 \<and> big (entry s v j))" "w = table_of (entry s v j)" by blast
    from e [OF l(1,3)] l have "present (entry s' v j) \<and> \<not> (l = 2 \<and> big (entry s' v j)) \<and> w = table_of (entry s' v j)"
      by (auto simp: same_way_def opens_def)
    then show ?thesis using subI [of lvl' v, OF up [OF l(1)] l(2,3)] by auto
  qed
  have s2: "sub lvl s v j = Some w \<or> (v = t \<and> j = i \<and> lvl w = None \<and> (\<forall>l. lvl v = Some l \<longrightarrow> lvl' w = Some (l - 1)))"
    "\<exists>l. lvl v = Some l" if "sub lvl' s' v j = Some w" for v j w
  proof -
    from subD [OF that] obtain l where l: "lvl' v = Some l" "1 < l" "j < 512" "present (entry s' v j)"
        "\<not> (l = 2 \<and> big (entry s' v j))" "w = table_of (entry s' v j)" by blast
    have "lvl v \<noteq> None" using new [OF l(1) _ l(3)] l(4) by (cases "lvl v") auto
    then obtain l' where l': "lvl v = Some l'" "l' = l" using up l(1) by auto
    then show "\<exists>l. lvl v = Some l" by blast
    show "sub lvl s v j = Some w \<or> (v = t \<and> j = i \<and> lvl w = None \<and> (\<forall>l. lvl v = Some l \<longrightarrow> lvl' w = Some (l - 1)))"
      using e [of v l j] op [of v l j] l l' subI [of lvl v l j s] by (auto simp: same_way_def)
  qed
  have "tree lvl' s'"
    unfolding tree_def
  proof (intro conjI allI impI)
    fix v l j w assume v: "lvl' v = Some l" "sub lvl' s' v j = Some w"
    from s2(2) [OF v(2)] have "lvl v = Some l" using up v(1) by fastforce
    then show "lvl' w = Some (l - 1)" using s2(1) [OF v(2)] treeD(2) [OF tr] up by blast
  next
    fix v j v' j' w assume a: "sub lvl' s' v j = Some w" "sub lvl' s' v' j' = Some w"
    have d: "lvl w \<noteq> None" if "sub lvl s x y = Some w" for x y using treeD(2) [OF tr] subD [OF that] that by blast
    show "v = v'" using s2(1) [OF a(1)] s2(1) [OF a(2)] treeD(3) [OF tr] d by blast
    show "j = j'" using s2(1) [OF a(1)] s2(1) [OF a(2)] treeD(3) [OF tr] d by blast
  qed (use tab in blast)
  moreover have "walk (tabs s') v js = walk (tabs s) v js" if "lvl v = Some (length js)" "\<forall>j\<in>set js. j < 512" for v js
    by (rule walk_same [OF tr _ e that]) (use tab up in \<open>blast+\<close>)
  ultimately show ?thesis using fr m s1 by (simp add: grows_def)
qed

lemma alloc_apart:
  assumes "free_apart lvl p" and "mm_block_alloc p 1 1 = Ret (a, p')"
  shows "unat a mod 4096 = 0 \<and> lvl (amd64_p_to_v a) = None \<and> free_apart (lvl(amd64_p_to_v a \<mapsto> k)) p'"
proof -
  have t: "pfa_inv p'" "block_ok a 1" "zone_pages (zone_normal p) = zone_pages (zone_normal p') + block_pages a 1"
    using mm_block_alloc_takes [OF _ _ assms(2)] assms(1) by (auto simp: free_apart_def takes_def)
  have al: "unat a mod 4096 = 0" using t(2) by (simp add: block_ok_def)
  have mem: "unat a div 4096 \<in># block_pages a 1" by (simp add: block_pages_def)
  have n: "no_page_twice (zone_pages (zone_normal p'))" "unat a div 4096 \<notin># zone_pages (zone_normal p')"
    using assms(1) no_page_twice_add(1) [of "zone_pages (zone_normal p')" "block_pages a 1"]
      no_page_twice_add(2) [of "block_pages a 1" "zone_pages (zone_normal p')", OF _ mem] t(3)
    by (auto simp: free_apart_def add.commute)
  have "amd64_p_to_v b \<noteq> amd64_p_to_v a" if "unat b div 4096 \<in># zone_pages (zone_normal p')" for b
    using that n(2) by (auto simp: amd64_p_to_v_def)
  then show ?thesis using assms(1) t al n(1) mem by (auto simp: free_apart_def)
qed

lemma ensure_level_grows:
  assumes tr: "tree lvl s" and fr: "free_apart lvl (pf s)" and t: "lvl t = Some l" "1 < l" "i < 512"
    and fl: "flags AND NOT 0xfff = 0" "flags AND 0x80 = 0"
    and nobig: "\<not> (l = 2 \<and> present (entry s t i) \<and> big (entry s t i))" and r: "ensure_level s t i flags = Ret (u, s')"
  shows "\<exists>lvl'. grows lvl s lvl' s' \<and> sub lvl' s' t i = Some u \<and> lvl' u = Some (l - 1)"
proof -
  obtain tab where tab: "tabs s t = Some tab" "length tab = 512" using treeD(1) [OF tr t(1)] by blast
  have il: "i < length tab" using tab(2) t(3) by simp
  show ?thesis
  proof (cases "present (entry s t i)")
    case True
    let ?e = "entry s t i OR flags"
    have s': "s' = s\<lparr> tabs := (tabs s)(t \<mapsto> tab[i := ?e]) \<rparr>" "u = table_of ?e"
      using r rd_entry_ok [OF tab(1) il] wr_entry_ok [OF tab(1) il] True by (simp_all add: ensure_level_def)
    have e: "entry s' v j = (if v = t \<and> j = i then ?e else entry s v j)" for v j unfolding s'(1) by (rule entry_upd [OF tab(1) il])
    have sw: "same_way l (entry s t i) ?e"
      using True t(2) nobig big_or [OF fl(2)] present_or [OF True] frame_of_or [OF fl(1)]
      by (auto simp: same_way_def table_of_def)
    have g: "grows lvl s lvl s'"
    proof (rule growsI [OF tr, where t = t and i = i])
      show "free_apart lvl (pf s')" using fr s' by simp
      show "\<exists>tab. tabs s' v = Some tab \<and> length tab = 512" if "lvl v = Some l" for v l
        using treeD(1) [OF tr that] s'(1) tab by auto
      show "entry s' v j = entry s v j \<or> same_way k (entry s v j) (entry s' v j) \<or> opens k s' (entry s v j) (entry s' v j)"
        if "lvl v = Some k" for v k j using sw that t(1) e [of v j] by auto
    qed (use e True in \<open>auto simp: opens_def\<close>)
    have "sub lvl s' t i = Some u"
      using subI [of lvl t, OF t, of s'] e [of t i] sw s'(2) by (auto simp: same_way_def)
    moreover have "lvl u = Some (l - 1)" using treeD(2) [of lvl s' t l i u] g t(1) calculation by (simp add: grows_def)
    ultimately show ?thesis using g by blast
  next
    case False
    obtain a p' z where a: "mm_block_alloc (pf s) 1 1 = Ret (a, p')" "tabs s (amd64_p_to_v a) = Some z"
      using r rd_entry_ok [OF tab(1) il] False
      by (auto simp: ensure_level_def alloc_page_directory_entry_def bnd_Ret_iff zero_page_def split: option.splits)
    let ?T = "amd64_p_to_v a" and ?e = "a OR 3 OR flags"
    note al = alloc_apart [OF fr a(1), of "l - 1"]
    let ?lvl' = "lvl(?T \<mapsto> l - 1)"
    have ne: "?T \<noteq> t" using al t(1) by auto
    let ?s1 = "s\<lparr> pf := p', tabs := (tabs s)(?T \<mapsto> replicate 512 0) \<rparr>"
    have t1: "tabs ?s1 t = Some tab" using ne tab(1) by simp
    let ?s2 = "?s1\<lparr> tabs := (tabs ?s1)(t \<mapsto> tab[i := a OR MM_PRESENT OR MM_READWRITE]) \<rparr>"
    have t2: "tabs ?s2 t = Some (tab[i := a OR MM_PRESENT OR MM_READWRITE])" "i < length (tab[i := a OR MM_PRESENT OR MM_READWRITE])"
      using il by simp_all
    have "entry ?s2 t i = a OR MM_PRESENT OR MM_READWRITE" using entry_upd [OF t1 il] by simp
    then have s': "s' = ?s1\<lparr> tabs := (tabs ?s1)(t \<mapsto> tab[i := ?e]) \<rparr>" "u = table_of ?e"
      using r rd_entry_ok [OF tab(1) il] False a wr_entry_ok [OF t1 il] rd_entry_ok [OF t2] wr_entry_ok [OF t2]
      by (simp_all add: ensure_level_def alloc_page_directory_entry_def zero_page_def or.assoc)
    have e: "entry s' v j = (if v = t \<and> j = i then ?e else if v = ?T then replicate 512 0 ! j else entry s v j)" for v j
      unfolding s'(1) entry_upd [OF t1 il] by (simp add: entry_def)
    have low: "(3 OR flags) AND NOT 0xfff = 0" using fl(1) by (simp add: bit.conj_disj_distrib2)
    have fe: "frame_of ?e = a"
      using frame_of_or [OF low, of a] frame_of_aligned al by simp
    have pe: "present ?e" using present_or [of 3 "a OR flags"] by (simp add: present_def or.left_commute)
    have "a AND 0x80 = 0" using aligned_low [of a "0x80"] al by simp
    then have be: "\<not> big ?e" using fl(2) by (simp add: big_def bit.conj_disj_distrib2)
    have u: "u = ?T" using s'(2) fe by (simp add: table_of_def)
    have g: "grows lvl s ?lvl' s'"
    proof (rule growsI [OF tr, where t = t and i = i])
      show "free_apart ?lvl' (pf s')" using al s' by simp
      show "\<exists>tab. tabs s' v = Some tab \<and> length tab = 512" if "?lvl' v = Some k" for v k
        using treeD(1) [OF tr, of v k] that s'(1) tab by (auto split: if_splits)
      show "entry s' v j = entry s v j \<or> same_way k (entry s v j) (entry s' v j) \<or> opens k s' (entry s v j) (entry s' v j)"
        if "lvl v = Some k" "j < 512" for v k j
        using e [of v j] that al t(1,2) False pe be fe ne s'(1) by (auto simp: opens_def table_of_def)
      show "entry s' v j = 0" if "?lvl' v = Some k" "lvl v = None" "j < 512" for v k j
        using e [of v j] that t(1) by (auto split: if_splits)
      show "lvl \<subseteq>\<^sub>m ?lvl'" using al by (auto simp: map_le_def)
      show "v = t \<and> j = i \<and> lvl (table_of (entry s' v j)) = None \<and> ?lvl' (table_of (entry s' v j)) = Some (k - 1)"
        if "lvl v = Some k" "j < 512" "opens k s' (entry s v j) (entry s' v j)" for v k j
        using e [of v j] that al t(1) fe by (auto simp: opens_def table_of_def split: if_splits)
    qed
    have "?lvl' t = Some l" using t(1) ne by simp
    then have "sub ?lvl' s' t i = Some u"
      using subI [of ?lvl' t l i s'] t e [of t i] pe be s'(2) by simp
    then show ?thesis using g u by auto
  qed
qed

section \<open>Properties\<close>

lemma index_less: "unat (x AND 0x1ff :: u64) < 512"
proof -
  have "x AND 0x1ff < 0x200" using word_and_le1 [of x "0x1ff"] by (simp add: word_le_nat_alt word_less_nat_alt)
  then show ?thesis by (simp add: word_less_nat_alt)
qed

lemma indices_ok: "length (indices v) = 4" "\<forall>j\<in>set (indices v). j < 512"
  by (simp_all add: indices_def PML4_ATOEI_def PDPT_ATOEI_def PD_ATOEI_def PT_ATOEI_def index_less)

lemma tree_leaf:
  assumes tr: "tree lvl s" and pt: "lvl pt = Some 1" "tabs s pt = Some tab" "k < 512"
    and s': "s' = s\<lparr> tabs := (tabs s)(pt \<mapsto> tab[k := e]) \<rparr>"
  shows "tree lvl s'"
proof -
  have len: "length tab = 512" using treeD(1) [OF tr pt(1)] pt(2) by auto
  have "sub lvl s' v j = sub lvl s v j" for v j
    using entry_upd [OF pt(2), of k e v j] len pt s' by (auto simp: sub_def split: option.splits)
  moreover have "\<exists>tab. tabs s' v = Some tab \<and> length tab = 512" if "lvl v = Some l" for v l
    using treeD(1) [OF tr that] len s' by auto
  ultimately show ?thesis using tr unfolding tree_def by auto
qed


section \<open>The first mapping\<close>

lemma index_nat: "unat (drop_bit k a AND 0x1ff :: u64) = unat a div 2 ^ k mod 512"
proof -
  have m: "(0x1ff :: u64) = mask 9" by (simp add: mask_eq_exp_minus_1)
  show ?thesis unfolding m
    by (simp add: unsigned_take_bit_eq unat_drop_bit_eq drop_bit_eq_div [where ?'a = nat] take_bit_eq_mod [where ?'a = nat]
        flip: take_bit_eq_mask)
qed

lemma div_add_mult: "0 < b \<Longrightarrow> n = m + b * c \<Longrightarrow> n div b = m div b + (c :: nat)"
  by simp

lemmas index_nats = PML4_ATOEI_def PDPT_ATOEI_def PD_ATOEI_def PT_ATOEI_def index_nat

lemma indices_low:
  assumes "unat p < 2 ^ 31"
  shows "indices p = [0, unat p div 2 ^ 30, unat p div 2 ^ 21 mod 512, unat p div 2 ^ 12 mod 512]"
proof -
  have "unat p div 2 ^ 39 = 0" using assms by simp
  moreover have "unat p div 2 ^ 30 mod 512 = unat p div 2 ^ 30" using assms by (intro mod_less) (simp add: less_mult_imp_div_less)
  ultimately show ?thesis by (simp add: indices_def index_nats)
qed

lemma indices_high:
  assumes "unat p < 2 ^ 31"
  shows "indices (amd64_p_to_v p) = [511, 510 + unat p div 2 ^ 30, unat p div 2 ^ 21 mod 512, unat p div 2 ^ 12 mod 512]"
proof -
  let ?n = "unat p" and ?k = "8589934591 :: nat"
  have u: "unat (amd64_p_to_v p) = ?n + 2 ^ 31 * ?k" using unat_p_to_v [OF assms] by simp
  have "(?n + 2 ^ 31 * ?k) div 2 ^ 39 = (?n + 2 ^ 31 * ?k) div 2 ^ 31 div 2 ^ 8" by (simp flip: div_mult2_eq)
  also have "(?n + 2 ^ 31 * ?k) div 2 ^ 31 = ?k" using assms by simp
  finally have 4: "(?n + 2 ^ 31 * ?k) div 2 ^ 39 mod 512 = 511" by simp
  have "(?n + 2 ^ 31 * ?k) div 2 ^ 30 = ?n div 2 ^ 30 + 2 * ?k" by (rule div_add_mult) simp_all
  moreover have q: "q = 0 \<or> q = 1 \<Longrightarrow> (q + 2 * ?k) mod 512 = 510 + q" for q :: nat by auto
  have "?n div 2 ^ 30 = 0 \<or> ?n div 2 ^ 30 = 1" using less_mult_imp_div_less [of ?n 2 "2 ^ 30"] assms by auto
  ultimately have 3: "(?n + 2 ^ 31 * ?k) div 2 ^ 30 mod 512 = 510 + ?n div 2 ^ 30" using q by metis
  have "(?n + 2 ^ 31 * ?k) div 2 ^ 21 = ?n div 2 ^ 21 + 512 * (2 * ?k)" by (rule div_add_mult) simp_all
  then have 2: "(?n + 2 ^ 31 * ?k) div 2 ^ 21 mod 512 = ?n div 2 ^ 21 mod 512" by (simp only: mod_mult_self2)
  have "(?n + 2 ^ 31 * ?k) div 2 ^ 12 = ?n div 2 ^ 12 + 512 * (1024 * ?k)" by (rule div_add_mult) simp_all
  then have 1: "(?n + 2 ^ 31 * ?k) div 2 ^ 12 mod 512 = ?n div 2 ^ 12 mod 512" by (simp only: mod_mult_self2)
  show ?thesis unfolding indices_def index_nats u using 1 2 3 4 by simp
qed

lemma table_of_static: "unat (V_TO_P x) mod 4096 = 0 \<Longrightarrow> table_of (V_TO_P x OR 3) = x \<and> present (V_TO_P x OR 3)"
proof -
  assume "unat (V_TO_P x) mod 4096 = 0"
  then have "frame_of (V_TO_P x OR 3) = V_TO_P x" using frame_of_or [of 3] by (simp add: frame_of_aligned)
  moreover have "present (V_TO_P x OR 3)" by (simp add: present_def bit.conj_disj_distrib2 and_one_eq mod_2_eq_odd even_or_iff)
  ultimately show ?thesis by (simp add: table_of_def amd64_p_to_v_def V_TO_P_def)
qed

definition big_entry :: "nat \<Rightarrow> u64" where "big_entry i = (of_nat i * 0x200000) OR 0x83"

lemma big_entry_ok: "present (big_entry i)" "big (big_entry i)" "big_entry i AND NOT 0x1fffff = of_nat i * 0x200000"
proof -
  have m: "(0x1fffff :: u64) = mask 21" by (simp add: mask_eq_exp_minus_1)
  have p: "of_nat i * 0x200000 = push_bit 21 (of_nat i :: u64)" by (simp add: push_bit_eq_mult)
  have "push_bit 21 (of_nat i :: u64) AND NOT (mask 21) = push_bit 21 (of_nat i)"
    by (rule bit_word_eqI) (auto simp: bit_simps)
  then show "big_entry i AND NOT 0x1fffff = of_nat i * 0x200000"
    unfolding big_entry_def p m by (simp add: bit.conj_disj_distrib2 flip: m)
  show "present (big_entry i)" by (simp add: big_entry_def present_def bit.conj_disj_distrib2 and_one_eq mod_2_eq_odd even_or_iff)
  show "big (big_entry i)" by (simp add: big_entry_def big_def bit.conj_disj_distrib2)
qed

text \<open>The tables that \<open>mm_native_init\<close> leaves.\<close>

lemma native_tables:
  assumes "mm_native_init s pml4 pdpt pd = Ret s'" and "distinct [pml4, pdpt, pd, pd + 4096]"
  shows "tabs s' pml4 = Some ((replicate 512 0)[0 := V_TO_P pdpt OR 3, 511 := V_TO_P pdpt OR 3])"
    and "tabs s' pdpt = Some ((replicate 512 0)[0 := V_TO_P pd OR 3, 510 := V_TO_P pd OR 3,
        1 := V_TO_P (pd + 4096) OR 3, 511 := V_TO_P (pd + 4096) OR 3])"
    and "tabs s' pd = Some (pd_page 0)" and "tabs s' (pd + 4096) = Some (pd_page 1)"
    and "cr3 s' = V_TO_P pml4"
proof -
  have i: "PML4_ATOEI KVSTART = 511" "PDPT_ATOEI KVSTART = 510"
    by (simp_all add: PML4_ATOEI_def PDPT_ATOEI_def KVSTART_def)
  obtain a b c d where t: "tabs s pml4 = Some a" "tabs s pdpt = Some b" "tabs s pd = Some c" "tabs s (pd + 4096) = Some d"
    using assms by (auto simp: mm_native_init_def zero_page_def bnd_Ret_iff split: option.splits if_splits)
  have ne: "pml4 \<noteq> pdpt" "pdpt \<noteq> pml4" "pml4 \<noteq> pd" "pd \<noteq> pml4" "pml4 \<noteq> pd + 4096" "pd + 4096 \<noteq> pml4"
    "pdpt \<noteq> pd" "pd \<noteq> pdpt" "pdpt \<noteq> pd + 4096" "pd + 4096 \<noteq> pdpt" "pd \<noteq> pd + 4096"
    using assms(2) by auto
  note r = assms(1) [unfolded mm_native_init_def i Let_def]
  have "s' = s\<lparr> tabs := (tabs s)(pml4 \<mapsto> (replicate 512 0)[0 := V_TO_P pdpt OR 3, 511 := V_TO_P pdpt OR 3],
      pd \<mapsto> pd_page 0, pd + 4096 \<mapsto> pd_page 1,
      pdpt \<mapsto> (replicate 512 0)[0 := V_TO_P pd OR 3, 510 := V_TO_P pd OR 3,
        1 := V_TO_P (pd + 4096) OR 3, 511 := V_TO_P (pd + 4096) OR 3]), cr3 := V_TO_P pml4 \<rparr>"
    using r t ne by (simp add: zero_page_def wr_entry_def fun_upd_twist)
  then show "tabs s' pml4 = Some ((replicate 512 0)[0 := V_TO_P pdpt OR 3, 511 := V_TO_P pdpt OR 3])"
    "tabs s' pdpt = Some ((replicate 512 0)[0 := V_TO_P pd OR 3, 510 := V_TO_P pd OR 3,
        1 := V_TO_P (pd + 4096) OR 3, 511 := V_TO_P (pd + 4096) OR 3])"
    "tabs s' pd = Some (pd_page 0)" "tabs s' (pd + 4096) = Some (pd_page 1)"
    "cr3 s' = V_TO_P pml4"
    using ne by simp_all
qed

text \<open>The walk ends at the 2 MB page of \<open>p\<close>.\<close>

lemma native_walk:
  assumes t: "tabs s pml4 = Some a" "tabs s pdpt = Some b" "tabs s t = Some (pd_page k)"
    and e: "a ! i = V_TO_P pdpt OR 3" "b ! j = V_TO_P t OR 3" and al: "unat (V_TO_P pdpt) mod 4096 = 0" "unat (V_TO_P t) mod 4096 = 0"
    and m: "m < 512"
  shows "walk (tabs s) pml4 [i, j, m, n] = Some (big_entry (512 * k + m), [n])"
proof -
  have "pd_page k ! m = big_entry (512 * k + m)" using m by (simp add: pd_page_def big_entry_def)
  then show ?thesis
    using t e table_of_static [OF al(1)] table_of_static [OF al(2)] big_entry_ok(1,2) [of "512 * k + m"]
    by (simp add: walk.simps(2) Let_def)
qed

lemma native_address:
  assumes "unat p < 2 ^ 31"
  shows "of_nat (unat p div 2 ^ 21) * 0x200000 + of_nat (unat p div 2 ^ 12 mod 512) * 4096 = frame_of p"
proof -
  let ?n = "unat p"
  have "?n div 2 ^ 21 * 0x200000 + ?n div 2 ^ 12 mod 512 * 4096 = ?n div 4096 * 4096"
  proof -
    have 21: "?n div 2 ^ 21 = ?n div 4096 div 512" by (simp flip: div_mult2_eq)
    have 12: "?n div 2 ^ 12 = ?n div 4096" by simp
    have "?n div 4096 div 512 * 512 + ?n div 4096 mod 512 = ?n div 4096" by (rule div_mult_mod_eq)
    then show ?thesis unfolding 21 12 by linarith
  qed
  then have "of_nat (?n div 2 ^ 21 * 0x200000 + ?n div 2 ^ 12 mod 512 * 4096) = (of_nat (?n div 4096 * 4096) :: u64)" by (rule arg_cong)
  moreover have "of_nat (?n div 4096 * 4096) = (of_nat (unat (ROUND_DOWN p 4096)) :: u64)" by (simp only: unat_ROUND_DOWN)
  ultimately show ?thesis by (simp add: frame_of_def ROUND_DOWN_def)
qed

text \<open>
  C16: after \<open>mm_native_init\<close> the processor reaches every address \<open>p\<close> below two gigabytes both
  at \<open>p\<close> itself and at \<open>amd64_p_to_v(p)\<close>, which is what the whole kernel assumes of that function.
\<close>

theorem native_maps_linear:
  assumes r: "mm_native_init s pml4 pdpt pd = Ret s'" and d: "distinct [pml4, pdpt, pd, pd + 4096]"
    and al: "unat (V_TO_P pdpt) mod 4096 = 0" "unat (V_TO_P pd) mod 4096 = 0" "unat (V_TO_P (pd + 4096)) mod 4096 = 0"
    and p: "unat p < 2 ^ 31"
  shows "translate s' pml4 p = Some (frame_of p) \<and> translate s' pml4 (amd64_p_to_v p) = Some (frame_of p)"
proof -
  let ?n = "unat p" and ?m = "unat p div 2 ^ 21 mod 512" and ?k = "unat p div 2 ^ 30"
  note t = native_tables [OF r d]
  let ?top = "(replicate 512 0)[0 := V_TO_P pdpt OR 3, 511 := V_TO_P pdpt OR 3]"
  let ?dir = "(replicate 512 0)[0 := V_TO_P pd OR 3, 510 := V_TO_P pd OR 3,
        1 := V_TO_P (pd + 4096) OR 3, 511 := V_TO_P (pd + 4096) OR 3]"
  have k: "?k = 0 \<or> ?k = 1" using less_mult_imp_div_less [of ?n 2 "2 ^ 30"] p by auto
  have m: "?m < 512" by simp
  have sum: "512 * ?k + ?m = ?n div 2 ^ 21"
  proof -
    have "?k = ?n div 2 ^ 21 div 512" by (simp flip: div_mult2_eq)
    then show ?thesis by simp
  qed
  have w: "walk (tabs s') pml4 [i, j, ?m, n] = Some (big_entry (?n div 2 ^ 21), [n])"
    if "i = 0 \<or> i = 511" "j = ?k \<or> j = 510 + ?k" for i j n
  proof (cases "?k = 0")
    case True
    have "?top ! i = V_TO_P pdpt OR 3" "?dir ! j = V_TO_P pd OR 3" using that True by auto
    from native_walk [OF t(1,2,3) this al(1,2) m] show ?thesis using sum True by simp
  next
    case False
    then have "?top ! i = V_TO_P pdpt OR 3" "?dir ! j = V_TO_P (pd + 4096) OR 3" using that k by auto
    from native_walk [OF t(1,2,4) this al(1,3) m] show ?thesis using sum False k by auto
  qed
  show ?thesis
    using w native_address [OF p] by (simp add: translate_def indices_low [OF p] indices_high [OF p] big_entry_ok(3) [simplified])
qed

lemma native_maps_linear_witness:
  "\<exists>s'. mm_native_init \<lparr> pf = demo_pfa, tabs = (\<lambda>t. Some (replicate 512 0)), cr3 = 0 \<rparr>
      0xffffffff80200000 0xffffffff80201000 0xffffffff80202000 = Ret s' \<and>
    translate s' 0xffffffff80200000 0x40001234 = Some 0x40001000 \<and>
    translate s' 0xffffffff80200000 (amd64_p_to_v 0x40001234) = Some 0x40001000"
proof -
  let ?s = "\<lparr> pf = demo_pfa, tabs = (\<lambda>t. Some (replicate 512 0)), cr3 = 0 \<rparr>"
  have i: "PML4_ATOEI KVSTART = 511" "PDPT_ATOEI KVSTART = 510"
    by (simp_all add: PML4_ATOEI_def PDPT_ATOEI_def KVSTART_def)
  obtain s' where r: "mm_native_init ?s 0xffffffff80200000 0xffffffff80201000 0xffffffff80202000 = Ret s'"
    by (simp add: mm_native_init_def zero_page_def wr_entry_def i Let_def)
  have "frame_of 0x40001234 = 0x40001000" by (simp add: frame_of_def)
  moreover have "unat (0x40001234 :: u64) < 2 ^ 31" by simp
  ultimately show ?thesis
    using native_maps_linear [OF r, of "0x40001234"] r by (simp add: V_TO_P_def KVSTART_def KPSTART_def)
qed

text \<open>
  A directory at \<open>0x1000\<close> with its tables at \<open>0x2000\<close> and \<open>0x3000\<close>: the last level is missing, so
  the mapping of \<open>0x5000\<close> takes a table from the allocator.
\<close>

definition demo_dir_tabs :: "u64 \<rightharpoonup> u64 list" where
  "demo_dir_tabs = (\<lambda>t. Some (replicate 512 0))(amd64_p_to_v 0x1000 \<mapsto> (replicate 512 0)[0 := 0x2003],
     amd64_p_to_v 0x2000 \<mapsto> (replicate 512 0)[0 := 0x3003])"

definition demo_mmu :: mmu where "demo_mmu = \<lparr> pf = demo_pfa, tabs = demo_dir_tabs, cr3 = 0x1000 \<rparr>"

definition demo_lvl :: "u64 \<rightharpoonup> nat" where
  "demo_lvl = [amd64_p_to_v 0x1000 \<mapsto> 4, amd64_p_to_v 0x2000 \<mapsto> 3, amd64_p_to_v 0x3000 \<mapsto> 2]"

lemma p_to_v_inj [simp]: "amd64_p_to_v a = amd64_p_to_v b \<longleftrightarrow> a = b"
  by (simp add: amd64_p_to_v_def)

lemma demo_entry: "j < 512 \<Longrightarrow> entry demo_mmu t j = (if t = amd64_p_to_v 0x1000 \<and> j = 0 then 0x2003
    else if t = amd64_p_to_v 0x2000 \<and> j = 0 then 0x3003 else 0)"
  by (auto simp: entry_def demo_mmu_def demo_dir_tabs_def nth_list_update)

lemma demo_sub: "sub demo_lvl demo_mmu t j = (if t = amd64_p_to_v 0x1000 \<and> j = 0 then Some (amd64_p_to_v 0x2000)
    else if t = amd64_p_to_v 0x2000 \<and> j = 0 then Some (amd64_p_to_v 0x3000) else None)"
proof (cases "j < 512")
  case True
  then show ?thesis
    by (simp add: sub_def demo_entry demo_lvl_def table_of_def frame_of_def present_def big_def)
next
  case False
  then show ?thesis by (auto simp: sub_def split: option.splits)
qed

lemma demo_tree_of_tables: "tree demo_lvl demo_mmu"
  unfolding tree_def demo_sub by (auto simp: demo_lvl_def demo_mmu_def demo_dir_tabs_def split: if_splits)

lemma demo_free_apart: "free_apart demo_lvl (pf demo_mmu)"
proof -
  have "demo_lvl (amd64_p_to_v a) = None" if "unat a div 4096 \<in> {4096 ..< 4100}" for a
    using that by (auto simp: demo_lvl_def)
  then show ?thesis
    using demo_pfa_inv demo_pfa_pages by (auto simp: free_apart_def demo_mmu_def no_page_twice_def)
qed


end
