(* ===== verification/Ports.thy ===== *)
theory Ports
  imports Prelude
begin

text \<open>
  Input and output: the port instructions of \<open>src/arch/amd64/io.c\<close> and the volatile accesses of
  \<open>src/include/kernel/common.h\<close>. What a driver has done is the history of its accesses, the
  latest first. What a device answers depends on that history: \<open>hw\<close> is an argument of all
  code that reads, and theorems that need more of a device say so in a hypothesis.
\<close>

datatype io_event =
    Out8 u32 u8
  | Out16 u32 u16
  | Out32 u32 u32
  | In8 u32 u8
  | In16 u32 u16
  | In32 u32 u32
  | MWrite u64 u32
  | MRead u64 u32

type_synonym history = "io_event list"

record hardware =
  hw_port :: "history \<Rightarrow> u32 \<Rightarrow> u32"
  hw_mem :: "history \<Rightarrow> u64 \<Rightarrow> u32"

definition outb :: "history \<Rightarrow> u32 \<Rightarrow> u8 \<Rightarrow> history" where "outb h addr v = Out8 addr v # h"
definition outw :: "history \<Rightarrow> u32 \<Rightarrow> u16 \<Rightarrow> history" where "outw h addr v = Out16 addr v # h"
definition outl :: "history \<Rightarrow> u32 \<Rightarrow> u32 \<Rightarrow> history" where "outl h addr v = Out32 addr v # h"

definition inb :: "hardware \<Rightarrow> history \<Rightarrow> u32 \<Rightarrow> u8 \<times> history" where
  "inb hw h addr = (let v = ucast (hw_port hw h addr) in (v, In8 addr v # h))"

definition inw :: "hardware \<Rightarrow> history \<Rightarrow> u32 \<Rightarrow> u16 \<times> history" where
  "inw hw h addr = (let v = ucast (hw_port hw h addr) in (v, In16 addr v # h))"

definition inl :: "hardware \<Rightarrow> history \<Rightarrow> u32 \<Rightarrow> u32 \<times> history" where
  "inl hw h addr = (let v = hw_port hw h addr in (v, In32 addr v # h))"

text \<open>\<open>write_32\<close> takes 64 bits and stores the lower half.\<close>

definition write_32 :: "history \<Rightarrow> u64 \<Rightarrow> u64 \<Rightarrow> history" where
  "write_32 h p v = MWrite p (ucast v) # h"

definition read_32 :: "hardware \<Rightarrow> history \<Rightarrow> u64 \<Rightarrow> u32 \<times> history" where
  "read_32 hw h p = (let v = hw_mem hw h p in (v, MRead p v # h))"

end
