(* ===== verification/Irq.thy ===== *)
theory Irq
  imports Ports
begin

unbundle bit_operations_syntax

text \<open>
  Interrupts: the handler table of \<open>src/kernel/irq.c\<close>, the descriptor tables of
  \<open>src/arch/amd64/idt.c\<close> and \<open>gdt.c\<close>, and the interrupt controller of \<open>pic.c\<close>. A handler is a
  number, 0 is NULL, and what calling it does to the system is an argument \<open>call\<close>: it takes the
  state and the context and gives the return value. Writes to ports are a log, and loading a
  descriptor table is a field of the state. The addresses of the assembly stubs are arguments.
\<close>

section \<open>irq.c\<close>

record slot =
  h_fun :: nat
  h_ctx :: nat

record irq_line =
  installed :: nat
  slots :: "slot list"

text \<open>The table and everything else that handlers can touch.\<close>

record 'w sys =
  irqs :: "irq_line list"
  world :: 'w

abbreviation (input) MAX_INT :: nat where "MAX_INT \<equiv> 256"
abbreviation (input) MAX_HANDLERS :: nat where "MAX_HANDLERS \<equiv> 16"
abbreviation (input) IRQ_HANDLED :: u32 where "IRQ_HANDLED \<equiv> 0"
abbreviation (input) VECNUM_PAGE_FAULT :: nat where "VECNUM_PAGE_FAULT \<equiv> 14"
abbreviation (input) VECNUM_GPF :: nat where "VECNUM_GPF \<equiv> 13"

definition null_slot :: slot where "null_slot = \<lparr> h_fun = 0, h_ctx = 0 \<rparr>"
definition free_line :: irq_line where "free_line = \<lparr> installed = 0, slots = replicate MAX_HANDLERS null_slot \<rparr>"

text \<open>\<open>page_fault\<close> and \<open>gpf\<close> are the addresses of the two handlers that are always there.\<close>

definition irq_init :: "nat \<Rightarrow> nat \<Rightarrow> irq_line list" where
  "irq_init page_fault gpf =
     (replicate MAX_INT free_line)
       [VECNUM_PAGE_FAULT := \<lparr> installed = 1, slots = (slots free_line)[0 := \<lparr> h_fun = page_fault, h_ctx = 0 \<rparr>] \<rparr>,
        VECNUM_GPF := \<lparr> installed = 1, slots = (slots free_line)[0 := \<lparr> h_fun = gpf, h_ctx = 0 \<rparr>] \<rparr>]"

type_synonym 'w call = "nat \<Rightarrow> 'w sys \<Rightarrow> nat \<Rightarrow> (u32 \<times> 'w sys) outcome"

text \<open>The loop reads the table again after each handler, which may have changed it.\<close>

function irq_loop :: "'w call \<Rightarrow> 'w sys \<Rightarrow> nat \<Rightarrow> nat \<Rightarrow> nat \<Rightarrow> 'w sys outcome" where
  "irq_loop call s num cpu i =
     bnd (rd (irqs s) num) (\<lambda>l.
     if i < installed l then
       if i < MAX_HANDLERS then
         bnd (rd (slots l) i) (\<lambda>h.
         if h_fun h = 0 then Halt MemFault
         else
           bnd (call (h_fun h) s (if h_ctx h \<noteq> 0 then h_ctx h else cpu)) (\<lambda>(ret, s).
           if ret = IRQ_HANDLED then Ret s else irq_loop call s num cpu (i + 1)))
       else Halt MemFault
     else Ret s)"
  by pat_completeness auto
termination by (relation "measure (\<lambda>(call, s, num, cpu, i). 16 - i)") auto

declare irq_loop.simps [simp del]

text \<open>Without a handler every vector ends in \<open>kpanic\<close>, with one text or the other.\<close>

definition interrupt_handler :: "'w call \<Rightarrow> 'w sys \<Rightarrow> nat \<Rightarrow> u64 \<Rightarrow> 'w sys outcome" where
  "interrupt_handler call s cpu isr_num =
     (if isr_num > of_nat MAX_INT then Halt Panicked
      else
        bnd (rd (irqs s) (unat isr_num)) (\<lambda>l.
        if installed l \<noteq> 0 then irq_loop call s (unat isr_num) cpu 0 else Halt Panicked))"

definition irq_install_handler :: "irq_line list \<Rightarrow> int \<Rightarrow> nat \<Rightarrow> nat \<Rightarrow> irq_line list outcome" where
  "irq_install_handler t num handler ctx =
     kassert (0 \<le> num \<and> num < int MAX_INT \<and> handler \<noteq> 0)
       (bnd (rd t (nat num)) (\<lambda>l.
        kassert (installed l < MAX_HANDLERS)
          (bnd (wr (slots l) (installed l) \<lparr> h_fun = handler, h_ctx = ctx \<rparr>) (\<lambda>sl.
           wr t (nat num) (l\<lparr> slots := sl, installed := installed l + 1 \<rparr>)))))"

text \<open>The slots of the handler are set to NULL, and stay counted.\<close>

definition irq_uninstall_handler :: "irq_line list \<Rightarrow> int \<Rightarrow> nat \<Rightarrow> irq_line list outcome" where
  "irq_uninstall_handler t num handler =
     kassert (0 \<le> num \<and> num < int MAX_INT)
       (bnd (rd t (nat num)) (\<lambda>l.
        wr t (nat num) (l\<lparr> slots := map (\<lambda>h. if h_fun h = handler then h\<lparr> h_fun := 0 \<rparr> else h) (take (installed l) (slots l)) @
          drop (installed l) (slots l) \<rparr>)))"

section \<open>idt.c\<close>

record idt_entry =
  offset0_15 :: u16
  select :: u16
  ist :: nat
  reserved1 :: nat
  ie_type :: u8
  offset16_31 :: u16
  offset32_63 :: u32
  reserved2 :: u32

text \<open>\<open>IDT_ENTRY_SIZE\<close> is the size of the pointer structure, not that of an entry.\<close>

abbreviation (input) IDT_TABLE_SIZE :: nat where "IDT_TABLE_SIZE \<equiv> 256"
abbreviation (input) IDT_ENTRY_SIZE :: nat where "IDT_ENTRY_SIZE \<equiv> 10"

definition zero_gate :: idt_entry where
  "zero_gate = \<lparr> offset0_15 = 0, select = 0, ist = 0, reserved1 = 0, ie_type = 0, offset16_31 = 0, offset32_63 = 0, reserved2 = 0 \<rparr>"

definition idt_set_gate :: "u64 \<Rightarrow> u16 \<Rightarrow> u8 \<Rightarrow> idt_entry" where
  "idt_set_gate offset sel type =
     \<lparr> offset0_15 = ucast (offset AND 0xffff), select = sel, ist = 0, reserved1 = 0, ie_type = type,
       offset16_31 = ucast (drop_bit 16 offset AND 0xffff), offset32_63 = ucast (drop_bit 32 offset AND 0xffffffff), reserved2 = 0 \<rparr>"

record idt =
  idt_table :: "idt_entry list"
  idt_limit :: u16
  idt_base :: u64
  idt_once :: bool

text \<open>\<open>isr n\<close> is the address of the assembly stub \<open>isr<n>\<close>, \<open>base\<close> that of the table.\<close>

definition idt_gates :: "(nat \<Rightarrow> u64) \<Rightarrow> idt_entry list \<Rightarrow> idt_entry list" where
  "idt_gates isr t =
     (fold (\<lambda>n t. t[n := idt_set_gate (isr n) 0x08 0x8e]) [0..<21] t)[128 := idt_set_gate (isr 128) 0x08 0xee]"

definition idt_init :: "(nat \<Rightarrow> u64) \<Rightarrow> u64 \<Rightarrow> idt \<Rightarrow> idt" where
  "idt_init isr base s =
     (if idt_once s then s
      else s\<lparr> idt_table := idt_gates isr (replicate (IDT_ENTRY_SIZE * IDT_TABLE_SIZE div 16) zero_gate @
                drop (IDT_ENTRY_SIZE * IDT_TABLE_SIZE div 16) (idt_table s)),
              idt_limit := of_nat (IDT_ENTRY_SIZE * 256 - 1), idt_base := base, idt_once := True \<rparr>)"

section \<open>pic.c\<close>

record pic =
  irq_routines :: "nat list"
  ports :: history

definition pic_out :: "pic \<Rightarrow> u32 \<Rightarrow> u8 \<Rightarrow> pic" where
  "pic_out s port v = s\<lparr> ports := outb (ports s) port v \<rparr>"

definition pic_install_handler :: "pic \<Rightarrow> nat \<Rightarrow> int \<Rightarrow> pic" where
  "pic_install_handler s handler irq_num =
     (if irq_num > 15 \<or> irq_num < 0 \<or> handler = 0 then s
      else s\<lparr> irq_routines := (irq_routines s)[nat irq_num := handler] \<rparr>)"

definition PIC_INIT :: "(u32 \<times> u8) list" where
  "PIC_INIT = [(0x20, 0x11), (0xa0, 0x11), (0x21, 0x20), (0xa1, 0x28), (0x21, 0x04), (0xa1, 0x02),
     (0x21, 0x01), (0xa1, 0x01), (0x21, 0x00), (0xa1, 0x00)]"

text \<open>\<open>irq n\<close> is the address of the assembly stub \<open>irq<n>\<close>.\<close>

definition pic_init :: "(nat \<Rightarrow> u64) \<Rightarrow> pic \<Rightarrow> idt \<Rightarrow> pic \<times> idt" where
  "pic_init irq s d =
     (fold (\<lambda>(p, v) s. pic_out s p v) PIC_INIT s,
      d\<lparr> idt_table := fold (\<lambda>n t. t[32 + n := idt_set_gate (irq n) 0x08 0x8e]) [0..<16] (idt_table d) \<rparr>)"

definition pic_ack_interrupt :: "pic \<Rightarrow> int \<Rightarrow> pic" where
  "pic_ack_interrupt s irq_num = pic_out (if irq_num \<ge> 40 then pic_out s 0xa0 0x20 else s) 0x20 0x20"

text \<open>A negative index reads before the array.\<close>

definition pic_handler :: "(nat \<Rightarrow> pic \<Rightarrow> pic outcome) \<Rightarrow> pic \<Rightarrow> u64 \<Rightarrow> pic outcome" where
  "pic_handler call s isr_num =
     (let irq_index = sint (ucast (isr_num - 32) :: u32) in
      if irq_index \<ge> 16 then Halt Panicked
      else if irq_index < 0 then Halt MemFault
      else
        bnd (rd (irq_routines s) (nat irq_index)) (\<lambda>h.
        bnd (if h \<noteq> 0 then call h s else Ret s) (\<lambda>s.
        Ret (pic_ack_interrupt s (sint (ucast isr_num :: u32))))))"

section \<open>gdt.c\<close>

record gdt =
  GDT :: "u64 list"
  gdt_limit :: u16
  gdt_base :: u64
  gdt_once :: bool
  task_register :: u32

definition gdt_init :: "u64 \<Rightarrow> gdt \<Rightarrow> gdt" where
  "gdt_init base s =
     (if gdt_once s then s
      else s\<lparr> GDT := (GDT s)[0 := 0, 1 := 0x00a0980000000000, 2 := 0x00c0920000000000, 3 := 0x00a0f80000000000,
                4 := 0x00c0f20000000000],
              gdt_limit := of_nat (8 * (5 + 2 * 64) - 1), gdt_base := base, gdt_once := True \<rparr>)"

text \<open>\<open>tss\<close> is the address of this processor's task state segment, \<open>count\<close> the processors started.\<close>

definition tss_init :: "u64 \<Rightarrow> u32 \<Rightarrow> gdt \<Rightarrow> gdt outcome" where
  "tss_init tss count s =
     (let cpu_id = count - 1; sz = (104 :: u64) in
      bnd (wr (GDT s) (unat (5 + 2 * cpu_id + 1)) (drop_bit 32 tss AND 0xffffffff)) (\<lambda>g.
      bnd (wr g (unat (5 + 2 * cpu_id + 0)) (0x0000e90000000000 OR (sz AND 0xffff) OR (push_bit 16 tss AND 0x000000ffffff0000) OR
             (push_bit 32 sz AND 0x000f000000000000) OR (push_bit 32 tss AND 0xff00000000000000))) (\<lambda>g.
      Ret (s\<lparr> GDT := g, task_register := 40 + cpu_id * 2 * 8 \<rparr>))))"

section \<open>The handler table\<close>

text \<open>The handlers one after the other, until one has handled the interrupt.\<close>

primrec offer :: "'w call \<Rightarrow> nat \<Rightarrow> slot list \<Rightarrow> 'w sys \<Rightarrow> 'w sys outcome" where
  "offer call cpu [] s = Ret s"
| "offer call cpu (h # hs) s =
     bnd (call (h_fun h) s (if h_ctx h \<noteq> 0 then h_ctx h else cpu)) (\<lambda>(ret, s).
     if ret = IRQ_HANDLED then Ret s else offer call cpu hs s)"

definition line_ok :: "irq_line \<Rightarrow> bool" where
  "line_ok l \<longleftrightarrow> installed l \<le> MAX_HANDLERS \<and> length (slots l) = MAX_HANDLERS \<and> (\<forall>h\<in>set (take (installed l) (slots l)). h_fun h \<noteq> 0)"

definition irq_ok :: "irq_line list \<Rightarrow> bool" where
  "irq_ok t \<longleftrightarrow> length t = MAX_INT \<and> (\<forall>l\<in>set t. line_ok l)"

lemma irq_ok_nth: "irq_ok t \<Longrightarrow> n < 256 \<Longrightarrow> rd t n = Ret (t ! n) \<and> line_ok (t ! n)"
  by (simp add: irq_ok_def)

lemma slot_ok:
  assumes "line_ok l" and "i < installed l"
  shows "rd (slots l) i = Ret (slots l ! i) \<and> h_fun (slots l ! i) \<noteq> 0 \<and> i < MAX_HANDLERS"
proof -
  have i: "i < length (slots l)" "i < MAX_HANDLERS" using assms by (auto simp: line_ok_def)
  then have "slots l ! i \<in> set (take (installed l) (slots l))"
    using assms(2) by (metis in_set_conv_nth length_take min_less_iff_conj nth_take)
  then show ?thesis using assms(1) i by (simp add: line_ok_def)
qed

lemma irq_loop_offer:
  assumes keeps: "\<And>f s c r s'. call f s c = Ret (r, s') \<Longrightarrow> irqs s' = irqs s" and l: "line_ok l"
  shows "rd (irqs s) num = Ret l \<Longrightarrow> i \<le> installed l \<Longrightarrow>
    irq_loop call s num cpu i = offer call cpu (drop i (take (installed l) (slots l))) s"
proof (induction "installed l - i" arbitrary: i s)
  case 0
  then show ?case by (subst irq_loop.simps) simp
next
  case (Suc k)
  then have i: "i < installed l" by simp
  note h = slot_ok [OF l i]
  have len: "length (take (installed l) (slots l)) = installed l" using l by (simp add: line_ok_def)
  have d: "drop i (take (installed l) (slots l)) = slots l ! i # drop (i + 1) (take (installed l) (slots l))"
    using i len by (metis Cons_nth_drop_Suc Suc_eq_plus1 nth_take)
  have IH: "irq_loop call s' num cpu (i + 1) = offer call cpu (drop (i + 1) (take (installed l) (slots l))) s'"
    if "irqs s' = irqs s" for s'
    using Suc.hyps(1) [of "i + 1" s'] Suc.hyps(2) Suc.prems(1) i that by simp
  show ?case
    unfolding d offer.simps using Suc.prems(1) i h IH keeps
    by (subst irq_loop.simps) (cases "call (h_fun (slots l ! i)) s (if h_ctx (slots l ! i) \<noteq> 0 then h_ctx (slots l ! i) else cpu)", auto)
qed

primrec install_all :: "irq_line list \<Rightarrow> int \<Rightarrow> (nat \<times> nat) list \<Rightarrow> irq_line list outcome" where
  "install_all t num [] = Ret t"
| "install_all t num (x # xs) = bnd (irq_install_handler t num (fst x) (snd x)) (\<lambda>t. install_all t num xs)"

lemma install_ok:
  assumes t: "irq_ok t" and n: "n < 256" and f: "f \<noteq> 0" and room: "installed (t ! n) < 16"
  shows "\<exists>t'. irq_install_handler t (int n) f c = Ret t' \<and> irq_ok t' \<and> installed (t' ! n) = installed (t ! n) + 1 \<and>
    take (installed (t' ! n)) (slots (t' ! n)) = take (installed (t ! n)) (slots (t ! n)) @ [\<lparr> h_fun = f, h_ctx = c \<rparr>] \<and>
    (\<forall>m. m \<noteq> n \<longrightarrow> t' ! m = t ! m)"
proof -
  let ?l = "t ! n" and ?h = "\<lparr> h_fun = f, h_ctx = c \<rparr>"
  let ?l' = "?l\<lparr> slots := (slots ?l)[installed ?l := ?h], installed := installed ?l + 1 \<rparr>"
  have l: "line_ok ?l" "rd t n = Ret ?l" "length t = 256" using irq_ok_nth [OF t n] t by (auto simp: irq_ok_def)
  have len: "length (slots ?l) = 16" using l(1) by (simp add: line_ok_def)
  have r: "irq_install_handler t (int n) f c = Ret (t[n := ?l'])"
    using n f room l len by (simp add: irq_install_handler_def)
  have tk: "take (installed ?l') (slots ?l') = take (installed ?l) (slots ?l) @ [?h]"
    using room len by (simp add: take_Suc_conv_app_nth)
  then have "line_ok ?l'" using l(1) room len f unfolding line_ok_def by auto
  then have "irq_ok (t[n := ?l'])" using t by (auto simp: irq_ok_def dest!: set_update_subset_insert [THEN subsetD])
  with r tk l(3) n show ?thesis by (intro exI [of _ "t[n := ?l']"]) simp
qed

lemma install_all_ok:
  "irq_ok t \<Longrightarrow> n < 256 \<Longrightarrow> \<forall>x\<in>set hs. fst x \<noteq> 0 \<Longrightarrow> installed (t ! n) + length hs \<le> 16 \<Longrightarrow>
   \<exists>t'. install_all t (int n) hs = Ret t' \<and> irq_ok t' \<and> installed (t' ! n) = installed (t ! n) + length hs \<and>
     take (installed (t' ! n)) (slots (t' ! n)) = take (installed (t ! n)) (slots (t ! n)) @ map (\<lambda>(f, c). \<lparr> h_fun = f, h_ctx = c \<rparr>) hs \<and>
     (\<forall>m. m \<noteq> n \<longrightarrow> t' ! m = t ! m)"
proof (induction hs arbitrary: t)
  case (Cons x hs)
  obtain t1 where t1: "irq_install_handler t (int n) (fst x) (snd x) = Ret t1" "irq_ok t1" "installed (t1 ! n) = installed (t ! n) + 1"
    "take (installed (t1 ! n)) (slots (t1 ! n)) = take (installed (t ! n)) (slots (t ! n)) @ [\<lparr> h_fun = fst x, h_ctx = snd x \<rparr>]"
    "\<forall>m. m \<noteq> n \<longrightarrow> t1 ! m = t ! m"
    using install_ok [OF Cons.prems(1,2), of "fst x" "snd x"] Cons.prems(3,4) by auto
  obtain t' where "install_all t1 (int n) hs = Ret t'" "irq_ok t'" "installed (t' ! n) = installed (t1 ! n) + length hs"
     "take (installed (t' ! n)) (slots (t' ! n)) = take (installed (t1 ! n)) (slots (t1 ! n)) @ map (\<lambda>(f, c). \<lparr> h_fun = f, h_ctx = c \<rparr>) hs"
     "\<forall>m. m \<noteq> n \<longrightarrow> t' ! m = t1 ! m"
    using Cons.IH [OF t1(2) Cons.prems(2)] Cons.prems(3,4) t1(3) by auto
  then show ?case using t1 by (cases x) auto
qed simp

lemma irq_init_ok: "page_fault \<noteq> 0 \<Longrightarrow> gpf \<noteq> 0 \<Longrightarrow> irq_ok (irq_init page_fault gpf)"
  unfolding irq_ok_def irq_init_def
  by (auto simp: line_ok_def free_line_def take_Suc_conv_app_nth dest!: set_update_subset_insert [THEN subsetD])

section \<open>Properties\<close>

text \<open>
  C19: handlers are offered an interrupt in the order of their installation: after installing up to
  sixteen handlers on a free vector, an interrupt of that vector calls them one after the other,
  with their context or else the processor state, until one has handled it, and no other vector
  is touched.
\<close>

theorem irq_dispatch:
  assumes t: "irq_ok t" and n: "n < 256" "installed (t ! n) = 0" and hs: "hs \<noteq> []" "length hs \<le> 16" "\<forall>x\<in>set hs. fst x \<noteq> 0"
    and keeps: "\<And>f s c r s'. call f s c = Ret (r, s') \<Longrightarrow> irqs s' = irqs s"
  shows "\<exists>t'. install_all t (int n) hs = Ret t' \<and> irq_ok t' \<and> (\<forall>m. m \<noteq> n \<longrightarrow> t' ! m = t ! m) \<and>
    (\<forall>s cpu. irqs s = t' \<longrightarrow> interrupt_handler call s cpu (of_nat n) = offer call cpu (map (\<lambda>(f, c). \<lparr> h_fun = f, h_ctx = c \<rparr>) hs) s)"
proof -
  obtain t' where t': "install_all t (int n) hs = Ret t'" "irq_ok t'" "installed (t' ! n) = length hs"
    "take (installed (t' ! n)) (slots (t' ! n)) = map (\<lambda>(f, c). \<lparr> h_fun = f, h_ctx = c \<rparr>) hs" "\<forall>m. m \<noteq> n \<longrightarrow> t' ! m = t ! m"
    using install_all_ok [OF t n(1) hs(3)] n(2) hs(2) by auto
  note l = irq_ok_nth [OF t'(2) n(1)]
  have u: "unat (of_nat n :: u64) = n" "\<not> (of_nat n :: u64) > of_nat MAX_INT"
    using n(1) by (simp_all add: unat_of_nat word_less_nat_alt)
  have "interrupt_handler call s cpu (of_nat n) = offer call cpu (map (\<lambda>(f, c). \<lparr> h_fun = f, h_ctx = c \<rparr>) hs) s"
    if "irqs s = t'" for s cpu
    using irq_loop_offer [of call "t' ! n" s n 0 cpu, OF keeps] l u that t'(3,4) hs(1) by (simp add: interrupt_handler_def)
  with t' show ?thesis by blast
qed


text \<open>After an uninstallation the slot is still counted, and the next interrupt calls NULL.\<close>

lemma uninstalled_is_called:
  assumes t: "irq_ok t" and n: "n < 256" and l: "installed (t ! n) \<noteq> 0" "h_fun (slots (t ! n) ! 0) = f"
  shows "\<exists>t'. irq_uninstall_handler t (int n) f = Ret t' \<and>
    (\<forall>s. irqs s = t' \<longrightarrow> interrupt_handler call s cpu (of_nat n) = Halt MemFault)"
proof -
  let ?l = "t ! n"
  note ok = irq_ok_nth [OF t n]
  obtain h hs where h: "take (installed ?l) (slots ?l) = h # hs" "h_fun h = f" "slots ?l \<noteq> []"
    using ok l by (cases "take (installed ?l) (slots ?l)"; cases "slots ?l") (auto simp: line_ok_def take_Cons')
  have u: "unat (of_nat n :: u64) = n" "\<not> (of_nat n :: u64) > of_nat MAX_INT"
    using n by (simp_all add: unat_of_nat word_less_nat_alt)
  have len: "length t = 256" using t by (simp add: irq_ok_def)
  then show ?thesis
    using n ok h u l(1)
    by (simp add: irq_uninstall_handler_def interrupt_handler_def irq_loop.simps [of _ _ _ _ 0])
qed

text \<open>A table of two handlers on vector 33, the first of which leaves the interrupt to the second.\<close>

definition demo_call :: "nat list call" where
  "demo_call f s c = Ret (if f = 7 then 1 else 0, s\<lparr> world := world s @ [f, c] \<rparr>)"

lemma irq_dispatch_witness:
  "\<exists>t'. install_all (irq_init 1 2) 33 [(7, 5), (8, 0), (9, 0)] = Ret t' \<and>
    interrupt_handler demo_call \<lparr> irqs = t', world = [] \<rparr> 99 33 = Ret \<lparr> irqs = t', world = [7, 5, 8, 99] \<rparr>"
proof -
  have a: "irq_ok (irq_init 1 2)" "installed (irq_init 1 2 ! 33) = 0" by (simp_all add: irq_init_ok) (simp add: irq_init_def free_line_def)
  have "\<exists>t'. install_all (irq_init 1 2) (int 33) [(7, 5), (8, 0), (9, 0)] = Ret t' \<and> irq_ok t' \<and>
      (\<forall>m. m \<noteq> 33 \<longrightarrow> t' ! m = irq_init 1 2 ! m) \<and>
      (\<forall>s cpu. irqs s = t' \<longrightarrow> interrupt_handler demo_call s cpu (of_nat 33) =
         offer demo_call cpu (map (\<lambda>(f, c). \<lparr> h_fun = f, h_ctx = c \<rparr>) [(7, 5), (8, 0), (9, 0)]) s)"
    by (rule irq_dispatch [OF a(1) _ a(2)]) (auto simp: demo_call_def)
  then show ?thesis by (auto simp: demo_call_def)
qed


section \<open>The descriptor tables\<close>

definition gate_address :: "idt_entry \<Rightarrow> u64" where
  "gate_address e = ucast (offset0_15 e) OR push_bit 16 (ucast (offset16_31 e)) OR push_bit 32 (ucast (offset32_63 e))"

lemma gate_address_set: "gate_address (idt_set_gate a sel type) = a"
proof (rule bit_word_eqI)
  fix n assume n: "n < LENGTH(64)"
  let ?g = "idt_set_gate a sel type"
  have m: "(0xffff :: u64) = mask 16" "(0xffffffff :: u64) = mask 32" by (simp_all add: mask_eq_exp_minus_1)
  have p: "bit (ucast (offset0_15 ?g) :: u64) k \<longleftrightarrow> k < 16 \<and> bit a k"
    "bit (ucast (offset16_31 ?g) :: u64) k \<longleftrightarrow> k < 16 \<and> bit a (16 + k)"
    "bit (ucast (offset32_63 ?g) :: u64) k \<longleftrightarrow> k < 32 \<and> bit a (32 + k)" for k
    unfolding idt_set_gate_def m by (auto simp: bit_simps)
  consider "n < 16" | "16 \<le> n" "n < 32" | "32 \<le> n" by linarith
  then show "bit (gate_address ?g) n = bit a n"
    using n by cases (auto simp: gate_address_def bit_or_iff bit_push_bit_iff p)
qed

lemma fold_updates:
  "k + m \<le> length t \<Longrightarrow> length (fold (\<lambda>n t. t[k + n := g n]) [0..<m] t) = length t \<and>
   (\<forall>j<length t. fold (\<lambda>n t. t[k + n := g n]) [0..<m] t ! j = (if k \<le> j \<and> j < k + m then g (j - k) else t ! j))"
  by (induction m) (auto simp: nth_list_update)

text \<open>
  The interrupt descriptor table leads to the right code: after \<open>idt_init\<close> and \<open>pic_init\<close> the
  gates of the exceptions 0 to 20, of the sixteen lines at 32 and of the system call at 128
  have the addresses of their stubs, put together from the three parts that
  \<open>idt_set_gate\<close> takes them apart into, and all of them lie within the limit; the limit
  covers 160 of the 256 vectors.
\<close>

lemma idt_gates_lead:
  assumes "length (idt_table d) = 256" and "\<not> idt_once d"
  shows "let d2 = snd (pic_init irq s (idt_init isr base d)) in
    length (idt_table d2) = 256 \<and> (\<forall>v<21. gate_address (idt_table d2 ! v) = isr v) \<and>
    (\<forall>v<16. gate_address (idt_table d2 ! (32 + v)) = irq v) \<and> gate_address (idt_table d2 ! 128) = isr 128 \<and>
    (\<forall>v. 16 * v + 15 \<le> unat (idt_limit d2) \<longleftrightarrow> v < 160)"
proof -
  let ?t0 = "replicate 160 zero_gate @ drop 160 (idt_table d)"
  let ?t1 = "fold (\<lambda>n t. t[0 + n := idt_set_gate (isr n) 0x08 0x8e]) [0..<21] ?t0"
  let ?t2 = "?t1[128 := idt_set_gate (isr 128) 0x08 0xee]"
  let ?t3 = "fold (\<lambda>n t. t[32 + n := idt_set_gate (irq n) 0x08 0x8e]) [0..<16] ?t2"
  have l0: "length ?t0 = 256" using assms(1) by simp
  have f1: "length ?t1 = 256" "\<forall>j<256. ?t1 ! j = (if j < 21 then idt_set_gate (isr j) 0x08 0x8e else ?t0 ! j)"
    using fold_updates [of 0 21 ?t0 "\<lambda>n. idt_set_gate (isr n) 0x08 0x8e"] l0 by auto
  have f3: "length ?t3 = 256" "\<forall>j<256. ?t3 ! j = (if 32 \<le> j \<and> j < 48 then idt_set_gate (irq (j - 32)) 0x08 0x8e else ?t2 ! j)"
    using fold_updates [of 32 16 ?t2 "\<lambda>n. idt_set_gate (irq n) 0x08 0x8e"] f1(1) by (auto simp del: upt_rec_numeral)
  have t: "idt_table (snd (pic_init irq s (idt_init isr base d))) = ?t3" "idt_limit (snd (pic_init irq s (idt_init isr base d))) = 2559"
    using assms(2) by (simp_all add: pic_init_def idt_init_def idt_gates_def del: upt_rec_numeral)
  have "16 * v + 15 \<le> (2559 :: nat) \<longleftrightarrow> v < 160" for v by auto
  then show ?thesis unfolding Let_def t using f1 f3 by (simp add: gate_address_set del: upt_rec_numeral)
qed

definition demo_idt :: idt where
  "demo_idt = \<lparr> idt_table = replicate 256 zero_gate, idt_limit = 0, idt_base = 0, idt_once = False \<rparr>"

lemma idt_gates_lead_witness:
  "gate_address (idt_table (snd (pic_init (\<lambda>n. of_nat (4096 + n)) \<lparr> irq_routines = [], ports = [] \<rparr>
      (idt_init (\<lambda>n. of_nat n) 64 demo_idt))) ! 33) = 4097"
proof -
  have "length (idt_table demo_idt) = 256" "\<not> idt_once demo_idt" by (simp_all add: demo_idt_def)
  from idt_gates_lead [OF this, of "\<lambda>n. of_nat (4096 + n)" "\<lparr> irq_routines = [], ports = [] \<rparr>" "\<lambda>n. of_nat n" 64, unfolded Let_def]
  have "\<forall>v<16. gate_address (idt_table (snd (pic_init (\<lambda>n. of_nat (4096 + n)) \<lparr> irq_routines = [], ports = [] \<rparr>
      (idt_init (\<lambda>n. of_nat n) 64 demo_idt))) ! (32 + v)) = of_nat (4096 + v)"
    by blast
  from this [rule_format, of 1] show ?thesis by simp
qed

text \<open>The base address in a 16-byte descriptor, put together as the processor does.\<close>

definition descriptor_base :: "u64 \<Rightarrow> u64 \<Rightarrow> u64" where
  "descriptor_base lo hi =
     (drop_bit 16 lo AND 0xffffff) OR push_bit 24 (drop_bit 56 lo) OR push_bit 32 (hi AND 0xffffffff)"

definition tss_low :: "u64 \<Rightarrow> u64" where
  "tss_low tss = 0x0000e90000000000 OR (104 AND 0xffff) OR (push_bit 16 tss AND 0x000000ffffff0000) OR
     (push_bit 32 104 AND 0x000f000000000000) OR (push_bit 32 tss AND 0xff00000000000000)"

lemma tss_low_bits:
  assumes "16 \<le> n" and "n < 64"
  shows "bit (tss_low tss) n \<longleftrightarrow> (40 \<le> n \<and> n < 48 \<and> bit (0xe9 :: u64) (n - 40)) \<or> (n < 40 \<and> bit tss (n - 16)) \<or> (56 \<le> n \<and> bit tss (n - 32))"
proof -
  have m: "(0x000000ffffff0000 :: u64) = push_bit 16 (mask 24)" "(0xff00000000000000 :: u64) = push_bit 56 (mask 8)"
    "(0x0000e90000000000 :: u64) = push_bit 40 (take_bit 8 0xe9)"
    by (simp_all add: mask_eq_exp_minus_1 push_bit_eq_mult take_bit_eq_mod)
  have z: "(104 AND 0xffff :: u64) = take_bit 7 104" "(push_bit 32 104 AND 0x000f000000000000 :: u64) = 0"
    by (simp_all add: push_bit_eq_mult take_bit_eq_mod)
  have "bit (tss_low tss) n \<longleftrightarrow> bit (push_bit 40 (take_bit 8 0xe9) :: u64) n \<or> bit (take_bit 7 104 :: u64) n \<or>
      bit (push_bit 16 tss AND push_bit 16 (mask 24)) n \<or> bit (push_bit 32 tss AND push_bit 56 (mask 8)) n"
    unfolding tss_low_def z m by (simp add: bit_or_iff)
  also have "bit (push_bit 40 (take_bit 8 0xe9) :: u64) n \<longleftrightarrow> 40 \<le> n \<and> n < 48 \<and> bit (0xe9 :: u64) (n - 40)"
    using assms unfolding bit_push_bit_iff bit_take_bit_iff by auto
  also have "bit (take_bit 7 104 :: u64) n \<longleftrightarrow> False" using assms unfolding bit_take_bit_iff by auto
  also have "bit (push_bit 16 tss AND push_bit 16 (mask 24)) n \<longleftrightarrow> n < 40 \<and> bit tss (n - 16)"
    using assms unfolding bit_and_iff bit_push_bit_iff bit_mask_iff by auto
  also have "bit (push_bit 32 tss AND push_bit 56 (mask 8)) n \<longleftrightarrow> 56 \<le> n \<and> bit tss (n - 32)"
    using assms unfolding bit_and_iff bit_push_bit_iff bit_mask_iff by auto
  finally show ?thesis by auto
qed

lemma tss_base_bits: "descriptor_base (tss_low tss) (drop_bit 32 tss AND 0xffffffff) = tss"
proof -
  have m: "(0xffffff :: u64) = mask 24" "(0xffffffff :: u64) = mask 32" by (simp_all add: mask_eq_exp_minus_1)
  show ?thesis
    unfolding descriptor_base_def m
  proof (rule bit_word_eqI)
    fix n assume n: "n < LENGTH(64)"
    have "bit (drop_bit 16 (tss_low tss) AND mask 24) n \<longleftrightarrow> n < 24 \<and> bit tss n"
      using tss_low_bits [of "16 + n" tss] n by (auto simp: bit_and_iff bit_drop_bit_eq bit_mask_iff)
    moreover have "bit (push_bit 24 (drop_bit 56 (tss_low tss))) n \<longleftrightarrow> 24 \<le> n \<and> n < 32 \<and> bit tss n"
    proof (cases "24 \<le> n \<and> n < 32")
      case True
      then show ?thesis using tss_low_bits [of "n + 32" tss] n by (auto simp: bit_push_bit_iff bit_drop_bit_eq add.commute)
    next
      case False
      then show ?thesis using n bit_imp_le_length [of "tss_low tss" "56 + (n - 24)"]
        by (auto simp: bit_push_bit_iff bit_drop_bit_eq)
    qed
    moreover have "bit (push_bit 32 ((drop_bit 32 tss AND mask 32) AND mask 32)) n \<longleftrightarrow> 32 \<le> n \<and> bit tss n"
      using n by (auto simp: bit_push_bit_iff bit_and_iff bit_drop_bit_eq bit_mask_iff)
    ultimately show "bit (drop_bit 16 (tss_low tss) AND mask 24 OR push_bit 24 (drop_bit 56 (tss_low tss)) OR
        push_bit 32 ((drop_bit 32 tss AND mask 32) AND mask 32)) n = bit tss n"
      by (auto simp: bit_or_iff)
  qed
qed

text \<open>
  C31: \<open>tss_init\<close> stays inside the descriptor table for every one of the 64 processors that it
  is sized for, leaves the five fixed descriptors alone, and writes a descriptor from which the
  processor reads back the address of the task state segment; the task register selects it.
\<close>

theorem tss_descriptor:
  assumes "length (GDT s) = 133" and "1 \<le> count" and "count \<le> 64"
  shows "\<exists>s'. tss_init tss count s = Ret s' \<and> (\<forall>i<5. GDT s' ! i = GDT s ! i) \<and>
    (let i = unat (task_register s') div 8 in
     task_register s' = of_nat (8 * i) \<and> i = 5 + 2 * (unat count - 1) \<and> descriptor_base (GDT s' ! i) (GDT s' ! (i + 1)) = tss)"
proof -
  obtain k where k: "k = unat count - 1" by simp
  have c: "count - 1 = of_nat k" "k < 64" using assms(2,3) k by (simp_all add: word_le_nat_alt of_nat_diff)
  have i: "unat (5 + 2 * (count - 1) + 1) = 6 + 2 * k" "unat (5 + 2 * (count - 1) + 0) = 5 + 2 * k"
    unfolding c(1) using c(2) by (simp_all add: unat_word_ariths unat_of_nat)
  have w: "40 + (count - 1) * 2 * 8 = of_nat (8 * (5 + 2 * k))" unfolding c(1) by simp
  have u: "unat (of_nat (8 * (5 + 2 * k)) :: u32) = 8 * (5 + 2 * k)" using c(2) by (simp add: unat_of_nat del: of_nat_mult of_nat_add)
  let ?s' = "s\<lparr> GDT := (GDT s)[6 + 2 * k := drop_bit 32 tss AND 0xffffffff, 5 + 2 * k := tss_low tss],
      task_register := of_nat (8 * (5 + 2 * k)) \<rparr>"
  have r: "tss_init tss count s = Ret ?s'"
    unfolding tss_init_def Let_def i w tss_low_def using assms(1) c(2) by simp
  have "\<forall>i<5. GDT ?s' ! i = GDT s ! i" by simp
  moreover have "unat (task_register ?s') div 8 = 5 + 2 * k" using u by (simp del: of_nat_mult of_nat_add)
  moreover have "GDT ?s' ! (5 + 2 * k) = tss_low tss" "GDT ?s' ! (5 + 2 * k + 1) = drop_bit 32 tss AND 0xffffffff"
    using assms(1) c(2) by simp_all
  ultimately show ?thesis
    using r tss_base_bits [of tss] k by (intro exI [of _ ?s'] conjI) (simp_all only: Let_def, simp_all)
qed

lemma tss_descriptor_witness:
  "\<exists>s'. tss_init 0xffffffff80123456 2 \<lparr> GDT = replicate 133 0, gdt_limit = 0, gdt_base = 0, gdt_once = True, task_register = 0 \<rparr> = Ret s' \<and>
     descriptor_base (GDT s' ! 7) (GDT s' ! 8) = 0xffffffff80123456"
  using tss_descriptor [of "\<lparr> GDT = replicate 133 0, gdt_limit = 0, gdt_base = 0, gdt_once = True, task_register = 0 \<rparr>" 2 "0xffffffff80123456"]
  by (auto simp: Let_def)

end
