(* ===== verification/Apic.thy ===== *)
theory Apic
  imports Mmu Irq Ports Multiboot
begin

unbundle bit_operations_syntax

text \<open>
  The interrupt controllers of a multiprocessor machine and its timer: \<open>src/drivers/lapic.c\<close>,
  \<open>src/drivers/ioapic.c\<close>, \<open>src/drivers/pit.c\<close>, and the search through the firmware's tables in
  \<open>src/kernel/acpi/acpi.c\<close> that finds them. Memory of the firmware is byte memory by address.
  Model specific registers are a field of the state. Messages are left out.
\<close>

section \<open>The state\<close>

record lapic_entry =
  lp_cpu :: u32
  lp_id :: u32

record ioapic_entry =
  io_id :: u8
  io_base :: u64
  io_intr :: u32

record apic =
  ap_mmu :: mmu
  ap_irqs :: "irq_line list"
  ap_hist :: history
  ap_msr :: u64
  lapics :: "lapic_entry list"
  lapic_base :: u64
  cpu_count :: u32
  cpu_init_count :: u32
  num_apics :: int
  io_apics :: "ioapic_entry list"
  mapic :: u64
  rspd_start :: nat

abbreviation (input) MAX_CPU :: nat where "MAX_CPU \<equiv> 64"
abbreviation (input) MAX_IOAPIC :: nat where "MAX_IOAPIC \<equiv> 20"

section \<open>pit.c\<close>

abbreviation (input) PIT_DATA_0 :: u32 where "PIT_DATA_0 \<equiv> 0x40"
abbreviation (input) PIT_DATA_2 :: u32 where "PIT_DATA_2 \<equiv> 0x42"
abbreviation (input) PIT_CMD :: u32 where "PIT_CMD \<equiv> 0x43"
abbreviation (input) PIT_CHNL_2 :: u32 where "PIT_CHNL_2 \<equiv> 0x61"

text \<open>Division by zero is a fault of the processor.\<close>

definition pit_phase :: "history \<Rightarrow> u64 \<Rightarrow> history outcome" where
  "pit_phase h hz =
     (if hz = 0 then Halt Panicked
      else
        let d = 1193180 div hz in
        Ret (outb (outb (outb h PIT_CMD 0x36) PIT_DATA_0 (ucast (d AND 0xff))) PIT_DATA_0 (ucast (drop_bit 8 d))))"

definition pit_handler :: "u64 \<Rightarrow> u64" where "pit_handler ticks = ticks + 1"

text \<open>
  \<open>pit_wait\<close>: between two looks at \<open>ticks\<close> the timer may have interrupted; \<open>tick n\<close> says how
  often it has before look \<open>n\<close>. \<open>None\<close>: not returned within \<open>fuel\<close> looks.
\<close>

primrec pit_wait_loop :: "nat \<Rightarrow> (nat \<Rightarrow> nat) \<Rightarrow> nat \<Rightarrow> u64 \<Rightarrow> u64 \<Rightarrow> u64 option" where
  "pit_wait_loop 0 tick n ticks diff = None"
| "pit_wait_loop (Suc fuel) tick n ticks diff =
     (let ticks = (pit_handler ^^ tick n) ticks in
      if ticks < diff then pit_wait_loop fuel tick (n + 1) ticks diff else Some ticks)"

definition pit_wait :: "nat \<Rightarrow> (nat \<Rightarrow> nat) \<Rightarrow> u64 \<Rightarrow> u64 \<Rightarrow> u64 option" where
  "pit_wait fuel tick ticks wait = pit_wait_loop fuel tick 0 ticks (ticks + wait)"

definition timer_install :: "nat \<Rightarrow> pic \<Rightarrow> pic" where
  "timer_install handler s = pic_install_handler s handler 0"

section \<open>lapic.c\<close>

abbreviation (input) LAPIC_REG_TPR :: u64 where "LAPIC_REG_TPR \<equiv> 0x80"
abbreviation (input) LAPIC_REG_EOI :: u64 where "LAPIC_REG_EOI \<equiv> 0xb0"
abbreviation (input) LAPIC_REG_DFR :: u64 where "LAPIC_REG_DFR \<equiv> 0xe0"
abbreviation (input) LAPIC_REG_SVR :: u64 where "LAPIC_REG_SVR \<equiv> 0xf0"
abbreviation (input) LAPIC_REG_ICR_LO :: u64 where "LAPIC_REG_ICR_LO \<equiv> 0x300"
abbreviation (input) LAPIC_REG_ICR_HI :: u64 where "LAPIC_REG_ICR_HI \<equiv> 0x310"
abbreviation (input) LAPIC_REG_TIMER :: u64 where "LAPIC_REG_TIMER \<equiv> 0x320"
abbreviation (input) LAPIC_REG_LINT0 :: u64 where "LAPIC_REG_LINT0 \<equiv> 0x350"
abbreviation (input) LAPIC_REG_LINT1 :: u64 where "LAPIC_REG_LINT1 \<equiv> 0x360"
abbreviation (input) LAPIC_REG_ICR :: u64 where "LAPIC_REG_ICR \<equiv> 0x380"
abbreviation (input) LAPIC_REG_CCR :: u64 where "LAPIC_REG_CCR \<equiv> 0x390"
abbreviation (input) LAPIC_REG_CFG :: u64 where "LAPIC_REG_CFG \<equiv> 0x3e0"

text \<open>The two loops of \<open>__configure_timer\<close> that wait for channel 2 of the timer.\<close>

primrec wait_status :: "nat \<Rightarrow> hardware \<Rightarrow> history \<Rightarrow> history option" where
  "wait_status 0 hw h = None"
| "wait_status (Suc fuel) hw h =
     (let (v, h) = inb hw (outb h PIT_CMD 0xe8) PIT_DATA_2 in
      if v AND 0x80 = 0x80 then wait_status fuel hw h else Some h)"

primrec wait_count :: "nat \<Rightarrow> hardware \<Rightarrow> history \<Rightarrow> history option" where
  "wait_count 0 hw h = None"
| "wait_count (Suc fuel) hw h =
     (let (lo, h) = inb hw (outb h PIT_CMD 0x80) PIT_DATA_2;
          (hi, h) = inb hw h PIT_DATA_2;
          ticks = (ucast lo :: u16) OR push_bit 8 (ucast hi) in
      if unat ticks > 2 * 65535 - 119318 + 10 then wait_count fuel hw h else Some h)"

definition timer_start :: "hardware \<Rightarrow> u64 \<Rightarrow> history \<Rightarrow> history" where
  "timer_start hw base h =
     (let h = write_32 h (base + LAPIC_REG_CFG) 0x0b;
          h = write_32 h (base + LAPIC_REG_ICR) 0xffffffff;
          h = outb h PIT_CMD 0xb6;
          h = outb h PIT_DATA_2 0xff;
          h = outb h PIT_DATA_2 0xff;
          (v, h) = inb hw h PIT_CHNL_2 in
      outb h PIT_CHNL_2 (v OR 1))"

text \<open>The initial count; the product is on 32 bits.\<close>

definition timer_count :: "u32 \<Rightarrow> u32" where
  "timer_count e = ((0xffffffff - e) * 20) div 1000"

definition timer_stop :: "hardware \<Rightarrow> u64 \<Rightarrow> history \<Rightarrow> history" where
  "timer_stop hw base h =
     (let (e, h) = read_32 hw h (base + LAPIC_REG_CCR);
          (v, h) = inb hw h PIT_CHNL_2;
          h = outb h PIT_CHNL_2 (v AND NOT 1);
          h = write_32 h (base + LAPIC_REG_TIMER) (0x20000 OR 0x20);
          h = write_32 h (base + LAPIC_REG_CFG) 0x0b in
      write_32 h (base + LAPIC_REG_ICR) (ucast (timer_count e)))"

definition configure_timer :: "nat \<Rightarrow> hardware \<Rightarrow> u64 \<Rightarrow> history \<Rightarrow> history option" where
  "configure_timer fuel hw base h =
     map_option (timer_stop hw base)
       (Option.bind (wait_status fuel hw (timer_start hw base h)) (wait_count fuel hw))"

definition lapic_ack_interrupt :: "apic \<Rightarrow> apic" where
  "lapic_ack_interrupt s = s\<lparr> ap_hist := write_32 (ap_hist s) (lapic_base s + LAPIC_REG_EOI) 0 \<rparr>"

definition svr_handler :: "apic \<Rightarrow> u32 \<times> apic" where "svr_handler s = (IRQ_HANDLED, lapic_ack_interrupt s)"
definition tmr_handler :: "apic \<Rightarrow> u32 \<times> apic" where "tmr_handler s = (IRQ_HANDLED, lapic_ack_interrupt s)"

definition acpi_get_local_apic_addr :: "mem \<Rightarrow> apic \<Rightarrow> u64 outcome" where
  "acpi_get_local_apic_addr m s =
     (if mapic s = 0 then Ret INVALID_ADDRESS else omap of_nat (ldn m (unat (mapic s) + 36) 4))"

text \<open>\<open>svr\<close> and \<open>tmr\<close> are the addresses of the two handlers above.\<close>

definition lapic_initialize :: "nat \<Rightarrow> hardware \<Rightarrow> mem \<Rightarrow> nat \<Rightarrow> nat \<Rightarrow> apic \<Rightarrow> apic outcome" where
  "lapic_initialize fuel hw m svr tmr s =
     bnd (acpi_get_local_apic_addr m s) (\<lambda>addr.
     let msr = ap_msr s;
         s = (if msr AND 0xfffff000 \<noteq> addr \<or> msr AND 0x800 = 0 then s\<lparr> ap_msr := addr OR 0x800 \<rparr> else s);
         s = s\<lparr> lapic_base := addr \<rparr> in
     bnd (amd64_map_page (ap_mmu s) addr addr (MM_PRESENT OR MM_READWRITE)) (\<lambda>mm.
     let h = write_32 (ap_hist s) (addr + LAPIC_REG_DFR) 0xffffffff;
         h = write_32 h (addr + LAPIC_REG_TPR) 0 in
     case configure_timer fuel hw addr h of
       None \<Rightarrow> Halt NoReturn
     | Some h \<Rightarrow>
         let h = write_32 h (addr + LAPIC_REG_LINT0) 0x10000;
             h = write_32 h (addr + LAPIC_REG_LINT1) 0x10000;
             h = write_32 h (addr + LAPIC_REG_SVR) (0x200 OR 0x100 OR 0xff);
             h = write_32 h (addr + LAPIC_REG_EOI) 0 in
         bnd (irq_install_handler (ap_irqs s) 0x20 tmr 0) (\<lambda>t.
         bnd (irq_install_handler t 0xff svr 0) (\<lambda>t.
         Ret (s\<lparr> ap_mmu := mm, ap_hist := h, ap_irqs := t, cpu_init_count := cpu_init_count s + 1 \<rparr>)))))"

definition lapic_register_dev :: "apic \<Rightarrow> int \<Rightarrow> int \<Rightarrow> apic outcome" where
  "lapic_register_dev s cpu_id lapic_id =
     kassert (cpu_id \<ge> 0 \<and> cpu_id < int MAX_CPU)
       (bnd (wr (lapics s) (nat cpu_id) \<lparr> lp_cpu = of_int cpu_id, lp_id = of_int lapic_id \<rparr>) (\<lambda>l.
        Ret (s\<lparr> lapics := l, cpu_count := cpu_count s + 1 \<rparr>)))"

definition lapic_get_cpu_count :: "apic \<Rightarrow> u32" where "lapic_get_cpu_count s = cpu_count s"
definition lapic_get_init_cpu_count :: "apic \<Rightarrow> u32" where "lapic_get_init_cpu_count s = cpu_init_count s"

definition lapic_get_lapic_id :: "apic \<Rightarrow> u32 \<Rightarrow> int outcome" where
  "lapic_get_lapic_id s cpu =
     (if cpu \<ge> cpu_count s then Ret (- ENXIO) else omap (\<lambda>e. sint (lp_id e)) (rd (lapics s) (unat cpu)))"

definition lapic_send_ipi :: "apic \<Rightarrow> u32 \<Rightarrow> u32 \<Rightarrow> apic" where
  "lapic_send_ipi s high low =
     s\<lparr> ap_hist := write_32 (write_32 (ap_hist s) (lapic_base s + LAPIC_REG_ICR_HI) (ucast high))
                     (lapic_base s + LAPIC_REG_ICR_LO) (ucast low) \<rparr>"

definition lapic_send_init :: "apic \<Rightarrow> u32 \<Rightarrow> apic outcome" where
  "lapic_send_init s cpu =
     omap (\<lambda>e. lapic_send_ipi s (push_bit 24 (lp_id e) AND 0xff000000) (0x500 OR 0 OR 0x4000)) (rd (lapics s) (unat cpu))"

definition lapic_send_sipi :: "apic \<Rightarrow> u32 \<Rightarrow> u32 \<Rightarrow> apic outcome" where
  "lapic_send_sipi s cpu vec =
     omap (\<lambda>e. lapic_send_ipi s (push_bit 24 (lp_id e) AND 0xff000000) ((vec AND 0xff) OR 0x600 OR 0 OR 0x4000))
       (rd (lapics s) (unat cpu))"

definition lapic_get_base :: "apic \<Rightarrow> u64" where
  "lapic_get_base s = (if lapic_base s = 0 then INVALID_ADDRESS else lapic_base s)"

section \<open>ioapic.c\<close>

definition ioapic_read_reg :: "hardware \<Rightarrow> history \<Rightarrow> u64 \<Rightarrow> u32 \<Rightarrow> u32 \<times> history" where
  "ioapic_read_reg hw h base reg = read_32 hw (write_32 h base (ucast reg)) (base + 0x10)"

definition ioapic_write_reg :: "history \<Rightarrow> u64 \<Rightarrow> u32 \<Rightarrow> u32 \<Rightarrow> history" where
  "ioapic_write_reg h base reg v = write_32 (write_32 h base (ucast reg)) (base + 0x10) (ucast v)"

definition ioapic_mask_line :: "u64 \<Rightarrow> u32 \<Rightarrow> nat \<Rightarrow> history \<Rightarrow> history" where
  "ioapic_mask_line base intr_base i h =
     (let offset = 0x10 + 2 * of_nat i + intr_base in
      ioapic_write_reg (ioapic_write_reg h base offset (0x10000 OR (0x20 + of_nat i))) base (offset + 1) 0)"

definition ioapic_initialize :: "hardware \<Rightarrow> ioapic_entry \<Rightarrow> apic \<Rightarrow> apic outcome" where
  "ioapic_initialize hw e s =
     bnd (amd64_map_page (ap_mmu s) (io_base e) (io_base e) (MM_PRESENT OR MM_READWRITE)) (\<lambda>mm.
     let (_, h) = ioapic_read_reg hw (ap_hist s) (io_base e) 0;
         (ver, h) = ioapic_read_reg hw h (io_base e) 1 in
     Ret (s\<lparr> ap_mmu := mm,
            ap_hist := fold (ioapic_mask_line (io_base e) (io_intr e)) [0..<unat (drop_bit 16 ver AND 0xff)] h \<rparr>))"

fun ioapic_all :: "hardware \<Rightarrow> nat list \<Rightarrow> apic \<Rightarrow> apic outcome" where
  "ioapic_all hw [] s = Ret s"
| "ioapic_all hw (i # is) s = bnd (rd (io_apics s) i) (\<lambda>e. bnd (ioapic_initialize hw e s) (ioapic_all hw is))"

definition ioapic_initialize_all :: "hardware \<Rightarrow> apic \<Rightarrow> apic outcome" where
  "ioapic_initialize_all hw s =
     kassert (num_apics s > 0)
       (ioapic_all hw [0..<nat (num_apics s)] (s\<lparr> ap_hist := outb (outb (ap_hist s) 0x21 0xff) 0xa1 0xff \<rparr>))"

definition ioapic_register_dev :: "apic \<Rightarrow> u8 \<Rightarrow> u32 \<Rightarrow> u32 \<Rightarrow> apic outcome" where
  "ioapic_register_dev s ioapic_id ioapic_addr intr_base =
     kassert (unat ioapic_id < MAX_IOAPIC)
       (bnd (wr (io_apics s) (unat ioapic_id) \<lparr> io_id = ioapic_id, io_base = ucast ioapic_addr, io_intr = intr_base \<rparr>) (\<lambda>l.
        Ret (s\<lparr> io_apics := l, num_apics := num_apics s + 1 \<rparr>)))"

definition ioapic_enable_irq :: "apic \<Rightarrow> u32 \<Rightarrow> u32 \<Rightarrow> apic outcome" where
  "ioapic_enable_irq s cpu irq =
     bnd (rd (io_apics s) (unat cpu)) (\<lambda>e.
     bnd (amd64_map_page (ap_mmu s) (io_base e) (io_base e) (MM_PRESENT OR MM_READWRITE)) (\<lambda>mm.
     let offset = 0x10 + 2 * (irq - 0x20);
         h = ioapic_write_reg (ap_hist s) (io_base e) offset irq in
     Ret (s\<lparr> ap_mmu := mm, ap_hist := ioapic_write_reg h (io_base e) (offset + 1) (push_bit 24 cpu) \<rparr>)))"

definition ioapic_get_base :: "apic \<Rightarrow> u64 outcome" where
  "ioapic_get_base s = kassert (num_apics s = 1) (omap io_base (rd (io_apics s) 0))"

section \<open>acpi.c\<close>

text \<open>The bytes \<open>cs\<close> at \<open>p\<close>, compared one by one until they differ.\<close>

primrec match_bytes :: "mem \<Rightarrow> nat \<Rightarrow> u8 list \<Rightarrow> bool outcome" where
  "match_bytes m p [] = Ret True"
| "match_bytes m p (c # cs) = bnd (ld m p) (\<lambda>b. if b \<noteq> c then Ret False else match_bytes m (p + 1) cs)"

definition RSD_PTR :: "u8 list" where "RSD_PTR = [82, 83, 68, 32, 80, 84, 82, 32]"
definition APIC_SIG :: "u8 list" where "APIC_SIG = [65, 80, 73, 67]"

function find_rspd_start :: "mem \<Rightarrow> nat \<Rightarrow> nat \<Rightarrow> nat outcome" where
  "find_rspd_start m i stop =
     (if i < stop then
        bnd (match_bytes m i RSD_PTR) (\<lambda>hit. if hit then Ret i else find_rspd_start m (i + length RSD_PTR) stop)
      else Ret 0)"
  by pat_completeness auto
termination
  by (relation "measure (\<lambda>(m, i, stop). stop - i)") (auto simp: RSD_PTR_def)

declare find_rspd_start.simps [simp del]

fun sum_bytes :: "mem \<Rightarrow> nat \<Rightarrow> nat \<Rightarrow> nat outcome" where
  "sum_bytes m p 0 = Ret 0"
| "sum_bytes m p (Suc n) = bnd (ld m p) (\<lambda>b. omap (\<lambda>v. unat b + v) (sum_bytes m (p + 1) n))"

definition validate_rspd_description :: "mem \<Rightarrow> nat \<Rightarrow> bool outcome" where
  "validate_rspd_description m desc =
     kassert (desc \<noteq> 0) (omap (\<lambda>total. total mod 256 = 0) (sum_bytes m desc 20))"

text \<open>\<open>kstrncmp\<close> up to length 3 compares four bytes. The last table with the signature wins.\<close>

function find_mapic :: "mem \<Rightarrow> nat \<Rightarrow> nat \<Rightarrow> nat \<Rightarrow> u64 \<Rightarrow> u64 outcome" where
  "find_mapic m table n i found =
     (if i < n then
        bnd (ldn m (table + 36 + 4 * i) 4) (\<lambda>d.
        bnd (match_bytes m d APIC_SIG) (\<lambda>hit.
        find_mapic m table n (i + 1) (if hit then amd64_p_to_v (of_nat d) else found)))
      else Ret found)"
  by pat_completeness auto
termination by (relation "measure (\<lambda>(m, table, n, i, found). n - i)") auto

declare find_mapic.simps [simp del]

definition madt_entry :: "mem \<Rightarrow> nat \<Rightarrow> apic \<Rightarrow> apic outcome" where
  "madt_entry m p s =
     bnd (ldn m p 1) (\<lambda>ty.
     if ty = 0 then
       bnd (ldn m (p + 2) 1) (\<lambda>cpu. bnd (ldn m (p + 3) 1) (\<lambda>lid. lapic_register_dev s (int cpu) (int lid)))
     else if ty = 1 then
       bnd (ldn m (p + 2) 1) (\<lambda>iid. bnd (ldn m (p + 4) 4) (\<lambda>addr. bnd (ldn m (p + 8) 4) (\<lambda>base.
         ioapic_register_dev s (of_nat iid) (of_nat addr) (of_nat base))))
     else Ret s)"

text \<open>An entry of length 0 makes the loop spin: \<open>None\<close> is not having returned yet.\<close>

primrec madt_loop :: "nat \<Rightarrow> mem \<Rightarrow> nat \<Rightarrow> nat \<Rightarrow> apic \<Rightarrow> apic outcome option" where
  "madt_loop 0 m p stop s = None"
| "madt_loop (Suc fuel) m p stop s =
     (if p < stop then
        (case bnd (madt_entry m p s) (\<lambda>s. omap (Pair s) (ldn m (p + 1) 1)) of
           Halt e \<Rightarrow> Some (Halt e)
         | Ret (s, len) \<Rightarrow> madt_loop fuel m (p + len) stop s)
      else Some (Ret s))"

definition acpi_find_rspd :: "mem \<Rightarrow> nat outcome" where
  "acpi_find_rspd m =
     bnd (find_rspd_start m 0x80000 0x9ffff) (\<lambda>r. if r \<noteq> 0 then Ret r else find_rspd_start m 0xe0000 0xfffff)"

definition acpi_init :: "nat \<Rightarrow> mem \<Rightarrow> apic \<Rightarrow> (int \<times> apic) outcome" where
  "acpi_init fuel m s =
     bnd (acpi_find_rspd m) (\<lambda>r.
     let s = s\<lparr> rspd_start := r \<rparr> in
     if r = 0 then Ret (- ENXIO, s)
     else
       bnd (validate_rspd_description m r) (\<lambda>ok.
       if \<not> ok then Ret (- EINVAL, s)
       else
         bnd (ldn m (r + 16) 4) (\<lambda>table.
         bnd (ldn m (table + 4) 4) (\<lambda>len.
         bnd (find_mapic m table (unat ((of_nat len - 36 :: u32) div 4)) 0 (mapic s)) (\<lambda>ma.
         let s = s\<lparr> mapic := ma \<rparr> in
         if ma = 0 then Ret (- EINVAL, s)
         else
           bnd (ldn m (unat ma + 4) 4) (\<lambda>len.
           case madt_loop fuel m (unat ma + 44) (unat ma + len) s of
             None \<Rightarrow> Halt NoReturn
           | Some r \<Rightarrow> omap (Pair 0) r))))))"

section \<open>Waiting for the timer\<close>

lemma unat_ticks: "unat t + n < 2 ^ 64 \<Longrightarrow> unat ((pit_handler ^^ n) t) = unat t + n"
proof (induction n)
  case (Suc n)
  then have "unat ((pit_handler ^^ n) t) = unat t + n" by simp
  moreover have "(pit_handler ^^ Suc n) t = (pit_handler ^^ n) t + 1" by (simp add: pit_handler_def)
  ultimately show ?case using Suc.prems unat_add_u64 [of "(pit_handler ^^ n) t" 1] by simp
qed simp

lemma pit_wait_progress:
  assumes often: "\<And>n. \<exists>k. 0 < tick (n + k)" and few: "\<And>n. tick n \<le> B" and room: "unat d + B < 2 ^ 64"
  shows "t \<le> d \<Longrightarrow> \<exists>fuel v. pit_wait_loop fuel tick n t d = Some v \<and> d \<le> v"
proof (induction "unat d - unat t" arbitrary: n t rule: less_induct)
  case less
  let ?ends = "\<lambda>n t. \<exists>fuel v. pit_wait_loop fuel tick n t d = Some v \<and> d \<le> v"
  have look: "?ends n t" if "(pit_handler ^^ tick n) t < d \<Longrightarrow> ?ends (n + 1) ((pit_handler ^^ tick n) t)" for n
  proof (cases "(pit_handler ^^ tick n) t < d")
    case True
    with that obtain fuel v where "pit_wait_loop fuel tick (n + 1) ((pit_handler ^^ tick n) t) d = Some v" "d \<le> v" by blast
    then show ?thesis using True by (intro exI [of _ "Suc fuel"] exI [of _ v]) simp
  next
    case False
    then have "pit_wait_loop (Suc 0) tick n t d = Some ((pit_handler ^^ tick n) t)" by (simp add: Let_def)
    then show ?thesis using False by (meson not_less)
  qed
  have small: "unat ((pit_handler ^^ tick n) t) = unat t + tick n" for n
    using few [of n] room less.prems by (intro unat_ticks) (simp add: word_le_nat_alt)
  obtain k where "0 < tick (n + k)" using often by blast
  then show ?case
  proof (induction k arbitrary: n)
    case 0
    show ?case
      by (rule look, rule less.hyps) (use 0 small [of n] in \<open>auto simp: word_less_nat_alt word_le_nat_alt\<close>)
  next
    case (Suc k)
    show ?case
    proof (rule look)
      assume lt: "(pit_handler ^^ tick n) t < d"
      show "?ends (n + 1) ((pit_handler ^^ tick n) t)"
      proof (cases "tick n = 0")
        case True
        then show ?thesis using Suc.IH [of "n + 1"] Suc.prems by simp
      next
        case False
        then show ?thesis using lt small [of n]
          by (intro less.hyps) (auto simp: word_less_nat_alt word_le_nat_alt)
      qed
    qed
  qed
qed

text \<open>
  Waiting ends. If the timer interrupts again and again, not more than \<open>B\<close> times
  between two looks, and the target is at least \<open>B\<close> below the largest number, \<open>pit_wait\<close>
  returns, and not before \<open>wait\<close> ticks have passed.
\<close>

lemma pit_wait_returns:
  assumes "\<And>n. \<exists>k. 0 < tick (n + k)" and "\<And>n. tick n \<le> B" and "unat ticks + unat wait + B < 2 ^ 64"
  shows "\<exists>fuel v. pit_wait fuel tick ticks wait = Some v \<and> unat ticks + unat wait \<le> unat v"
proof -
  have d: "unat (ticks + wait) = unat ticks + unat wait" using assms(3) by (intro unat_add_u64) simp
  then have "ticks \<le> ticks + wait" by (simp add: word_le_nat_alt)
  moreover have "unat (ticks + wait) + B < 2 ^ 64" using assms(3) d by simp
  ultimately obtain fuel v where "pit_wait_loop fuel tick 0 ticks (ticks + wait) = Some v" "ticks + wait \<le> v"
    using pit_wait_progress [OF assms(1,2)] by blast
  then show ?thesis using d by (intro exI [of _ fuel] exI [of _ v]) (simp add: pit_wait_def word_le_nat_alt)
qed

lemma pit_wait_returns_witness:
  "\<exists>fuel v. pit_wait fuel (\<lambda>n. n mod 2) 40 2 = Some v \<and> 42 \<le> unat v"
proof -
  have "\<exists>k. 0 < (n + k) mod 2" for n :: nat by (intro exI [of _ "n + 1"]) presburger
  moreover have "n mod 2 \<le> 1" for n :: nat by presburger
  moreover have "unat (40 :: u64) + unat (2 :: u64) + 1 < 2 ^ 64" by simp
  ultimately have "\<exists>fuel v. pit_wait fuel (\<lambda>n. n mod 2) 40 2 = Some v \<and> unat (40 :: u64) + unat (2 :: u64) \<le> unat v"
    by (rule pit_wait_returns)
  then show ?thesis by simp
qed

section \<open>Calibration of the local timer\<close>

text \<open>
  What the code relies on of channel 2 of the timer: however it is polled, its output has gone up
  after \<open>N\<close> status commands, and its count has run below 8192 after \<open>N\<close> latch commands.
\<close>

definition polls :: "u8 \<Rightarrow> history \<Rightarrow> nat" where
  "polls cmd h = length (filter (\<lambda>e. e = Out8 PIT_CMD cmd) h)"

definition pit_runs_down :: "hardware \<Rightarrow> nat \<Rightarrow> bool" where
  "pit_runs_down hw N \<longleftrightarrow>
     (\<forall>h. N \<le> polls 0xe8 h \<longrightarrow> (ucast (hw_port hw h PIT_DATA_2) :: u8) AND 0x80 \<noteq> 0x80) \<and>
     (\<forall>h lo. N \<le> polls 0x80 h \<longrightarrow> (ucast (hw_port hw (In8 PIT_DATA_2 lo # h) PIT_DATA_2) :: u8) < 0x20)"

lemma polls_simps [simp]:
  "polls c (Out8 a v # h) = (if a = PIT_CMD \<and> v = c then Suc (polls c h) else polls c h)"
  "polls c (In8 a v # h) = polls c h"
  by (simp_all add: polls_def)

lemma wait_status_ends: "pit_runs_down hw N \<Longrightarrow> \<exists>fuel h'. wait_status fuel hw h = Some h'"
proof (induction "N - polls 0xe8 h" arbitrary: h rule: less_induct)
  case less
  let ?h = "outb h PIT_CMD 0xe8"
  let ?v = "ucast (hw_port hw ?h PIT_DATA_2) :: u8"
  show ?case
  proof (cases "?v AND 0x80 = 0x80")
    case False
    then show ?thesis by (intro exI [of _ "Suc 0"]) (simp add: inb_def Let_def)
  next
    case True
    then have "\<not> N \<le> polls 0xe8 ?h" using less.prems by (auto simp: pit_runs_down_def)
    then have "\<exists>fuel h'. wait_status fuel hw (In8 PIT_DATA_2 ?v # ?h) = Some h'"
      by (intro less.hyps less.prems) (simp add: outb_def)
    then obtain fuel h' where "wait_status fuel hw (In8 PIT_DATA_2 ?v # ?h) = Some h'" by blast
    then show ?thesis using True by (intro exI [of _ "Suc fuel"]) (simp add: inb_def Let_def)
  qed
qed

lemma low_count: "(hi :: u8) < 0x20 \<Longrightarrow> unat ((ucast (lo :: u8) :: u16) OR push_bit 8 (ucast hi)) < 8192"
proof -
  assume hi: "hi < 0x20"
  have shift: "unat (drop_bit 13 x) = unat x div 8192" for x :: u16 by (simp add: unat_drop_bit_eq drop_bit_eq_div [where ?'a = nat])
  have h: "unat hi < 32" using hi by (simp add: word_less_nat_alt)
  have "unat (push_bit 8 (ucast hi :: u16)) = 256 * unat hi"
    using h by (simp add: push_bit_eq_mult unat_word_ariths unsigned_ucast_eq take_bit_eq_mod)
  then have "drop_bit 13 (push_bit 8 (ucast hi :: u16)) = 0" (is ?high) using h shift by (simp add: unat_eq_zero[symmetric])
  have "unat lo < 2 ^ LENGTH(8)" by (rule unsigned_less)
  then have "unat (ucast lo :: u16) < 8192" by (simp add: unsigned_ucast_eq take_bit_eq_mod)
  then have "drop_bit 13 (ucast lo :: u16) = 0" using shift by (simp add: unat_eq_zero[symmetric])
  with \<open>?high\<close> have "drop_bit 13 ((ucast lo :: u16) OR push_bit 8 (ucast hi)) = 0" by (simp add: drop_bit_or)
  then have "unat ((ucast lo :: u16) OR push_bit 8 (ucast hi)) div 8192 = 0" using shift by (metis unsigned_0)
  then show ?thesis by (simp add: div_eq_0_iff)
qed

lemma wait_count_ends: "pit_runs_down hw N \<Longrightarrow> \<exists>fuel h'. wait_count fuel hw h = Some h'"
proof (induction "N - polls 0x80 h" arbitrary: h rule: less_induct)
  case less
  let ?h = "outb h PIT_CMD 0x80"
  let ?lo = "ucast (hw_port hw ?h PIT_DATA_2) :: u8"
  let ?hi = "ucast (hw_port hw (In8 PIT_DATA_2 ?lo # ?h) PIT_DATA_2) :: u8"
  let ?ticks = "(ucast ?lo :: u16) OR push_bit 8 (ucast ?hi)"
  show ?case
  proof (cases "unat ?ticks > 11762")
    case False
    then show ?thesis by (intro exI [of _ "Suc 0"]) (simp add: inb_def Let_def)
  next
    case True
    then have "\<not> ?hi < 0x20" using low_count [of ?hi ?lo] by auto
    then have "\<not> N \<le> polls 0x80 ?h" using less.prems by (auto simp: pit_runs_down_def)
    then have "\<exists>fuel h'. wait_count fuel hw (In8 PIT_DATA_2 ?hi # In8 PIT_DATA_2 ?lo # ?h) = Some h'"
      by (intro less.hyps less.prems) (simp add: outb_def)
    then obtain fuel h' where "wait_count fuel hw (In8 PIT_DATA_2 ?hi # In8 PIT_DATA_2 ?lo # ?h) = Some h'" by blast
    then show ?thesis using True by (intro exI [of _ "Suc fuel"]) (simp add: inb_def Let_def)
  qed
qed

lemma wait_mono:
  "wait_status fuel hw h = Some h' \<Longrightarrow> wait_status (fuel + k) hw h = Some h'"
  "wait_count fuel hw h = Some h' \<Longrightarrow> wait_count (fuel + k) hw h = Some h'"
  by (induction fuel arbitrary: h) (auto simp: Let_def split: prod.splits if_splits)

lemma timer_stop_shape:
  "\<exists>e h2. timer_stop hw base h = MWrite (base + LAPIC_REG_ICR) (timer_count e) # MWrite (base + LAPIC_REG_CFG) 0x0b #
     MWrite (base + LAPIC_REG_TIMER) 0x20020 # h2 \<and> MRead (base + LAPIC_REG_CCR) e \<in> set h2"
proof -
  have "(ucast (ucast c :: u64) :: u32) = c" for c :: u32 by (rule bit_word_eqI) (simp add: bit_simps)
  then show ?thesis
    by (intro exI [of _ "hw_mem hw h (base + LAPIC_REG_CCR)"])
      (simp add: timer_stop_def write_32_def outb_def inb_def read_32_def Let_def)
qed


section \<open>The tables of the firmware\<close>

text \<open>What a table of the firmware says, and its bytes.\<close>

datatype madt_item =
    LocalApic u8 u8 u32
  | IoApic u8 u32 u32
  | OtherEntry u8 "u8 list"

fun item_bytes :: "madt_item \<Rightarrow> u8 list" where
  "item_bytes (LocalApic c l fl) = [0, 8, c, l] @ le_bytes (unat fl) 4"
| "item_bytes (IoApic i a g) = [1, 12, i, 0] @ le_bytes (unat a) 4 @ le_bytes (unat g) 4"
| "item_bytes (OtherEntry ty pl) = [ty, of_nat (2 + length pl)] @ pl"

fun item_ok :: "madt_item \<Rightarrow> bool" where
  "item_ok (LocalApic c l fl) \<longleftrightarrow> unat c < MAX_CPU"
| "item_ok (IoApic i a g) \<longleftrightarrow> unat i < MAX_IOAPIC"
| "item_ok (OtherEntry ty pl) \<longleftrightarrow> 2 \<le> ty \<and> length pl < 254"

definition madt_bytes :: "madt_item list \<Rightarrow> u8 list" where "madt_bytes items = concat (map item_bytes items)"

text \<open>What the kernel keeps of an entry.\<close>

fun keep_item :: "madt_item \<Rightarrow> apic \<Rightarrow> apic" where
  "keep_item (LocalApic c l fl) s =
     s\<lparr> lapics := (lapics s)[unat c := \<lparr> lp_cpu = ucast c, lp_id = ucast l \<rparr>], cpu_count := cpu_count s + 1 \<rparr>"
| "keep_item (IoApic i a g) s =
     s\<lparr> io_apics := (io_apics s)[unat i := \<lparr> io_id = i, io_base = ucast a, io_intr = g \<rparr>],
        num_apics := num_apics s + 1 \<rparr>"
| "keep_item (OtherEntry ty pl) s = s"

definition arrays_ok :: "apic \<Rightarrow> bool" where
  "arrays_ok s \<longleftrightarrow> length (lapics s) = MAX_CPU \<and> length (io_apics s) = MAX_IOAPIC"

lemma arrays_ok_keep: "arrays_ok s \<Longrightarrow> arrays_ok (keep_item it s)"
  by (cases it) (auto simp: arrays_ok_def)

lemma ldn_byte: "bytes_at m p (b # bs) \<Longrightarrow> ldn m p 1 = Ret (unat b)"
  by (simp add: bytes_at_Cons ld_def)

lemma unat_u32_less: "unat (x :: u32) < 256 ^ 4"
  using unsigned_less [of x] by simp

lemma madt_entry_keep:
  assumes b: "bytes_at m p (item_bytes it)" and ok: "item_ok it" "arrays_ok s"
  shows "madt_entry m p s = Ret (keep_item it s)" and "ldn m (p + 1) 1 = Ret (length (item_bytes it))"
proof -
  have "madt_entry m p s = Ret (keep_item it s) \<and> ldn m (p + 1) 1 = Ret (length (item_bytes it))"
  proof (cases it)
    case (LocalApic c l fl)
    have "ldn m p 1 = Ret 0" "ldn m (p + 1) 1 = Ret 8" "ldn m (p + 2) 1 = Ret (unat c)" "ldn m (p + 3) 1 = Ret (unat l)"
      using b LocalApic by (simp_all add: bytes_at_Cons ld_def numeral_3_eq_3)
    then show ?thesis using ok LocalApic
      by (simp add: madt_entry_def lapic_register_dev_def arrays_ok_def)
  next
    case (IoApic i a g)
    have "ldn m p 1 = Ret 1" "ldn m (p + 1) 1 = Ret 12" "ldn m (p + 2) 1 = Ret (unat i)"
      using b IoApic by (simp_all add: bytes_at_Cons ld_def)
    moreover have "bytes_at m (p + 4) (le_bytes (unat a) 4)" "bytes_at m (p + 8) (le_bytes (unat g) 4)"
      using b IoApic bytes_at_drop [of m p "[1, 12, i, 0]" "le_bytes (unat a) 4 @ le_bytes (unat g) 4" 4]
      by (simp_all add: bytes_at_append add.commute)
    then have "ldn m (p + 4) 4 = Ret (unat a)" "ldn m (p + 8) 4 = Ret (unat g)"
      using ldn_le_bytes [OF _ unat_u32_less] by blast+
    ultimately show ?thesis using ok IoApic
      by (simp add: madt_entry_def ioapic_register_dev_def arrays_ok_def)
  next
    case (OtherEntry ty pl)
    have "ldn m p 1 = Ret (unat ty)" "ldn m (p + 1) 1 = Ret (2 + length pl)"
      using b OtherEntry ok unat_of_nat [of "2 + length pl", where 'a = 8] by (simp_all add: bytes_at_Cons ld_def)
    moreover have "2 \<le> unat ty" using OtherEntry ok by (simp add: word_le_nat_alt)
    ultimately show ?thesis using OtherEntry by (simp add: madt_entry_def)
  qed
  then show "madt_entry m p s = Ret (keep_item it s)" and "ldn m (p + 1) 1 = Ret (length (item_bytes it))" by simp_all
qed

lemma madt_loop_keeps:
  "bytes_at m p (madt_bytes items) \<Longrightarrow> list_all item_ok items \<Longrightarrow> arrays_ok s \<Longrightarrow> length items < fuel \<Longrightarrow>
   madt_loop fuel m p (p + length (madt_bytes items)) s = Some (Ret (fold keep_item items s))"
proof (induction items arbitrary: p s fuel)
  case Nil
  then show ?case by (cases fuel) (simp_all add: madt_bytes_def)
next
  case (Cons it items)
  obtain k where k: "fuel = Suc k" using Cons.prems(4) by (cases fuel) auto
  have it: "bytes_at m p (item_bytes it)" "bytes_at m (p + length (item_bytes it)) (madt_bytes items)"
    using Cons.prems(1) by (simp_all add: madt_bytes_def bytes_at_append)
  have "item_ok it" using Cons.prems(2) by simp
  then have pos: "0 < length (item_bytes it)" by (cases it) auto
  note step = madt_entry_keep [OF it(1) \<open>item_ok it\<close> Cons.prems(3)]
  have "madt_loop k m (p + length (item_bytes it)) (p + length (item_bytes it) + length (madt_bytes items)) (keep_item it s) =
      Some (Ret (fold keep_item items (keep_item it s)))"
    using Cons.prems k by (intro Cons.IH it arrays_ok_keep) auto
  then show ?case using k step pos by (simp add: madt_bytes_def add.assoc del: One_nat_def)
qed

text \<open>
  \<open>firmware m k rsdt ents madt items\<close>: the root pointer is at the \<open>k\<close>-th place of the extended
  BIOS data area that is looked at and its bytes sum up to 0; it gives the table \<open>rsdt\<close>, whose entries are \<open>ents\<close>, and
  only \<open>madt\<close> of them is signed \<open>APIC\<close>, with the entries \<open>items\<close>.
\<close>

definition firmware :: "mem \<Rightarrow> nat \<Rightarrow> u32 \<Rightarrow> u32 list \<Rightarrow> u32 \<Rightarrow> madt_item list \<Rightarrow> bool" where
  "firmware m k rsdt ents madt items \<longleftrightarrow>
     (\<forall>j<k. match_bytes m (0x80000 + 8 * j) RSD_PTR = Ret False) \<and> 0x80000 + 8 * k < 0x9ffff \<and>
     (\<exists>mid. length mid = 8 \<and>
        bytes_at m (0x80000 + 8 * k) (RSD_PTR @ mid @ le_bytes (unat rsdt) 4) \<and>
        sum_list (map unat (RSD_PTR @ mid @ le_bytes (unat rsdt) 4)) mod 256 = 0) \<and>
     4 * length ents + 36 < 2 ^ 32 \<and>
     bytes_at m (unat rsdt + 4) (le_bytes (4 * length ents + 36) 4) \<and>
     bytes_at m (unat rsdt + 36) (concat (map (\<lambda>t. le_bytes (unat t) 4) ents)) \<and>
     madt \<in> set ents \<and> (\<forall>t\<in>set ents. match_bytes m (unat t) APIC_SIG = Ret (t = madt)) \<and>
     unat madt < 2 ^ 31 \<and> length (madt_bytes items) + 44 < 2 ^ 32 \<and>
     bytes_at m (unat madt + 0xffffffff80000004) (le_bytes (length (madt_bytes items) + 44) 4) \<and>
     bytes_at m (unat madt + 0xffffffff8000002c) (madt_bytes items)"

lemma match_bytes_at: "bytes_at m p bs \<Longrightarrow> match_bytes m p bs = Ret True"
  by (induction bs arbitrary: p) (auto simp: bytes_at_Cons ld_def)

lemma sum_bytes_at: "bytes_at m p bs \<Longrightarrow> sum_bytes m p (length bs) = Ret (sum_list (map unat bs))"
  by (induction bs arbitrary: p) (auto simp: bytes_at_Cons ld_def)

lemma length_RSD_PTR: "length RSD_PTR = 8" by (simp add: RSD_PTR_def)

lemma find_rspd_start_finds:
  "(\<forall>j<k. match_bytes m (i + 8 * j) RSD_PTR = Ret False) \<Longrightarrow> match_bytes m (i + 8 * k) RSD_PTR = Ret True \<Longrightarrow>
   i + 8 * k < stop \<Longrightarrow> find_rspd_start m i stop = Ret (i + 8 * k)"
proof (induction k arbitrary: i)
  case 0
  then show ?case by (subst find_rspd_start.simps) simp
next
  case (Suc k)
  have "find_rspd_start m (i + 8) stop = Ret (i + 8 + 8 * k)"
    using Suc.prems by (intro Suc.IH) (auto simp: add.assoc dest: spec [of _ "Suc _"])
  moreover have "match_bytes m i RSD_PTR = Ret False" using Suc.prems(1) by (auto dest: spec [of _ 0])
  ultimately show ?case using Suc.prems(3) by (subst find_rspd_start.simps) (simp add: length_RSD_PTR add.assoc)
qed

lemma ldn_word: "bytes_at m p (concat (map (\<lambda>t. le_bytes (unat t) 4) (drop i ts))) \<Longrightarrow> i < length ts \<Longrightarrow>
    ldn m p 4 = Ret (unat (ts ! i :: u32))"
  using unat_u32_less [of "ts ! i"]
  by (intro ldn_le_bytes) (auto simp: Cons_nth_drop_Suc [symmetric] bytes_at_append simp del: le_bytes.simps)

lemma find_mapic_loop:
  assumes "bytes_at m (table + 36) (concat (map (\<lambda>t. le_bytes (unat t) 4) (ents :: u32 list)))"
    and "\<forall>t\<in>set ents. match_bytes m (unat t) APIC_SIG = Ret (t = madt)"
  shows "i \<le> length ents \<Longrightarrow> find_mapic m table (length ents) i found =
    Ret (if madt \<in> set (drop i ents) then amd64_p_to_v (ucast madt) else found)"
proof (induction "length ents - i" arbitrary: i found)
  case 0
  then show ?case by (subst find_mapic.simps) simp
next
  case (Suc n)
  have "concat (map (\<lambda>t. le_bytes (unat t) 4) ents) =
      concat (map (\<lambda>t. le_bytes (unat t) 4) (take i ents)) @ concat (map (\<lambda>t. le_bytes (unat t) 4) (drop i ents))"
    by (metis append_take_drop_id concat_append map_append)
  moreover have "length (concat (map (\<lambda>t. le_bytes (unat t) 4) (take i ents))) = 4 * i"
    using Suc.prems by (simp add: length_concat comp_def sum_list_triv del: le_bytes.simps)
  ultimately have "bytes_at m (table + 36 + 4 * i) (concat (map (\<lambda>t. le_bytes (unat t) 4) (drop i ents)))"
    using assms(1) bytes_at_drop by metis
  moreover have i: "i < length ents" using Suc by linarith
  ultimately have "ldn m (table + 36 + 4 * i) 4 = Ret (unat (ents ! i))" by (rule ldn_word)
  moreover have "match_bytes m (unat (ents ! i)) APIC_SIG = Ret (ents ! i = madt)" using assms(2) i by simp
  moreover have "set (drop i ents) = insert (ents ! i) (set (drop (Suc i) ents))"
    using i by (simp flip: Cons_nth_drop_Suc)
  ultimately show ?case using i Suc.hyps
    by (subst find_mapic.simps) (auto simp: Suc_diff_Suc)
qed


text \<open>A memory of blocks of bytes, the first block before the others.\<close>

primrec mem_of :: "(nat \<times> u8 list) list \<Rightarrow> mem" where
  "mem_of [] a = None"
| "mem_of (s # ss) a = (if fst s \<le> a \<and> a < fst s + length (snd s) then Some (snd s ! (a - fst s)) else mem_of ss a)"

lemma mem_of_first: "b + length bs \<le> 2 ^ 64 \<Longrightarrow> bytes_at (mem_of ((b, bs) # ss)) b bs"
  by (simp add: bytes_at_def)

lemma mem_of_later: "b + length bs \<le> p \<or> p + length cs \<le> b \<Longrightarrow>
    bytes_at (mem_of ((b, bs) # ss)) p cs \<longleftrightarrow> bytes_at (mem_of ss) p cs"
  unfolding bytes_at_def by (intro all_cong conj_cong refl arg_cong [where f = "\<lambda>x. x = _"]) auto

definition sample_items :: "madt_item list" where
  "sample_items = [LocalApic 0 0 1, IoApic 1 0xfec00000 0, LocalApic 1 4 1]"

definition sample_firmware :: mem where
  "sample_firmware = mem_of
     [(0x80008, RSD_PTR @ [209, 0, 0, 0, 0, 0, 0, 0] @ le_bytes (unat (0x1000 :: u32)) 4),
      (0x1004, le_bytes (4 * length [0x2000 :: u32] + 36) 4),
      (0x1024, concat (map (\<lambda>t. le_bytes (unat t) 4) [0x2000 :: u32])),
      (0x80000, [0]), (0x2000, APIC_SIG),
      (0xffffffff80002004, le_bytes (length (madt_bytes sample_items) + 44) 4),
      (0xffffffff8000202c, madt_bytes sample_items)]"

lemma length_sample: "length (madt_bytes sample_items) = 28"
  by (simp add: sample_items_def madt_bytes_def)

lemma sample_firmware_ok: "firmware sample_firmware 1 0x1000 [0x2000] 0x2000 sample_items"
proof -
  have at: "bytes_at sample_firmware 0x80008 (RSD_PTR @ [209, 0, 0, 0, 0, 0, 0, 0] @ le_bytes (unat (0x1000 :: u32)) 4)"
    "bytes_at sample_firmware 0x1004 (le_bytes (4 * length [0x2000 :: u32] + 36) 4)"
    "bytes_at sample_firmware 0x1024 (concat (map (\<lambda>t. le_bytes (unat t) 4) [0x2000 :: u32]))"
    "bytes_at sample_firmware 0x80000 [0]" "bytes_at sample_firmware 0x2000 APIC_SIG"
    "bytes_at sample_firmware 0xffffffff80002004 (le_bytes (length (madt_bytes sample_items) + 44) 4)"
    "bytes_at sample_firmware 0xffffffff8000202c (madt_bytes sample_items)"
    unfolding sample_firmware_def
    by ((rule iffD2 [OF mem_of_later], (simp add: length_RSD_PTR length_sample APIC_SIG_def del: le_bytes.simps; fail))+,
        rule mem_of_first, simp add: length_RSD_PTR length_sample APIC_SIG_def del: le_bytes.simps |
       rule mem_of_first, simp add: length_RSD_PTR length_sample APIC_SIG_def del: le_bytes.simps)+
  have "(4 :: nat) = Suc (Suc (Suc (Suc 0)))" by simp
  then have sum: "sum_list (map unat (le_bytes 4096 4)) = 16" by (simp only:) simp
  have "match_bytes sample_firmware 0x80000 RSD_PTR = Ret False"
    using at(4) by (simp add: bytes_at_Cons ld_def RSD_PTR_def)
  then show ?thesis unfolding firmware_def
    using at match_bytes_at [OF at(5)]
    by (intro conjI exI [of _ "[209, 0, 0, 0, 0, 0, 0, 0]"])
      (simp_all add: RSD_PTR_def length_sample sum del: le_bytes.simps)
qed

definition fresh_apic :: apic where
  "fresh_apic = \<lparr> ap_mmu = demo_mmu, ap_irqs = [], ap_hist = [], ap_msr = 0,
     lapics = replicate 64 \<lparr> lp_cpu = 0, lp_id = 0 \<rparr>, lapic_base = 0, cpu_count = 0, cpu_init_count = 0, num_apics = 0,
     io_apics = replicate 20 \<lparr> io_id = 0, io_base = 0, io_intr = 0 \<rparr>, mapic = 0, rspd_start = 0 \<rparr>"


section \<open>The redirection table\<close>

text \<open>
  What a register of the I/O APIC at \<open>b\<close> holds after the accesses \<open>h\<close>: the value last written
  through the window while the register was selected; \<open>None\<close> if never written.
\<close>

fun selected :: "history \<Rightarrow> u64 \<Rightarrow> u32 option" where
  "selected [] b = None"
| "selected (MWrite p v # h) b = (if p = b then Some v else selected h b)"
| "selected (_ # h) b = selected h b"

fun reg_val :: "history \<Rightarrow> u64 \<Rightarrow> u32 \<Rightarrow> u32 option" where
  "reg_val [] b r = None"
| "reg_val (MWrite p v # h) b r = (if p = b + 0x10 \<and> selected h b = Some r then Some v else reg_val h b r)"
| "reg_val (_ # h) b r = reg_val h b r"

lemma ucast_u32_back [simp]: "(ucast (ucast (x :: u32) :: u64) :: u32) = x"
  by (rule bit_word_eqI) (simp add: bit_simps)

lemma reg_val_write: "reg_val (ioapic_write_reg h b r v) b q = (if q = r then Some v else reg_val h b q)"
  by (auto simp: ioapic_write_reg_def write_32_def)

lemma reg_val_read: "ioapic_read_reg hw h b r = (v, h') \<Longrightarrow> reg_val h' b q = reg_val h b q"
  by (auto simp: ioapic_read_reg_def write_32_def read_32_def Let_def)

definition ioapic_version :: "hardware \<Rightarrow> history \<Rightarrow> u64 \<Rightarrow> u32" where
  "ioapic_version hw h b = fst (ioapic_read_reg hw (snd (ioapic_read_reg hw h b 0)) b 1)"

abbreviation (input) last_line :: "hardware \<Rightarrow> apic \<Rightarrow> ioapic_entry \<Rightarrow> nat" where
  "last_line hw s e \<equiv> unat (drop_bit 16 (ioapic_version hw (ap_hist s) (io_base e)) AND 0xff)"

text \<open>The register of the lower half of a line.\<close>

definition line_reg :: "nat \<Rightarrow> u32" where "line_reg j = 0x10 + 2 * of_nat j"

lemma unat_line_reg: "j < 256 \<Longrightarrow> unat (line_reg j) = 16 + 2 * j" "j < 256 \<Longrightarrow> unat (line_reg j + 1) = 17 + 2 * j"
  by (simp_all add: line_reg_def unat_word_ariths unat_of_nat)

lemma line_reg_eq: "j < 256 \<Longrightarrow> i < 256 \<Longrightarrow> line_reg j = line_reg i \<longleftrightarrow> j = i"
  using unat_line_reg(1) [of i] unat_line_reg(1) [of j] by auto

lemma line_reg_odd: "j < 256 \<Longrightarrow> i < 256 \<Longrightarrow> line_reg j \<noteq> line_reg i + 1"
proof
  assume "j < 256" "i < 256" and "line_reg j = line_reg i + 1"
  then have "16 + 2 * j = 17 + 2 * i" using unat_line_reg by metis
  then show False by presburger
qed

lemma mask_line_0: "ioapic_mask_line b 0 i h =
    ioapic_write_reg (ioapic_write_reg h b (line_reg i) (0x10000 OR (0x20 + of_nat i))) b (line_reg i + 1) 0"
  by (simp add: ioapic_mask_line_def line_reg_def)

lemma mask_lines:
  "n \<le> 256 \<Longrightarrow> j < 256 \<Longrightarrow>
   reg_val (fold (ioapic_mask_line b 0) [0..<n] h) b (line_reg j) =
     (if j < n then Some (0x10000 OR (0x20 + of_nat j)) else reg_val h b (line_reg j))"
  by (induction n) (auto simp: mask_line_0 reg_val_write line_reg_eq line_reg_odd less_Suc_eq)

lemma last_line_less: "last_line hw s e < 256"
proof -
  have "x AND 0xff < 256" for x :: u32
    by (rule le_less_trans [OF word_and_le1]) simp
  then show ?thesis by (simp add: word_less_nat_alt)
qed

lemma ioapic_initialize_hist:
  assumes "ioapic_initialize hw e s = Ret s'"
  shows "\<exists>h. (\<forall>q. reg_val h (io_base e) q = reg_val (ap_hist s) (io_base e) q) \<and>
    ap_hist s' = fold (ioapic_mask_line (io_base e) (io_intr e)) [0..<last_line hw s e] h"
proof -
  obtain a h1 v h2 where r: "ioapic_read_reg hw (ap_hist s) (io_base e) 0 = (a, h1)" "ioapic_read_reg hw h1 (io_base e) 1 = (v, h2)"
    by (metis surj_pair)
  then show ?thesis using assms reg_val_read [OF r(1)] reg_val_read [OF r(2)]
    by (intro exI [of _ h2]) (auto simp: ioapic_initialize_def outcome_ret_iff ioapic_version_def)
qed


lemma sparse_id_lost:
  "ioapic_register_dev fresh_apic 1 0xfec00000 0 = Ret s \<Longrightarrow> ioapic_get_base s = Ret 0"
  by (auto simp: ioapic_register_dev_def fresh_apic_def ioapic_get_base_def)

text \<open>The lines of an I/O APIC that starts at an even number \<open>g\<close> are written \<open>g\<close> registers too far.\<close>

lemma mask_line_shifted: "ioapic_mask_line b (2 * of_nat k) i h = ioapic_write_reg
    (ioapic_write_reg h b (line_reg (i + k)) (0x10000 OR (0x20 + of_nat i))) b (line_reg (i + k) + 1) 0"
  by (simp add: ioapic_mask_line_def line_reg_def algebra_simps)

lemma second_ioapic_unmasked:
  "n + k \<le> 256 \<Longrightarrow> j < k \<Longrightarrow>
   reg_val (fold (ioapic_mask_line b (2 * of_nat k)) [0..<n] h) b (line_reg j) = reg_val h b (line_reg j)"
  by (induction n) (auto simp: mask_line_shifted reg_val_write line_reg_eq line_reg_odd)

lemma enable_irq_reg:
  assumes "ioapic_enable_irq s cpu irq = Ret s'" and irq: "32 \<le> unat irq" "unat irq < 288"
  shows "reg_val (ap_hist s') (io_base (io_apics s ! unat cpu)) q =
    (if q = line_reg (unat irq - 32) + 1 then Some (push_bit 24 cpu)
     else if q = line_reg (unat irq - 32) then Some irq
     else reg_val (ap_hist s) (io_base (io_apics s ! unat cpu)) q)"
proof -
  have "of_nat (unat irq - 32) = irq - 32" using irq(1) by (simp add: of_nat_diff)
  then have "0x10 + 2 * (irq - 32) = line_reg (unat irq - 32)" by (simp add: line_reg_def)
  then show ?thesis using assms(1)
    by (auto simp: ioapic_enable_irq_def outcome_ret_iff array_ret_iff Let_def reg_val_write)
qed

text \<open>Tables that map everything: no page table has to be allocated.\<close>

definition full :: "mmu \<Rightarrow> bool" where
  "full s \<longleftrightarrow> (\<forall>t. \<exists>tab. tabs s t = Some tab \<and> length tab = 512 \<and> (\<forall>x\<in>set tab. present x))"

lemma ensure_full: "full s \<Longrightarrow> i < 512 \<Longrightarrow> \<exists>t' s'. ensure_level s t i fl = Ret (t', s') \<and> full s'"
proof -
  assume f: "full s" and i: "i < 512"
  obtain tab where tab: "tabs s t = Some tab" "length tab = 512" "\<forall>x\<in>set tab. present x"
    using f unfolding full_def by blast
  then have "present (tab ! i)" using i by simp
  moreover have "full (s\<lparr> tabs := (tabs s)(t \<mapsto> tab[i := tab ! i OR fl]) \<rparr>)"
    using f tab i present_or [of "tab ! i" fl] set_update_subset_insert [of tab i] unfolding full_def by fastforce
  ultimately show ?thesis using tab i by (simp add: ensure_level_def rd_entry_def wr_entry_def)
qed

lemma index_bounds: "PML4_ATOEI v < 512" "PDPT_ATOEI v < 512" "PD_ATOEI v < 512" "PT_ATOEI v < 512"
  by (simp_all add: PML4_ATOEI_def PDPT_ATOEI_def PD_ATOEI_def PT_ATOEI_def index_less)

lemma map_full:
  "full s \<Longrightarrow> PAGE_ALIGNED p \<Longrightarrow> p \<noteq> INVALID_ADDRESS \<Longrightarrow> \<exists>s'. amd64_map_page s p p fl = Ret s'"
proof -
  assume f: "full s" and p: "PAGE_ALIGNED p" "p \<noteq> INVALID_ADDRESS"
  obtain t1 s1 where 1: "ensure_level s (amd64_p_to_v (cr3 s)) (PML4_ATOEI p) fl = Ret (t1, s1)" "full s1"
    using ensure_full [OF f index_bounds(1)] by blast
  obtain t2 s2 where 2: "ensure_level s1 t1 (PDPT_ATOEI p) fl = Ret (t2, s2)" "full s2"
    using ensure_full [OF 1(2) index_bounds(2)] by blast
  obtain t3 s3 where 3: "ensure_level s2 t2 (PD_ATOEI p) fl = Ret (t3, s3)" "full s3"
    using ensure_full [OF 2(2) index_bounds(3)] by blast
  obtain tab where "tabs s3 t3 = Some tab" "length tab = 512" using 3(2) unfolding full_def by blast
  then show ?thesis using 1 2 3 p index_bounds(4) by (simp add: amd64_map_page_def amd64_map_page_to_dir_def wr_entry_def)
qed

definition full_mmu :: mmu where
  "full_mmu = \<lparr> pf = demo_pfa, tabs = (\<lambda>t. Some (replicate 512 MM_PRESENT)), cr3 = 0 \<rparr>"



text \<open>The product of \<open>timer_count\<close> fits as long as fewer than 214748365 counts have passed.\<close>

lemma timer_count_exact:
  assumes "unat (0xffffffff - e) * 20 < 2 ^ 32"
  shows "unat (timer_count e) = unat (0xffffffff - e) * 20 div 1000"
proof -
  have "unat ((0xffffffff - e) * 20) = unat (0xffffffff - e) * 20"
    using assms by (subst unat_mult_lem [THEN iffD1]) simp_all
  then show ?thesis by (simp add: timer_count_def unat_div)
qed

lemma timer_count_wraps: "timer_count 0xefffffff = 1073741"
  by (simp add: timer_count_def)

lemma lapic_id_by_slot:
  "lapic_register_dev fresh_apic 5 9 = Ret s \<Longrightarrow> lapic_get_lapic_id s 5 = Ret (- ENXIO) \<and> lapic_get_lapic_id s 0 = Ret 0"
  by (auto simp: lapic_register_dev_def fresh_apic_def lapic_get_lapic_id_def)

end
