(* ===== verification/Pci.thy ===== *)
theory Pci
  imports Ports LinkedList KString
begin

unbundle bit_operations_syntax

text \<open>
  Devices: the registry of \<open>src/drivers/device.c\<close>, the PCI bus of \<open>src/drivers/bus/pci.c\<close> and
  its interrupt routes from the firmware in \<open>src/kernel/acpi/pci.c\<close>. The three lists are rings of
  list heads with the objects around them. What the slab allocator and the heap give is a list of addresses,
  0 for none; an entry that was just taken holds leftovers. What a driver's \<open>init\<close> does and what the
  interpreter of the firmware's code answers are arguments. Messages are left out.
\<close>

section \<open>The state\<close>

record driver =
  dr_init :: nat
  dr_vendor :: int
  dr_device :: int

record device =
  de_driver :: nat
  de_type :: int
  de_ctx :: nat

record pci_dev =
  p_bus :: u16
  p_dev :: u16
  p_func :: u16
  p_device :: u16
  p_vendor :: u16
  p_class :: u8
  p_bars :: "u32 list"
  p_int_pin :: u16
  p_int_line :: u16

record pci_irq_route =
  rt_named :: bool
  rt_bus :: u8
  rt_dev :: u8
  rt_pin :: u8
  rt_irq :: u8
  rt_name :: "u8 list option"

record pci_link =
  lk_name :: "u8 list"
  lk_current :: u32

record pci =
  pc_hist :: history
  pc_errno :: int
  pc_pool :: "nat list"
  pc_cells :: lheap
  pc_drivers :: "nat \<rightharpoonup> driver"
  pc_devices :: "nat \<rightharpoonup> device"
  pc_devs :: "nat \<rightharpoonup> pci_dev"
  nroutes :: nat
  routes :: "pci_irq_route list"
  nlinks :: nat
  plinks :: "pci_link list"
  old_driver :: driver
  old_device :: device
  old_dev :: pci_dev

text \<open>The list heads \<open>drivers.pci\<close>, \<open>devices.pci\<close>, \<open>pci_info.pci_devs\<close>, and the members \<open>list\<close>.\<close>

definition drivers_pci :: nat where "drivers_pci = 11"
definition devices_pci :: nat where "devices_pci = 12"
definition pci_devs :: nat where "pci_devs = 13"
definition DR_LIST :: nat where "DR_LIST = 32"
definition DE_LIST :: nat where "DE_LIST = 32"
definition P_LIST :: nat where "P_LIST = 56"

abbreviation (input) PCI_CONFIG_ADDR :: u32 where "PCI_CONFIG_ADDR \<equiv> 0xcf8"
abbreviation (input) PCI_CONFIG_DATA :: u32 where "PCI_CONFIG_DATA \<equiv> 0xcfc"
abbreviation (input) PCI_ENABLE :: u32 where "PCI_ENABLE \<equiv> 0x80000000"
abbreviation (input) PCI_NO_DEV :: u16 where "PCI_NO_DEV \<equiv> 0xffff"
abbreviation (input) PCI_MULTI_FUNC :: u32 where "PCI_MULTI_FUNC \<equiv> 0x80"
abbreviation (input) PCI_MAX_ROUTES :: nat where "PCI_MAX_ROUTES \<equiv> 128"
abbreviation (input) PCI_MAX_LINKS :: nat where "PCI_MAX_LINKS \<equiv> 32"
abbreviation (input) PCI_NO_ROUTE :: u8 where "PCI_NO_ROUTE \<equiv> 0xff"
abbreviation (input) PCI_OFF_VENDOR :: u32 where "PCI_OFF_VENDOR \<equiv> 0x00"
abbreviation (input) PCI_OFF_DEVICE :: u32 where "PCI_OFF_DEVICE \<equiv> 0x02"
abbreviation (input) PCI_OFF_CLASS :: u32 where "PCI_OFF_CLASS \<equiv> 0x0b"
abbreviation (input) PCI_OFF_HEADER :: u32 where "PCI_OFF_HEADER \<equiv> 0x0e"
abbreviation (input) PCI_OFF_BAR0 :: u32 where "PCI_OFF_BAR0 \<equiv> 0x10"
abbreviation (input) PCI_OFF_INT_LINE :: u32 where "PCI_OFF_INT_LINE \<equiv> 0x3c"
abbreviation (input) PCI_OFF_INT_PIN :: u32 where "PCI_OFF_INT_PIN \<equiv> 0x3d"
abbreviation (input) DT_PCI :: int where "DT_PCI \<equiv> 0"

definition pool_next :: "pci \<Rightarrow> (nat \<times> pci) outcome" where
  "pool_next s = (case pc_pool s of [] \<Rightarrow> Halt AssertFailed | a # as \<Rightarrow> Ret (a, s\<lparr> pc_pool := as \<rparr>))"

definition on_cells :: "pci \<Rightarrow> (lheap \<Rightarrow> lheap outcome) \<Rightarrow> pci outcome" where
  "on_cells s f = omap (\<lambda>h. s\<lparr> pc_cells := h \<rparr>) (f (pc_cells s))"

definition pci_fail :: "pci \<Rightarrow> int \<Rightarrow> 'a \<Rightarrow> 'a \<times> pci" where "pci_fail s e v = (v, s\<lparr> pc_errno := e \<rparr>)"

section \<open>device.c\<close>

text \<open>A cache that cannot be had is only reported. The caches themselves are not kept.\<close>

definition dev_init :: "pci \<Rightarrow> (int \<times> pci) outcome" where
  "dev_init s =
     bnd (pool_next s) (\<lambda>(_, s). bnd (pool_next s) (\<lambda>(_, s).
     bnd (on_cells s (\<lambda>h. list_init h drivers_pci)) (\<lambda>s.
     bnd (on_cells s (\<lambda>h. list_init h devices_pci)) (\<lambda>s. Ret (0, s)))))"

definition dev_alloc_device :: "pci \<Rightarrow> (nat \<times> pci) outcome" where
  "dev_alloc_device s =
     bnd (pool_next s) (\<lambda>(a, s).
     if a = 0 then Ret (pci_fail s ENOMEM 0)
     else
       bnd (on_cells (s\<lparr> pc_devices := (pc_devices s)(a \<mapsto> old_device s),
              pc_cells := (pc_cells s)(a + DE_LIST \<mapsto> \<lparr> lh_next = 0, lh_prev = 0 \<rparr>) \<rparr>)
             (\<lambda>h. list_init h (a + DE_LIST))) (\<lambda>s. Ret (a, s)))"

definition dev_alloc_driver :: "pci \<Rightarrow> (nat \<times> pci) outcome" where
  "dev_alloc_driver s =
     bnd (pool_next s) (\<lambda>(a, s).
     if a = 0 then Ret (pci_fail s ENOMEM 0)
     else
       bnd (on_cells (s\<lparr> pc_drivers := (pc_drivers s)(a \<mapsto> old_driver s),
              pc_cells := (pc_cells s)(a + DR_LIST \<mapsto> \<lparr> lh_next = 0, lh_prev = 0 \<rparr>) \<rparr>)
             (\<lambda>h. list_init h (a + DR_LIST))) (\<lambda>s. Ret (a, s)))"

text \<open>The result of \<open>init\<close> is not looked at.\<close>

type_synonym init_call = "nat \<Rightarrow> nat \<Rightarrow> pci \<Rightarrow> pci outcome"

definition dev_register_device :: "init_call \<Rightarrow> pci \<Rightarrow> nat \<Rightarrow> (int \<times> pci) outcome" where
  "dev_register_device init s dev =
     (if dev = 0 then Ret (- EINVAL, s)
      else
        bnd (deref (pc_devices s) dev) (\<lambda>d.
        bnd (if de_driver d = 0 then Ret s
             else bnd (deref (pc_drivers s) (de_driver d)) (\<lambda>dr.
               if dr_init dr = 0 then Ret s else init (dr_init dr) dev s)) (\<lambda>s.
        bnd (on_cells s (\<lambda>h. list_append h devices_pci (dev + DE_LIST))) (\<lambda>s. Ret (0, s)))))"

definition dev_destroy_device :: "pci \<Rightarrow> nat \<Rightarrow> (int \<times> pci) outcome" where
  "dev_destroy_device s dev =
     (if dev = 0 then Ret (- EINVAL, s)
      else
        bnd (deref (pc_devices s) dev) (\<lambda>_.
        bnd (on_cells s (\<lambda>h. list_remove h (dev + DE_LIST))) (\<lambda>s.
        Ret (0, s\<lparr> pc_devices := (pc_devices s)(dev := None), pc_cells := (pc_cells s)(dev + DE_LIST := None) \<rparr>))))"

text \<open>Both functions below walk the drivers; the first hit, 0 when there is none.\<close>

primrec driver_loop :: "nat \<Rightarrow> pci \<Rightarrow> int \<Rightarrow> int \<Rightarrow> nat \<Rightarrow> nat outcome" where
  "driver_loop 0 s vendor device i = Halt NoReturn"
| "driver_loop (Suc fuel) s vendor device i =
     (if i = drivers_pci then Ret 0
      else
        kassert (i - DR_LIST \<noteq> 0)
          (bnd (deref (pc_drivers s) (i - DR_LIST)) (\<lambda>d.
           if dr_vendor d = vendor \<and> dr_device d = device then Ret (i - DR_LIST)
           else bnd (get_next (pc_cells s) i) (driver_loop fuel s vendor device))))"

definition dev_register_pci_driver :: "nat \<Rightarrow> pci \<Rightarrow> int \<Rightarrow> int \<Rightarrow> nat \<Rightarrow> (int \<times> pci) outcome" where
  "dev_register_pci_driver fuel s vendor device drv =
     (if drv = 0 then Ret (- EINVAL, s)
      else
        bnd (bnd (get_next (pc_cells s) drivers_pci) (driver_loop fuel s vendor device)) (\<lambda>hit.
        if hit \<noteq> 0 then Ret (- EEXIST, s)
        else bnd (on_cells s (\<lambda>h. list_append h drivers_pci (drv + DR_LIST))) (\<lambda>s. Ret (0, s))))"

definition dev_find_pci_driver :: "nat \<Rightarrow> pci \<Rightarrow> int \<Rightarrow> int \<Rightarrow> (nat \<times> pci) outcome" where
  "dev_find_pci_driver fuel s vendor device =
     omap (\<lambda>hit. if hit \<noteq> 0 then (hit, s) else pci_fail s ENOENT 0)
       (bnd (get_next (pc_cells s) drivers_pci) (driver_loop fuel s vendor device))"

section \<open>pci.c: configuration space\<close>

text \<open>The C code computes with \<open>int\<close>; the bits are those of 32-bit words.\<close>

definition config_addr :: "u32 \<Rightarrow> u32 \<Rightarrow> u32 \<Rightarrow> u32 \<Rightarrow> u32" where
  "config_addr bus dev func offset =
     PCI_ENABLE OR push_bit 16 bus OR push_bit 11 dev OR push_bit 8 func OR (offset AND 0xfc)"

definition get_pci_field_u32 :: "hardware \<Rightarrow> history \<Rightarrow> u32 \<Rightarrow> u32 \<Rightarrow> u32 \<Rightarrow> u32 \<Rightarrow> u32 \<times> history" where
  "get_pci_field_u32 hw h bus dev func offset =
     inl hw (outl h PCI_CONFIG_ADDR (config_addr bus dev func offset)) PCI_CONFIG_DATA"

definition get_pci_field_u16 :: "hardware \<Rightarrow> history \<Rightarrow> u32 \<Rightarrow> u32 \<Rightarrow> u32 \<Rightarrow> u32 \<Rightarrow> u16 \<times> history" where
  "get_pci_field_u16 hw h bus dev func offset =
     (let (v, h) = get_pci_field_u32 hw h bus dev func (offset AND NOT 3) in
      (ucast (drop_bit (unat (offset AND 2) * 8) v), h))"

definition get_pci_field_u8 :: "hardware \<Rightarrow> history \<Rightarrow> u32 \<Rightarrow> u32 \<Rightarrow> u32 \<Rightarrow> u32 \<Rightarrow> u8 \<times> history" where
  "get_pci_field_u8 hw h bus dev func offset =
     (let (v, h) = get_pci_field_u16 hw h bus dev func (offset AND NOT 1) in
      (ucast (drop_bit (unat (offset AND 1) * 8) v), h))"

definition set_pci_field_u32 :: "history \<Rightarrow> u32 \<Rightarrow> u32 \<Rightarrow> u32 \<Rightarrow> u32 \<Rightarrow> u32 \<Rightarrow> history" where
  "set_pci_field_u32 h bus dev func offset v =
     outl (outl h PCI_CONFIG_ADDR (config_addr bus dev func offset)) PCI_CONFIG_DATA v"

definition set_pci_field_u16 :: "history \<Rightarrow> u32 \<Rightarrow> u32 \<Rightarrow> u32 \<Rightarrow> u32 \<Rightarrow> u16 \<Rightarrow> history" where
  "set_pci_field_u16 h bus dev func offset v = set_pci_field_u32 h bus dev func offset (ucast v)"

definition set_pci_field_u8 :: "history \<Rightarrow> u32 \<Rightarrow> u32 \<Rightarrow> u32 \<Rightarrow> u32 \<Rightarrow> u8 \<Rightarrow> history" where
  "set_pci_field_u8 h bus dev func offset v = set_pci_field_u32 h bus dev func offset (ucast v)"

definition pci_read_u8 :: "hardware \<Rightarrow> history \<Rightarrow> u8 \<Rightarrow> u8 \<Rightarrow> u8 \<Rightarrow> u8 \<Rightarrow> u8 \<times> history" where
  "pci_read_u8 hw h bus dev func reg = get_pci_field_u8 hw h (ucast bus) (ucast dev) (ucast func) (ucast reg)"

definition pci_read_u16 :: "hardware \<Rightarrow> history \<Rightarrow> u8 \<Rightarrow> u8 \<Rightarrow> u8 \<Rightarrow> u8 \<Rightarrow> u16 \<times> history" where
  "pci_read_u16 hw h bus dev func reg = get_pci_field_u16 hw h (ucast bus) (ucast dev) (ucast func) (ucast reg)"

definition pci_read_u32 :: "hardware \<Rightarrow> history \<Rightarrow> u8 \<Rightarrow> u8 \<Rightarrow> u8 \<Rightarrow> u8 \<Rightarrow> u32 \<times> history" where
  "pci_read_u32 hw h bus dev func reg = get_pci_field_u32 hw h (ucast bus) (ucast dev) (ucast func) (ucast reg)"

definition pci_write_u8 :: "history \<Rightarrow> u8 \<Rightarrow> u8 \<Rightarrow> u8 \<Rightarrow> u8 \<Rightarrow> u8 \<Rightarrow> history" where
  "pci_write_u8 h bus dev func reg v = set_pci_field_u8 h (ucast bus) (ucast dev) (ucast func) (ucast reg) v"

definition pci_write_u16 :: "history \<Rightarrow> u8 \<Rightarrow> u8 \<Rightarrow> u8 \<Rightarrow> u8 \<Rightarrow> u16 \<Rightarrow> history" where
  "pci_write_u16 h bus dev func reg v = set_pci_field_u16 h (ucast bus) (ucast dev) (ucast func) (ucast reg) v"

definition pci_write_u32 :: "history \<Rightarrow> u8 \<Rightarrow> u8 \<Rightarrow> u8 \<Rightarrow> u8 \<Rightarrow> u32 \<Rightarrow> history" where
  "pci_write_u32 h bus dev func reg v = set_pci_field_u32 h (ucast bus) (ucast dev) (ucast func) (ucast reg) v"

section \<open>pci.c: routes and links\<close>

text \<open>A slot of the static arrays is named by its index.\<close>

definition pci_alloc_route :: "pci \<Rightarrow> nat option \<times> pci" where
  "pci_alloc_route s =
     (if nroutes s \<ge> PCI_MAX_ROUTES then pci_fail s ENOMEM None
      else (Some (nroutes s), s\<lparr> nroutes := nroutes s + 1 \<rparr>))"

definition pci_alloc_link :: "pci \<Rightarrow> nat option \<times> pci" where
  "pci_alloc_link s =
     (if nlinks s \<ge> PCI_MAX_ROUTES then pci_fail s ENOMEM None
      else (Some (nlinks s), s\<lparr> nlinks := nlinks s + 1 \<rparr>))"

text \<open>The string in an array of characters; reading on behind the array faults.\<close>

definition c_str :: "u8 list \<Rightarrow> u8 list outcome" where
  "c_str a = (if 0 \<in> set a then Ret (takeWhile (\<lambda>b. b \<noteq> 0) a) else Halt MemFault)"

fun named_loop :: "pci_link list \<Rightarrow> nat \<Rightarrow> u8 list \<Rightarrow> nat \<Rightarrow> u8 option outcome" where
  "named_loop ls n link 0 = Ret None"
| "named_loop ls n link (Suc k) =
     bnd (rd ls (n - Suc k)) (\<lambda>l.
     bnd (c_str (lk_name l)) (\<lambda>nm.
     if nm = link then Ret (Some (ucast (lk_current l))) else named_loop ls n link k))"

definition find_named_route :: "pci \<Rightarrow> u8 list option \<Rightarrow> (u8 \<times> pci) outcome" where
  "find_named_route s link =
     omap (\<lambda>r. case r of Some v \<Rightarrow> (v, s) | None \<Rightarrow> pci_fail s ENOENT PCI_NO_ROUTE)
       (case link of
          None \<Rightarrow> if nlinks s = 0 then Ret None else Halt MemFault
        | Some nm \<Rightarrow> named_loop (plinks s) (nlinks s) nm (nlinks s))"

fun route_loop :: "pci_irq_route list \<Rightarrow> nat \<Rightarrow> u8 \<Rightarrow> u8 \<Rightarrow> u8 \<Rightarrow> nat \<Rightarrow> pci_irq_route option outcome" where
  "route_loop rs n bus dev pin 0 = Ret None"
| "route_loop rs n bus dev pin (Suc k) =
     bnd (rd rs (n - Suc k)) (\<lambda>r.
     if rt_bus r = bus \<and> rt_dev r = dev \<and> rt_pin r = pin then Ret (Some r)
     else route_loop rs n bus dev pin k)"

definition pci_find_irq_route :: "pci \<Rightarrow> u8 \<Rightarrow> u8 \<Rightarrow> u8 \<Rightarrow> (u8 \<times> pci) outcome" where
  "pci_find_irq_route s bus dev pin =
     bnd (route_loop (routes s) (nroutes s) bus dev pin (nroutes s)) (\<lambda>r.
     case r of
       None \<Rightarrow> Ret (pci_fail s ENOENT PCI_NO_ROUTE)
     | Some r \<Rightarrow> if rt_named r then find_named_route s (rt_name r) else Ret (rt_irq r, s))"

section \<open>pci.c: the bus\<close>

text \<open>A read that is part of a longer function.\<close>

definition reads :: "pci \<Rightarrow> (history \<Rightarrow> 'a \<times> history) \<Rightarrow> 'a \<times> pci" where
  "reads s f = (let (v, h) = f (pc_hist s) in (v, s\<lparr> pc_hist := h \<rparr>))"

fun read_bars :: "hardware \<Rightarrow> u32 \<Rightarrow> u32 \<Rightarrow> u32 \<Rightarrow> nat list \<Rightarrow> pci \<Rightarrow> u32 list \<times> pci" where
  "read_bars hw bus dev func [] s = ([], s)"
| "read_bars hw bus dev func (i # is) s =
     (let (v, s) = reads s (\<lambda>h. get_pci_field_u32 hw h bus dev func (PCI_OFF_BAR0 + 4 * of_nat i));
          (vs, s) = read_bars hw bus dev func is s in
      (v # vs, s))"

text \<open>The fields of the device, in the order they are read.\<close>

definition read_func :: "hardware \<Rightarrow> u32 \<Rightarrow> u32 \<Rightarrow> u32 \<Rightarrow> pci \<Rightarrow> pci_dev \<times> pci" where
  "read_func hw bus dev func s =
     (let (d, s) = reads s (\<lambda>h. get_pci_field_u16 hw h bus dev func PCI_OFF_DEVICE);
          (v, s) = reads s (\<lambda>h. get_pci_field_u16 hw h bus dev func PCI_OFF_VENDOR);
          (c, s) = reads s (\<lambda>h. get_pci_field_u8 hw h bus dev func PCI_OFF_CLASS);
          (bars, s) = read_bars hw bus dev func [0, 1, 2, 3, 4, 5] s;
          (pin, s) = reads s (\<lambda>h. get_pci_field_u8 hw h bus dev func PCI_OFF_INT_PIN);
          (ln, s) = reads s (\<lambda>h. get_pci_field_u8 hw h bus dev func PCI_OFF_INT_LINE) in
      (\<lparr> p_bus = ucast bus, p_dev = ucast dev, p_func = ucast func, p_device = d, p_vendor = v, p_class = c,
         p_bars = bars, p_int_pin = ucast pin, p_int_line = ucast ln \<rparr>, s))"

definition probe_func :: "nat \<Rightarrow> hardware \<Rightarrow> init_call \<Rightarrow> u32 \<Rightarrow> u32 \<Rightarrow> u32 \<Rightarrow> pci \<Rightarrow> pci outcome" where
  "probe_func fuel hw init bus dev func s =
     bnd (pool_next s) (\<lambda>(a, s).
     if a = 0 then Halt MemFault
     else
       let (p, s) = read_func hw bus dev func s;
           s = s\<lparr> pc_devs := (pc_devs s)(a \<mapsto> p),
                  pc_cells := (pc_cells s)(a + P_LIST \<mapsto> \<lparr> lh_next = 0, lh_prev = 0 \<rparr>) \<rparr> in
       bnd (if p_int_pin p = 0 then Ret s
            else omap snd (pci_find_irq_route s (ucast bus) (ucast dev) (ucast (p_int_pin p)))) (\<lambda>s.
       bnd (dev_find_pci_driver fuel s (uint (p_vendor p)) (uint (p_device p))) (\<lambda>(drv, s).
       bnd (dev_alloc_device s) (\<lambda>(de, s).
       if de = 0 then Halt MemFault
       else
         bnd (dev_register_device init
                (s\<lparr> pc_devices := (pc_devices s)(de \<mapsto> \<lparr> de_driver = drv, de_type = DT_PCI, de_ctx = a \<rparr>) \<rparr>) de)
           (\<lambda>(_, s).
         bnd (on_cells s (\<lambda>h. list_init h (a + P_LIST))) (\<lambda>s.
         on_cells s (\<lambda>h. list_append h pci_devs (a + P_LIST))))))))"

fun probe_funcs :: "nat \<Rightarrow> hardware \<Rightarrow> init_call \<Rightarrow> u32 \<Rightarrow> u32 \<Rightarrow> nat list \<Rightarrow> pci \<Rightarrow> pci outcome" where
  "probe_funcs fuel hw init bus dev [] s = Ret s"
| "probe_funcs fuel hw init bus dev (f # fs) s =
     bnd (probe_func fuel hw init bus dev (of_nat f) s) (probe_funcs fuel hw init bus dev fs)"

definition probe_dev :: "nat \<Rightarrow> hardware \<Rightarrow> init_call \<Rightarrow> u32 \<Rightarrow> u32 \<Rightarrow> pci \<Rightarrow> pci outcome" where
  "probe_dev fuel hw init bus dev s =
     (let (v, s) = reads s (\<lambda>h. get_pci_field_u16 hw h bus dev 0 PCI_OFF_VENDOR) in
      if v = PCI_NO_DEV then Ret s
      else
        bnd (probe_func fuel hw init bus dev 0 s) (\<lambda>s.
        let (hd, s) = reads s (\<lambda>h. get_pci_field_u32 hw h bus dev 0 PCI_OFF_HEADER) in
        if hd AND PCI_MULTI_FUNC \<noteq> 0 then probe_funcs fuel hw init bus dev [1 ..< 8] s else Ret s))"

fun probe_devs :: "nat \<Rightarrow> hardware \<Rightarrow> init_call \<Rightarrow> u32 \<Rightarrow> nat list \<Rightarrow> pci \<Rightarrow> pci outcome" where
  "probe_devs fuel hw init bus [] s = Ret s"
| "probe_devs fuel hw init bus (d # ds) s =
     bnd (probe_dev fuel hw init bus (of_nat d) s) (probe_devs fuel hw init bus ds)"

definition probe_bus :: "nat \<Rightarrow> hardware \<Rightarrow> init_call \<Rightarrow> u32 \<Rightarrow> pci \<Rightarrow> pci outcome" where
  "probe_bus fuel hw init bus s = probe_devs fuel hw init bus [0 ..< 32] s"

primrec dev_loop :: "nat \<Rightarrow> pci \<Rightarrow> u16 \<Rightarrow> u16 \<Rightarrow> nat \<Rightarrow> nat outcome" where
  "dev_loop 0 s vendor device i = Halt NoReturn"
| "dev_loop (Suc fuel) s vendor device i =
     (if i = pci_devs then Ret 0
      else
        bnd (deref (pc_devs s) (i - P_LIST)) (\<lambda>d.
        if p_vendor d = vendor \<and> p_device d = device then Ret (i - P_LIST)
        else bnd (get_next (pc_cells s) i) (dev_loop fuel s vendor device)))"

definition pci_get_dev :: "nat \<Rightarrow> pci \<Rightarrow> u16 \<Rightarrow> u16 \<Rightarrow> (nat \<times> pci) outcome" where
  "pci_get_dev fuel s vendor device =
     omap (\<lambda>hit. if hit \<noteq> 0 then (hit, s) else pci_fail s ENOENT 0)
       (bnd (get_next (pc_cells s) pci_devs) (dev_loop fuel s vendor device))"

section \<open>acpi/pci.c\<close>

text \<open>
  What the interpreter answers, by handle: the devices of the two kinds, and for a device its full name, whether
  there is information on it, its bus number, its routing table up to the empty entry that ends it, whether its
  current resources can be had, and those resources with the status at the end of the walk. A status other than 0
  is a failure. Looking for devices calls back for one after the other until a callback fails.
\<close>

record prt_entry =
  pr_pin :: u32
  pr_address :: u64
  pr_index :: u32
  pr_source :: "u8 list"

datatype acpi_resource = IrqRes "u32 list" | ExtendedIrqRes "u32 list" | EndTagRes | OtherRes u32

record acpica =
  ac_links :: "u32 \<times> nat list"
  ac_buses :: "u32 \<times> nat list"
  ac_name :: "nat \<Rightarrow> u32 \<times> u8 list"
  ac_info :: "nat \<Rightarrow> u32"
  ac_bbn :: "nat \<Rightarrow> u32 \<times> u64"
  ac_table :: "nat \<Rightarrow> u32 \<times> prt_entry list"
  ac_current :: "nat \<Rightarrow> u32"
  ac_walk :: "nat \<Rightarrow> u32 \<times> acpi_resource list"

abbreviation (input) AE_OK :: u32 where "AE_OK \<equiv> 0"
abbreviation (input) AE_NOT_FOUND :: u32 where "AE_NOT_FOUND \<equiv> 5"

fun walk_devices :: "(nat \<Rightarrow> pci \<Rightarrow> (u32 \<times> pci) outcome) \<Rightarrow> nat list \<Rightarrow> pci \<Rightarrow> (u32 \<times> pci) outcome" where
  "walk_devices cb [] s = Ret (AE_OK, s)"
| "walk_devices cb (d # ds) s =
     bnd (cb d s) (\<lambda>(ret, s). if ret \<noteq> AE_OK then Ret (ret, s) else walk_devices cb ds s)"

definition set_link :: "pci \<Rightarrow> nat \<Rightarrow> (pci_link \<Rightarrow> pci_link) \<Rightarrow> pci outcome" where
  "set_link s i f = bnd (rd (plinks s) i) (\<lambda>l. omap (\<lambda>ls. s\<lparr> plinks := ls \<rparr>) (wr (plinks s) i (f l)))"

definition set_route :: "pci \<Rightarrow> nat \<Rightarrow> (pci_irq_route \<Rightarrow> pci_irq_route) \<Rightarrow> pci outcome" where
  "set_route s i f = bnd (rd (routes s) i) (\<lambda>r. omap (\<lambda>rs. s\<lparr> routes := rs \<rparr>) (wr (routes s) i (f r)))"

fun get_pci_current_res :: "acpi_resource \<Rightarrow> pci_link \<Rightarrow> pci_link" where
  "get_pci_current_res (IrqRes irqs) l = (case irqs of [] \<Rightarrow> l | i # _ \<Rightarrow> l\<lparr> lk_current := i \<rparr>)"
| "get_pci_current_res (ExtendedIrqRes irqs) l = (case irqs of [] \<Rightarrow> l | i # _ \<Rightarrow> l\<lparr> lk_current := i \<rparr>)"
| "get_pci_current_res EndTagRes l = l"
| "get_pci_current_res (OtherRes ty) l = l"

definition get_pci_link_info :: "acpica \<Rightarrow> nat \<Rightarrow> pci \<Rightarrow> (u32 \<times> pci) outcome" where
  "get_pci_link_info ac dev s =
     (let (ret, name) = ac_name ac dev in
      if ret \<noteq> AE_OK then Ret (ret, s)
      else
        case pci_alloc_link s of
          (None, s) \<Rightarrow> Halt MemFault
        | (Some i, s) \<Rightarrow>
            bnd (if length name \<le> 32 then set_link s i (\<lambda>l. l\<lparr> lk_current := 0, lk_name := name @ drop (length name) (lk_name l) \<rparr>)
                 else Halt MemFault) (\<lambda>s.
            let ret = ac_current ac dev in
            if ret \<noteq> AE_OK then Ret (ret, s)
            else
              let (ret, rs) = ac_walk ac dev in
              omap (Pair ret) (set_link s i (fold get_pci_current_res rs))))"

text \<open>A route keeps the pointer \<open>name\<close> it has, and \<open>kstrcpy\<close> writes where it points.\<close>

fun route_entries :: "u8 \<Rightarrow> prt_entry list \<Rightarrow> pci \<Rightarrow> pci outcome" where
  "route_entries bus [] s = Ret s"
| "route_entries bus (e # es) s =
     (case pci_alloc_route s of
        (None, s) \<Rightarrow> Halt MemFault
      | (Some i, s) \<Rightarrow>
          bnd (set_route s i (\<lambda>r. r\<lparr> rt_bus := bus, rt_dev := ucast (drop_bit 16 (pr_address e) AND 0xff), rt_pin := ucast (pr_pin e) \<rparr>)) (\<lambda>s.
          bnd (if pr_index e = 0 then
                 bnd (rd (routes s) i) (\<lambda>r.
                 case rt_name r of
                   None \<Rightarrow> Halt MemFault
                 | Some _ \<Rightarrow> set_route s i (\<lambda>r. r\<lparr> rt_name := Some (pr_source e), rt_named := True \<rparr>))
               else set_route s i (\<lambda>r. r\<lparr> rt_irq := ucast (pr_index e), rt_named := False \<rparr>))
            (route_entries bus es)))"

definition get_pci_bus_info :: "acpica \<Rightarrow> nat \<Rightarrow> pci \<Rightarrow> (u32 \<times> pci) outcome" where
  "get_pci_bus_info ac dev s =
     (if fst (ac_name ac dev) \<noteq> AE_OK then Ret (fst (ac_name ac dev), s)
      else if ac_info ac dev \<noteq> AE_OK then Ret (ac_info ac dev, s)
      else
        let (ret, num) = ac_bbn ac dev in
        if ret \<noteq> AE_OK \<and> ret \<noteq> AE_NOT_FOUND then Ret (ret, s)
        else
          let bus = (if ret = AE_OK then ucast num else 0);
              (ret, es) = ac_table ac dev in
          if ret \<noteq> AE_OK then Ret (ret, s) else omap (Pair AE_OK) (route_entries bus es s))"

text \<open>A failing search for devices leaves early, with or without callbacks made.\<close>

definition get_devices :: "u32 \<times> nat list \<Rightarrow> (nat \<Rightarrow> pci \<Rightarrow> (u32 \<times> pci) outcome) \<Rightarrow> pci \<Rightarrow> (u32 \<times> pci) outcome" where
  "get_devices found cb s =
     bnd (walk_devices cb (snd found) s) (\<lambda>(ret, s). Ret (if ret \<noteq> AE_OK then ret else fst found, s))"

definition acpi_init_pci :: "acpica \<Rightarrow> pci \<Rightarrow> (int \<times> pci) outcome" where
  "acpi_init_pci ac s =
     bnd (get_devices (ac_links ac) (get_pci_link_info ac) s) (\<lambda>(ret, s).
     if ret \<noteq> AE_OK then Ret (- ENXIO, s)
     else
       bnd (get_devices (ac_buses ac) (get_pci_bus_info ac) s) (\<lambda>(ret, s).
       if ret \<noteq> AE_OK then Ret (- ENXIO, s) else Ret (0, s)))"

section \<open>Bringing the bus up\<close>

definition pci_init :: "nat \<Rightarrow> hardware \<Rightarrow> init_call \<Rightarrow> acpica \<Rightarrow> pci \<Rightarrow> (int \<times> pci) outcome" where
  "pci_init fuel hw init ac s =
     bnd (pool_next s) (\<lambda>(cache, s).
     if cache = 0 then Halt Panicked
     else
       bnd (on_cells s (\<lambda>h. list_init h pci_devs)) (\<lambda>s.
       bnd (acpi_init_pci ac (s\<lparr> nroutes := 0, nlinks := 0 \<rparr>)) (\<lambda>(_, s).
       bnd (probe_bus fuel hw init 0 s) (\<lambda>s. Ret (0, s)))))"

section \<open>The bytes of configuration space\<close>

text \<open>
  Configuration mechanism 1: after an address was written, the data port gives the four bytes of
  the register it names, the lowest first.
\<close>

definition le_dword :: "(nat \<Rightarrow> u8) \<Rightarrow> nat \<Rightarrow> u32" where
  "le_dword f o4 = ucast (f o4) OR push_bit 8 (ucast (f (o4 + 1))) OR
     push_bit 16 (ucast (f (o4 + 2))) OR push_bit 24 (ucast (f (o4 + 3)))"

definition config_space :: "hardware \<Rightarrow> (u8 \<Rightarrow> u8 \<Rightarrow> u8 \<Rightarrow> nat \<Rightarrow> u8) \<Rightarrow> bool" where
  "config_space hw cfg \<longleftrightarrow>
     (\<forall>h b d f q. d < 32 \<and> f < 8 \<and> q < 64 \<longrightarrow>
        hw_port hw (Out32 PCI_CONFIG_ADDR (PCI_ENABLE OR push_bit 16 (ucast b) OR push_bit 11 (ucast d) OR
            push_bit 8 (ucast f) OR push_bit 2 (of_nat q)) # h) PCI_CONFIG_DATA =
          le_dword (cfg b d f) (4 * q))"

lemma mask_offset:
  "(0xfc :: u32) = push_bit 2 (mask 6)" "(3 :: u32) = mask 2" "(1 :: u32) = mask 1" "(2 :: u32) = push_bit 1 (mask 1)"
  by (simp_all add: mask_eq_exp_minus_1 push_bit_eq_mult)

lemma offset_dword: "n < 256 \<Longrightarrow> (of_nat n :: u32) AND 0xfc = push_bit 2 (of_nat (n div 4))"
proof -
  assume n: "n < 256"
  have "take_bit 8 n = n" using n by (simp add: take_bit_eq_mod)
  then have b: "bit n i \<Longrightarrow> i < 8" for i by (metis bit_take_bit_iff)
  have d: "n div 4 = drop_bit 2 n" by (simp add: drop_bit_eq_div)
  have [simp]: "2 \<le> i \<Longrightarrow> Suc (Suc (i - 2)) = i" for i by simp
  show ?thesis unfolding mask_offset(1) d
    by (rule bit_word_eqI) (auto simp: bit_simps dest: b)
qed

lemma offset_parts:
  "((x :: u32) AND NOT 3) AND 0xfc = x AND 0xfc" "((x :: u32) AND NOT 1) AND NOT 3 = x AND NOT 3"
  "(x AND NOT 1) AND 2 = x AND 2" "((x :: u32) AND NOT 1) AND 0xfc = x AND 0xfc"
  unfolding mask_offset by (rule bit_word_eqI; auto simp: bit_simps)+

lemma byte_bit: "bit (w :: u8) n \<Longrightarrow> n < 8"
  by (auto dest: bit_imp_le_length)

lemma dword_parts:
  "(ucast (drop_bit 0 (le_dword f k)) :: u16) = ucast (f k) OR push_bit 8 (ucast (f (k + 1)))"
  "(ucast (drop_bit 16 (le_dword f k)) :: u16) = ucast (f (k + 2)) OR push_bit 8 (ucast (f (k + 3)))"
  by (rule bit_word_eqI; auto simp: le_dword_def bit_simps dest: byte_bit)+

lemma word_parts:
  "(ucast (drop_bit 0 (ucast (a :: u8) OR push_bit 8 (ucast (b :: u8)) :: u16)) :: u8) = a"
  "(ucast (drop_bit 8 (ucast a OR push_bit 8 (ucast b) :: u16)) :: u8) = b"
  by (rule bit_word_eqI; auto simp: bit_simps dest: byte_bit)+

lemma offset_low:
  assumes "n < 256"
  shows "unat ((of_nat n :: u32) AND 1) = n mod 2" and "unat ((of_nat n :: u32) AND 2) = 2 * (n div 2 mod 2)"
proof -
  have n: "unat (of_nat n :: u32) = n" using assms by (simp add: unat_of_nat)
  then show "unat ((of_nat n :: u32) AND 1) = n mod 2" by (simp add: and_one_eq unat_mod)
  have "unat ((of_nat n :: u32) AND 2) = n AND 2" using n by (simp add: unsigned_and_eq)
  also have "n AND 2 = 2 * (n div 2 mod 2)" by (subst and_rec) (simp add: and_one_eq)
  finally show "unat ((of_nat n :: u32) AND 2) = 2 * (n div 2 mod 2)" .
qed

lemma unat_lt2p_8: "unat (w :: u8) < 256"
proof -
  have "unat w < 2 ^ LENGTH(8)" by (rule unsigned_less)
  then show ?thesis by simp
qed

lemma read_u32_bytes:
  assumes "config_space hw cfg" and "dev < 32" "func < 8"
  shows "fst (get_pci_field_u32 hw h (ucast bus) (ucast dev) (ucast func) (ucast (reg :: u8))) = le_dword (cfg bus dev func) (4 * (unat reg div 4))"
proof -
  have "unat reg < 256" using unat_lt2p_8 [of reg] by simp
  moreover from this have "unat reg div 4 < 64" by simp
  moreover have "(ucast reg :: u32) = of_nat (unat reg)" by simp
  ultimately have "config_addr (ucast bus) (ucast dev) (ucast func) (ucast reg) =
      PCI_ENABLE OR push_bit 16 (ucast bus) OR push_bit 11 (ucast dev) OR push_bit 8 (ucast func) OR push_bit 2 (of_nat (unat reg div 4))"
    using offset_dword [of "unat reg"] by (simp add: config_addr_def)
  moreover have "hw_port hw (Out32 PCI_CONFIG_ADDR (PCI_ENABLE OR push_bit 16 (ucast bus) OR push_bit 11 (ucast dev) OR
      push_bit 8 (ucast func) OR push_bit 2 (of_nat (unat reg div 4))) # h) PCI_CONFIG_DATA =
      le_dword (cfg bus dev func) (4 * (unat reg div 4))"
    using assms \<open>unat reg div 4 < 64\<close> unfolding config_space_def by blast
  ultimately show ?thesis by (simp add: get_pci_field_u32_def inl_def outl_def Let_def)
qed

lemma read_u16_bytes:
  assumes "config_space hw cfg" and "dev < 32" "func < 8"
  shows "fst (get_pci_field_u16 hw h (ucast bus) (ucast dev) (ucast func) (ucast (reg :: u8) AND NOT 1)) =
    ucast (cfg bus dev func (2 * (unat reg div 2))) OR push_bit 8 (ucast (cfg bus dev func (2 * (unat reg div 2) + 1)))"
    (is "fst (_ ?o) = ?r")
proof -
  define n where "n = unat reg"
  have n: "n < 256" unfolding n_def by (rule unat_lt2p_8)
  have reg: "(ucast reg :: u32) = of_nat n" by (simp add: n_def)
  have "config_addr (ucast bus) (ucast dev) (ucast func) (ucast reg AND NOT 3) =
      config_addr (ucast bus) (ucast dev) (ucast func) (ucast reg)"
    unfolding config_addr_def offset_parts ..
  then have d: "fst (get_pci_field_u32 hw h (ucast bus) (ucast dev) (ucast func) (ucast reg AND NOT 3)) =
      le_dword (cfg bus dev func) (4 * (n div 4))"
    using read_u32_bytes [OF assms, of h bus reg] by (simp add: get_pci_field_u32_def n_def)
  have u: "fst (get_pci_field_u16 hw h (ucast bus) (ucast dev) (ucast func) (ucast reg AND NOT 1)) =
      ucast (drop_bit (2 * (n div 2 mod 2) * 8) (le_dword (cfg bus dev func) (4 * (n div 4))))"
    unfolding get_pci_field_u16_def offset_parts d [symmetric]
    by (simp add: reg offset_low [OF n] split: prod.split)
  have "n div 2 mod 2 = 0 \<and> 4 * (n div 4) = 2 * (n div 2) \<or> n div 2 mod 2 = 1 \<and> 4 * (n div 4) + 2 = 2 * (n div 2)"
    by presburger
  then show ?thesis
  proof (elim disjE conjE)
    assume 1: "n div 2 mod 2 = 0" "4 * (n div 4) = 2 * (n div 2)"
    then show ?thesis using u dword_parts(1) [of "cfg bus dev func" "4 * (n div 4)"]
      unfolding n_def [symmetric] 1(2) [symmetric] by simp
  next
    assume 2: "n div 2 mod 2 = 1" "4 * (n div 4) + 2 = 2 * (n div 2)"
    then show ?thesis using u dword_parts(2) [of "cfg bus dev func" "4 * (n div 4)"]
      unfolding n_def [symmetric] 2(2) [symmetric] by (simp add: numeral_3_eq_3)
  qed
qed

lemma read_u8_bytes:
  assumes "config_space hw cfg" and "dev < 32" "func < 8"
  shows "fst (get_pci_field_u8 hw h (ucast bus) (ucast dev) (ucast func) (ucast (reg :: u8))) = cfg bus dev func (unat reg)"
proof -
  define n where "n = unat reg"
  have n: "n < 256" unfolding n_def by (rule unat_lt2p_8)
  have reg: "(ucast reg :: u32) = of_nat n" by (simp add: n_def)
  note u16 = read_u16_bytes [OF assms, of h bus reg, folded n_def]
  have "fst (get_pci_field_u8 hw h (ucast bus) (ucast dev) (ucast func) (ucast reg)) = ucast (drop_bit (n mod 2 * 8)
      (fst (get_pci_field_u16 hw h (ucast bus) (ucast dev) (ucast func) (ucast reg AND NOT 1))))"
    by (simp add: get_pci_field_u8_def reg offset_low [OF n] split: prod.split)
  moreover have "n mod 2 = 0 \<and> 2 * (n div 2) = n \<or> n mod 2 = 1 \<and> 2 * (n div 2) + 1 = n" by presburger
  ultimately show ?thesis
    unfolding u16 by (elim disjE conjE) (use word_parts in \<open>simp_all add: n_def\<close>)
qed

lemma read_u16_even:
  assumes "config_space hw cfg" and "dev < 32" "func < 8" and ev: "even (unat reg)"
  shows "fst (get_pci_field_u16 hw h (ucast bus) (ucast dev) (ucast func) (ucast (reg :: u8))) =
    ucast (cfg bus dev func (unat reg)) OR push_bit 8 (ucast (cfg bus dev func (unat reg + 1)))"
proof -
  define n where "n = unat reg"
  have n: "n < 256" unfolding n_def by (rule unat_lt2p_8)
  have reg: "(ucast reg :: u32) = of_nat n" by (simp add: n_def)
  have "unat ((ucast reg :: u32) AND 1) = 0" using ev by (simp add: reg offset_low [OF n]) (simp add: n_def)
  moreover have "(ucast reg :: u32) AND NOT 1 = ucast reg XOR (ucast reg AND 1)"
    by (rule bit_word_eqI) (auto simp: bit_simps)
  ultimately have "(ucast reg :: u32) AND NOT 1 = ucast reg" by (simp add: unat_eq_zero)
  moreover have "2 * (unat reg div 2) = unat reg" using ev by simp
  ultimately show ?thesis using read_u16_bytes [OF assms(1-3), of h bus reg] by simp
qed

text \<open>
  Reading configuration space. On a machine with configuration mechanism 1 the three functions give the
  byte, the two bytes and the four bytes of the register, whatever was done before.
\<close>

lemma pci_reads_bytes:
  assumes "config_space hw cfg" and "dev < 32" "func < 8"
  shows "fst (pci_read_u8 hw h bus dev func reg) = cfg bus dev func (unat reg) \<and>
    (even (unat reg) \<longrightarrow> fst (pci_read_u16 hw h bus dev func reg) =
       ucast (cfg bus dev func (unat reg)) OR push_bit 8 (ucast (cfg bus dev func (unat reg + 1)))) \<and>
    (4 dvd unat reg \<longrightarrow> fst (pci_read_u32 hw h bus dev func reg) = le_dword (cfg bus dev func) (unat reg))"
  using read_u8_bytes [OF assms, of h bus reg] read_u16_even [OF assms, of reg h bus] read_u32_bytes [OF assms, of h bus reg]
  by (simp add: pci_read_u8_def pci_read_u16_def pci_read_u32_def)

lemma pci_reads_bytes_witness:
  "\<exists>hw. fst (pci_read_u8 hw [] 0 3 1 0x3d) = 0x3d \<and> fst (pci_read_u16 hw [] 0 3 1 0x3c) = 0x3d3c \<and>
    fst (pci_read_u32 hw [] 0 3 1 0x3c) = 0x3f3e3d3c"
proof -
  define cfg :: "u8 \<Rightarrow> u8 \<Rightarrow> u8 \<Rightarrow> nat \<Rightarrow> u8" where "cfg = (\<lambda>b d f x. of_nat x)"
  define hw where "hw = \<lparr> hw_port = (\<lambda>h p. case h of Out32 _ a # _ \<Rightarrow> le_dword of_nat (4 * unat (take_bit 6 (drop_bit 2 a))) | _ \<Rightarrow> 0),
    hw_mem = (\<lambda>h a. 0) \<rparr>"
  have dec: "unat (take_bit 6 (drop_bit 2 (PCI_ENABLE OR push_bit 16 (ucast b) OR push_bit 11 (ucast d) OR
            push_bit 8 (ucast f) OR push_bit 2 (of_nat q) :: u32))) = q" (is "unat ?w = q")
    if "q < 64" for b d f :: u8 and q
  proof -
    have enable: "PCI_ENABLE = push_bit 31 1" by (simp add: push_bit_eq_mult)
    have "?w = take_bit 6 (of_nat q)"
      unfolding enable by (rule bit_word_eqI) (auto simp: bit_simps)
    moreover have "unat (take_bit 6 (of_nat q :: u32)) = q"
      using that unfolding unsigned_take_bit_eq by (simp add: unat_of_nat take_bit_eq_mod)
    ultimately show ?thesis by (simp only:)
  qed
  have "config_space hw cfg" unfolding config_space_def hw_def cfg_def
    by (intro allI impI, elim conjE) (simp only: hardware.select_convs list.case io_event.case dec)
  then show ?thesis
    using pci_reads_bytes [of hw cfg 3 1 "[]" 0 "0x3d"] pci_reads_bytes [of hw cfg 3 1 "[]" 0 "0x3c"]
    by (intro exI [of _ hw]) (simp add: cfg_def le_dword_def)
qed

section \<open>The registry of drivers\<close>

text \<open>\<open>registry s ds\<close>: the ring of drivers holds the driver objects \<open>ds\<close>, the latest first.\<close>

definition registry :: "pci \<Rightarrow> nat list \<Rightarrow> bool" where
  "registry s ds \<longleftrightarrow> ring (pc_cells s) (drivers_pci # map (\<lambda>d. d + DR_LIST) ds) \<and>
     (\<forall>d\<in>set ds. d \<noteq> 0 \<and> pc_drivers s d \<noteq> None)"

definition driver_key :: "pci \<Rightarrow> nat \<Rightarrow> int \<times> int" where
  "driver_key s d = (case pc_drivers s d of None \<Rightarrow> (0, 0) | Some r \<Rightarrow> (dr_vendor r, dr_device r))"

text \<open>The registry as a map from vendor and device to the driver.\<close>

definition drivers_of :: "pci \<Rightarrow> nat list \<Rightarrow> (int \<times> int) \<rightharpoonup> nat" where
  "drivers_of s ds = map_of (map (\<lambda>d. (driver_key s d, d)) ds)"

lemma driver_loop_dseg:
  "dseg (pc_cells s) p (map (\<lambda>d. d + DR_LIST) ds) drivers_pci \<Longrightarrow> drivers_pci \<notin> (\<lambda>d. d + DR_LIST) ` set ds \<Longrightarrow>
   \<forall>d\<in>set ds. d \<noteq> 0 \<and> pc_drivers s d \<noteq> None \<Longrightarrow> length ds < fuel \<Longrightarrow>
   driver_loop fuel s v e (hd_or drivers_pci (map (\<lambda>d. d + DR_LIST) ds)) =
     Ret (case drivers_of s ds (v, e) of None \<Rightarrow> 0 | Some d \<Rightarrow> d)"
proof (induction ds arbitrary: p fuel)
  case Nil
  then show ?case by (cases fuel) (simp_all add: drivers_of_def)
next
  case (Cons d ds)
  obtain k where k: "fuel = Suc k" using Cons.prems(4) by (cases fuel) auto
  obtain r where r: "pc_drivers s d = Some r" "d \<noteq> 0" using Cons.prems(3) by auto
  have "driver_loop k s v e (hd_or drivers_pci (map (\<lambda>d. d + DR_LIST) ds)) =
      Ret (case drivers_of s ds (v, e) of None \<Rightarrow> 0 | Some d \<Rightarrow> d)"
    by (rule Cons.IH) (use Cons.prems k in auto)
  then show ?case using Cons.prems k r
    by (auto simp: get_next_def drivers_of_def driver_key_def)
qed

lemma driver_search:
  assumes "registry s ds" and "length ds < fuel"
  shows "bnd (get_next (pc_cells s) drivers_pci) (driver_loop fuel s v e) =
    Ret (case drivers_of s ds (v, e) of None \<Rightarrow> 0 | Some d \<Rightarrow> d)"
proof -
  have "get_next (pc_cells s) drivers_pci = Ret (hd_or drivers_pci (map (\<lambda>d. d + DR_LIST) ds))"
    using assms(1) by (auto simp: registry_def ring_def get_next_def)
  moreover have "dseg (pc_cells s) drivers_pci (map (\<lambda>d. d + DR_LIST) ds) drivers_pci"
    "drivers_pci \<notin> (\<lambda>d. d + DR_LIST) ` set ds"
    using assms(1) by (auto simp: registry_def ring_def)
  ultimately show ?thesis using driver_loop_dseg assms unfolding registry_def by simp
qed

text \<open>
  The registry of drivers is a map. Registering a driver under its own vendor and device refuses
  a key that is taken and changes nothing, and adds the driver otherwise; a search finds the driver of a key, and
  reports \<open>ENOENT\<close> when there is none.
\<close>

lemma driver_registry_refines:
  assumes reg: "registry s ds" and fuel: "length ds < fuel"
    and new: "d \<noteq> 0" "driver_key s d = (v, e)" "pc_drivers s d \<noteq> None" "pc_cells s (d + DR_LIST) \<noteq> None"
      "d + DR_LIST \<noteq> drivers_pci"
  shows "(drivers_of s ds (v, e) \<noteq> None \<longrightarrow> dev_register_pci_driver fuel s v e d = Ret (- EEXIST, s)) \<and>
    (drivers_of s ds (v, e) = None \<longrightarrow> (\<exists>s'. dev_register_pci_driver fuel s v e d = Ret (0, s') \<and> registry s' (d # ds) \<and>
       drivers_of s' (d # ds) = (drivers_of s ds)((v, e) \<mapsto> d))) \<and>
    (\<forall>k. dev_find_pci_driver fuel s (fst k) (snd k) = Ret (case drivers_of s ds k of
       Some x \<Rightarrow> (x, s) | None \<Rightarrow> (0, s\<lparr> pc_errno := ENOENT \<rparr>)))"
proof -
  have nz: "drivers_of s ds k = Some x \<Longrightarrow> x \<noteq> 0" for k x
    using reg by (auto simp: drivers_of_def registry_def dest!: map_of_SomeD)
  have "\<exists>s'. dev_register_pci_driver fuel s v e d = Ret (0, s') \<and> registry s' (d # ds) \<and>
       drivers_of s' (d # ds) = (drivers_of s ds)((v, e) \<mapsto> d)" if none: "drivers_of s ds (v, e) = None"
  proof -
    have "d \<notin> set ds" using none new(2) by (force simp: drivers_of_def map_of_eq_None_iff)
    then have "d + DR_LIST \<notin> set (drivers_pci # map (\<lambda>d. d + DR_LIST) ds)" using new(5) by auto
    then obtain h' where "list_append (pc_cells s) drivers_pci (d + DR_LIST) = Ret h'"
        "ring h' (drivers_pci # (d + DR_LIST) # map (\<lambda>d. d + DR_LIST) ds)"
      using list_append_head [of "pc_cells s" drivers_pci "map (\<lambda>d. d + DR_LIST) ds" "d + DR_LIST"] reg new
      by (auto simp: registry_def)
    then show ?thesis using reg new driver_search [OF reg fuel, of v e] none
      by (auto simp: dev_register_pci_driver_def on_cells_def registry_def drivers_of_def driver_key_def)
  qed
  moreover have "drivers_of s ds (v, e) \<noteq> None \<Longrightarrow> dev_register_pci_driver fuel s v e d = Ret (- EEXIST, s)"
    using driver_search [OF reg fuel, of v e] new(1) nz [of "(v, e)" 0] by (auto simp: dev_register_pci_driver_def)
  moreover have "dev_find_pci_driver fuel s (fst k) (snd k) = Ret (case drivers_of s ds k of
       Some x \<Rightarrow> (x, s) | None \<Rightarrow> (0, s\<lparr> pc_errno := ENOENT \<rparr>))" for k
    using driver_search [OF reg fuel, of "fst k" "snd k"] nz [of k]
    by (auto simp: dev_find_pci_driver_def pci_fail_def split: option.split)
  ultimately show ?thesis by blast
qed

lemma driver_registry_refines_witness:
  "\<exists>s s'. dev_register_pci_driver 3 s 0x10ec 0x8139 100 = Ret (0, s') \<and>
    dev_find_pci_driver 3 s 0x8086 0x100e = Ret (200, s) \<and> registry s' [100, 200]"
proof -
  let ?off = "\<lambda>d. d + DR_LIST"
  let ?s = "\<lparr> pc_hist = [], pc_errno = 0, pc_pool = [],
    pc_cells = [drivers_pci \<mapsto> \<lparr> lh_next = ?off 200, lh_prev = ?off 200 \<rparr>, ?off 200 \<mapsto> \<lparr> lh_next = drivers_pci, lh_prev = drivers_pci \<rparr>,
      ?off 100 \<mapsto> \<lparr> lh_next = ?off 100, lh_prev = ?off 100 \<rparr>],
    pc_drivers = [100 \<mapsto> \<lparr> dr_init = 0, dr_vendor = 0x10ec, dr_device = 0x8139 \<rparr>,
      200 \<mapsto> \<lparr> dr_init = 0, dr_vendor = 0x8086, dr_device = 0x100e \<rparr>],
    pc_devices = Map.empty, pc_devs = Map.empty, nroutes = 0, routes = [], nlinks = 0, plinks = [],
    old_driver = \<lparr> dr_init = 0, dr_vendor = 0, dr_device = 0 \<rparr>, old_device = \<lparr> de_driver = 0, de_type = 0, de_ctx = 0 \<rparr>,
    old_dev = \<lparr> p_bus = 0, p_dev = 0, p_func = 0, p_device = 0, p_vendor = 0, p_class = 0, p_bars = [],
      p_int_pin = 0, p_int_line = 0 \<rparr> \<rparr>"
  have "registry ?s [200]" by (simp add: registry_def ring_def drivers_pci_def DR_LIST_def)
  then have "(drivers_of ?s [200] (0x10ec, 0x8139) = None \<longrightarrow> (\<exists>s'. dev_register_pci_driver 3 ?s 0x10ec 0x8139 100 = Ret (0, s') \<and>
       registry s' [100, 200] \<and> drivers_of s' [100, 200] = (drivers_of ?s [200])((0x10ec, 0x8139) \<mapsto> 100))) \<and>
    (\<forall>k. dev_find_pci_driver 3 ?s (fst k) (snd k) = Ret (case drivers_of ?s [200] k of
       Some x \<Rightarrow> (x, ?s) | None \<Rightarrow> (0, ?s\<lparr> pc_errno := ENOENT \<rparr>)))"
    using driver_registry_refines [of ?s "[200]" 3 100 "0x10ec" "0x8139"]
    by (simp add: driver_key_def drivers_pci_def DR_LIST_def)
  moreover have "drivers_of ?s [200] (0x10ec, 0x8139) = None" "drivers_of ?s [200] (0x8086, 0x100e) = Some 200"
    by (simp_all add: drivers_of_def driver_key_def)
  ultimately show ?thesis
    by (metis (no_types, lifting) fst_conv snd_conv option.case(2))
qed

section \<open>Enumeration of the bus\<close>

definition byte_pair :: "(nat \<Rightarrow> u8) \<Rightarrow> nat \<Rightarrow> u16" where
  "byte_pair f k = ucast (f k) OR push_bit 8 (ucast (f (k + 1)))"

text \<open>What the kernel keeps of a function whose configuration space is \<open>f\<close>.\<close>

definition func_rec :: "u8 \<Rightarrow> u8 \<Rightarrow> u8 \<Rightarrow> (nat \<Rightarrow> u8) \<Rightarrow> pci_dev" where
  "func_rec b d fn f = \<lparr> p_bus = ucast b, p_dev = ucast d, p_func = ucast fn, p_device = byte_pair f 2, p_vendor = byte_pair f 0,
     p_class = f 11, p_bars = map (\<lambda>i. le_dword f (16 + 4 * i)) [0 ..< 6], p_int_pin = ucast (f 61), p_int_line = ucast (f 60) \<rparr>"

lemma reads_eq: "reads s f = (fst (f (pc_hist s)), s\<lparr> pc_hist := snd (f (pc_hist s)) \<rparr>)"
  by (simp add: reads_def case_prod_beta)

lemma read_func_bytes:
  assumes cs: "config_space hw cfg" "dev < 32" "func < 8"
  shows "\<exists>h. read_func hw (ucast bus) (ucast dev) (ucast func) s = (func_rec bus dev func (cfg bus dev func), s\<lparr> pc_hist := h \<rparr>)"
proof -
  note r32 = read_u32_bytes [OF cs, of _ bus]
  have r32: "fst (get_pci_field_u32 hw h (ucast bus) (ucast dev) (ucast func) 0x10) = le_dword (cfg bus dev func) 16"
    "fst (get_pci_field_u32 hw h (ucast bus) (ucast dev) (ucast func) 0x14) = le_dword (cfg bus dev func) 20"
    "fst (get_pci_field_u32 hw h (ucast bus) (ucast dev) (ucast func) 0x18) = le_dword (cfg bus dev func) 24"
    "fst (get_pci_field_u32 hw h (ucast bus) (ucast dev) (ucast func) 0x1c) = le_dword (cfg bus dev func) 28"
    "fst (get_pci_field_u32 hw h (ucast bus) (ucast dev) (ucast func) 0x20) = le_dword (cfg bus dev func) 32"
    "fst (get_pci_field_u32 hw h (ucast bus) (ucast dev) (ucast func) 0x24) = le_dword (cfg bus dev func) 36" for h
    using r32 [of h "0x10"] r32 [of h "0x14"] r32 [of h "0x18"] r32 [of h "0x1c"] r32 [of h "0x20"] r32 [of h "0x24"]
    by simp_all
  have r16: "fst (get_pci_field_u16 hw h (ucast bus) (ucast dev) (ucast func) 0) = byte_pair (cfg bus dev func) 0"
    "fst (get_pci_field_u16 hw h (ucast bus) (ucast dev) (ucast func) 2) = byte_pair (cfg bus dev func) 2" for h
    using read_u16_even [OF cs, of 0 h bus] read_u16_even [OF cs, of 2 h bus] by (simp_all add: byte_pair_def)
  have r8: "fst (get_pci_field_u8 hw h (ucast bus) (ucast dev) (ucast func) 0x0b) = cfg bus dev func 11"
    "fst (get_pci_field_u8 hw h (ucast bus) (ucast dev) (ucast func) 0x3c) = cfg bus dev func 60"
    "fst (get_pci_field_u8 hw h (ucast bus) (ucast dev) (ucast func) 0x3d) = cfg bus dev func 61" for h
    using read_u8_bytes [OF cs, of h bus "0x0b"] read_u8_bytes [OF cs, of h bus "0x3c"] read_u8_bytes [OF cs, of h bus "0x3d"]
    by simp_all
  have six: "[0 ..< 6] = [0, 1, 2, 3, 4, 5 :: nat]" by (simp add: upt_rec)
  have down: "(ucast (ucast (x :: u8) :: u32) :: u16) = ucast x" for x by (rule bit_word_eqI) (auto simp: bit_simps)
  show ?thesis
    by (simp add: read_func_def reads_eq r32 r16 r8 func_rec_def six down) blast
qed

text \<open>
  \<open>bus_ok s ds es ps\<close>: the three rings hold the drivers \<open>ds\<close>, the devices \<open>es\<close> and the PCI devices \<open>ps\<close>,
  and all objects, those still to be allocated too, are different and aligned as the slab allocator aligns them.
\<close>

definition bus_ok :: "pci \<Rightarrow> nat list \<Rightarrow> nat list \<Rightarrow> nat list \<Rightarrow> bool" where
  "bus_ok s ds es ps \<longleftrightarrow> registry s ds \<and>
     ring (pc_cells s) (devices_pci # map (\<lambda>d. d + DE_LIST) es) \<and>
     ring (pc_cells s) (pci_devs # map (\<lambda>p. p + P_LIST) ps) \<and>
     (\<forall>p\<in>set ps. pc_devs s p \<noteq> None) \<and>
     distinct (ds @ es @ ps @ pc_pool s) \<and> (\<forall>a\<in>set (ds @ es @ ps @ pc_pool s). 64 dvd a \<and> a \<noteq> 0)"

definition quiet :: "init_call \<Rightarrow> bool" where
  "quiet init \<longleftrightarrow> (\<forall>f d s. \<exists>h e. init f d s = Ret (s\<lparr> pc_hist := h, pc_errno := e \<rparr>))"

lemma ring_upd: "x \<notin> set ns \<Longrightarrow> ring (h(x := c)) ns \<longleftrightarrow> ring h ns"
  by (simp add: ring_def)

lemma ring_append_other:
  assumes "ring h (s # bs)" "list_append h s t = Ret h'" and "ring h ns" "set ns \<inter> set (s # t # bs) = {}"
  shows "ring h' ns"
  by (rule ring_agree [OF assms(3)]) (use list_append_frame [OF assms(1,2)] assms(4) in blast)

lemma list_init_Ret: "s \<noteq> 0 \<Longrightarrow> h s \<noteq> None \<Longrightarrow> list_init h s = Ret (h(s \<mapsto> \<lparr> lh_next = s, lh_prev = s \<rparr>))"
proof -
  assume s: "s \<noteq> 0" "h s \<noteq> None"
  then obtain n p where "h s = Some \<lparr> lh_next = n, lh_prev = p \<rparr>" by (metis list_head.cases not_None_eq)
  then show ?thesis using s by (simp add: list_init_def link_defs)
qed

lemma aligned_apart:
  assumes "64 dvd (x :: nat)" and "\<forall>y\<in>set ys. 64 dvd (y :: nat)"
  shows "x + P_LIST \<notin> (\<lambda>d. d + DR_LIST) ` set ys" "x + P_LIST \<notin> (\<lambda>d. d + DE_LIST) ` set ys"
    "x + DE_LIST \<notin> (\<lambda>d. d + P_LIST) ` set ys" "x + DR_LIST \<notin> (\<lambda>d. d + P_LIST) ` set ys"
proof -
  have "a + 56 \<noteq> b + 32" if "64 dvd a" "64 dvd b" for a b :: nat using that by presburger
  then show "x + P_LIST \<notin> (\<lambda>d. d + DR_LIST) ` set ys" "x + P_LIST \<notin> (\<lambda>d. d + DE_LIST) ` set ys"
    "x + DE_LIST \<notin> (\<lambda>d. d + P_LIST) ` set ys" "x + DR_LIST \<notin> (\<lambda>d. d + P_LIST) ` set ys"
    using assms unfolding DR_LIST_def DE_LIST_def P_LIST_def by (metis (no_types, lifting) imageE)+
qed

lemma aligned_disjoint:
  assumes "\<forall>x\<in>set xs. 64 dvd (x :: nat)" and "\<forall>y\<in>set ys. 64 dvd (y :: nat)"
  shows "(\<lambda>d. d + DR_LIST) ` set xs \<inter> (\<lambda>p. p + P_LIST) ` set ys = {}" "(\<lambda>d. d + DE_LIST) ` set xs \<inter> (\<lambda>p. p + P_LIST) ` set ys = {}"
  using assms aligned_apart(3,4) [OF _ assms(2)] by blast+

lemma heads_apart: "drivers_pci \<noteq> devices_pci" "drivers_pci \<noteq> pci_devs" "devices_pci \<noteq> pci_devs"
  "x + DR_LIST \<noteq> drivers_pci" "x + DR_LIST \<noteq> devices_pci" "x + DR_LIST \<noteq> pci_devs"
  "x + DE_LIST \<noteq> drivers_pci" "x + DE_LIST \<noteq> devices_pci" "x + DE_LIST \<noteq> pci_devs"
  "x + P_LIST \<noteq> drivers_pci" "x + P_LIST \<noteq> devices_pci" "x + P_LIST \<noteq> pci_devs"
  by (simp_all add: drivers_pci_def devices_pci_def pci_devs_def DR_LIST_def DE_LIST_def P_LIST_def)

text \<open>The cells of a bus, one set for each ring.\<close>

abbreviation (input) dr_cells :: "nat list \<Rightarrow> nat list" where "dr_cells ds \<equiv> drivers_pci # map (\<lambda>d. d + DR_LIST) ds"
abbreviation (input) de_cells :: "nat list \<Rightarrow> nat list" where "de_cells es \<equiv> devices_pci # map (\<lambda>d. d + DE_LIST) es"
abbreviation (input) p_cells :: "nat list \<Rightarrow> nat list" where "p_cells ps \<equiv> pci_devs # map (\<lambda>p. p + P_LIST) ps"

lemma bus_apart:
  assumes "distinct (ds @ es @ ps @ a # e # rest)" and "\<forall>x\<in>set (ds @ es @ ps @ a # e # rest). 64 dvd x \<and> x \<noteq> 0"
  shows "a + P_LIST \<notin> set (dr_cells ds)" "a + P_LIST \<notin> set (de_cells es)" "a + P_LIST \<notin> set (p_cells ps)"
    "e + DE_LIST \<notin> set (dr_cells ds)" "e + DE_LIST \<notin> set (de_cells es)" "e + DE_LIST \<notin> set (p_cells ps)"
    "a + P_LIST \<noteq> e + DE_LIST"
    "set (dr_cells ds) \<inter> set (de_cells es) = {}" "set (dr_cells ds) \<inter> set (p_cells ps) = {}"
    "set (de_cells es) \<inter> set (p_cells ps) = {}"
proof -
  have al: "64 dvd a" "64 dvd e" "\<forall>x\<in>set ds. 64 dvd x" "\<forall>x\<in>set es. 64 dvd x" "\<forall>x\<in>set ps. 64 dvd x" "\<forall>x\<in>set [e]. 64 dvd x"
    using assms(2) by auto
  show "a + P_LIST \<notin> set (dr_cells ds)" "a + P_LIST \<notin> set (de_cells es)" "e + DE_LIST \<notin> set (p_cells ps)"
    "a + P_LIST \<noteq> e + DE_LIST"
    using aligned_apart(1) [OF al(1,3)] aligned_apart(2) [OF al(1,4)] aligned_apart(3) [OF al(2,5)] aligned_apart(2) [OF al(1,6)]
    by (auto simp: heads_apart)
  show "a + P_LIST \<notin> set (p_cells ps)" "e + DE_LIST \<notin> set (dr_cells ds)" "e + DE_LIST \<notin> set (de_cells es)"
    "set (dr_cells ds) \<inter> set (de_cells es) = {}"
    using assms(1) by (auto simp: drivers_pci_def devices_pci_def pci_devs_def DR_LIST_def DE_LIST_def P_LIST_def)
  show "set (dr_cells ds) \<inter> set (p_cells ps) = {}" "set (de_cells es) \<inter> set (p_cells ps) = {}"
    using aligned_disjoint(1) [OF al(3,5)] aligned_disjoint(2) [OF al(4,5)]
    by (simp_all add: heads_apart heads_apart [symmetric] image_iff)
qed

text \<open>Taking an entry and putting it into a ring, with the other two rings.\<close>

lemma append_rings:
  assumes "ring h (x # xs)" "ring h ys" "ring h zs" and "t \<notin> set (x # xs)" "t \<notin> set ys" "t \<notin> set zs" "t \<noteq> 0"
    and "set (x # xs) \<inter> set ys = {}" "set (x # xs) \<inter> set zs = {}" and "h t \<noteq> None"
  shows "\<exists>h'. list_append h x t = Ret h' \<and> ring h' (x # t # xs) \<and> ring h' ys \<and> ring h' zs \<and>
    (\<forall>c. c \<notin> set (x # t # xs) \<longrightarrow> h' c = h c)"
proof -
  obtain h' where h': "list_append h x t = Ret h'" "ring h' (x # t # xs)"
    using list_append_head [OF assms(1,4,7,10)] by blast
  have "set ys \<inter> set (x # t # xs) = {}" "set zs \<inter> set (x # t # xs) = {}" using assms(5,6,8,9) by auto
  then show ?thesis
    using h' ring_append_other [OF assms(1) h'(1) assms(2)] ring_append_other [OF assms(1) h'(1) assms(3)]
      list_append_frame [OF assms(1) h'(1)] by blast
qed

lemma find_irq_no_routes: "nroutes s = 0 \<Longrightarrow> pci_find_irq_route s b d p = Ret (PCI_NO_ROUTE, s\<lparr> pc_errno := ENOENT \<rparr>)"
  by (simp add: pci_find_irq_route_def pci_fail_def)

lemma find_driver_any:
  assumes "registry s ds" and "length ds < fuel"
  shows "\<exists>drv e. dev_find_pci_driver fuel s v d = Ret (drv, s\<lparr> pc_errno := e \<rparr>) \<and> (drv \<noteq> 0 \<longrightarrow> pc_drivers s drv \<noteq> None)"
proof (cases "drivers_of s ds (v, d)")
  case None
  then show ?thesis using driver_search [OF assms] by (auto simp: dev_find_pci_driver_def pci_fail_def)
next
  case (Some drv)
  then have "drv \<in> set ds" by (auto simp: drivers_of_def dest!: map_of_SomeD)
  then show ?thesis using driver_search [OF assms, of v d] Some assms(1)
    by (intro exI [of _ drv] exI [of _ "pc_errno s"]) (auto simp: dev_find_pci_driver_def registry_def)
qed

text \<open>What one probe does to the lists: a new device and a new PCI device, with the fields of its function.\<close>

definition probed :: "pci \<Rightarrow> nat list \<Rightarrow> nat list \<Rightarrow> nat list \<Rightarrow> pci_dev list \<Rightarrow> pci \<Rightarrow> bool" where
  "probed s ds es ps rs s' \<longleftrightarrow> (\<exists>es' as. bus_ok s' ds (es' @ es) (as @ ps) \<and> nroutes s' = 0 \<and>
     length (pc_pool s) = 2 * length rs + length (pc_pool s') \<and>
     (\<forall>p\<in>set ps. pc_devs s' p = pc_devs s p) \<and> map (pc_devs s') as = map Some (rev rs))"

lemma probe_func_ok:
  assumes cs: "config_space hw cfg" "d < 32" "fn < 8" and q: "quiet init"
    and ok: "bus_ok s ds es ps" "length ds < fuel" "nroutes s = 0" "2 \<le> length (pc_pool s)"
  shows "\<exists>s'. probe_func fuel hw init (ucast b) (ucast d) (ucast fn) s = Ret s' \<and>
    probed s ds es ps [func_rec b d fn (cfg b d fn)] s'"
proof -
  obtain a e rest where pool: "pc_pool s = a # e # rest" using ok(4) by (metis Suc_le_length_iff numeral_2_eq_2)
  let ?p = "func_rec b d fn (cfg b d fn)"
  have dis: "distinct (ds @ es @ ps @ a # e # rest)" and al: "\<forall>x\<in>set (ds @ es @ ps @ a # e # rest). 64 dvd x \<and> x \<noteq> 0"
    and rings: "ring (pc_cells s) (dr_cells ds)" "ring (pc_cells s) (de_cells es)" "ring (pc_cells s) (p_cells ps)"
    using ok(1) pool by (simp_all add: bus_ok_def registry_def)
  note ap = bus_apart [OF dis al]
  have nz: "a \<noteq> 0" "e \<noteq> 0" using al by auto
  have pos: "e + DE_LIST \<noteq> 0" "a + P_LIST \<noteq> 0" using nz by simp_all
  obtain h where h: "read_func hw (ucast b) (ucast d) (ucast fn) (s\<lparr> pc_pool := e # rest \<rparr>) =
      (?p, s\<lparr> pc_pool := e # rest, pc_hist := h \<rparr>)"
    using read_func_bytes [OF cs, of b "s\<lparr> pc_pool := e # rest \<rparr>"] by auto
  define c1 where "c1 = (pc_cells s)(a + P_LIST \<mapsto> \<lparr> lh_next = 0, lh_prev = 0 \<rparr>)"
  define s1 where "s1 = s\<lparr> pc_pool := e # rest, pc_hist := h, pc_devs := (pc_devs s)(a \<mapsto> ?p), pc_cells := c1 \<rparr>"
  have c1: "ring c1 (dr_cells ds)" "ring c1 (de_cells es)" "ring c1 (p_cells ps)"
    using rings ap by (simp_all add: c1_def ring_upd)
  have irq: "\<exists>e2. (if p_int_pin ?p = 0 then Ret s1
      else omap snd (pci_find_irq_route s1 (ucast (ucast b :: u32)) (ucast (ucast d :: u32)) (ucast (p_int_pin ?p)))) = Ret (s1\<lparr> pc_errno := e2 \<rparr>)"
  proof (cases "p_int_pin ?p = 0")
    case True
    then show ?thesis by (intro exI [of _ "pc_errno s1"]) simp
  next
    case False
    then show ?thesis using ok(3) by (intro exI [of _ ENOENT]) (simp add: find_irq_no_routes s1_def)
  qed
  then obtain e2 where e2: "(if p_int_pin ?p = 0 then Ret s1
      else omap snd (pci_find_irq_route s1 (ucast (ucast b :: u32)) (ucast (ucast d :: u32)) (ucast (p_int_pin ?p)))) = Ret (s1\<lparr> pc_errno := e2 \<rparr>)"
    by blast
  have "registry (s1\<lparr> pc_errno := e2 \<rparr>) ds" using ok(1) c1 by (simp add: registry_def bus_ok_def s1_def)
  then obtain drv e3 where drv: "dev_find_pci_driver fuel (s1\<lparr> pc_errno := e2 \<rparr>) (uint (p_vendor ?p)) (uint (p_device ?p)) =
      Ret (drv, s1\<lparr> pc_errno := e3 \<rparr>)" "drv \<noteq> 0 \<longrightarrow> pc_drivers s drv \<noteq> None"
    using find_driver_any [OF _ ok(2)] by (fastforce simp: s1_def)
  define c2 where "c2 = c1(e + DE_LIST \<mapsto> \<lparr> lh_next = e + DE_LIST, lh_prev = e + DE_LIST \<rparr>)"
  have c2: "ring c2 (dr_cells ds)" "ring c2 (de_cells es)" "ring c2 (p_cells ps)" "c2 (e + DE_LIST) \<noteq> None"
    using c1 ap by (simp_all add: c2_def ring_upd)
  define s2 where "s2 = s1\<lparr> pc_pool := rest, pc_errno := e3, pc_devices := (pc_devices s)(e \<mapsto> old_device s), pc_cells := c2 \<rparr>"
  have alloc: "dev_alloc_device (s1\<lparr> pc_errno := e3 \<rparr>) = Ret (e, s2)"
    using nz by (simp add: dev_alloc_device_def pool_next_def s1_def s2_def on_cells_def list_init_Ret c2_def DE_LIST_def)
  define s3 where "s3 = s2\<lparr> pc_devices := (pc_devices s2)(e \<mapsto> \<lparr> de_driver = drv, de_type = DT_PCI, de_ctx = a \<rparr>) \<rparr>"
  obtain h4 e4 where s4: "(if drv = 0 then Ret s3
             else bnd (deref (pc_drivers s3) drv) (\<lambda>dr.
               if dr_init dr = 0 then Ret s3 else init (dr_init dr) e s3)) = Ret (s3\<lparr> pc_hist := h4, pc_errno := e4 \<rparr>)"
  proof (cases "drv = 0")
    case True
    then show ?thesis using that [of "pc_errno s3" "pc_hist s3"] by simp
  next
    case False
    then obtain dr where dr: "pc_drivers s3 drv = Some dr" using drv(2) by (auto simp: s3_def s2_def s1_def)
    show ?thesis
    proof (cases "dr_init dr = 0")
      case True
      then show ?thesis using that [of "pc_errno s3" "pc_hist s3"] False dr by simp
    next
      case f: False
      obtain h4 e4 where "init (dr_init dr) e s3 = Ret (s3\<lparr> pc_hist := h4, pc_errno := e4 \<rparr>)" using q unfolding quiet_def by metis
      then show ?thesis using that False dr f by simp
    qed
  qed
  obtain c3 where c3: "list_append c2 devices_pci (e + DE_LIST) = Ret c3" "ring c3 (de_cells (e # es))"
      "ring c3 (dr_cells ds)" "ring c3 (p_cells ps)" "\<forall>c. c \<notin> set (devices_pci # (e + DE_LIST) # map (\<lambda>d. d + DE_LIST) es) \<longrightarrow> c3 c = c2 c"
    using append_rings [OF c2(2,1,3) ap(5,4,6) pos(1) ap(8) [unfolded Int_commute [of "set (dr_cells ds)"]] ap(10) c2(4)]
    by auto
  have reg: "dev_register_device init s3 e = Ret (0, s3\<lparr> pc_hist := h4, pc_errno := e4, pc_cells := c3 \<rparr>)"
  proof -
    have "deref (pc_devices s3) e = Ret \<lparr> de_driver = drv, de_type = DT_PCI, de_ctx = a \<rparr>" using nz by (simp add: s3_def)
    then have "dev_register_device init s3 e = bnd (if drv = 0 then Ret s3
             else bnd (deref (pc_drivers s3) drv) (\<lambda>dr.
               if dr_init dr = 0 then Ret s3 else init (dr_init dr) e s3))
        (\<lambda>s. bnd (on_cells s (\<lambda>h. list_append h devices_pci (e + DE_LIST))) (\<lambda>s. Ret (0, s)))"
      using nz(2) by (simp add: dev_register_device_def)
    moreover have "pc_cells s3 = c2" by (simp add: s3_def s2_def)
    ultimately show ?thesis unfolding s4 by (simp add: on_cells_def c3(1))
  qed
  define c4 where "c4 = c3(a + P_LIST \<mapsto> \<lparr> lh_next = a + P_LIST, lh_prev = a + P_LIST \<rparr>)"
  have ae: "a + P_LIST \<notin> set (de_cells (e # es))" using ap by auto
  have "c3 (a + P_LIST) = c2 (a + P_LIST)" using c3(5) ap(2,7) by auto
  also have "\<dots> \<noteq> None" using ap(7) by (simp add: c2_def c1_def)
  finally have init4: "list_init c3 (a + P_LIST) = Ret c4" by (simp add: list_init_Ret c4_def P_LIST_def)
  have c4: "ring c4 (dr_cells ds)" "ring c4 (de_cells (e # es))" "ring c4 (p_cells ps)"
    using c3 ap ae by (simp_all add: c4_def ring_upd del: list.map)
  have "set (p_cells ps) \<inter> set (dr_cells ds) = {}" "set (p_cells ps) \<inter> set (de_cells (e # es)) = {}" "c4 (a + P_LIST) \<noteq> None"
    using ap by (auto simp: c4_def)
  then obtain c5 where c5: "list_append c4 pci_devs (a + P_LIST) = Ret c5" "ring c5 (p_cells (a # ps))"
      "ring c5 (dr_cells ds)" "ring c5 (de_cells (e # es))"
    using append_rings [OF c4(3,1,2) ap(3,1) ae pos(2)] by auto
  define s5 where "s5 = s3\<lparr> pc_hist := h4, pc_errno := e4, pc_cells := c5 \<rparr>"
  have s1: "s\<lparr> pc_pool := e # rest, pc_hist := h, pc_devs := (pc_devs s)(a \<mapsto> ?p),
      pc_cells := (pc_cells s)(a + P_LIST \<mapsto> \<lparr> lh_next = 0, lh_prev = 0 \<rparr>) \<rparr> = s1" by (simp add: s1_def c1_def)
  have "probe_func fuel hw init (ucast b) (ucast d) (ucast fn) s =
      bnd (if p_int_pin ?p = 0 then Ret s1
        else omap snd (pci_find_irq_route s1 (ucast (ucast b :: u32)) (ucast (ucast d :: u32)) (ucast (p_int_pin ?p)))) (\<lambda>s.
       bnd (dev_find_pci_driver fuel s (uint (p_vendor ?p)) (uint (p_device ?p))) (\<lambda>(drv, s).
       bnd (dev_alloc_device s) (\<lambda>(de, s).
       if de = 0 then Halt MemFault
       else
         bnd (dev_register_device init
                (s\<lparr> pc_devices := (pc_devices s)(de \<mapsto> \<lparr> de_driver = drv, de_type = DT_PCI, de_ctx = a \<rparr>) \<rparr>) de)
           (\<lambda>(_, s).
         bnd (on_cells s (\<lambda>h. list_init h (a + P_LIST))) (\<lambda>s.
         on_cells s (\<lambda>h. list_append h pci_devs (a + P_LIST)))))))"
    using nz(1) h s1 by (simp add: probe_func_def pool_next_def pool)
  also have "\<dots> = Ret s5"
    using nz(2) unfolding e2 bnd.simps drv(1) prod.case alloc s3_def [symmetric]
    by (simp add: reg on_cells_def init4 c5(1) s5_def)
  finally have "probe_func fuel hw init (ucast b) (ucast d) (ucast fn) s = Ret s5" .
  moreover have "bus_ok s5 ds (e # es) (a # ps)"
    using ok(1) c5 dis al unfolding bus_ok_def by (auto simp: registry_def s5_def s3_def s2_def s1_def)
  moreover have "nroutes s5 = 0" "pc_devs s5 a = Some ?p" "\<forall>p\<in>set ps. pc_devs s5 p = pc_devs s p" "pc_pool s5 = rest"
    using ok(3) dis by (auto simp: s5_def s3_def s2_def s1_def)
  ultimately show ?thesis
    unfolding probed_def by (intro exI [of _ s5] conjI exI [of _ "[e]"] exI [of _ "[a]"]) (simp_all add: pool)
qed

lemma probed_chain:
  assumes one: "probed s ds es ps rs s1"
    and more: "\<And>es' ps'. bus_ok s1 ds es' ps' \<Longrightarrow> nroutes s1 = 0 \<Longrightarrow> 2 * length rs2 \<le> length (pc_pool s1) \<Longrightarrow>
      \<exists>s2. f s1 = Ret s2 \<and> probed s1 ds es' ps' rs2 s2"
    and room: "2 * length (rs @ rs2) \<le> length (pc_pool s)"
  shows "\<exists>s2. f s1 = Ret s2 \<and> probed s ds es ps (rs @ rs2) s2"
proof -
  obtain es1 as1 where 1: "bus_ok s1 ds (es1 @ es) (as1 @ ps)" "nroutes s1 = 0"
      "length (pc_pool s) = 2 * length rs + length (pc_pool s1)" "\<forall>p\<in>set ps. pc_devs s1 p = pc_devs s p"
      "map (pc_devs s1) as1 = map Some (rev rs)"
    using one unfolding probed_def by blast
  then obtain s2 where s2: "f s1 = Ret s2" "probed s1 ds (es1 @ es) (as1 @ ps) rs2 s2" using more room by fastforce
  then obtain es2 as2 where 2: "bus_ok s2 ds (es2 @ es1 @ es) (as2 @ as1 @ ps)" "nroutes s2 = 0"
      "length (pc_pool s1) = 2 * length rs2 + length (pc_pool s2)" "\<forall>p\<in>set (as1 @ ps). pc_devs s2 p = pc_devs s1 p"
      "map (pc_devs s2) as2 = map Some (rev rs2)"
    unfolding probed_def by blast
  have "map (pc_devs s2) as1 = map (pc_devs s1) as1" using 2(4) by simp
  then have "probed s ds es ps (rs @ rs2) s2" unfolding probed_def
    using 1 2 by (intro exI [of _ "es2 @ es1"] exI [of _ "as2 @ as1"]) auto
  then show ?thesis using s2(1) by blast
qed

lemma probed_none: "bus_ok s ds es ps \<Longrightarrow> nroutes s = 0 \<Longrightarrow> probed s ds es ps [] (s\<lparr> pc_hist := h \<rparr>)"
  unfolding probed_def by (intro exI [of _ "[]"]) (simp add: bus_ok_def registry_def)

lemma bus_ok_hist: "bus_ok (s\<lparr> pc_hist := h \<rparr>) ds es ps \<longleftrightarrow> bus_ok s ds es ps"
  by (simp add: bus_ok_def registry_def)

lemma probed_hist: "probed (s\<lparr> pc_hist := h \<rparr>) ds es ps rs s' \<longleftrightarrow> probed s ds es ps rs s'"
  by (simp add: probed_def)

text \<open>The functions of device \<open>d\<close> that are probed; bit 7 of the byte at 12 decides whether there is more than one.\<close>

definition probed_functions :: "(u8 \<Rightarrow> u8 \<Rightarrow> u8 \<Rightarrow> nat \<Rightarrow> u8) \<Rightarrow> u8 \<Rightarrow> u8 \<Rightarrow> pci_dev list" where
  "probed_functions cfg b d =
     (if byte_pair (cfg b d 0) 0 = PCI_NO_DEV then []
      else map (\<lambda>f. func_rec b d (of_nat f) (cfg b d (of_nat f))) (if bit (cfg b d 0 12) 7 then [0 ..< 8] else [0]))"

definition bus_functions :: "(u8 \<Rightarrow> u8 \<Rightarrow> u8 \<Rightarrow> nat \<Rightarrow> u8) \<Rightarrow> u8 \<Rightarrow> pci_dev list" where
  "bus_functions cfg b = concat (map (\<lambda>d. probed_functions cfg b (of_nat d)) [0 ..< 32])"

lemma of_nat_byte: "n < 256 \<Longrightarrow> (of_nat n :: u32) = ucast (of_nat n :: u8)"
  by (simp add: word_unat_eq_iff unsigned_ucast_eq unat_of_nat take_bit_eq_mod)

lemma of_nat_less_8: "n < k \<Longrightarrow> k < 256 \<Longrightarrow> (of_nat n :: u8) < of_nat k"
  by (simp add: word_less_nat_alt unat_of_nat)

lemma probe_funcs_ok:
  assumes cs: "config_space hw cfg" "d < 32" and q: "quiet init" and fuel: "length ds < fuel"
  shows "bus_ok s ds es ps \<Longrightarrow> nroutes s = 0 \<Longrightarrow> \<forall>f\<in>set fs. f < 8 \<Longrightarrow> 2 * length fs \<le> length (pc_pool s) \<Longrightarrow>
    \<exists>s'. probe_funcs fuel hw init (ucast b) (ucast d) fs s = Ret s' \<and>
      probed s ds es ps (map (\<lambda>f. func_rec b d (of_nat f) (cfg b d (of_nat f))) fs) s'"
proof (induction fs arbitrary: s es ps)
  case Nil
  then show ?case using probed_none [of s ds es ps "pc_hist s"] by simp
next
  case (Cons f fs)
  let ?r = "\<lambda>f. func_rec b d (of_nat f) (cfg b d (of_nat f))"
  have f: "f < 8" using Cons.prems(3) by simp
  then have "(of_nat f :: u8) < 8" using of_nat_less_8 [of f 8] by simp
  moreover have "2 \<le> length (pc_pool s)" using Cons.prems(4) by simp
  ultimately obtain s1 where s1: "probe_func fuel hw init (ucast b) (ucast d) (ucast (of_nat f :: u8)) s = Ret s1"
      "probed s ds es ps [?r f] s1"
    using probe_func_ok [OF cs _ q Cons.prems(1) fuel Cons.prems(2)] by blast
  have "\<exists>s2. probe_funcs fuel hw init (ucast b) (ucast d) fs s1 = Ret s2 \<and> probed s ds es ps ([?r f] @ map ?r fs) s2"
    by (rule probed_chain [OF s1(2)]) (use Cons in auto)
  then show ?case using s1(1) f by (simp add: of_nat_byte)
qed

lemma probe_dev_ok:
  assumes cs: "config_space hw cfg" "d < 32" and q: "quiet init" and fuel: "length ds < fuel"
    and ok: "bus_ok s ds es ps" "nroutes s = 0" "2 * length (probed_functions cfg b d) \<le> length (pc_pool s)"
  shows "\<exists>s'. probe_dev fuel hw init (ucast b) (ucast d) s = Ret s' \<and> probed s ds es ps (probed_functions cfg b d) s'"
proof -
  let ?r = "\<lambda>f. func_rec b d (of_nat f) (cfg b d (of_nat f))"
  have v: "fst (get_pci_field_u16 hw h (ucast b) (ucast d) 0 0) = byte_pair (cfg b d 0) 0" for h
    using read_u16_even [OF cs, of 0 0 h b] by (simp add: byte_pair_def)
  define s0 where "s0 = s\<lparr> pc_hist := snd (get_pci_field_u16 hw (pc_hist s) (ucast b) (ucast d) 0 0) \<rparr>"
  show ?thesis
  proof (cases "byte_pair (cfg b d 0) 0 = PCI_NO_DEV")
    case True
    then show ?thesis using probed_none [OF ok(1,2)] v by (simp add: probe_dev_def reads_eq probed_functions_def)
  next
    case False
    have r: "probed_functions cfg b d = [?r 0] @ (if bit (cfg b d 0 12) 7 then map ?r [1 ..< 8] else [])"
      using False by (simp add: probed_functions_def upt_conv_Cons del: upt.simps)
    have "2 \<le> length (pc_pool s0)" using ok(3) by (simp add: r s0_def)
    moreover have "bus_ok s0 ds es ps" "nroutes s0 = 0" using ok(1,2) by (simp_all add: s0_def bus_ok_hist)
    ultimately obtain s1 where s1: "probe_func fuel hw init (ucast b) (ucast d) 0 s0 = Ret s1" "probed s0 ds es ps [?r 0] s1"
      using probe_func_ok [OF cs, of 0 init s0 ds es ps fuel b] q fuel by auto
    define s2 where "s2 = s1\<lparr> pc_hist := snd (get_pci_field_u32 hw (pc_hist s1) (ucast b) (ucast d) 0 0x0e) \<rparr>"
    have hdr: "fst (get_pci_field_u32 hw h (ucast b) (ucast d) 0 0x0e) AND 0x80 \<noteq> 0 \<longleftrightarrow> bit (cfg b d 0 12) 7" for h
    proof -
      have "fst (get_pci_field_u32 hw h (ucast b) (ucast d) 0 0x0e) = le_dword (cfg b d 0) 12"
        using read_u32_bytes [OF cs, of 0 h b "0x0e"] by simp
      moreover have "(0x80 :: u32) = 2 ^ 7" by simp
      ultimately show ?thesis by (simp only: and_exp_eq_0_iff_not_bit) (simp add: le_dword_def bit_simps)
    qed
    have "probed s ds es ps [?r 0] s2" using s1(2) unfolding s2_def s0_def probed_hist by (simp add: probed_def bus_ok_hist)
    then have "\<exists>s3. (if bit (cfg b d 0 12) 7 then probe_funcs fuel hw init (ucast b) (ucast d) [1 ..< 8] s2 else Ret s2) = Ret s3 \<and>
        probed s ds es ps ([?r 0] @ (if bit (cfg b d 0 12) 7 then map ?r [1 ..< 8] else [])) s3"
    proof (rule probed_chain)
      fix es' ps' assume "bus_ok s2 ds es' ps'" "nroutes s2 = 0"
        and "2 * length (if bit (cfg b d 0 12) 7 then map ?r [1 ..< 8] else []) \<le> length (pc_pool s2)"
      then show "\<exists>s3. (if bit (cfg b d 0 12) 7 then probe_funcs fuel hw init (ucast b) (ucast d) [1 ..< 8] s2 else Ret s2) = Ret s3 \<and>
          probed s2 ds es' ps' (if bit (cfg b d 0 12) 7 then map ?r [1 ..< 8] else []) s3"
        using probe_funcs_ok [OF cs q fuel, of s2 es' ps' "[1 ..< 8]" b] probed_none [of s2 ds es' ps' "pc_hist s2"] by auto
    qed (use ok(3) r in simp)
    then show ?thesis using False s1(1) unfolding r
      by (cases "bit (cfg b d 0 12) 7")
        (simp_all add: probe_dev_def reads_eq v hdr s0_def [symmetric] s2_def [symmetric])
  qed
qed

lemma probe_devs_ok:
  assumes cs: "config_space hw cfg" and q: "quiet init" and fuel: "length ds < fuel"
  shows "bus_ok s ds es ps \<Longrightarrow> nroutes s = 0 \<Longrightarrow> \<forall>d\<in>set dns. d < 32 \<Longrightarrow>
    2 * length (concat (map (\<lambda>d. probed_functions cfg b (of_nat d)) dns)) \<le> length (pc_pool s) \<Longrightarrow>
    \<exists>s'. probe_devs fuel hw init (ucast b) dns s = Ret s' \<and>
      probed s ds es ps (concat (map (\<lambda>d. probed_functions cfg b (of_nat d)) dns)) s'"
proof (induction dns arbitrary: s es ps)
  case Nil
  then show ?case using probed_none [of s ds es ps "pc_hist s"] by simp
next
  case (Cons d dns)
  let ?r = "\<lambda>d. probed_functions cfg b (of_nat d)"
  have d: "d < 32" using Cons.prems(3) by simp
  then have "(of_nat d :: u8) < 32" using of_nat_less_8 [of d 32] by simp
  then obtain s1 where s1: "probe_dev fuel hw init (ucast b) (ucast (of_nat d :: u8)) s = Ret s1" "probed s ds es ps (?r d) s1"
    using probe_dev_ok [OF cs _ q fuel Cons.prems(1,2), of "of_nat d" b] Cons.prems(4) by auto
  have "\<exists>s2. probe_devs fuel hw init (ucast b) dns s1 = Ret s2 \<and> probed s ds es ps (?r d @ concat (map ?r dns)) s2"
    by (rule probed_chain [OF s1(2)]) (use Cons in auto)
  then show ?case using s1(1) d by (simp add: of_nat_byte)
qed


text \<open>The header type is the byte at 14: a device with several functions whose cache line size has bit 7 clear
  has only its first function probed, and ghosts are probed when the bit is set.\<close>

lemma multi_function_missed:
  "byte_pair (cfg b d 0) 0 \<noteq> PCI_NO_DEV \<Longrightarrow> cfg b d 0 12 = 0 \<Longrightarrow> cfg b d 0 14 = 0x80 \<Longrightarrow>
   probed_functions cfg b d = [func_rec b d 0 (cfg b d 0)]"
  by (simp add: probed_functions_def)

lemma ghost_functions:
  "byte_pair (cfg b d 0) 0 \<noteq> PCI_NO_DEV \<Longrightarrow> bit (cfg b d 0 12) 7 \<Longrightarrow> (\<And>k. cfg b d 3 k = 0xff) \<Longrightarrow>
   \<exists>p\<in>set (probed_functions cfg b d). p_vendor p = PCI_NO_DEV"
  by (rule bexI [of _ "func_rec b d 3 (cfg b d 3)"])
    (auto simp: probed_functions_def func_rec_def byte_pair_def image_iff intro!: bexI [of _ 3])


section \<open>Routes and writes\<close>

text \<open>An entry that names its link is copied to the name pointer of a route, which nothing ever sets.\<close>

lemma named_route_faults:
  assumes "nroutes s < PCI_MAX_ROUTES" "length (routes s) = PCI_MAX_ROUTES" "rt_name (routes s ! nroutes s) = None" "pr_index e = 0"
  shows "route_entries bus (e # es) s = Halt MemFault"
  using assms by (simp add: pci_alloc_route_def set_route_def)

text \<open>The 33rd link is outside the array, although \<open>pci_alloc_link\<close> gives it out.\<close>

lemma link_33_faults:
  assumes "nlinks s = 32" "length (plinks s) = PCI_MAX_LINKS" "fst (ac_name ac d) = AE_OK"
  shows "get_pci_link_info ac d s = Halt MemFault"
  using assms by (cases "ac_name ac d") (simp add: get_pci_link_info_def pci_alloc_link_def set_link_def)

text \<open>The route of a device is the first entry with its bus, number and pin.\<close>

lemma route_loop_first:
  "n \<le> length rs \<Longrightarrow> k \<le> n \<Longrightarrow>
   route_loop rs n b d p k = Ret (find (\<lambda>r. rt_bus r = b \<and> rt_dev r = d \<and> rt_pin r = p) (take k (drop (n - k) rs)))"
proof (induction k)
  case (Suc k)
  then have "take (Suc k) (drop (n - Suc k) rs) = rs ! (n - Suc k) # take k (drop (n - k) rs)"
    by (metis Cons_nth_drop_Suc Suc_diff_Suc Suc_le_lessD diff_less less_le_trans take_Suc_Cons zero_less_Suc)
  then show ?case using Suc by simp
qed simp

lemma irq_route_first:
  assumes "nroutes s \<le> length (routes s)" "find (\<lambda>r. rt_bus r = b \<and> rt_dev r = d \<and> rt_pin r = p) (take (nroutes s) (routes s)) = Some r"
    and "\<not> rt_named r"
  shows "pci_find_irq_route s b d p = Ret (rt_irq r, s)"
  using assms by (simp add: pci_find_irq_route_def route_loop_first)

text \<open>A write of one byte stores all four bytes of its register.\<close>

lemma write_u8_clears: "pci_write_u8 h b d f r v = pci_write_u32 h b d f r (ucast v)"
  by (simp add: pci_write_u8_def pci_write_u32_def set_pci_field_u8_def)

end
