(* ===== verification/Console.thy ===== *)
theory Console
  imports KString Mmu Pci
begin

unbundle bit_operations_syntax

text \<open>
  Where text goes: the text mode of \<open>src/drivers/gfx/vga.c\<close>, the switch of
  \<open>src/drivers/console/tty.c\<close> and the frame buffer of \<open>src/drivers/gfx/vbe.c\<close>. The text buffer is the
  32 KB window of the adapter as an array of cells, of which the first 25 rows of 80 are seen; the
  frame buffer is byte memory. A \<open>char\<close> is signed.
\<close>

section \<open>vga.c\<close>

record vga =
  vga_buffer :: "u16 list"
  term_color :: u8
  term_row :: u64
  term_col :: u64

abbreviation (input) VGA_WIDTH :: u64 where "VGA_WIDTH \<equiv> 80"
abbreviation (input) VGA_HEIGHT :: u64 where "VGA_HEIGHT \<equiv> 25"
abbreviation (input) NL :: u8 where "NL \<equiv> 10"
abbreviation (input) BS :: u8 where "BS \<equiv> 8"
abbreviation (input) TAB :: u8 where "TAB \<equiv> 9"

definition tty_entry :: "vga \<Rightarrow> u8 \<Rightarrow> u8 \<Rightarrow> u64 \<Rightarrow> u64 \<Rightarrow> vga outcome" where
  "tty_entry s c color x y =
     omap (\<lambda>b. s\<lparr> vga_buffer := b \<rparr>)
       (wr (vga_buffer s) (unat (y * VGA_WIDTH + x)) (scast c OR push_bit 8 (ucast color)))"

fun clear_cells :: "(u64 \<times> u64) list \<Rightarrow> vga \<Rightarrow> vga outcome" where
  "clear_cells [] s = Ret s"
| "clear_cells ((x, y) # ps) s = bnd (tty_entry s 0 (term_color s) x y) (clear_cells ps)"

definition vga_init :: "vga \<Rightarrow> vga outcome" where
  "vga_init s =
     clear_cells [(of_nat x, of_nat y). x \<leftarrow> [0 ..< 80], y \<leftarrow> [0 ..< 25]]
       (s\<lparr> term_row := 0, term_col := 0, term_color := 10 OR push_bit 4 0 \<rparr>)"

fun put_blanks :: "nat \<Rightarrow> vga \<Rightarrow> vga outcome" where
  "put_blanks 0 s = Ret s"
| "put_blanks (Suc n) s =
     bnd (tty_entry s 32 (term_color s) (term_col s) (term_row s)) (\<lambda>s.
     put_blanks n (s\<lparr> term_col := term_col s + 1 \<rparr>))"

text \<open>The copy goes row by row upwards; \<open>i\<close> counts the cells.\<close>

fun scroll_cells :: "nat list \<Rightarrow> u16 list \<Rightarrow> u16 list outcome" where
  "scroll_cells [] b = Ret b"
| "scroll_cells (i # is) b = bnd (rd b (80 + i)) (\<lambda>v. bnd (wr b i v) (scroll_cells is))"

fun clear_line :: "nat list \<Rightarrow> u16 \<Rightarrow> u16 list \<Rightarrow> u16 list outcome" where
  "clear_line [] v b = Ret b"
| "clear_line (i # is) v b = bnd (wr b i v) (clear_line is v)"

text \<open>The cells of the first 24 rows, and those of the last.\<close>

definition upper_cells :: "nat list" where "upper_cells = [0 ..< 1920]"
definition last_cells :: "nat list" where "last_cells = [1920 ..< 2000]"

definition vga_emit :: "vga \<Rightarrow> u8 \<Rightarrow> vga outcome" where
  "vga_emit s c =
     (if c = NL then Ret (s\<lparr> term_row := term_row s + 1, term_col := 0 \<rparr>)
      else if c = BS then
        omap (\<lambda>s. s\<lparr> term_col := term_col s - 1 \<rparr>) (tty_entry s 0 (term_color s) (term_col s) (term_row s))
      else if c = TAB then put_blanks 4 s
      else omap (\<lambda>s. s\<lparr> term_col := term_col s + 1 \<rparr>) (tty_entry s c (term_color s) (term_col s) (term_row s)))"

definition vga_put_char :: "vga \<Rightarrow> u8 \<Rightarrow> vga outcome" where
  "vga_put_char s c =
     bnd (vga_emit s c) (\<lambda>s.
     let s = (if term_col s \<ge> VGA_WIDTH then s\<lparr> term_col := 0, term_row := term_row s + 1 \<rparr> else s) in
     if term_row s \<ge> VGA_HEIGHT then
       bnd (scroll_cells upper_cells (vga_buffer s)) (\<lambda>b.
       let s = s\<lparr> vga_buffer := b, term_row := VGA_HEIGHT - 1 \<rparr> in
       if c = NL then
         omap (\<lambda>b. s\<lparr> vga_buffer := b \<rparr>) (clear_line last_cells (push_bit 8 (ucast (term_color s))) (vga_buffer s))
       else Ret s)
     else Ret s)"

fun vga_put_bytes :: "mem \<Rightarrow> nat \<Rightarrow> nat \<Rightarrow> vga \<Rightarrow> vga outcome" where
  "vga_put_bytes m p 0 s = Ret s"
| "vga_put_bytes m p (Suc n) s = bnd (ld m p) (\<lambda>c. bnd (vga_put_char s c) (vga_put_bytes m (p + 1) n))"

definition vga_put_str :: "mem \<Rightarrow> nat \<Rightarrow> vga \<Rightarrow> vga outcome" where
  "vga_put_str m p s = bnd (kstrlen m p) (\<lambda>n. vga_put_bytes m p n s)"

section \<open>Text mode keeps its shape\<close>

text \<open>The type of a terminal: the whole window, and a cursor on the screen.\<close>

definition vga_ok :: "vga \<Rightarrow> bool" where
  "vga_ok s \<longleftrightarrow> length (vga_buffer s) = 16384 \<and> unat (term_row s) < 25 \<and> unat (term_col s) < 80"

definition entry_of :: "u8 \<Rightarrow> u8 \<Rightarrow> u16" where "entry_of c color = scast c OR push_bit 8 (ucast color)"

lemma unat_cell: "unat y < 25 \<Longrightarrow> unat x < 84 \<Longrightarrow> unat (y * VGA_WIDTH + x) = 80 * unat y + unat x"
  by (simp add: unat_word_ariths)

lemma tty_entry_ok:
  assumes "length (vga_buffer s) = 16384" "unat y < 25" "unat x < 84"
  shows "tty_entry s c color x y = Ret (s\<lparr> vga_buffer := (vga_buffer s)[80 * unat y + unat x := entry_of c color] \<rparr>)"
  using assms by (simp add: tty_entry_def unat_cell entry_of_def)

lemma scroll_cells_ok:
  "length b = 16384 \<Longrightarrow> k \<le> n \<Longrightarrow> n \<le> 1920 \<Longrightarrow>
   \<exists>b'. scroll_cells [k ..< n] b = Ret b' \<and> length b' = 16384 \<and>
     (\<forall>i<16384. b' ! i = (if k \<le> i \<and> i < n then b ! (80 + i) else b ! i))"
proof (induction "n - k" arbitrary: k b)
  case 0
  then show ?case by auto
next
  case (Suc m)
  then have k: "k < n" "[k ..< n] = k # [Suc k ..< n]" by (simp_all add: upt_conv_Cons)
  obtain b' where b': "scroll_cells [Suc k ..< n] (b[k := b ! (80 + k)]) = Ret b'" "length b' = 16384"
      "\<forall>i<16384. b' ! i = (if Suc k \<le> i \<and> i < n then b[k := b ! (80 + k)] ! (80 + i) else b[k := b ! (80 + k)] ! i)"
  proof -
    have "m = n - Suc k" using Suc.hyps(2) by linarith
    then show ?thesis using that Suc.hyps(1) [of "Suc k" "b[k := b ! (80 + k)]"] Suc.prems k by fastforce
  qed
  have "scroll_cells [k ..< n] b = Ret b'" using b'(1) Suc.prems k by (simp del: upt.simps)
  moreover have "b' ! i = (if k \<le> i \<and> i < n then b ! (80 + i) else b ! i)" if "i < 16384" for i
    using b'(3) that k Suc.prems by (auto simp: nth_list_update)
  ultimately show ?case using b'(2) by blast
qed

lemma scroll_upper_ok:
  assumes "length b = 16384"
  shows "\<exists>b'. scroll_cells upper_cells b = Ret b' \<and> length b' = 16384 \<and>
     (\<forall>i<16384. b' ! i = (if i < 1920 then b ! (80 + i) else b ! i))"
  using scroll_cells_ok [OF assms, of 0 1920] unfolding upper_cells_def [symmetric] by auto

lemma clear_line_ok:
  "length b = 16384 \<Longrightarrow> \<forall>i\<in>set is. i < 16384 \<Longrightarrow>
   \<exists>b'. clear_line is v b = Ret b' \<and> length b' = 16384 \<and>
     (\<forall>i<16384. b' ! i = (if i \<in> set is then v else b ! i))"
proof (induction "is" arbitrary: b)
  case (Cons i is')
  then obtain b' where "clear_line is' v (b[i := v]) = Ret b'" "length b' = 16384"
      "\<forall>j<16384. b' ! j = (if j \<in> set is' then v else b[i := v] ! j)"
    by (metis length_list_update list.set_intros(2))
  then show ?case using Cons.prems by (auto simp: nth_list_update)
qed auto


lemma clear_last_ok:
  assumes "length b = 16384"
  shows "\<exists>b'. clear_line last_cells v b = Ret b' \<and> length b' = 16384 \<and>
     (\<forall>i<16384. b' ! i = (if 1920 \<le> i \<and> i < 2000 then v else b ! i))"
proof -
  have "set last_cells = {1920 ..< 2000}" unfolding last_cells_def by (rule set_upt)
  then show ?thesis using clear_line_ok [OF assms, of last_cells v] by simp
qed

lemma put_blanks_ok:
  "length (vga_buffer s) = 16384 \<Longrightarrow> unat (term_row s) < 25 \<Longrightarrow> unat (term_col s) + n \<le> 84 \<Longrightarrow>
   \<exists>b. put_blanks n s = Ret (s\<lparr> vga_buffer := b, term_col := term_col s + of_nat n \<rparr>) \<and> length b = 16384"
proof (induction n arbitrary: s)
  case 0
  then show ?case by (intro exI [of _ "vga_buffer s"]) simp
next
  case (Suc n)
  let ?s = "s\<lparr> vga_buffer := (vga_buffer s)[80 * unat (term_row s) + unat (term_col s) := entry_of 32 (term_color s)],
    term_col := term_col s + 1 \<rparr>"
  have "unat (term_col s + 1) = unat (term_col s) + 1" using Suc.prems(3) by (simp add: unat_word_ariths)
  then obtain b where "put_blanks n ?s = Ret (?s\<lparr> vga_buffer := b, term_col := term_col ?s + of_nat n \<rparr>)" "length b = 16384"
    using Suc.IH [of ?s] Suc.prems by auto
  then show ?case using Suc.prems by (auto simp: tty_entry_ok algebra_simps)
qed

text \<open>Before the wrap the row is on the screen or one below it, and the column at most 83 or just below 0.\<close>

lemma vga_emit_ok:
  assumes "vga_ok s"
  shows "\<exists>s'. vga_emit s c = Ret s' \<and> length (vga_buffer s') = 16384 \<and> unat (term_row s') \<le> 25 \<and>
    (unat (term_row s') = 25 \<longrightarrow> term_col s' = 0) \<and> term_color s' = term_color s"
proof -
  have l: "length (vga_buffer s) = 16384" "unat (term_row s) < 25" "unat (term_col s) < 80" using assms by (simp_all add: vga_ok_def)
  have "unat (term_row s + 1) = unat (term_row s) + 1" using l(2) by (simp add: unat_word_ariths)
  moreover obtain b where "put_blanks 4 s = Ret (s\<lparr> vga_buffer := b, term_col := term_col s + of_nat 4 \<rparr>)" "length b = 16384"
    using put_blanks_ok [of s 4] l by auto
  ultimately show ?thesis using l by (auto simp: vga_emit_def tty_entry_ok)
qed

text \<open>
  C25: text mode is type safe. On a terminal whose cursor is on the screen every character returns, without an
  access outside the window, and leaves the cursor on the screen; also the characters whose moves the code
  does not check, a backspace in the first column and a tabulator near the end of a line.
\<close>

theorem vga_put_char_keeps_type:
  assumes "vga_ok s"
  shows "\<exists>s'. vga_put_char s c = Ret s' \<and> vga_ok s' \<and> term_color s' = term_color s"
proof -
  obtain t where t: "vga_emit s c = Ret t" "length (vga_buffer t) = 16384" "unat (term_row t) \<le> 25"
      "unat (term_row t) = 25 \<longrightarrow> term_col t = 0" "term_color t = term_color s"
    using vga_emit_ok [OF assms] by blast
  define w where "w = (if term_col t \<ge> VGA_WIDTH then t\<lparr> term_col := 0, term_row := term_row t + 1 \<rparr> else t)"
  have w: "length (vga_buffer w) = 16384" "unat (term_row w) \<le> 25" "unat (term_col w) < 80" "term_color w = term_color s"
  proof -
    have "unat (term_row t + 1) = unat (term_row t) + 1" using t(3) by (simp add: unat_word_ariths)
    moreover have "term_row t \<noteq> 25 \<Longrightarrow> unat (term_row t) \<noteq> 25" by (simp add: word_unat_eq_iff)
    ultimately show "length (vga_buffer w) = 16384" "unat (term_row w) \<le> 25" "unat (term_col w) < 80" "term_color w = term_color s"
      using t by (auto simp: w_def word_le_nat_alt not_le)
  qed
  show ?thesis
  proof (cases "term_row w \<ge> VGA_HEIGHT")
    case False
    then have "vga_put_char s c = Ret w" using t(1) by (simp add: vga_put_char_def w_def [symmetric])
    then show ?thesis using w False by (auto simp: vga_ok_def word_le_nat_alt)
  next
    case True
    obtain b where b: "scroll_cells upper_cells (vga_buffer w) = Ret b" "length b = 16384"
      using scroll_upper_ok [OF w(1)] by blast
    obtain b2 where b2: "clear_line last_cells (push_bit 8 (ucast (term_color w))) b = Ret b2" "length b2 = 16384"
      using clear_last_ok [OF b(2)] by blast
    have "vga_put_char s c = Ret (w\<lparr> vga_buffer := if c = NL then b2 else b, term_row := 24 \<rparr>)"
      using t(1) True b(1) b2(1) by (simp add: vga_put_char_def w_def [symmetric])
    then show ?thesis using b b2 w by (simp add: vga_ok_def)
  qed
qed

definition blank_vga :: vga where
  "blank_vga = \<lparr> vga_buffer = replicate 16384 0, term_color = 10, term_row = 24, term_col = 79 \<rparr>"

lemma blank_vga_ok: "vga_ok blank_vga"
  by (simp add: vga_ok_def blank_vga_def)

lemma vga_put_char_keeps_type_witness:
  "\<exists>s'. vga_put_char blank_vga TAB = Ret s' \<and> vga_ok s' \<and> term_color s' = 10"
  using vga_put_char_keeps_type [OF blank_vga_ok, of TAB] by (simp add: blank_vga_def)

section \<open>The terminal that text mode is meant to be\<close>

type_synonym view = "(nat \<Rightarrow> nat \<Rightarrow> u16) \<times> nat \<times> nat"

definition screen :: "u16 list \<Rightarrow> nat \<Rightarrow> nat \<Rightarrow> u16" where
  "screen b = (\<lambda>y x. if y < 25 \<and> x < 80 then b ! (80 * y + x) else 0)"

definition view_of :: "vga \<Rightarrow> view" where
  "view_of s = (screen (vga_buffer s), unat (term_row s), unat (term_col s))"

definition put_at :: "(nat \<Rightarrow> nat \<Rightarrow> u16) \<Rightarrow> nat \<Rightarrow> nat \<Rightarrow> u16 \<Rightarrow> nat \<Rightarrow> nat \<Rightarrow> u16" where
  "put_at scr r k v = (\<lambda>y x. if y = r \<and> x = k then v else scr y x)"

text \<open>
  A line feed goes to the start of the next row; a backspace blanks the cell under the cursor and goes back, and from the
  first column down; any other character is put at the cursor, which moves on, at the end of a row to the next one.
\<close>

fun term_emit :: "u8 \<Rightarrow> u8 \<Rightarrow> view \<Rightarrow> view" where
  "term_emit color c (scr, r, k) =
     (if c = NL then (scr, r + 1, 0)
      else if c = BS then (put_at scr r k (entry_of 0 color), if k = 0 then r + 1 else r, k - 1)
      else (put_at scr r k (entry_of c color), if k = 79 then r + 1 else r, if k = 79 then 0 else k + 1))"

text \<open>Below the last row everything moves up; only a line feed blanks the last row.\<close>

fun term_scroll :: "u8 \<Rightarrow> u8 \<Rightarrow> view \<Rightarrow> view" where
  "term_scroll color c (scr, r, k) =
     (if r < 25 then (scr, r, k)
      else (\<lambda>y x. if y < 24 then scr (y + 1) x else if c = NL \<and> y = 24 \<and> x < 80 then entry_of 0 color else scr y x, 24, k))"

definition term_step :: "u8 \<Rightarrow> view \<Rightarrow> u8 \<Rightarrow> view" where
  "term_step color v c = term_scroll color c (term_emit color c v)"

lemma cell_index: "x < 80 \<Longrightarrow> k < 80 \<Longrightarrow> 80 * y + x = 80 * r + k \<longleftrightarrow> y = r \<and> x = (k :: nat)"
proof -
  assume "x < 80" "k < 80"
  then have "(80 * y + x) div 80 = y" "(80 * y + x) mod 80 = x" "(80 * r + k) div 80 = r" "(80 * r + k) mod 80 = k" by simp_all
  then show ?thesis by metis
qed

lemma screen_put:
  assumes "length b = 16384" "r < 25" "k < 80"
  shows "screen (b[80 * r + k := v]) = put_at (screen b) r k v"
proof (intro ext)
  fix y x
  show "screen (b[80 * r + k := v]) y x = put_at (screen b) r k v y x"
  proof (cases "y = r \<and> x = k")
    case True
    moreover from assms have "80 * r + k < 16384" by linarith
    ultimately show ?thesis using assms by (simp add: screen_def put_at_def)
  next
    case False
    then have "x < 80 \<Longrightarrow> 80 * r + k \<noteq> 80 * y + x" using cell_index [of x k y r] assms(3) by metis
    then have "x < 80 \<Longrightarrow> b[80 * r + k := v] ! (80 * y + x) = b ! (80 * y + x)" by (rule nth_list_update_neq)
    with False show ?thesis by (auto simp: screen_def put_at_def)
  qed
qed

lemma screen_scroll:
  assumes "\<forall>i<16384. b' ! i = (if i < 1920 then b ! (80 + i) else b ! i)"
  shows "screen b' = (\<lambda>y x. if y < 24 then screen b (y + 1) x else screen b y x)"
proof (intro ext)
  fix y x :: nat
  have "80 * y + x < 16384" "y < 24 \<longleftrightarrow> 80 * y + x < 1920" if "y < 25" "x < 80" using that by linarith+
  then show "screen b' y x = (if y < 24 then screen b (y + 1) x else screen b y x)"
    using assms by (simp add: screen_def add.assoc [symmetric])
qed

lemma screen_clear:
  assumes "\<forall>i<16384. b' ! i = (if 1920 \<le> i \<and> i < 2000 then v else b ! i)"
  shows "screen b' = (\<lambda>y x. if y = 24 \<and> x < 80 then v else screen b y x)"
proof (intro ext)
  fix y x :: nat
  have "80 * y + x < 16384" "1920 \<le> 80 * y + x \<and> 80 * y + x < 2000 \<longleftrightarrow> y = 24" if "y < 25" "x < 80" using that by linarith+
  then show "screen b' y x = (if y = 24 \<and> x < 80 then v else screen b y x)"
    using assms by (auto simp: screen_def)
qed

lemma entry_0: "entry_of 0 color = push_bit 8 (ucast color)"
  by (simp add: entry_of_def)

text \<open>One character other than a tabulator, up to the scrolling.\<close>

definition wrapped :: "vga \<Rightarrow> vga" where
  "wrapped t = (if term_col t \<ge> VGA_WIDTH then t\<lparr> term_col := 0, term_row := term_row t + 1 \<rparr> else t)"

lemma emit_view:
  assumes ok: "vga_ok s" and c: "c \<noteq> TAB"
  shows "\<exists>t. vga_emit s c = Ret t \<and> term_color t = term_color s \<and> length (vga_buffer (wrapped t)) = 16384 \<and>
    unat (term_col (wrapped t)) < 80 \<and> view_of (wrapped t) = term_emit (term_color s) c (view_of s)"
proof -
  have l: "length (vga_buffer s) = 16384" "unat (term_row s) < 25" "unat (term_col s) < 80" using ok by (simp_all add: vga_ok_def)
  let ?r = "unat (term_row s)" and ?k = "unat (term_col s)"
  have row: "unat (term_row s + 1) = ?r + 1" using l(2) by (simp add: unat_word_ariths)
  have col: "unat (term_col s + 1) = ?k + 1" using l(3) by (simp add: unat_word_ariths)
  have put: "tty_entry s v (term_color s) (term_col s) (term_row s) =
      Ret (s\<lparr> vga_buffer := (vga_buffer s)[80 * ?r + ?k := entry_of v (term_color s)] \<rparr>)" for v
    using l by (simp add: tty_entry_ok)
  consider "c = NL" | "c = BS" | "c \<noteq> NL" "c \<noteq> BS" by blast
  then show ?thesis
  proof cases
    case 1
    then show ?thesis using l row by (simp add: vga_emit_def view_of_def wrapped_def)
  next
    case 2
    have "VGA_WIDTH \<le> term_col s - 1 \<longleftrightarrow> ?k = 0"
    proof (cases "term_col s = 0")
      case False
      then have "unat (term_col s - 1) = ?k - 1" "?k \<noteq> 0" by (simp_all add: unat_minus_one unat_eq_zero)
      then show ?thesis using l(3) by (simp add: word_le_nat_alt)
    qed simp
    moreover have "?k \<noteq> 0 \<Longrightarrow> unat (term_col s - 1) = ?k - 1"
      by (metis unat_minus_one unsigned_0)
    ultimately show ?thesis using 2 l row
      by (auto simp: vga_emit_def put view_of_def wrapped_def screen_put screen_put [where k = 0, simplified])
  next
    case 3
    have "VGA_WIDTH \<le> term_col s + 1 \<longleftrightarrow> ?k = 79" using l(3) col by (auto simp: word_le_nat_alt)
    then show ?thesis using 3 c l row col by (auto simp: vga_emit_def put view_of_def wrapped_def screen_put)
  qed
qed

lemma put_char_view:
  assumes ok: "vga_ok s" and c: "c \<noteq> TAB"
  shows "\<exists>s'. vga_put_char s c = Ret s' \<and> vga_ok s' \<and> term_color s' = term_color s \<and>
    view_of s' = term_step (term_color s) (view_of s) c"
proof -
  obtain t where t: "vga_emit s c = Ret t" "term_color t = term_color s" "length (vga_buffer (wrapped t)) = 16384"
      "unat (term_col (wrapped t)) < 80" "view_of (wrapped t) = term_emit (term_color s) c (view_of s)"
    using emit_view [OF assms] by blast
  define w where "w = wrapped t"
  have w: "length (vga_buffer w) = 16384" "unat (term_col w) < 80" "view_of w = term_emit (term_color s) c (view_of s)"
      "term_color w = term_color s"
    using t(2-5) by (simp_all add: w_def wrapped_def)
  have code: "vga_put_char s c = (if term_row w \<ge> VGA_HEIGHT then
       bnd (scroll_cells upper_cells (vga_buffer w)) (\<lambda>b.
       let s = w\<lparr> vga_buffer := b, term_row := VGA_HEIGHT - 1 \<rparr> in
       if c = NL then
         omap (\<lambda>b. s\<lparr> vga_buffer := b \<rparr>) (clear_line last_cells (push_bit 8 (ucast (term_color s))) (vga_buffer s))
       else Ret s)
     else Ret w)"
    using t(1) by (simp add: vga_put_char_def w_def [unfolded wrapped_def, symmetric] w(4))
  have step: "term_step (term_color s) (view_of s) c = term_scroll (term_color s) c (view_of w)"
    by (simp add: term_step_def w(3))
  show ?thesis
  proof (cases "term_row w \<ge> VGA_HEIGHT")
    case False
    then have row: "unat (term_row w) < 25" by (simp add: word_le_nat_alt)
    then have "term_scroll (term_color s) c (view_of w) = view_of w" by (simp add: view_of_def)
    then have "view_of w = term_step (term_color s) (view_of s) c" by (rule step [THEN trans, symmetric])
    moreover have "vga_put_char s c = Ret w" using False by (simp only: code if_False)
    moreover have "vga_ok w" using w(1,2) row by (simp add: vga_ok_def)
    ultimately show ?thesis using w(4) by (intro exI [of _ w] conjI)
  next
    case True
    then have row: "\<not> unat (term_row w) < 25" by (simp add: word_le_nat_alt)
    obtain b where b: "scroll_cells upper_cells (vga_buffer w) = Ret b" "length b = 16384"
        "\<forall>i<16384. b ! i = (if i < 1920 then vga_buffer w ! (80 + i) else vga_buffer w ! i)"
      using scroll_upper_ok [OF w(1)] by blast
    obtain b2 where b2: "clear_line last_cells (entry_of 0 (term_color s)) b = Ret b2" "length b2 = 16384"
        "\<forall>i<16384. b2 ! i = (if 1920 \<le> i \<and> i < 2000 then entry_of 0 (term_color s) else b ! i)"
      using clear_last_ok [OF b(2)] by blast
    note sb = screen_scroll [OF b(3)] screen_clear [OF b2(3)]
    have "vga_put_char s c = Ret (w\<lparr> vga_buffer := if c = NL then b2 else b, term_row := 24 \<rparr>)"
      using True b(1) b2(1) w(4) by (simp add: code entry_0)
    moreover have "view_of (w\<lparr> vga_buffer := if c = NL then b2 else b, term_row := 24 \<rparr>) = term_step (term_color s) (view_of s) c"
      unfolding step using row by (auto simp: view_of_def fun_eq_iff sb)
    moreover have "vga_ok (w\<lparr> vga_buffer := if c = NL then b2 else b, term_row := 24 \<rparr>)"
      using w(2) b(2) b2(2) by (simp add: vga_ok_def)
    moreover have "term_color (w\<lparr> vga_buffer := if c = NL then b2 else b, term_row := 24 \<rparr>) = term_color s" using w(4) by simp
    ultimately show ?thesis by blast
  qed
qed

lemma put_bytes_view:
  "vga_ok s \<Longrightarrow> TAB \<notin> set cs \<Longrightarrow> \<forall>i<length cs. ld m (p + i) = Ret (cs ! i) \<Longrightarrow>
   \<exists>s'. vga_put_bytes m p (length cs) s = Ret s' \<and> vga_ok s' \<and> term_color s' = term_color s \<and>
     view_of s' = foldl (term_step (term_color s)) (view_of s) cs"
proof (induction cs arbitrary: s p)
  case (Cons c cs)
  have c: "ld m p = Ret c" using Cons.prems(3) by (auto dest: spec [of _ 0])
  obtain s1 where s1: "vga_put_char s c = Ret s1" "vga_ok s1" "term_color s1 = term_color s"
      "view_of s1 = term_step (term_color s) (view_of s) c"
    using put_char_view [OF Cons.prems(1), of c] Cons.prems(2) by auto
  have "\<forall>i<length cs. ld m (p + 1 + i) = Ret (cs ! i)" using Cons.prems(3) by (auto dest: spec [of _ "Suc _"])
  then obtain s' where "vga_put_bytes m (p + 1) (length cs) s1 = Ret s'" "vga_ok s'" "term_color s' = term_color s1"
      "view_of s' = foldl (term_step (term_color s1)) (view_of s1) cs"
    using Cons.IH [OF s1(2)] Cons.prems(2) by fastforce
  then show ?case using c s1 by simp
qed simp

text \<open>
  C34: text mode refines the terminal. A string without tabulators in memory that ends with 0 is put on the screen as the
  terminal puts its characters one after the other, scrolling included.
\<close>

theorem vga_refines_terminal:
  assumes "vga_ok s" and "cstr m p cs" and "TAB \<notin> set cs"
  shows "\<exists>s'. vga_put_str m p s = Ret s' \<and> vga_ok s' \<and> view_of s' = foldl (term_step (term_color s)) (view_of s) cs"
  using put_bytes_view [OF assms(1,3), of m p] assms(2) by (auto simp: vga_put_str_def kstrlen_correct cstr_ld nth_append)

lemma vga_refines_terminal_witness:
  "let m = [100 \<mapsto> 72, 101 \<mapsto> NL, 102 \<mapsto> 105, 103 \<mapsto> 0] in
   \<exists>s'. vga_put_str m 100 blank_vga = Ret s' \<and> view_of s' = foldl (term_step 10) (view_of blank_vga) [72, NL, 105]"
proof -
  let ?m = "[100 \<mapsto> 72, 101 \<mapsto> NL, 102 \<mapsto> 105, 103 \<mapsto> 0] :: mem"
  have "cstr ?m 100 [72, NL, 105]" by simp
  then show ?thesis
    using vga_refines_terminal [OF blank_vga_ok, of ?m 100 "[72, NL, 105]"] by (auto simp: blank_vga_def)
qed

text \<open>A backspace in the first column blanks the cell and goes to the next row; scrolling without a line feed keeps a copy of the last row.\<close>

lemma backspace_goes_down: "term_step color (scr, 3, 0) BS = (put_at scr 3 0 (entry_of 0 color), 4, 0)"
  by (simp add: term_step_def)

lemma last_row_doubled:
  "c \<noteq> NL \<Longrightarrow> c \<noteq> BS \<Longrightarrow> term_step color (scr, 24, 79) c =
     (let scr' = put_at scr 24 79 (entry_of c color) in (\<lambda>y x. if y < 24 then scr' (y + 1) x else scr' y x, 24, 0))"
  by (simp add: term_step_def Let_def fun_eq_iff)

text \<open>A tabulator at the end of a row writes into the next one.\<close>

lemma tab_overruns:
  "vga_put_char (blank_vga\<lparr> term_row := 0, term_col := 79 \<rparr>) TAB =
     Ret (blank_vga\<lparr> vga_buffer := (replicate 16384 0)[79 := entry_of 32 10, 80 := entry_of 32 10, 81 := entry_of 32 10,
       82 := entry_of 32 10], term_row := 1, term_col := 0 \<rparr>)"
proof -
  have four: "(4 :: nat) = Suc (Suc (Suc (Suc 0)))" by simp
  show ?thesis
    unfolding vga_put_char_def vga_emit_def four put_blanks.simps
    by (simp add: blank_vga_def tty_entry_def entry_of_def Let_def word_le_nat_alt)
qed

section \<open>tty.c\<close>

text \<open>The two pointers; a number other than 0 is the address of a function.\<close>

record tty =
  tty_putc_fn :: nat
  tty_puts_fn :: nat

definition tty_putc :: "(nat \<Rightarrow> u8 \<Rightarrow> 's \<Rightarrow> 's outcome) \<Rightarrow> tty \<Rightarrow> u8 \<Rightarrow> 's \<Rightarrow> 's outcome" where
  "tty_putc call t c s = call (tty_putc_fn t) c s"

definition tty_puts :: "(nat \<Rightarrow> nat \<Rightarrow> 's \<Rightarrow> 's outcome) \<Rightarrow> tty \<Rightarrow> nat \<Rightarrow> 's \<Rightarrow> 's outcome" where
  "tty_puts call t data s = call (tty_puts_fn t) data s"

definition tty_install_putc :: "tty \<Rightarrow> nat \<Rightarrow> tty outcome" where
  "tty_install_putc t f = kassert (f \<noteq> 0) (Ret (t\<lparr> tty_putc_fn := f \<rparr>))"

definition tty_install_puts :: "tty \<Rightarrow> nat \<Rightarrow> tty outcome" where
  "tty_install_puts t f = kassert (f \<noteq> 0) (Ret (t\<lparr> tty_puts_fn := f \<rparr>))"

section \<open>vbe.c\<close>

record vbe =
  vb_mem :: mem
  vb_pci :: pci
  vb_mmu :: mmu
  vb_tty :: tty
  lfb :: bool
  vga_mem :: u64
  font_map :: u64
  cur_x :: u32
  cur_y :: u32
  cur_bank :: u32
  line_buf0 :: u64
  line_buf1 :: u64

abbreviation (input) DISPLAY_WIDTH :: u32 where "DISPLAY_WIDTH \<equiv> 1024"
abbreviation (input) DISPLAY_HEIGHT :: u16 where "DISPLAY_HEIGHT \<equiv> 768"
abbreviation (input) DISPLAY_BITDEPTH :: u32 where "DISPLAY_BITDEPTH \<equiv> 8"
abbreviation (input) DISPLAY_FG_COLOR :: u8 where "DISPLAY_FG_COLOR \<equiv> 0x22"
abbreviation (input) DISPLAY_BG_COLOR :: u8 where "DISPLAY_BG_COLOR \<equiv> 0xff"
abbreviation (input) CURSOR_FG_COLOR :: u8 where "CURSOR_FG_COLOR \<equiv> 0xff"
abbreviation (input) CURSOR_BG_COLOR :: u8 where "CURSOR_BG_COLOR \<equiv> 0x22"
abbreviation (input) ROWS_PER_BANK :: u32 where "ROWS_PER_BANK \<equiv> 64"
abbreviation (input) LAST_BANK :: u32 where "LAST_BANK \<equiv> 12"
abbreviation (input) LINE_SIZE :: nat where "LINE_SIZE \<equiv> 16384"
abbreviation (input) VBE_DISPI_INDEX_BANK :: u16 where "VBE_DISPI_INDEX_BANK \<equiv> 5"

definition VBE_PUT_CHAR :: nat where "VBE_PUT_CHAR = 31"
definition VBE_PUT_STR :: nat where "VBE_PUT_STR = 32"

text \<open>An operation on the memory, and one on the ports.\<close>

definition on_vmem :: "vbe \<Rightarrow> (mem \<Rightarrow> mem outcome) \<Rightarrow> vbe outcome" where
  "on_vmem s f = omap (\<lambda>m. s\<lparr> vb_mem := m \<rparr>) (f (vb_mem s))"

definition on_ports :: "vbe \<Rightarrow> (history \<Rightarrow> history) \<Rightarrow> vbe" where
  "on_ports s f = s\<lparr> vb_pci := (vb_pci s)\<lparr> pc_hist := f (pc_hist (vb_pci s)) \<rparr> \<rparr>"

definition vbe_write_reg :: "history \<Rightarrow> u16 \<Rightarrow> u16 \<Rightarrow> history" where
  "vbe_write_reg h index v = outw (outw h 0x1ce index) 0x1cf v"

definition vbe_read_reg :: "hardware \<Rightarrow> history \<Rightarrow> u16 \<Rightarrow> u16 \<times> history" where
  "vbe_read_reg hw h index = inw hw (outw h 0x1ce index) 0x1cf"

definition vbe_set_bank :: "vbe \<Rightarrow> u16 \<Rightarrow> vbe" where
  "vbe_set_bank s num = (on_ports s (\<lambda>h. vbe_write_reg h VBE_DISPI_INDEX_BANK num))\<lparr> cur_bank := ucast num \<rparr>"

definition vbe_putpixel :: "vbe \<Rightarrow> u8 \<Rightarrow> u32 \<Rightarrow> u32 \<Rightarrow> vbe outcome" where
  "vbe_putpixel s color y x =
     on_vmem s (\<lambda>m. st m (unat (vga_mem s) + unat (y * DISPLAY_WIDTH + x - 1)) color)"

definition glyph_pixels :: "(nat \<times> nat) list" where
  "glyph_pixels = [(cy, cx). cy \<leftarrow> [0 ..< 16], cx \<leftarrow> [0 ..< 8]]"

fun put_pixels :: "(nat \<times> nat) list \<Rightarrow> u64 \<Rightarrow> u32 \<Rightarrow> u32 \<Rightarrow> u8 \<Rightarrow> u8 \<Rightarrow> vbe \<Rightarrow> vbe outcome" where
  "put_pixels [] glyph y x fg bg s = Ret s"
| "put_pixels ((cy, cx) # ps) glyph y x fg bg s =
     bnd (ld (vb_mem s) (unat glyph + cy)) (\<lambda>g.
     bnd (vbe_putpixel s (if bit g cx then fg else bg) (y + of_nat cy) (x + 8 - of_nat cx))
       (put_pixels ps glyph y x fg bg))"

definition vbe_putchar :: "vbe \<Rightarrow> u8 \<Rightarrow> u32 \<Rightarrow> u32 \<Rightarrow> u8 \<Rightarrow> u8 \<Rightarrow> vbe outcome" where
  "vbe_putchar s c y x fg bg = put_pixels glyph_pixels (font_map s + 16 * ucast c) y x fg bg s"

text \<open>The copy of the font: of every 32 bytes of the adapter's memory the first 16, in four moves.\<close>

fun copy_font :: "nat list \<Rightarrow> nat \<Rightarrow> nat \<Rightarrow> mem \<Rightarrow> mem outcome" where
  "copy_font [] src dst m = Ret m"
| "copy_font (i # is) src dst m =
     bnd (kmemcpy m (dst + 16 * i) (src + 32 * i) 4) (\<lambda>m.
     bnd (kmemcpy m (dst + 16 * i + 4) (src + 32 * i + 4) 4) (\<lambda>m.
     bnd (kmemcpy m (dst + 16 * i + 8) (src + 32 * i + 8) 4) (\<lambda>m.
     bnd (kmemcpy m (dst + 16 * i + 12) (src + 32 * i + 12) 4) (copy_font is src dst))))"

text \<open>A block of pages, of the given order.\<close>

definition vbe_block :: "vbe \<Rightarrow> nat \<Rightarrow> (u64 \<times> vbe) outcome" where
  "vbe_block s order =
     omap (\<lambda>(a, p). (a, s\<lparr> vb_mmu := (vb_mmu s)\<lparr> pf := p \<rparr> \<rparr>)) (mm_block_alloc (pf (vb_mmu s)) 1 order)"

definition vbe_get_font :: "vbe \<Rightarrow> vbe outcome" where
  "vbe_get_font s =
     (let s = on_ports s (\<lambda>h. outw (outw (outw (outw h 0x3ce 5) 0x3ce 0x406) 0x3ce 0x402) 0x3ce 0x604) in
      bnd (vbe_block s 1) (\<lambda>(page, s).
      let s = s\<lparr> font_map := amd64_p_to_v page, vga_mem := amd64_p_to_v 0xa0000 \<rparr> in
      bnd (on_vmem s (copy_font [0 ..< 256] (unat (vga_mem s)) (unat (font_map s)))) (\<lambda>s.
      Ret (on_ports s (\<lambda>h. outw (outw (outw (outw h 0x3ce 0x302) 0x3ce 0x204) 0x3ce 0x1005) 0x3ce 0xe06)))))"

fun clear_banks :: "nat list \<Rightarrow> vbe \<Rightarrow> vbe outcome" where
  "clear_banks [] s = Ret s"
| "clear_banks (b # bs) s =
     (let s = vbe_set_bank s (of_nat b) in
      bnd (on_vmem s (\<lambda>m. kmemset m (unat (vga_mem s)) 0xff (4096 * 16))) (clear_banks bs))"

definition vbe_clear_screen :: "vbe \<Rightarrow> vbe outcome" where
  "vbe_clear_screen s =
     omap (\<lambda>s. s\<lparr> cur_x := 0, cur_y := 0 \<rparr>)
       (if \<not> lfb s then on_vmem s (\<lambda>m. kmemset m (unat (vga_mem s)) 0xff (4096 * 4096))
        else omap (\<lambda>s. vbe_set_bank s 0) (clear_banks [0 ..< 12] s))"

fun map_frames :: "nat \<Rightarrow> u64 \<Rightarrow> mmu \<Rightarrow> mmu outcome" where
  "map_frames 0 p s = Ret s"
| "map_frames (Suc n) p s = bnd (amd64_map_page s p p (MM_PRESENT OR MM_READWRITE)) (map_frames n (p + 4096))"

definition vbe_init :: "nat \<Rightarrow> vbe \<Rightarrow> vbe outcome" where
  "vbe_init fuel s =
     bnd (vbe_block s 2) (\<lambda>(a, s).
     let s = s\<lparr> line_buf0 := amd64_p_to_v a \<rparr> in
     bnd (vbe_block s 2) (\<lambda>(a, s).
     let s = s\<lparr> line_buf1 := amd64_p_to_v a \<rparr> in
     bnd (vbe_get_font s) (\<lambda>s.
     let s = on_ports s (\<lambda>h. vbe_write_reg (vbe_write_reg (vbe_write_reg (vbe_write_reg (vbe_write_reg h 4 0) 1 1024) 2 DISPLAY_HEIGHT) 3 8)
               4 (1 OR 0x40)) in
     bnd (tty_install_putc (vb_tty s) VBE_PUT_CHAR) (\<lambda>t.
     bnd (tty_install_puts t VBE_PUT_STR) (\<lambda>t.
     bnd (pci_get_dev fuel (vb_pci s) 0x1234 0x1111) (\<lambda>(dev, p).
     let s = s\<lparr> vb_tty := t, vb_pci := p \<rparr> in
     bnd (if dev = 0 then Ret s
          else
            bnd (deref (pc_devs p) dev) (\<lambda>d.
            bnd (rd (p_bars d) 0) (\<lambda>bar0.
            let s = s\<lparr> lfb := True, vga_mem := ucast bar0 - 8 \<rparr> in
            omap (\<lambda>mm. s\<lparr> vb_mmu := mm \<rparr>) (map_frames 4096 (vga_mem s) (vb_mmu s)))))
       vbe_clear_screen))))))"

definition vbe_put_pixel :: "vbe \<Rightarrow> u8 \<Rightarrow> u32 \<Rightarrow> u32 \<Rightarrow> vbe outcome" where
  "vbe_put_pixel s color y x = vbe_putpixel s color y x"

fun blank_four :: "nat \<Rightarrow> vbe \<Rightarrow> vbe outcome" where
  "blank_four 0 s = Ret s"
| "blank_four (Suc n) s =
     bnd (vbe_putchar s 32 (cur_y s) (cur_x s) DISPLAY_FG_COLOR DISPLAY_BG_COLOR) (\<lambda>s.
     blank_four n (s\<lparr> cur_x := cur_x s + DISPLAY_BITDEPTH \<rparr>))"

text \<open>Lines move up by one, \<open>i\<close> counts them.\<close>

fun move_lines :: "nat list \<Rightarrow> vbe \<Rightarrow> vbe outcome" where
  "move_lines [] s = Ret s"
| "move_lines (i # is) s =
     bnd (on_vmem s (\<lambda>m. kmemcpy m (unat (vga_mem s) + i * LINE_SIZE) (unat (vga_mem s) + (i + 1) * LINE_SIZE) LINE_SIZE))
       (move_lines is)"

fun clear_and_move :: "nat list \<Rightarrow> vbe \<Rightarrow> vbe outcome" where
  "clear_and_move [] s = Ret s"
| "clear_and_move (i # is) s =
     bnd (on_vmem s (\<lambda>m. kmemset m (unat (vga_mem s) + i * LINE_SIZE) 0 LINE_SIZE)) (\<lambda>s.
     bnd (on_vmem s (\<lambda>m. kmemcpy m (unat (vga_mem s) + i * LINE_SIZE) (unat (vga_mem s) + (i + 1) * LINE_SIZE) LINE_SIZE))
       (clear_and_move is))"

text \<open>The number of rounds is \<open>cur_bank + 1\<close>; the bank that is selected goes down with them, below 0 at the end.\<close>

fun scroll_banks :: "nat \<Rightarrow> vbe \<Rightarrow> vbe outcome" where
  "scroll_banks 0 s = Ret s"
| "scroll_banks (Suc n) s =
     bnd (on_vmem s (\<lambda>m. kmemcpy m (unat (line_buf0 s)) (unat (vga_mem s)) LINE_SIZE)) (\<lambda>s.
     bnd (clear_and_move [0, 1, 2] s) (\<lambda>s.
     bnd (if cur_bank s \<noteq> LAST_BANK
          then on_vmem s (\<lambda>m. kmemcpy m (unat (vga_mem s) + 3 * LINE_SIZE) (unat (line_buf1 s)) LINE_SIZE)
          else Ret s) (\<lambda>s.
     bnd (on_vmem s (\<lambda>m. kmemcpy m (unat (line_buf1 s)) (unat (line_buf0 s)) LINE_SIZE)) (\<lambda>s.
     scroll_banks n (vbe_set_bank s (ucast (cur_bank s - 1)))))))"

definition vbe_emit :: "vbe \<Rightarrow> u8 \<Rightarrow> vbe outcome" where
  "vbe_emit s c =
     (if c = NL then
        bnd (vbe_putchar s 32 (cur_y s) (cur_x s) DISPLAY_FG_COLOR DISPLAY_BG_COLOR) (\<lambda>s.
        let s = s\<lparr> cur_y := cur_y s + DISPLAY_BITDEPTH * 2 \<rparr>;
            s = (if cur_bank s = LAST_BANK then s\<lparr> cur_y := cur_y s + DISPLAY_BITDEPTH * 6 \<rparr> else s) in
        Ret (s\<lparr> cur_x := 0 \<rparr>))
      else if c = BS then
        bnd (vbe_putchar s 32 (cur_y s) (cur_x s) DISPLAY_FG_COLOR DISPLAY_BG_COLOR) (\<lambda>s.
        bnd (vbe_putchar s 0 (cur_y s) (cur_x s - DISPLAY_BITDEPTH) DISPLAY_FG_COLOR DISPLAY_BG_COLOR) (\<lambda>s.
        Ret (s\<lparr> cur_x := cur_x s - DISPLAY_BITDEPTH \<rparr>)))
      else if c = TAB then blank_four 4 s
      else
        bnd (vbe_putchar s c (cur_y s) (cur_x s) DISPLAY_FG_COLOR DISPLAY_BG_COLOR) (\<lambda>s.
        Ret (s\<lparr> cur_x := cur_x s + DISPLAY_BITDEPTH \<rparr>)))"

definition vbe_advance :: "vbe \<Rightarrow> u8 \<Rightarrow> vbe outcome" where
  "vbe_advance s c =
     (if lfb s then
        if cur_y s div (DISPLAY_BITDEPTH * 2) > 47 then
          omap (\<lambda>s. if c = NL then s\<lparr> cur_y := DISPLAY_BITDEPTH * 2 * 47 \<rparr> else s) (move_lines [0 ..< 48] s)
        else Ret s
      else if cur_y s \<ge> ROWS_PER_BANK then
        if cur_bank s < LAST_BANK then Ret (vbe_set_bank (s\<lparr> cur_x := 0, cur_y := 0 \<rparr>) (ucast (cur_bank s + 1)))
        else
          omap (\<lambda>s. vbe_set_bank (s\<lparr> cur_x := 0, cur_y := 0 \<rparr>) (ucast LAST_BANK)) (scroll_banks (unat (cur_bank s) + 1) s)
      else Ret s)"

definition vbe_put_char_at :: "vbe \<Rightarrow> u8 \<Rightarrow> bool \<Rightarrow> vbe outcome" where
  "vbe_put_char_at s c cursor =
     kassert (vga_mem s \<noteq> 0)
       (if cursor then vbe_putchar s c (cur_y s) (cur_x s) CURSOR_FG_COLOR CURSOR_BG_COLOR
        else
          bnd (vbe_emit s c) (\<lambda>s.
          let s = (if cur_x s \<ge> DISPLAY_WIDTH then s\<lparr> cur_x := 0, cur_y := cur_y s + DISPLAY_BITDEPTH * 2 \<rparr> else s) in
          bnd (vbe_advance s c) (\<lambda>s.
          if c = NL then on_vmem s (\<lambda>m. kmemset m (unat (vga_mem s) + unat (cur_y s * DISPLAY_WIDTH)) 0 LINE_SIZE)
          else Ret s)))"

definition vbe_put_char :: "vbe \<Rightarrow> u8 \<Rightarrow> vbe outcome" where
  "vbe_put_char s c =
     bnd (vbe_put_char_at s c False) (\<lambda>s. if c \<noteq> NL then vbe_put_char_at s 32 True else Ret s)"

fun vbe_put_bytes :: "nat \<Rightarrow> nat \<Rightarrow> vbe \<Rightarrow> vbe outcome" where
  "vbe_put_bytes p 0 s = Ret s"
| "vbe_put_bytes p (Suc n) s =
     bnd (ld (vb_mem s) p) (\<lambda>c. bnd (vbe_put_char_at s c False) (vbe_put_bytes (p + 1) n))"

definition vbe_put_str :: "nat \<Rightarrow> vbe \<Rightarrow> vbe outcome" where
  "vbe_put_str p s =
     kassert (p \<noteq> 0)
       (bnd (kstrlen (vb_mem s) p) (\<lambda>len.
        kassert (len \<noteq> 0)
          (bnd (vbe_put_bytes p len s) (\<lambda>s.
           bnd (ld (vb_mem s) (p + len - 1)) (\<lambda>c. if c \<noteq> NL then vbe_put_char_at s 32 True else Ret s)))))"

section \<open>Drawing a character\<close>

text \<open>
  The screen as 768 rows of 1024 bytes of memory, and the font as 256 glyphs of 16 bytes; the two do
  not overlap.
\<close>

definition screen_mapped :: "vbe \<Rightarrow> bool" where
  "screen_mapped s \<longleftrightarrow> unat (vga_mem s) + 1024 * 768 \<le> 2 ^ 64 \<and> mapped (vb_mem s) (unat (vga_mem s)) (1024 * 768) \<and>
     unat (font_map s) + 4096 \<le> 2 ^ 64 \<and> mapped (vb_mem s) (unat (font_map s)) 4096 \<and>
     (unat (font_map s) + 4096 \<le> unat (vga_mem s) \<or> unat (vga_mem s) + 1024 * 768 \<le> unat (font_map s))"

definition pixel :: "vbe \<Rightarrow> nat \<Rightarrow> nat \<Rightarrow> nat" where "pixel s y x = unat (vga_mem s) + 1024 * y + x"

definition glyph_bit :: "vbe \<Rightarrow> u8 \<Rightarrow> nat \<Rightarrow> nat \<Rightarrow> bool" where
  "glyph_bit s c cy cx \<longleftrightarrow> bit (the (vb_mem s (unat (font_map s) + 16 * unat c + cy))) cx"

lemma pixel_index:
  assumes "unat (y :: u32) + 16 \<le> 768" "unat (x :: u32) + 8 \<le> 1024" "cy < 16" "cx < 8"
  shows "unat ((y + of_nat cy) * DISPLAY_WIDTH + (x + 8 - of_nat cx) - 1) = 1024 * (unat y + cy) + (unat x + 7 - cx)"
proof -
  define n where "n = 1024 * (unat y + cy) + (unat x + 7 - cx)"
  have n: "n < 2 ^ 32" using assms unfolding n_def by simp
  have "(of_nat (unat x + 7 - cx) :: u32) = x + 7 - of_nat cx" using assms(4) by (simp add: of_nat_diff)
  then have "(of_nat n :: u32) = (y + of_nat cy) * DISPLAY_WIDTH + (x + 8 - of_nat cx) - 1"
    unfolding n_def by (simp add: algebra_simps)
  moreover have "unat (of_nat n :: u32) = n" using n by (simp add: unat_of_nat)
  ultimately show ?thesis unfolding n_def by metis
qed

text \<open>The address of a pixel of the character cell at row \<open>r\<close> and column \<open>k\<close>.\<close>

definition px :: "vbe \<Rightarrow> nat \<Rightarrow> nat \<Rightarrow> nat \<times> nat \<Rightarrow> nat" where
  "px s r k p = pixel s (r + fst p) (k + 7 - snd p)"

lemma px_inj:
  assumes "k + 8 \<le> 1024" and "fst p < 16" "snd p < 8" "fst q < 16" "snd q < 8" and "px s r k p = px s r k q"
  shows "p = q"
proof -
  have dm: "(1024 * a + b) div 1024 = a" "(1024 * a + b) mod 1024 = b" if "b < 1024" for a b :: nat using that by simp_all
  have "k + 7 - snd p < 1024" "k + 7 - snd q < 1024" using assms(1) by simp_all
  note dm [OF this(1), of "r + fst p"] dm [OF this(2), of "r + fst q"]
  moreover have "1024 * (r + fst p) + (k + 7 - snd p) = 1024 * (r + fst q) + (k + 7 - snd q)"
    using assms(6) by (simp add: px_def pixel_def)
  ultimately have "r + fst p = r + fst q" "k + 7 - snd p = k + 7 - snd q" by metis+
  then show ?thesis using assms(3,5) by (simp add: prod_eq_iff)
qed

lemma px_screen:
  assumes "r + 16 \<le> 768" "k + 8 \<le> 1024" "fst p < 16"
  shows "unat (vga_mem s) \<le> px s r k p" "px s r k p < unat (vga_mem s) + 1024 * 768"
  using assms by (simp_all add: px_def pixel_def)

lemma putpixel_px:
  assumes "screen_mapped s" and "unat y + 16 \<le> 768" "unat x + 8 \<le> 1024" "cy < 16" "cx < 8"
  shows "vbe_putpixel s v (y + of_nat cy) (x + 8 - of_nat cx) =
    Ret (s\<lparr> vb_mem := (vb_mem s)(px s (unat y) (unat x) (cy, cx) \<mapsto> v) \<rparr>)"
proof -
  have "1024 * (unat y + cy) + (unat x + 7 - cx) < 1024 * 768" using assms by simp
  then have "st (vb_mem s) (unat (vga_mem s) + (1024 * (unat y + cy) + (unat x + 7 - cx))) v =
      Ret ((vb_mem s)(unat (vga_mem s) + (1024 * (unat y + cy) + (unat x + 7 - cx)) \<mapsto> v))"
    using assms(1) mapped_st unfolding screen_mapped_def by blast
  then show ?thesis
    unfolding vbe_putpixel_def pixel_index [OF assms(2-5)] on_vmem_def by (simp add: px_def pixel_def add.assoc)
qed

lemma glyph_address: "unat (font_map s) + 4096 \<le> 2 ^ 64 \<Longrightarrow> unat (font_map s + 16 * ucast (c :: u8)) = unat (font_map s) + 16 * unat c"
proof -
  assume f: "unat (font_map s) + 4096 \<le> 2 ^ 64"
  have c: "unat c < 256" using unat_lt2p_8 [of c] .
  then have "unat (16 * ucast c :: u64) = 16 * unat c" by (simp add: unat_word_ariths unsigned_ucast_eq take_bit_eq_mod)
  then show ?thesis using f c by (subst unat_add_u64) simp_all
qed

lemma put_pixels_ok:
  assumes "screen_mapped s" and y: "unat y + 16 \<le> 768" "unat x + 8 \<le> 1024" and "\<forall>p\<in>set ps. fst p < 16 \<and> snd p < 8"
  shows "\<exists>m. put_pixels ps (font_map s + 16 * ucast c) y x fg bg s = Ret (s\<lparr> vb_mem := m \<rparr>) \<and>
    (\<forall>p\<in>set ps. m (px s (unat y) (unat x) p) = Some (if glyph_bit s c (fst p) (snd p) then fg else bg)) \<and>
    (\<forall>a. a \<notin> px s (unat y) (unat x) ` set ps \<longrightarrow> m a = vb_mem s a)"
  using assms(1,4)
proof (induction ps arbitrary: s)
  case Nil
  then show ?case by (intro exI [of _ "vb_mem s"]) simp
next
  case (Cons p ps)
  obtain cy cx where p: "p = (cy, cx)" by fastforce
  have b: "cy < 16" "cx < 8" using Cons.prems(2) p by auto
  have f: "unat (font_map s) + 4096 \<le> 2 ^ 64" using Cons.prems(1) by (simp add: screen_mapped_def)
  let ?v = "\<lambda>p. if glyph_bit s c (fst p) (snd p) then fg else bg"
  let ?s = "s\<lparr> vb_mem := (vb_mem s)(px s (unat y) (unat x) p \<mapsto> ?v p) \<rparr>"
  have gi: "16 * unat c + j < 4096" if "j < 16" for j using that unat_lt2p_8 [of c] by linarith
  obtain g where g: "vb_mem s (unat (font_map s) + (16 * unat c + cy)) = Some g"
      "ld (vb_mem s) (unat (font_map s) + (16 * unat c + cy)) = Ret g"
    using mapped_ld [OF _ gi [OF b(1)]] Cons.prems(1) unfolding screen_mapped_def by blast
  have out: "unat (font_map s) + (16 * unat c + j) \<noteq> px s (unat y) (unat x) p" if "j < 16" for j
    using Cons.prems(1) px_screen [OF y, of p s] gi [OF that] b p unfolding screen_mapped_def by auto
  then have gb: "glyph_bit ?s c j i = glyph_bit s c j i" if "j < 16" for j i
    using that by (simp add: glyph_bit_def add.assoc)
  have sm: "screen_mapped ?s" using Cons.prems(1) by (simp add: screen_mapped_def mapped_upd)
  have pxs: "px ?s = px s" by (simp add: px_def pixel_def fun_eq_iff)
  obtain m where m: "put_pixels ps (font_map ?s + 16 * ucast c) y x fg bg ?s = Ret (?s\<lparr> vb_mem := m \<rparr>)"
      "\<forall>q\<in>set ps. m (px s (unat y) (unat x) q) = Some (if glyph_bit ?s c (fst q) (snd q) then fg else bg)"
      "\<forall>a. a \<notin> px s (unat y) (unat x) ` set ps \<longrightarrow> m a = vb_mem ?s a"
    using Cons.IH [OF sm] Cons.prems(2) unfolding pxs by auto
  have "put_pixels (p # ps) (font_map s + 16 * ucast c) y x fg bg s = Ret (s\<lparr> vb_mem := m \<rparr>)"
    using m(1) g putpixel_px [OF Cons.prems(1) y b] p
    by (simp add: glyph_address [OF f] add.assoc glyph_bit_def)
  moreover have "\<forall>q\<in>set ps. m (px s (unat y) (unat x) q) = Some (?v q)"
    using m(2) gb Cons.prems(2) by auto
  moreover have "m (px s (unat y) (unat x) p) = Some (?v p)"
  proof (cases "px s (unat y) (unat x) p \<in> px s (unat y) (unat x) ` set ps")
    case True
    then obtain q where q: "q \<in> set ps" "px s (unat y) (unat x) p = px s (unat y) (unat x) q" by blast
    then have "p = q" using px_inj [OF y(2) _ _ _ _ q(2)] Cons.prems(2) by auto
    then show ?thesis using calculation(2) q(1) by blast
  next
    case False
    then show ?thesis using m(3) by simp
  qed
  moreover have "\<forall>a. a \<notin> px s (unat y) (unat x) ` set (p # ps) \<longrightarrow> m a = vb_mem s a" using m(3) by simp
  ultimately show ?case by (intro exI [of _ m]) simp
qed

text \<open>
  C37: a character is drawn as its glyph. On a mapped screen that is apart from the font, a character at a cell inside the
  screen returns, every one of the 16 times 8 pixels of the cell gets the foreground colour where the bit of the glyph is
  set and the background colour elsewhere, the lowest bit rightmost, and no other byte of memory changes.
\<close>

theorem vbe_putchar_draws:
  assumes "screen_mapped s" and "unat y + 16 \<le> 768" "unat x + 8 \<le> 1024"
  shows "\<exists>m. vbe_putchar s c y x fg bg = Ret (s\<lparr> vb_mem := m \<rparr>) \<and>
    (\<forall>cy<16. \<forall>cx<8. m (pixel s (unat y + cy) (unat x + 7 - cx)) = Some (if glyph_bit s c cy cx then fg else bg)) \<and>
    (\<forall>a. (\<forall>cy<16. \<forall>cx<8. a \<noteq> pixel s (unat y + cy) (unat x + 7 - cx)) \<longrightarrow> m a = vb_mem s a)"
proof -
  have set: "set glyph_pixels = {p. fst p < 16 \<and> snd p < 8}" unfolding glyph_pixels_def by auto
  then obtain m where "vbe_putchar s c y x fg bg = Ret (s\<lparr> vb_mem := m \<rparr>)"
    and m: "\<forall>p\<in>set glyph_pixels. m (px s (unat y) (unat x) p) = Some (if glyph_bit s c (fst p) (snd p) then fg else bg)"
      "\<forall>a. a \<notin> px s (unat y) (unat x) ` set glyph_pixels \<longrightarrow> m a = vb_mem s a"
    using put_pixels_ok [OF assms, of glyph_pixels c fg bg] unfolding vbe_putchar_def by blast
  moreover have "m (pixel s (unat y + cy) (unat x + 7 - cx)) = Some (if glyph_bit s c cy cx then fg else bg)"
    if "cy < 16" "cx < 8" for cy cx
    using bspec [OF m(1), of "(cy, cx)"] that unfolding set by (simp add: px_def)
  moreover have "m a = vb_mem s a" if "\<forall>cy<16. \<forall>cx<8. a \<noteq> pixel s (unat y + cy) (unat x + 7 - cx)" for a
    using m(2) that unfolding set by (auto simp: px_def)
  ultimately show ?thesis by blast
qed

definition blank_pci :: pci where
  "blank_pci = \<lparr> pc_hist = [], pc_errno = 0, pc_pool = [], pc_cells = Map.empty,
    pc_drivers = Map.empty, pc_devices = Map.empty, pc_devs = Map.empty, nroutes = 0, routes = [], nlinks = 0, plinks = [],
    old_driver = \<lparr> dr_init = 0, dr_vendor = 0, dr_device = 0 \<rparr>, old_device = \<lparr> de_driver = 0, de_type = 0, de_ctx = 0 \<rparr>,
    old_dev = \<lparr> p_bus = 0, p_dev = 0, p_func = 0, p_device = 0, p_vendor = 0, p_class = 0, p_bars = [],
      p_int_pin = 0, p_int_line = 0 \<rparr> \<rparr>"

lemma vbe_putchar_draws_witness:
  "\<exists>s m. vbe_putchar s 65 0 8 0x22 0xff = Ret (s\<lparr> vb_mem := m \<rparr>) \<and> m (unat (vga_mem s) + 8) = Some 0x22 \<and>
    m (unat (vga_mem s) + 9) = Some 0xff \<and> m (unat (vga_mem s) + 16) = vb_mem s (unat (vga_mem s) + 16)"
proof -
  let ?s = "\<lparr> vb_mem = (\<lambda>a. Some 0x80), vb_pci = blank_pci, vb_mmu = demo_mmu,
    vb_tty = \<lparr> tty_putc_fn = VBE_PUT_CHAR, tty_puts_fn = VBE_PUT_STR \<rparr>, lfb = True,
    vga_mem = 0x10000, font_map = 0x1000, cur_x = 0, cur_y = 0, cur_bank = 0, line_buf0 = 0, line_buf1 = 0 \<rparr>"
  have "screen_mapped ?s" by (simp add: screen_mapped_def mapped_def)
  then obtain m where m: "vbe_putchar ?s 65 0 8 0x22 0xff = Ret (?s\<lparr> vb_mem := m \<rparr>)"
      "\<forall>cy<16. \<forall>cx<8. m (pixel ?s (unat (0 :: u32) + cy) (unat (8 :: u32) + 7 - cx)) = Some (if glyph_bit ?s 65 cy cx then 0x22 else 0xff)"
      "\<forall>a. (\<forall>cy<16. \<forall>cx<8. a \<noteq> pixel ?s (unat (0 :: u32) + cy) (unat (8 :: u32) + 7 - cx)) \<longrightarrow> m a = vb_mem ?s a"
    using vbe_putchar_draws [of ?s 0 8 65 "0x22" "0xff"] by auto
  have "m (pixel ?s (unat (0 :: u32) + 0) (unat (8 :: u32) + 7 - 7)) = Some 0x22"
    using m(2) [rule_format, of 0 7] by (simp add: glyph_bit_def)
  moreover have "m (pixel ?s (unat (0 :: u32) + 0) (unat (8 :: u32) + 7 - 6)) = Some 0xff"
    using m(2) [rule_format, of 0 6] by (simp add: glyph_bit_def)
  moreover have "m (0x10000 + 16) = vb_mem ?s (0x10000 + 16)"
  proof (rule m(3) [rule_format])
    fix cy cx :: nat assume "cx < 8"
    then show "0x10000 + 16 \<noteq> pixel ?s (unat (0 :: u32) + cy) (unat (8 :: u32) + 7 - cx)"
      by (cases "cy = 0") (auto simp: pixel_def)
  qed
  ultimately show ?thesis using m(1) by (intro exI [of _ ?s] exI [of _ m]) (simp add: pixel_def)
qed

section \<open>What does not work\<close>

text \<open>With the linear frame buffer a line that ends by itself below the last row does not take the cursor back.\<close>

lemma on_vmem_Ret: "on_vmem s f = Ret s' \<Longrightarrow> s' = s\<lparr> vb_mem := vb_mem s' \<rparr>"
  by (auto simp: on_vmem_def omap_Ret_iff)

lemma move_lines_cursor: "move_lines is s = Ret s' \<Longrightarrow> cur_y s' = cur_y s"
  by (induction "is" arbitrary: s) (auto simp: bnd_Ret_iff on_vmem_def omap_Ret_iff)

lemma long_line_stays_below:
  "lfb s \<Longrightarrow> c \<noteq> NL \<Longrightarrow> vbe_advance s c = Ret s' \<Longrightarrow> cur_y s' = cur_y s"
  by (auto simp: vbe_advance_def omap_Ret_iff move_lines_cursor split: if_splits)

text \<open>Scrolling through the banks ends with bank \<open>-1\<close> selected.\<close>

lemma clear_and_move_bank: "clear_and_move is s = Ret s' \<Longrightarrow> cur_bank s' = cur_bank s"
  by (induction "is" arbitrary: s) (auto simp: bnd_Ret_iff on_vmem_def omap_Ret_iff)

lemma on_vmem_bank: "on_vmem s f = Ret s' \<Longrightarrow> cur_bank s' = cur_bank s"
  by (auto simp: on_vmem_def omap_Ret_iff)

lemma scroll_round:
  assumes "scroll_banks (Suc n) s = Ret s'"
  shows "\<exists>t. cur_bank t = cur_bank s \<and> scroll_banks n (vbe_set_bank t (ucast (cur_bank t - 1))) = Ret s'"
proof -
  obtain a b c d where "on_vmem s (\<lambda>m. kmemcpy m (unat (line_buf0 s)) (unat (vga_mem s)) LINE_SIZE) = Ret a"
      and "clear_and_move [0, 1, 2] a = Ret b"
      and c: "(if cur_bank b \<noteq> LAST_BANK
          then on_vmem b (\<lambda>m. kmemcpy m (unat (vga_mem b) + 3 * LINE_SIZE) (unat (line_buf1 b)) LINE_SIZE)
          else Ret b) = Ret c"
      and "on_vmem c (\<lambda>m. kmemcpy m (unat (line_buf1 c)) (unat (line_buf0 c)) LINE_SIZE) = Ret d"
      and d: "scroll_banks n (vbe_set_bank d (ucast (cur_bank d - 1))) = Ret s'"
    using assms unfolding scroll_banks.simps(2) bnd_Ret_iff by blast
  moreover from c have "cur_bank c = cur_bank b" by (auto split: if_splits dest: on_vmem_bank)
  ultimately have "cur_bank d = cur_bank s" by (metis on_vmem_bank clear_and_move_bank)
  then show ?thesis using d by blast
qed

lemma scroll_banks_wraps:
  "scroll_banks (Suc k) s = Ret s' \<Longrightarrow> cur_bank s = of_nat k \<Longrightarrow> k < 65536 \<Longrightarrow> cur_bank s' = 0xffff"
proof (induction k arbitrary: s)
  case (Suc k)
  obtain t where t: "cur_bank t = cur_bank s" "scroll_banks (Suc k) (vbe_set_bank t (ucast (cur_bank t - 1))) = Ret s'"
    using scroll_round [OF Suc.prems(1)] by blast
  have "cur_bank (vbe_set_bank t (ucast (cur_bank t - 1))) = of_nat k"
  proof -
    have "cur_bank t - 1 = of_nat k" using Suc.prems(2) t(1) by simp
    moreover have "(ucast (ucast (of_nat k :: u32) :: u16) :: u32) = of_nat k"
      using Suc.prems(3) by (simp add: word_unat_eq_iff unsigned_ucast_eq unat_of_nat take_bit_eq_mod unat_mod)
    ultimately show ?thesis by (simp add: vbe_set_bank_def)
  qed
  then show ?case using Suc.IH t(2) Suc.prems(3) by simp
next
  case 0
  obtain t where "cur_bank t = cur_bank s" "scroll_banks 0 (vbe_set_bank t (ucast (cur_bank t - 1))) = Ret s'"
    using scroll_round [OF 0(1)] by blast
  then have "cur_bank s' = ucast (ucast (0 - 1 :: u32) :: u16)" using 0(2) by (auto simp: vbe_set_bank_def)
  moreover have "(ucast (ucast (0 - 1 :: u32) :: u16) :: u32) = mask 16" by (rule bit_word_eqI) (auto simp: bit_simps)
  ultimately show ?case by (simp add: mask_eq_exp_minus_1)
qed

end
