(* ===== verification/Ps2.thy ===== *)
theory Ps2
  imports Devfs Pipe Apic
begin

unbundle bit_operations_syntax

text \<open>
  \<open>src/drivers/console/ps2.c\<close>: the keyboard. The interrupt handler reads a scan code from the port,
  looks it up in the table \<open>codes\<close> and writes the byte found into a pipe; \<open>/dev/kbd\<close> reads the
  pipe. The state joins those of the devices, of the interrupt controllers and of the pipes, over
  the same file system objects. The table lies in byte memory at the address \<open>codes_at\<close>, as
  \<open>pipe_write\<close> takes a pointer into it. Messages are left out.
\<close>

section \<open>The table of characters\<close>

definition CONTROL :: u8 where "CONTROL = 29"
definition L_SHIFT :: u8 where "L_SHIFT = 42"
definition R_SHIFT :: u8 where "R_SHIFT = 54"
definition ALT :: u8 where "ALT = 56"
definition CAPSLOCK :: u8 where "CAPSLOCK = 58"

text \<open>
  The designated initializers, as runs of consecutive entries: those without and those with shift.
  The keys \<open>F1\<close> to \<open>F10\<close> and the arrows stand for their scan codes; 39 is the single quote,
  92 the backslash and 34 the double quote.
\<close>

definition plain_runs :: "(nat \<times> u8 list) list" where
  "plain_runs =
     [(2, str ''1234567890-='' @ [8, 9] @ str ''qwertyuiop[]'' @ [10, CONTROL] @ str ''asdfghjkl;'' @ [39] @ str ''`'' @
          [L_SHIFT, 92] @ str ''zxcvbnm,./'' @ [R_SHIFT] @ str ''*'' @ [ALT] @ str '' '' @
          [CAPSLOCK, 59, 60, 61, 62, 63, 64, 65, 66, 67, 68]),
      (72, [72]), (75, [75]), (77, [77]), (78, str ''+''), (80, [80])]"

definition shift_runs :: "(nat \<times> u8 list) list" where
  "shift_runs =
     [(132, str ''!'' @ [34] @ str ''#''), (136, str ''%&/()=_''), (146, str ''QWERTYUIOP<>''),
      (160, str ''ASDFGHJKL''), (174, str ''ZXCVBNM;:'')]"

fun put_run :: "u8 list \<Rightarrow> nat \<Rightarrow> u8 list \<Rightarrow> u8 list" where
  "put_run t i [] = t"
| "put_run t i (c # cs) = put_run (t[i := c]) (i + 1) cs"

definition codes :: "u8 list" where
  "codes = fold (\<lambda>(i, cs) t. put_run t i cs) (plain_runs @ shift_runs) (replicate 256 0)"

section \<open>The driver\<close>

record ps2 =
  k_dev :: devst
  k_apic :: apic
  k_bytes :: mem
  k_pipes :: "nat \<rightharpoonup> pipe"
  k_cache :: nat
  k_pipe :: nat
  shift_down :: int

definition pipes_of :: "ps2 \<Rightarrow> pstate" where
  "pipes_of s = \<lparr> p_objs = vo (dv (k_dev s)), p_bytes = k_bytes s, p_pipes = k_pipes s, p_cache = k_cache s \<rparr>"

definition put_pipes :: "ps2 \<Rightarrow> pstate \<Rightarrow> ps2" where
  "put_pipes s p = s\<lparr> k_dev := (k_dev s)\<lparr> dv := (dv (k_dev s))\<lparr> vo := p_objs p \<rparr> \<rparr>, k_bytes := p_bytes p,
     k_pipes := p_pipes p, k_cache := p_cache p \<rparr>"

definition on_pipes :: "ps2 \<Rightarrow> (pstate \<Rightarrow> ('a \<times> pstate) outcome) \<Rightarrow> ('a \<times> ps2) outcome" where
  "on_pipes s f = omap (\<lambda>(x, p). (x, put_pipes s p)) (f (pipes_of s))"

definition on_dev :: "ps2 \<Rightarrow> (devst \<Rightarrow> ('a \<times> devst) outcome) \<Rightarrow> ('a \<times> ps2) outcome" where
  "on_dev s f = omap (\<lambda>(x, d). (x, s\<lparr> k_dev := d \<rparr>)) (f (k_dev s))"

text \<open>The operations of the device, by the numbers their pointers have.\<close>

definition PS2_READ :: nat where "PS2_READ = 31"
definition PS2_OPEN :: nat where "PS2_OPEN = 32"
definition PS2_CLOSE :: nat where "PS2_CLOSE = 33"
definition KBD_HANDLER :: nat where "KBD_HANDLER = 34"

abbreviation (input) VECNUM_KEYBOARD :: nat where "VECNUM_KEYBOARD \<equiv> 0x21"
abbreviation (input) PS2_PIPE_SIZE :: u64 where "PS2_PIPE_SIZE \<equiv> 64"

text \<open>The key that was pressed: \<open>sc + 130\<close> is an \<open>int\<close>, so it may be the index 256 or 257.\<close>

definition code_index :: "int \<Rightarrow> u8 \<Rightarrow> nat" where
  "code_index shift sc = (if shift \<noteq> 0 then unat sc + 130 else unat sc)"

definition kbd_key :: "pipe_rw \<Rightarrow> nat \<Rightarrow> u8 \<Rightarrow> ps2 \<Rightarrow> ps2 outcome" where
  "kbd_key other codes_at sc s =
     (if sc AND 0x80 \<noteq> 0 then
        let sc = sc AND NOT 0x80 in Ret (if sc = R_SHIFT \<or> sc = L_SHIFT then s\<lparr> shift_down := 0 \<rparr> else s)
      else if sc = R_SHIFT \<or> sc = L_SHIFT then Ret (s\<lparr> shift_down := 1 \<rparr>)
      else omap snd (on_pipes s (\<lambda>p. pipe_write other p (k_pipe s) (codes_at + code_index (shift_down s) sc) 1)))"

definition kbd_handler :: "pipe_rw \<Rightarrow> nat \<Rightarrow> hardware \<Rightarrow> ps2 \<Rightarrow> (u32 \<times> ps2) outcome" where
  "kbd_handler other codes_at hw s =
     (let (sc, h) = inb hw (ap_hist (k_apic s)) 0x60 in
      bnd (kbd_key other codes_at sc (s\<lparr> k_apic := (k_apic s)\<lparr> ap_hist := h \<rparr> \<rparr>)) (\<lambda>s.
      Ret (IRQ_HANDLED, s\<lparr> k_apic := lapic_ack_interrupt (k_apic s) \<rparr>)))"

definition ps2_read :: "pipe_rw \<Rightarrow> ps2 \<Rightarrow> nat \<Rightarrow> u64 \<Rightarrow> u64 \<Rightarrow> nat \<Rightarrow> (int \<times> ps2) outcome" where
  "ps2_read other s file offset sz buffer =
     (if file = 0 \<or> buffer = 0 \<or> sz = 0 then Ret (- EINVAL, s)
      else
        bnd (deref (v_files (vo (dv (k_dev s)))) file) (\<lambda>f.
        on_pipes s (\<lambda>p. pipe_read other p (f_private f) buffer sz)))"

definition ps2_open :: "ps2 \<Rightarrow> nat \<Rightarrow> u32 \<Rightarrow> (nat \<times> ps2) outcome" where
  "ps2_open s dntr mode =
     on_dev s (\<lambda>d. on_ob d (\<lambda>v.
       if mode \<noteq> O_RDONLY then fail v EINVAL
       else
         bnd (file_generic_alloc v) (\<lambda>(file, v).
         if file = 0 then Ret (0, v)
         else
           bnd (deref (v_dentries v) dntr) (\<lambda>de.
           bnd (deref (v_inodes v) (d_inode de)) (\<lambda>ino.
           bnd (upd_file v file (\<lambda>f. f\<lparr> f_ops := i_fops ino, f_mode := mode, f_private := k_pipe s \<rparr>)) (\<lambda>v.
           bnd (upd_inode v (d_inode de) (\<lambda>i. i\<lparr> i_count := i_count i + 1 \<rparr>)) (\<lambda>v.
           Ret (file, v))))))))"

definition ps2_close :: "ps2 \<Rightarrow> nat \<Rightarrow> (int \<times> ps2) outcome" where
  "ps2_close s file = on_dev s (\<lambda>d. on_ob d (\<lambda>v. file_generic_dealloc v file))"

text \<open>
  \<open>kfree\<close> of the pipe and of the operations. The labels of the error path are functions, each
  falling into the one below it; the result is \<open>-errno\<close>, whatever the failed call returned.
\<close>

definition kfree_pipe :: "ps2 \<Rightarrow> ps2" where
  "kfree_pipe s = s\<lparr> k_pipes := (k_pipes s)(k_pipe s := None) \<rparr>"

definition kfree_ops :: "ps2 \<Rightarrow> nat \<Rightarrow> ps2" where
  "kfree_ops s ops = s\<lparr> k_dev := (k_dev s)\<lparr> dv := (dv (k_dev s))\<lparr> vo := (vo (dv (k_dev s)))\<lparr>
     v_fops := (v_fops (vo (dv (k_dev s))))(ops := None) \<rparr> \<rparr> \<rparr> \<rparr>"

definition ps2_error :: "ps2 \<Rightarrow> (int \<times> ps2) outcome" where
  "ps2_error s = (let s = kfree_pipe s in Ret (- v_errno (vo (dv (k_dev s))), s))"

definition ps2_error_cdev :: "ps2 \<Rightarrow> nat \<Rightarrow> nat \<Rightarrow> (int \<times> ps2) outcome" where
  "ps2_error_cdev s ops dev =
     bnd (cdev_dealloc (k_dev s) dev) (\<lambda>d. ps2_error (kfree_ops (s\<lparr> k_dev := d \<rparr>) ops))"

definition ps2_enable :: "ps2 \<Rightarrow> (int \<times> ps2) outcome" where
  "ps2_enable s =
     bnd (ioapic_enable_irq (k_apic s) 0 (of_nat VECNUM_KEYBOARD)) (\<lambda>a.
     bnd (irq_install_handler (ap_irqs a) (int VECNUM_KEYBOARD) KBD_HANDLER 0) (\<lambda>t.
     Ret (0, s\<lparr> k_apic := a\<lparr> ap_irqs := t \<rparr> \<rparr>)))"

text \<open>What follows once the pipe is there. \<open>popen\<close> is what a foreign open pointer does.\<close>

definition ps2_register ::
    "nat \<Rightarrow> lookup_call \<Rightarrow> cstring \<Rightarrow> (nat \<Rightarrow> pstate \<Rightarrow> nat \<Rightarrow> u32 \<Rightarrow> (nat \<times> pstate) outcome) \<Rightarrow> ps2 \<Rightarrow> (int \<times> ps2) outcome" where
  "ps2_register fuel call rest popen s =
     bnd (on_dev s (\<lambda>d. on_ob d new)) (\<lambda>(ops, s).
     if ops = 0 then ps2_error s
     else
       let fo = \<lparr> fo_read = PS2_READ, fo_write = 0, fo_open = PS2_OPEN, fo_close = PS2_CLOSE, fo_seek = 0 \<rparr>;
           s = s\<lparr> k_dev := (k_dev s)\<lparr> dv := (dv (k_dev s))\<lparr> vo := (vo (dv (k_dev s)))\<lparr>
                 v_fops := (v_fops (vo (dv (k_dev s))))(ops \<mapsto> fo) \<rparr> \<rparr> \<rparr> \<rparr> in
       bnd (on_dev s (\<lambda>d. cdev_alloc d (Some (str ''kbd'')) ops 0)) (\<lambda>(dev, s).
       if dev = 0 then ps2_error (kfree_ops s ops)
       else
         bnd (on_dev s (\<lambda>d. devfs_register_cdev fuel call rest d dev (str ''kbd''))) (\<lambda>(ret, s).
         if ret < 0 then ps2_error_cdev s ops dev
         else
           bnd (on_pipes s (\<lambda>p. pipe_open popen p (k_pipe s) O_WRONLY)) (\<lambda>(ret, s).
           if ret < 0 then ps2_error_cdev s ops dev else ps2_enable s))))"

definition ps2_init ::
    "nat \<Rightarrow> lookup_call \<Rightarrow> cstring \<Rightarrow> (nat \<Rightarrow> pstate \<Rightarrow> nat \<Rightarrow> u32 \<Rightarrow> (nat \<times> pstate) outcome) \<Rightarrow> ps2 \<Rightarrow> (int \<times> ps2) outcome" where
  "ps2_init fuel call rest popen s =
     bnd (on_pipes s (\<lambda>p. pipe_create p PS2_PIPE_SIZE)) (\<lambda>(p, s).
     let s = s\<lparr> k_pipe := p \<rparr> in
     if p = 0 then Ret (- v_errno (vo (dv (k_dev s))), s) else ps2_register fuel call rest popen s)"

section \<open>The pipe below the keyboard\<close>

text \<open>Copying writes its destination and nothing else, and maps nothing new.\<close>

lemma st_frame: "st m p b = Ret m' \<Longrightarrow> dom m' = dom m \<and> (\<forall>a. a \<noteq> p \<longrightarrow> m' a = m a)"
  by (auto simp: st_def split: if_splits)

lemma kmemcpy_loop_frame:
  "kmemcpy_loop m d s n i = Ret m' \<Longrightarrow> dom m' = dom m \<and> (\<forall>a. a < d + i \<or> d + n \<le> a \<longrightarrow> m' a = m a)"
proof (induction m d s n i rule: kmemcpy_loop.induct)
  case (1 m d s n i)
  show ?case
  proof (cases "i < n")
    case True
    then obtain b m1 where b: "ld m (s + i) = Ret b" "st m (d + i) b = Ret m1" "kmemcpy_loop m1 d s n (i + 1) = Ret m'"
      using 1(2) by (subst (asm) kmemcpy_loop.simps) (auto simp: outcome_ret_iff)
    from 1(1) [OF True b] st_frame [OF b(2)] True show ?thesis by auto
  next
    case False
    then show ?thesis using 1(2) by (subst (asm) kmemcpy_loop.simps) simp
  qed
qed

lemma kmemmove_down_frame:
  "kmemmove_down m d s n = Ret m' \<Longrightarrow> dom m' = dom m \<and> (\<forall>a. a < d \<or> d + n \<le> a \<longrightarrow> m' a = m a)"
  by (induction n arbitrary: m) (fastforce simp: outcome_ret_iff dest!: st_frame)+

lemma copy_frames:
  "kmemcpy m d s n = Ret m' \<Longrightarrow> dom m' = dom m \<and> (\<forall>a. a < d \<or> d + n \<le> a \<longrightarrow> m' a = m a)"
  "kmemmove m d s n = Ret m' \<Longrightarrow> dom m' = dom m \<and> (\<forall>a. a < d \<or> d + n \<le> a \<longrightarrow> m' a = m a)"
  using kmemcpy_loop_frame [of m d s n 0 m'] kmemmove_down_frame [of m d s n m']
  by (auto simp: kmemcpy_def kmemmove_def split: if_splits)

text \<open>What a read changes: the fill count, the buffer of the caller and the memory of the pipe.\<close>

lemma read_frame:
  assumes "pipe_ok P s" and "pipe_read other s P b n = Ret (r, s')" and "b \<noteq> 0" and "n \<noteq> 0"
  obtains m k where "s' = set_pipe (s\<lparr> p_bytes := m \<rparr>) P ((the_pipe P s)\<lparr> pi_ptr := k \<rparr>)"
    "unat k \<le> unat (pi_ptr (the_pipe P s))" "dom m = dom (p_bytes s)"
    "\<forall>a. (a < b \<or> b + unat n \<le> a) \<and> (a < pi_mem (the_pipe P s) \<or> pi_mem (the_pipe P s) + unat (pi_size (the_pipe P s)) \<le> a)
        \<longrightarrow> m a = p_bytes s a"
proof -
  let ?p = "the_pipe P s"
  obtain f where p: "P \<noteq> 0" "p_pipes s P = Some ?p" "pi_file ?p \<noteq> 0" "v_files (p_objs s) (pi_file ?p) = Some f" "f_private f = P"
      "unat (pi_ptr ?p) \<le> unat (pi_size ?p)" "unat (pi_size ?p) < 2 ^ 63" "mapped (p_bytes s) (pi_mem ?p) (unat (pi_size ?p))"
    by (rule pipe_okD [OF assms(1)])
  have r: "pipe_read_op s (pi_file ?p) 0 n b = Ret (r, s')"
    using pipe_calls(1) [OF assms(1,3,4)] assms(2) by simp
  consider (empty) "pi_ptr ?p = 0" | (all) "pi_ptr ?p \<noteq> 0" "pi_ptr ?p \<le> n" | (part) "pi_ptr ?p \<noteq> 0" "n < pi_ptr ?p"
    by fastforce
  then show thesis
  proof cases
    case empty
    then have "s' = s" using r p assms(3,4) by (simp add: pipe_read_op_def)
    moreover have "s = set_pipe (s\<lparr> p_bytes := p_bytes s \<rparr>) P (?p\<lparr> pi_ptr := pi_ptr ?p \<rparr>)"
      using p(2) by (simp add: set_pipe_def fun_upd_idem)
    ultimately show thesis using that [of "p_bytes s" "pi_ptr ?p"] by simp
  next
    case all
    then obtain m where m: "kmemcpy (p_bytes s) b (pi_mem ?p) (unat (pi_ptr ?p)) = Ret m"
        "s' = set_pipe (s\<lparr> p_bytes := m \<rparr>) P (?p\<lparr> pi_ptr := 0 \<rparr>)"
      using r p assms(3,4) by (auto simp: pipe_read_op_def Let_def outcome_ret_iff not_less [symmetric])
    have "unat (pi_ptr ?p) \<le> unat n" using all(2) by (simp add: word_le_nat_alt)
    moreover have "m a = p_bytes s a" if "a < b \<or> b + unat n \<le> a" for a
      using that copy_frames(1) [OF m(1)] \<open>unat (pi_ptr ?p) \<le> unat n\<close> by auto
    ultimately show thesis using that [OF m(2)] copy_frames(1) [OF m(1)] by auto
  next
    case part
    then have "\<not> pi_ptr ?p \<le> n" by (simp add: not_le)
    with part obtain m m' where m: "kmemcpy (p_bytes s) b (pi_mem ?p) (unat n) = Ret m"
        "kmemmove m (pi_mem ?p) (pi_mem ?p + unat n) (unat (pi_ptr ?p - n)) = Ret m'"
        "s' = set_pipe (s\<lparr> p_bytes := m' \<rparr>) P (?p\<lparr> pi_ptr := pi_ptr ?p \<rparr>)"
      using r p assms(3,4) by (auto simp: pipe_read_op_def Let_def outcome_ret_iff)
    have "unat (pi_ptr ?p - n) \<le> unat (pi_size ?p)"
      using part(2) p(6) by (simp add: unat_sub word_less_nat_alt word_le_nat_alt)
    then have "m' a = m a" if "a < pi_mem ?p \<or> pi_mem ?p + unat (pi_size ?p) \<le> a" for a
      using that copy_frames(2) [OF m(2)] by auto
    then show thesis using that [OF m(3)] copy_frames(1) [OF m(1)] copy_frames(2) [OF m(2)] by auto
  qed
qed

lemma mapped_dom: "dom m' = dom m \<Longrightarrow> mapped m a n \<Longrightarrow> mapped m' a n"
  by (auto simp: mapped_def dom_def set_eq_iff)

lemma read_keeps:
  assumes "pipe_ok P s" and "pipe_read other s P b n = Ret (r, s')" and "b \<noteq> 0" and "n \<noteq> 0"
  shows "pipe_ok P s'" and "pipe_cap P s' = pipe_cap P s" and "p_objs s' = p_objs s"
    and "buf P s c zs \<Longrightarrow> c + length zs \<le> b \<or> b + unat n \<le> c \<Longrightarrow> buf P s' c zs"
proof -
  obtain m k where m: "s' = set_pipe (s\<lparr> p_bytes := m \<rparr>) P ((the_pipe P s)\<lparr> pi_ptr := k \<rparr>)"
    "unat k \<le> unat (pi_ptr (the_pipe P s))" "dom m = dom (p_bytes s)"
    "\<forall>a. (a < b \<or> b + unat n \<le> a) \<and> (a < pi_mem (the_pipe P s) \<or> pi_mem (the_pipe P s) + unat (pi_size (the_pipe P s)) \<le> a)
        \<longrightarrow> m a = p_bytes s a"
    by (rule read_frame [OF assms])
  show "pipe_ok P s'" unfolding m(1)
    using assms(1) m(2) mapped_dom [OF m(3)] by (intro pipe_ok_step) (auto elim!: pipe_okD)
  show "pipe_cap P s' = pipe_cap P s" "p_objs s' = p_objs s" by (simp_all add: m(1) pipe_cap_def set_pipe_def the_pipe_def)
  assume c: "buf P s c zs" "c + length zs \<le> b \<or> b + unat n \<le> c"
  then have "Pipe.bytes_at m c (length zs) = Pipe.bytes_at (p_bytes s) c (length zs)"
    using m(4) by (intro Pipe.bytes_at_cong) (auto simp: buf_def)
  then show "buf P s' c zs" using c(1) mapped_dom [OF m(3)] by (simp add: m(1) buf_def)
qed

lemma write_objs: "pipe_ok P s \<Longrightarrow> b \<noteq> 0 \<Longrightarrow> n \<noteq> 0 \<Longrightarrow> pipe_write other s P b n = Ret (r, s') \<Longrightarrow> p_objs s' = p_objs s"
  unfolding pipe_calls(2)
  by (cases "pi_size (the_pipe P s) - pi_ptr (the_pipe P s) < n"; elim pipe_okD)
    (auto simp: pipe_write_op_def outcome_ret_iff set_pipe_def)

lemma buf_sub: "buf P s b xs \<Longrightarrow> i < length xs \<Longrightarrow> buf P s (b + i) [xs ! i]"
proof -
  assume b: "buf P s b xs" and i: "i < length xs"
  then have "mapped (p_bytes s) (b + i) 1" by (intro mapped_sub [of _ _ "length xs"]) (auto simp: buf_def)
  moreover have "Pipe.bytes_at (p_bytes s) b (length xs) ! i = xs ! i" using b by (simp add: buf_def)
  then have "the (p_bytes s (b + i)) = xs ! i" using i by (simp add: Pipe.bytes_at_def)
  ultimately show "buf P s (b + i) [xs ! i]" using b i by (auto simp: buf_def Pipe.bytes_at_def)
qed
section \<open>The keyboard as a decoder\<close>

text \<open>
  The driver is set up: its pipe is, with room for 64 bytes, and the table stands in memory
  apart from the memory of the pipe, with two more bytes behind it.
\<close>

definition kbd_ok :: "nat \<Rightarrow> ps2 \<Rightarrow> bool" where
  "kbd_ok codes_at s \<longleftrightarrow> pipe_ok (k_pipe s) (pipes_of s) \<and> pipe_cap (k_pipe s) (pipes_of s) = 64 \<and>
     (\<exists>x y. buf (k_pipe s) (pipes_of s) codes_at (codes @ [x, y]))"

text \<open>What the driver is meant to be: the state of the shift keys and the bytes that wait.\<close>

type_synonym keyboard = "bool \<times> u8 list"

definition kview :: "ps2 \<Rightarrow> keyboard" where
  "kview s = (shift_down s \<noteq> 0, pipe_content (k_pipe s) (pipes_of s))"

definition key_step :: "u8 \<Rightarrow> keyboard \<Rightarrow> keyboard" where
  "key_step sc = (\<lambda>(sh, q).
     if 128 \<le> unat sc then (if unat sc - 128 \<in> {42, 54} then False else sh, q)
     else if unat sc \<in> {42, 54} then (True, q)
     else (sh, if length q < 64 then q @ [codes ! (if sh then unat sc + 130 else unat sc)] else q))"

lemma length_codes [simp]: "length codes = 256"
  by code_simp

text \<open>With shift a letter becomes its capital.\<close>

definition is_letter :: "u8 \<Rightarrow> bool" where "is_letter c \<longleftrightarrow> 97 \<le> c \<and> c \<le> 122"

lemma shift_capital: "i < 126 \<Longrightarrow> is_letter (codes ! i) \<Longrightarrow> codes ! (i + 130) = codes ! i - 32"
proof -
  assume i: "i < 126" and l: "is_letter (codes ! i)"
  have "list_all2 (\<lambda>c d. is_letter c \<longrightarrow> d = c - 32) (take 126 codes) (drop 130 codes)" by code_simp
  then show ?thesis using i l by (auto simp: list_all2_conv_all_nth add.commute)
qed

text \<open>Keys without an entry for shift, such as the space bar, give a zero byte.\<close>

lemma shift_space: "codes ! (57 + 130) = 0" "codes ! (28 + 130) = 0" "codes ! (5 + 130) = 0"
  by code_simp+

definition byte_facts :: "u8 \<Rightarrow> bool" where
  "byte_facts sc \<longleftrightarrow> (sc AND 0x80 \<noteq> 0) = (128 \<le> unat sc) \<and>
     (128 \<le> unat sc \<longrightarrow> (sc AND NOT 0x80 = 54 \<or> sc AND NOT 0x80 = 42) = (unat sc - 128 \<in> {42, 54}))"

lemma byte_facts: "byte_facts sc"
proof -
  have "list_all (\<lambda>n. byte_facts (word_of_nat n)) [0..<256]" by code_simp
  moreover have "unat sc < 2 ^ LENGTH(8)" by (rule unsigned_less)
  then have "unat sc \<in> set [0..<256]" by simp
  ultimately have "byte_facts (word_of_nat (unat sc))" unfolding list_all_iff by blast
  then show ?thesis by simp
qed

lemma shift_keys: "(sc = R_SHIFT \<or> sc = L_SHIFT) = (unat sc \<in> {42, 54})"
  by (auto simp: R_SHIFT_def L_SHIFT_def word_unat_eq_iff)

lemma pipes_of_put [simp]: "pipes_of (put_pipes s p) = p" "k_pipe (put_pipes s p) = k_pipe s"
    "k_apic (put_pipes s p) = k_apic s" "shift_down (put_pipes s p) = shift_down s"
  by (simp_all add: pipes_of_def put_pipes_def)

lemma pipes_of_upd [simp]: "pipes_of (s\<lparr> k_apic := a \<rparr>) = pipes_of s" "pipes_of (s\<lparr> shift_down := i \<rparr>) = pipes_of s"
  by (simp_all add: pipes_of_def)

lemma kbd_ok_upd [simp]: "kbd_ok c (s\<lparr> k_apic := a \<rparr>) = kbd_ok c s" "kbd_ok c (s\<lparr> shift_down := i \<rparr>) = kbd_ok c s"
  by (simp_all add: kbd_ok_def)

lemma kview_upd [simp]: "kview (s\<lparr> k_apic := a \<rparr>) = kview s"
  by (simp add: kview_def)

text \<open>Buffers of readers stay as they are.\<close>

definition keeps_buffers :: "ps2 \<Rightarrow> ps2 \<Rightarrow> bool" where
  "keeps_buffers s s' \<longleftrightarrow> k_pipe s' = k_pipe s \<and> p_objs (pipes_of s') = p_objs (pipes_of s) \<and>
     (\<forall>c ys. buf (k_pipe s) (pipes_of s) c ys \<longrightarrow> buf (k_pipe s) (pipes_of s') c ys)"

text \<open>A key that writes, with the byte \<open>c\<close> the table has for it.\<close>

lemma key_write:
  assumes ok: "kbd_ok codes_at s" and i: "i < 258"
  shows "\<exists>r s'. on_pipes s (\<lambda>p. pipe_write other p (k_pipe s) (codes_at + i) 1) = Ret (r, s') \<and> kbd_ok codes_at s' \<and>
    keeps_buffers s s' \<and> k_apic s' = k_apic s \<and>
    (i < 256 \<longrightarrow> kview s' = (shift_down s \<noteq> 0, let q = snd (kview s) in if length q < 64 then q @ [codes ! i] else q))"
proof -
  let ?P = "k_pipe s" and ?p = "pipes_of s"
  obtain x y where p: "pipe_ok ?P ?p" "pipe_cap ?P ?p = 64" and b: "buf ?P ?p codes_at (codes @ [x, y])"
    using ok by (auto simp: kbd_ok_def)
  have key: "buf ?P ?p (codes_at + i) [(codes @ [x, y]) ! i]" using buf_sub [OF b, of i] i by simp
  then have a: "codes_at + i \<noteq> 0" by (simp add: buf_def)
  show ?thesis
  proof (cases "length (pipe_content ?P ?p) < 64")
    case True
    then obtain p' where p': "pipe_write other ?p ?P (codes_at + i) 1 = Ret (1, p')" "pipe_ok ?P p'" "pipe_cap ?P p' = 64"
        "pipe_content ?P p' = pipe_content ?P ?p @ [(codes @ [x, y]) ! i]" "\<forall>c ys. buf ?P ?p c ys \<longrightarrow> buf ?P p' c ys"
      using pq.put_fits [OF p(1) key, where other = other] p(2) by auto
    from write_objs [OF p(1) a _ p'(1)] p' b True show ?thesis
      by (auto simp: on_pipes_def kbd_ok_def kview_def nth_append keeps_buffers_def)
  next
    case False
    then have "pipe_write other ?p ?P (codes_at + i) 1 = Ret (- ENOSPC, ?p)" using pq.put_full [OF p(1) key] p(2) by simp
    moreover have "put_pipes s ?p = s" by (simp add: put_pipes_def pipes_of_def)
    ultimately show ?thesis using ok False by (auto simp: on_pipes_def kview_def keeps_buffers_def)
  qed
qed

lemma kbd_key_ok:
  assumes ok: "kbd_ok codes_at s"
  shows "\<exists>s'. kbd_key other codes_at sc s = Ret s' \<and> kbd_ok codes_at s' \<and> keeps_buffers s s' \<and> k_apic s' = k_apic s \<and>
    (unat sc < 126 \<or> 128 \<le> unat sc \<longrightarrow> kview s' = key_step sc (kview s))"
proof (cases "sc AND 0x80 = 0 \<and> unat sc \<notin> {42, 54}")
  case True
  let ?i = "code_index (shift_down s) sc"
  have sc: "unat sc < 128" "sc \<noteq> R_SHIFT" "sc \<noteq> L_SHIFT" 
    using True byte_facts [of sc] shift_keys [of sc] by (auto simp: byte_facts_def not_le [symmetric])
  then have "?i < 258" "unat sc < 126 \<longrightarrow> ?i < 256" by (simp_all add: code_index_def)
  with key_write [OF ok, of ?i other] True sc show ?thesis
    by (auto simp: kbd_key_def key_step_def kview_def code_index_def Let_def split_beta)
next
  case False
  then show ?thesis using ok byte_facts [of sc] shift_keys [of sc] shift_keys [of "sc AND NOT 0x80"]
    by (auto simp: kbd_key_def key_step_def kview_def byte_facts_def Let_def R_SHIFT_def L_SHIFT_def keeps_buffers_def)
qed

lemma kbd_handler_ok:
  assumes ok: "kbd_ok codes_at s" and "sc = ucast (hw_port hw (ap_hist (k_apic s)) 0x60)"
  shows "\<exists>s'. kbd_handler other codes_at hw s = Ret (IRQ_HANDLED, s') \<and> kbd_ok codes_at s' \<and> keeps_buffers s s' \<and>
    lapic_base (k_apic s') = lapic_base (k_apic s) \<and>
    ap_hist (k_apic s') = MWrite (lapic_base (k_apic s) + LAPIC_REG_EOI) 0 # In8 0x60 sc # ap_hist (k_apic s) \<and>
    (unat sc < 126 \<or> 128 \<le> unat sc \<longrightarrow> kview s' = key_step sc (kview s))"
proof -
  let ?s = "s\<lparr> k_apic := (k_apic s)\<lparr> ap_hist := In8 0x60 sc # ap_hist (k_apic s) \<rparr> \<rparr>"
  have "kbd_ok codes_at ?s" using ok by simp
  from kbd_key_ok [OF this, of other sc] assms(2) show ?thesis
    by (auto simp: kbd_handler_def inb_def lapic_ack_interrupt_def write_32_def Let_def keeps_buffers_def)
qed
text \<open>
  A keyboard: the \<open>i\<close>-th read of port 0x60 gives the \<open>i\<close>-th of the scan codes \<open>scs\<close>. Several
  interrupts in a row are as many calls of the handler.
\<close>

definition port_reads :: "history \<Rightarrow> nat" where
  "port_reads h = length (filter (\<lambda>e. case e of In8 p _ \<Rightarrow> p = 0x60 | _ \<Rightarrow> False) h)"

definition sends :: "hardware \<Rightarrow> u8 list \<Rightarrow> bool" where
  "sends hw scs \<longleftrightarrow> (\<forall>h. port_reads h < length scs \<longrightarrow> ucast (hw_port hw h 0x60) = scs ! port_reads h)"

primrec interrupts :: "pipe_rw \<Rightarrow> nat \<Rightarrow> hardware \<Rightarrow> nat \<Rightarrow> ps2 \<Rightarrow> ps2 outcome" where
  "interrupts other codes_at hw 0 s = Ret s"
| "interrupts other codes_at hw (Suc n) s =
     bnd (kbd_handler other codes_at hw s) (\<lambda>(_, s). interrupts other codes_at hw n s)"

text \<open>What the handlers do to the devices: a scan code is read and the interrupt is acknowledged.\<close>

definition key_log :: "u64 \<Rightarrow> u8 list \<Rightarrow> history" where
  "key_log eoi scs = concat (map (\<lambda>sc. [MWrite eoi 0, In8 0x60 sc]) (rev scs))"

lemma interrupts_decode:
  "kbd_ok codes_at s \<Longrightarrow> sends hw all_scs \<Longrightarrow> drop (port_reads (ap_hist (k_apic s))) all_scs = scs \<Longrightarrow>
   \<forall>sc\<in>set scs. unat sc < 126 \<or> 128 \<le> unat sc \<Longrightarrow>
   \<exists>s'. interrupts other codes_at hw (length scs) s = Ret s' \<and> kbd_ok codes_at s' \<and> keeps_buffers s s' \<and> kview s' = fold key_step scs (kview s) \<and>
     ap_hist (k_apic s') = key_log (lapic_base (k_apic s) + LAPIC_REG_EOI) scs @ ap_hist (k_apic s)"
proof (induction scs arbitrary: s)
  case Nil
  then show ?case by (simp add: key_log_def keeps_buffers_def)
next
  case (Cons sc scs)
  let ?n = "port_reads (ap_hist (k_apic s))"
  have n: "?n < length all_scs" using Cons.prems(3) by (metis drop_all list.distinct(1) not_le)
  then have sc: "all_scs ! ?n = sc" "drop (Suc ?n) all_scs = scs" using Cons.prems(3) by (metis Cons_nth_drop_Suc list.inject)+
  have "sc = ucast (hw_port hw (ap_hist (k_apic s)) 0x60)" using Cons.prems(2) n sc(1) by (simp add: sends_def)
  from kbd_handler_ok [OF Cons.prems(1) this, of other] Cons.prems(4) obtain s1 where s1:
      "kbd_handler other codes_at hw s = Ret (IRQ_HANDLED, s1)" "kbd_ok codes_at s1" "keeps_buffers s s1"
      "lapic_base (k_apic s1) = lapic_base (k_apic s)"
      "ap_hist (k_apic s1) = MWrite (lapic_base (k_apic s) + LAPIC_REG_EOI) 0 # In8 0x60 sc # ap_hist (k_apic s)"
      "kview s1 = key_step sc (kview s)" by auto
  have "port_reads (ap_hist (k_apic s1)) = Suc ?n" using s1(5) by (simp add: port_reads_def)
  then obtain s2 where "interrupts other codes_at hw (length scs) s1 = Ret s2" "kbd_ok codes_at s2" "keeps_buffers s1 s2"
      "kview s2 = fold key_step scs (kview s1)"
      "ap_hist (k_apic s2) = key_log (lapic_base (k_apic s1) + LAPIC_REG_EOI) scs @ ap_hist (k_apic s1)"
    using Cons.IH [OF s1(2) Cons.prems(2)] sc(2) Cons.prems(4) by auto
  then show ?case using s1 by (auto simp: key_log_def keeps_buffers_def)
qed

text \<open>A file of the keyboard: an open file whose private data is the pipe.\<close>

definition kbd_file :: "ps2 \<Rightarrow> nat \<Rightarrow> bool" where
  "kbd_file s file \<longleftrightarrow> file \<noteq> 0 \<and> (\<exists>f. v_files (p_objs (pipes_of s)) file = Some f \<and> f_private f = k_pipe s)"

text \<open>A buffer of a reader, apart from the memory of the pipe and from the table.\<close>

definition reader_buf :: "nat \<Rightarrow> ps2 \<Rightarrow> nat \<Rightarrow> u8 list \<Rightarrow> bool" where
  "reader_buf codes_at s b ys \<longleftrightarrow> buf (k_pipe s) (pipes_of s) b ys \<and> (codes_at + 258 \<le> b \<or> b + length ys \<le> codes_at)"

lemma ps2_read_pipe:
  "kbd_file s file \<Longrightarrow> b \<noteq> 0 \<Longrightarrow> n \<noteq> 0 \<Longrightarrow>
   ps2_read other s file off n b = on_pipes s (\<lambda>p. pipe_read other p (k_pipe s) b n)"
  by (auto simp: kbd_file_def ps2_read_def pipes_of_def)

lemma kbd_ok_read:
  assumes ok: "kbd_ok codes_at s" and r: "pipe_read other (pipes_of s) (k_pipe s) b n = Ret (r, p)" and "b \<noteq> 0" "n \<noteq> 0"
    and apart: "codes_at + 258 \<le> b \<or> b + unat n \<le> codes_at"
  shows "kbd_ok codes_at (put_pipes s p)"
proof -
  obtain x y where p: "pipe_ok (k_pipe s) (pipes_of s)" "pipe_cap (k_pipe s) (pipes_of s) = 64"
      "buf (k_pipe s) (pipes_of s) codes_at (codes @ [x, y])" using ok by (auto simp: kbd_ok_def)
  have "buf (k_pipe s) p codes_at (codes @ [x, y])"
    by (rule read_keeps(4) [OF p(1) r assms(3,4) p(3)]) (use apart in auto)
  then show ?thesis using read_keeps(1,2) [OF p(1) r assms(3,4)] p(2) by (auto simp: kbd_ok_def)
qed
section \<open>Properties\<close>

text \<open>A read of any length returns.\<close>

lemma read_returns:
  assumes "pipe_ok P s" and "buf P s b ys" and "ys \<noteq> []"
  shows "\<exists>r s'. pipe_read other s P b (of_nat (length ys)) = Ret (r, s')"
proof -
  consider "pipe_content P s = []" | "pipe_content P s \<noteq> []" "length (pipe_content P s) \<le> length ys"
    | "length ys < length (pipe_content P s)" by linarith
  then show ?thesis
  proof cases
    case 1
    then have "pi_ptr (the_pipe P s) = 0" by (simp add: pipe_content_def Pipe.bytes_at_def unat_eq_zero)
    moreover have "b \<noteq> 0" "(of_nat (length ys) :: u64) \<noteq> 0" 
      using of_nat_len [of "length ys"] assms(2,3) by (auto simp: buf_def unat_eq_zero [symmetric] simp del: unat_eq_zero)
    ultimately show ?thesis using pipe_calls(1) [OF assms(1)] assms(1) by (auto elim!: pipe_okD simp: pipe_read_op_def)
  next
    case 2
    then show ?thesis using pq.get_all [OF assms(1,2), where other = other] by blast
  next
    case 3
    then show ?thesis using pipe_partial_read [OF assms(1,2,3), of other] by blast
  qed
qed

text \<open>A buffer a reader may pass: NULL or empty, or mapped and apart from the driver's own memory.\<close>

definition reader_may :: "nat \<Rightarrow> ps2 \<Rightarrow> nat \<Rightarrow> u64 \<Rightarrow> bool" where
  "reader_may codes_at s b n \<longleftrightarrow> b = 0 \<or> n = 0 \<or> (\<exists>ys. length ys = unat n \<and> reader_buf codes_at s b ys)"

lemma ps2_read_ok:
  assumes ok: "kbd_ok codes_at s" and f: "kbd_file s file" and m: "reader_may codes_at s b n"
  shows "\<exists>r s'. ps2_read other s file off n b = Ret (r, s') \<and> kbd_ok codes_at s'"
proof (cases "b = 0 \<or> n = 0")
  case True
  then show ?thesis using ok by (auto simp: ps2_read_def)
next
  case False
  with m obtain ys where ys: "length ys = unat n" "buf (k_pipe s) (pipes_of s) b ys"
      "codes_at + 258 \<le> b \<or> b + length ys \<le> codes_at" by (auto simp: reader_may_def reader_buf_def)
  have n: "of_nat (length ys) = n" "ys \<noteq> []" using ys(1) False by (auto simp: unat_eq_zero)
  obtain r p where p: "pipe_read other (pipes_of s) (k_pipe s) b n = Ret (r, p)"
    using read_returns [OF _ ys(2) n(2), of other] n(1) ok by (auto simp: kbd_ok_def)
  have "kbd_ok codes_at (put_pipes s p)" by (rule kbd_ok_read [OF ok p]) (use False ys in auto)
  then show ?thesis using ps2_read_pipe [OF f, of b n other off] False p by (auto simp: on_pipes_def)
qed

text \<open>
  What can happen to a keyboard that is set up: an interrupt, with whatever the port answers, or
  a read of any length.
\<close>

inductive kbd_reach :: "pipe_rw \<Rightarrow> nat \<Rightarrow> ps2 \<Rightarrow> ps2 \<Rightarrow> bool" for other :: pipe_rw and codes_at :: nat and s0 :: ps2 where
  start: "kbd_reach other codes_at s0 s0"
| key: "kbd_reach other codes_at s0 s \<Longrightarrow> kbd_handler other codes_at hw s = Ret (r, s') \<Longrightarrow> kbd_reach other codes_at s0 s'"
| read: "kbd_reach other codes_at s0 s \<Longrightarrow> kbd_file s file \<Longrightarrow> reader_may codes_at s b n \<Longrightarrow>
    ps2_read other s file off n b = Ret (n', s') \<Longrightarrow> kbd_reach other codes_at s0 s'"

lemma kbd_reach_ok:
  assumes "kbd_reach other codes_at s0 s" and "kbd_ok codes_at s0"
  shows "kbd_ok codes_at s"
  using assms
proof (induction rule: kbd_reach.induct)
  case (key s hw r s')
  then show ?case using kbd_handler_ok [of codes_at s _ hw other] by fastforce
next
  case (read s fl b n off n' s')
  then show ?case using ps2_read_ok [of codes_at s fl b n other off] by fastforce
qed

lemma kview_fits: "kbd_ok codes_at s \<Longrightarrow> length (snd (kview s)) \<le> 64"
  by (auto simp: kbd_ok_def kview_def pipe_content_def pipe_cap_def elim!: pipe_okD)


section \<open>Bringing the keyboard up\<close>

text \<open>
  C35: after the last step of \<open>ps2_init\<close> a key press reaches the driver: the line of the keyboard is
  routed to its vector in the first I/O APIC, and the interrupt of that vector calls the handler
  once, provided that no other handler was installed on it before.
\<close>

theorem keyboard_connected:
  assumes "ps2_enable s = Ret (r, s')" and t: "irq_ok (ap_irqs (k_apic s))" "installed (ap_irqs (k_apic s) ! VECNUM_KEYBOARD) = 0"
    and keeps: "\<And>f s c r s'. call f s c = Ret (r, s') \<Longrightarrow> irqs s' = irqs s"
    and w: "irqs w = ap_irqs (k_apic s')"
  shows "r = 0 \<and> k_pipe s' = k_pipe s \<and> irq_ok (irqs w) \<and>
    reg_val (ap_hist (k_apic s')) (io_base (io_apics (k_apic s) ! 0)) (line_reg 1) = Some 0x21 \<and>
    interrupt_handler call w cpu (of_nat VECNUM_KEYBOARD) = omap snd (call KBD_HANDLER w cpu)"
proof -
  obtain a t' where a: "ioapic_enable_irq (k_apic s) 0 (of_nat VECNUM_KEYBOARD) = Ret a"
      "irq_install_handler (ap_irqs a) (int VECNUM_KEYBOARD) KBD_HANDLER 0 = Ret t'"
      "s' = s\<lparr> k_apic := a\<lparr> ap_irqs := t' \<rparr> \<rparr>" "r = 0"
    using assms(1) by (auto simp: ps2_enable_def outcome_ret_iff)
  have "ap_irqs a = ap_irqs (k_apic s)" using a(1) by (auto simp: ioapic_enable_irq_def outcome_ret_iff Let_def)
  with install_ok [OF t(1), of VECNUM_KEYBOARD KBD_HANDLER 0] t(2) a(2)
  have t': "irq_ok t'" "installed (t' ! VECNUM_KEYBOARD) = 1"
      "take (installed (t' ! VECNUM_KEYBOARD)) (slots (t' ! VECNUM_KEYBOARD)) = [\<lparr> h_fun = KBD_HANDLER, h_ctx = 0 \<rparr>]"
    by (auto simp: KBD_HANDLER_def)
  have irqs: "irqs w = t'" using w a(3) by simp
  note l = irq_ok_nth [OF t'(1), of VECNUM_KEYBOARD]
  have "interrupt_handler call w cpu (of_nat VECNUM_KEYBOARD) = offer call cpu [\<lparr> h_fun = KBD_HANDLER, h_ctx = 0 \<rparr>] w"
    using irq_loop_offer [of call "t' ! VECNUM_KEYBOARD" w VECNUM_KEYBOARD 0 cpu, OF keeps] l irqs t'(2,3)
    by (simp add: interrupt_handler_def)
  moreover have "offer call cpu [\<lparr> h_fun = KBD_HANDLER, h_ctx = 0 \<rparr>] w = omap snd (call KBD_HANDLER w cpu)"
    by (cases "call KBD_HANDLER w cpu") (auto split: prod.splits)
  ultimately show ?thesis using a t'(1) irqs enable_irq_reg [OF a(1), of "line_reg 1"] by (simp add: line_reg_eq)
qed
section \<open>Instances\<close>

text \<open>The table at 256, the pipe at 16 with its buffer at 1024, and a reader's file at 48.\<close>

definition kbd_mem :: mem where
  "kbd_mem a = (if a < 2048 then Some (if 256 \<le> a \<and> a < 512 then codes ! (a - 256) else 0) else None)"

definition demo_kbd :: ps2 where
  "demo_kbd = \<lparr> k_dev = demo_dev\<lparr> dv := (dv demo_dev)\<lparr> vo := p_objs demo_pipe \<rparr> \<rparr>,
     k_apic = fresh_apic\<lparr> ap_irqs := irq_init 1 2, ap_mmu := full_mmu,
       io_apics := (io_apics fresh_apic)[0 := \<lparr> io_id = 0, io_base = 0x5000, io_intr = 0 \<rparr>] \<rparr>,
     k_bytes = kbd_mem, k_pipes = [16 \<mapsto> \<lparr> pi_file = 48, pi_mem = 1024, pi_size = 64, pi_ptr = 0, pi_nreaders = 0, pi_nwriters = 0 \<rparr>],
     k_cache = 1, k_pipe = 16, shift_down = 0 \<rparr>"

lemma demo_pipes:
  "pipes_of demo_kbd = \<lparr> p_objs = p_objs demo_pipe, p_bytes = kbd_mem,
     p_pipes = [16 \<mapsto> \<lparr> pi_file = 48, pi_mem = 1024, pi_size = 64, pi_ptr = 0, pi_nreaders = 0, pi_nwriters = 0 \<rparr>], p_cache = 1 \<rparr>"
  "k_pipe demo_kbd = 16"
  by (simp_all add: pipes_of_def demo_kbd_def)

lemma kbd_mem_mapped: "a + n \<le> 2048 \<Longrightarrow> mapped kbd_mem a n"
  by (simp add: mapped_def kbd_mem_def)

lemma demo_kbd_buf: "b \<noteq> 0 \<Longrightarrow> b + n \<le> 256 \<Longrightarrow> buf (k_pipe demo_kbd) (pipes_of demo_kbd) b (replicate n 0)"
  unfolding demo_pipes buf_def
  by (auto simp: kbd_mem_mapped the_pipe_def Pipe.bytes_at_def kbd_mem_def intro!: nth_equalityI)

lemma demo_kbd_ok: "kbd_ok 256 demo_kbd"
proof -
  have "Pipe.bytes_at kbd_mem 256 258 = codes @ [0, 0]"
    by (rule nth_equalityI) (auto simp: Pipe.bytes_at_def kbd_mem_def nth_append nth_Cons')
  then have "buf (k_pipe demo_kbd) (pipes_of demo_kbd) 256 (codes @ [0, 0])"
    by (simp add: demo_pipes buf_def kbd_mem_mapped the_pipe_def)
  moreover have "pipe_ok (k_pipe demo_kbd) (pipes_of demo_kbd)"
    by (simp add: demo_pipes pipe_ok_def demo_pipe_def kbd_mem_mapped zero_file_def zero_fops_def)
  ultimately show ?thesis by (auto simp: kbd_ok_def demo_pipes pipe_cap_def the_pipe_def)
qed

lemma demo_kbd_view: "kview demo_kbd = (False, [])"
  by (simp add: kview_def demo_pipes pipe_content_def Pipe.bytes_at_def the_pipe_def) (simp add: demo_kbd_def)

lemma demo_kbd_file: "kbd_file demo_kbd 48"
  by (simp add: kbd_file_def demo_pipes demo_pipe_def zero_file_def)



lemma keyboard_connected_witness:
  "\<exists>s'. ps2_enable demo_kbd = Ret (0, s') \<and>
    interrupt_handler (\<lambda>f s c. Ret (0, s\<lparr> world := f # world s \<rparr>)) \<lparr> irqs = ap_irqs (k_apic s'), world = [] \<rparr> 7 0x21 =
      Ret \<lparr> irqs = ap_irqs (k_apic s'), world = [KBD_HANDLER] \<rparr>"
proof -
  have "full full_mmu" by (simp add: full_def full_mmu_def present_def)
  moreover have "PAGE_ALIGNED 0x5000" "0x5000 \<noteq> INVALID_ADDRESS" by (simp_all add: PAGE_ALIGNED_def INVALID_ADDRESS_def)
  ultimately obtain mm where mm: "amd64_map_page full_mmu 0x5000 0x5000 (1 OR 2) = Ret mm" using map_full by blast
  let ?t = "irq_init 1 2"
  have t: "irq_ok ?t" "installed (?t ! VECNUM_KEYBOARD) = 0" by (simp_all add: irq_init_ok, simp add: irq_init_def free_line_def)
  obtain t' where t': "irq_install_handler ?t (int VECNUM_KEYBOARD) KBD_HANDLER 0 = Ret t'"
    using install_ok [OF t(1), of VECNUM_KEYBOARD KBD_HANDLER 0] t(2) by (auto simp: KBD_HANDLER_def)
  obtain s' where s': "ps2_enable demo_kbd = Ret (0, s')"
    using mm t' by (auto simp: ps2_enable_def ioapic_enable_irq_def demo_kbd_def fresh_apic_def Let_def)
  have "irq_ok (ap_irqs (k_apic demo_kbd))" "installed (ap_irqs (k_apic demo_kbd) ! VECNUM_KEYBOARD) = 0"
    using t by (simp_all add: demo_kbd_def)
  from keyboard_connected [OF s' this, of "\<lambda>f s c. Ret (0, s\<lparr> world := f # world s \<rparr>)" "\<lparr> irqs = ap_irqs (k_apic s'), world = [] \<rparr>" 7] s'
  show ?thesis by auto
qed

section \<open>What does not work\<close>

text \<open>
  A reader that takes one byte at a time, as a terminal does, gets the first of two waiting
  bytes, and afterwards as many wait as before.
\<close>

lemma kbd_one_byte:
  assumes "kbd_ok codes_at s" and "kview s = (sh, [x, y])" and "kbd_file s file" and "reader_buf codes_at s b [z]"
  shows "\<exists>s'. ps2_read other s file off 1 b = Ret (1, s') \<and> kview s' = (sh, [y, y])"
proof -
  have p: "pipe_ok (k_pipe s) (pipes_of s)" "pipe_content (k_pipe s) (pipes_of s) = [x, y]" "(shift_down s \<noteq> 0) = sh"
    "buf (k_pipe s) (pipes_of s) b [z]" using assms by (auto simp: kbd_ok_def kview_def reader_buf_def)
  obtain p' where "pipe_read other (pipes_of s) (k_pipe s) b 1 = Ret (1, p')" "pipe_content (k_pipe s) p' = [y, y]"
    using pipe_partial_read [OF p(1,4), of other] p(2) by auto
  then show ?thesis using ps2_read_pipe [OF assms(3), of b 1 other off] p(3,4) by (auto simp: on_pipes_def kview_def buf_def)
qed

text \<open>An open file of the keyboard shares the operations of the device, and closing it frees them.\<close>

lemma kbd_close_frees_ops:
  assumes "v_files (vo (dv (k_dev s))) file = Some f" and "file \<noteq> 0" and "f_count f \<le> 1" and "f_dentry f = 0" and "f_ops f \<noteq> 0"
    and "v_dentries (vo (dv (k_dev s))) dntr = Some d" and "dntr \<noteq> 0" and "d_inode d \<noteq> 0"
    and "v_inodes (vo (dv (k_dev s))) (d_inode d) = Some i" and "i_fops i = f_ops f"
  shows "\<exists>s'. ps2_close s file = Ret (0, s') \<and> file_open call (vo (dv (k_dev s'))) dntr mode = Halt MemFault"
  using assms by (simp add: ps2_close_def on_dev_def on_ob_def on_dv_def on_vo_def file_generic_dealloc_def file_open_def deref_def)

text \<open>\<open>pipe_create\<close> follows the NULL dentry of a new file, so the driver does not come up.\<close>

lemma ps2_init_faults:
  assumes "k_cache s \<noteq> 0" and "v_pool (vo (dv (k_dev s))) = a # b # c # as" and "a \<noteq> 0" "b \<noteq> 0" "c \<noteq> 0"
  shows "ps2_init fuel call rest popen s = Halt MemFault"
  using assms by (simp add: ps2_init_def on_pipes_def pipes_of_def pipe_create_def new_def file_generic_alloc_def
      zero_file_def zero_fops_def upd_dentry_def deref_def Let_def)

end
