(* ===== verification/Ktrace.thy ===== *)
theory Ktrace
  imports Kprint Multiboot
begin

unbundle bit_operations_syntax

text \<open>
  \<open>src/kernel/ktrace.c\<close>: the call stack that a failed assertion prints. The symbol table, the
  string table and the stack are in byte memory; \<open>Elf64_Sym\<close> has 24 bytes, with the name at 0, the
  type at 4, the value at 8 and the size at 16. What is printed is the list of bytes given to the
  console (theory Kprint). The addresses of the three string literals are the record \<open>literals\<close>.
\<close>

section \<open>The code\<close>

record ksyms =
  sym_addr :: nat
  sym_size :: nat
  str_addr :: nat
  str_size :: nat

record literals =
  lit_symbol :: nat
  lit_address :: nat
  lit_kmain :: nat

definition ktrace_register_sym :: "nat \<Rightarrow> nat \<Rightarrow> nat \<Rightarrow> nat \<Rightarrow> ksyms" where
  "ktrace_register_sym symtab symsz strtab strsz =
     \<lparr> sym_addr = symtab, sym_size = symsz, str_addr = strtab, str_size = strsz \<rparr>"

text \<open>The end of \<open>multiboot2_parse_elf\<close>, which starts from NULL pointers; sizes are \<open>int\<close>.\<close>

definition register_found :: "symtabs option \<Rightarrow> ksyms" where
  "register_found found =
     (case found of
        None \<Rightarrow> ktrace_register_sym 0 0 0 0
      | Some (sa, ss, ta, ts) \<Rightarrow>
          ktrace_register_sym (unat (amd64_p_to_v (of_nat sa))) (unat (scast (of_nat ss :: 32 word) :: u64))
            (unat (amd64_p_to_v (of_nat ta))) (unat (scast (of_nat ts :: 32 word) :: u64)))"

abbreviation (input) STT_FUNC :: nat where "STT_FUNC \<equiv> 2"
abbreviation (input) CALL_STACK_MAX_DEPTH :: nat where "CALL_STACK_MAX_DEPTH \<equiv> 8"

text \<open>One pass over the symbols: what is printed, and whether \<open>kmain\<close> has been reached.\<close>

function trace_loop :: "mem \<Rightarrow> literals \<Rightarrow> ksyms \<Rightarrow> u64 \<Rightarrow> nat \<Rightarrow> (u8 list \<times> bool) outcome" where
  "trace_loop m lits t rbp i =
     (if i < sym_size t then
        let iter = sym_addr t + i in
        bnd (ldn m (iter + 8) 8) (\<lambda>v. let st_value = of_nat v :: u64 in
        bnd (if st_value \<le> rbp then omap (\<lambda>n. rbp \<le> st_value + of_nat n) (ldn m (iter + 16) 8) else Ret False) (\<lambda>hit.
        if hit then
          bnd (ldn m (iter + 4) 1) (\<lambda>info.
          if of_nat info AND 0xf = (of_nat STT_FUNC :: u8) then
            bnd (ldn m iter 4) (\<lambda>st_name.
            bnd (kprint m (lit_symbol lits) [rbp, of_nat (str_addr t + st_name)]) (\<lambda>out.
            bnd (kstrcmp m (str_addr t + st_name) (lit_kmain lits)) (\<lambda>c.
            Ret (out, c = 0))))
          else
            bnd (kprint m (lit_address lits) [rbp]) (\<lambda>out.
            omap (\<lambda>(rest, stop). (out @ rest, stop)) (trace_loop m lits t rbp (i + 24))))
        else trace_loop m lits t rbp (i + 24)))
      else Ret ([], False))"
  by pat_completeness auto
termination by (relation "measure (\<lambda>(m, lits, t, rbp, i). sym_size t - i)") auto

declare trace_loop.simps [simp del]

definition trace :: "mem \<Rightarrow> literals \<Rightarrow> ksyms \<Rightarrow> u64 \<Rightarrow> (u8 list \<times> bool) outcome" where
  "trace m lits t rbp = trace_loop m lits t rbp 0"

text \<open>The saved base pointer is followed also after the last frame that is printed.\<close>

primrec ktrace_loop :: "nat \<Rightarrow> mem \<Rightarrow> literals \<Rightarrow> ksyms \<Rightarrow> nat \<Rightarrow> u8 list outcome" where
  "ktrace_loop 0 m lits t rbp = Ret []"
| "ktrace_loop (Suc n) m lits t rbp =
     bnd (ldn m (rbp + 8) 8) (\<lambda>ret.
     bnd (trace m lits t (of_nat ret)) (\<lambda>(out, stop).
     if stop then Ret out
     else bnd (ldn m rbp 8) (\<lambda>next. omap ((@) out) (ktrace_loop n m lits t next))))"

definition ktrace :: "mem \<Rightarrow> literals \<Rightarrow> ksyms \<Rightarrow> nat \<Rightarrow> u8 list outcome" where
  "ktrace m lits t rbp = ktrace_loop CALL_STACK_MAX_DEPTH m lits t rbp"

section \<open>Symbols and frames\<close>

record elf_sym =
  y_name :: nat
  y_text :: "u8 list"
  y_info :: u8
  y_value :: u64
  y_len :: u64

text \<open>Entry \<open>y\<close> of a symbol table at \<open>p\<close>, with its name in the string table at \<open>str\<close>.\<close>

definition sym_at :: "mem \<Rightarrow> nat \<Rightarrow> nat \<Rightarrow> elf_sym \<Rightarrow> bool" where
  "sym_at m str p y \<longleftrightarrow> ldn m p 4 = Ret (y_name y) \<and> ldn m (p + 4) 1 = Ret (unat (y_info y)) \<and>
     ldn m (p + 8) 8 = Ret (unat (y_value y)) \<and> ldn m (p + 16) 8 = Ret (unat (y_len y)) \<and>
     str + y_name y < 2 ^ 64 \<and> cstr m (str + y_name y) (y_text y)"

definition syms_at :: "mem \<Rightarrow> ksyms \<Rightarrow> elf_sym list \<Rightarrow> bool" where
  "syms_at m t ys \<longleftrightarrow> sym_size t = 24 * length ys \<and> (\<forall>i<length ys. sym_at m (str_addr t) (sym_addr t + 24 * i) (ys ! i))"

definition FMT_SYMBOL :: "u8 list" where "FMT_SYMBOL = [45, 45, 62, 32, 48, 120, 37, 120, 32, 37, 115, 10]"
definition FMT_ADDRESS :: "u8 list" where "FMT_ADDRESS = [45, 45, 62, 32, 48, 120, 37, 120, 10]"
definition KMAIN :: "u8 list" where "KMAIN = [107, 109, 97, 105, 110]"

definition literals_at :: "mem \<Rightarrow> literals \<Rightarrow> bool" where
  "literals_at m lits \<longleftrightarrow> cstr m (lit_symbol lits) FMT_SYMBOL \<and>
     cstr m (lit_address lits) FMT_ADDRESS \<and> cstr m (lit_kmain lits) KMAIN"

definition holds_addr :: "u64 \<Rightarrow> elf_sym \<Rightarrow> bool" where
  "holds_addr r y \<longleftrightarrow> y_value y \<le> r \<and> r \<le> y_value y + y_len y"

definition is_func :: "elf_sym \<Rightarrow> bool" where "is_func y \<longleftrightarrow> y_info y AND 0xf = 2"

text \<open>A line of the trace: the address in hexadecimal and, for a function, its name.\<close>

definition hex_line :: "u64 \<Rightarrow> u8 list" where "hex_line r = [45, 45, 62, 32, 48, 120] @ digits 16 (unat r)"
definition func_line :: "u64 \<Rightarrow> u8 list \<Rightarrow> u8 list" where "func_line r nm = hex_line r @ [32] @ nm @ [10]"

lemma print_symbol:
  assumes "literals_at m lits" and "cstr m p s" and "p < 2 ^ 64"
  shows "kprint m (lit_symbol lits) [r, of_nat p] = Ret (func_line r s)"
proof -
  have "unat (of_nat p :: u64) = p" using assms(3) by (simp add: unat_of_nat)
  then have "va_kprint m (lit_symbol lits) (concat (map conv_args [Lit 45, Lit 45, Lit 62, Lit 32, Lit 48, Lit 120, Hex r, Lit 32, Str (of_nat p) s, Lit 10])) =
    Ret (concat (map conv_out [Lit 45, Lit 45, Lit 62, Lit 32, Lit 48, Lit 120, Hex r, Lit 32, Str (of_nat p) s, Lit 10]))"
    using assms(1,2) by (intro va_kprint_formats) (simp_all add: literals_at_def FMT_SYMBOL_def [symmetric])
  then show ?thesis by (simp add: kprint_def func_line_def hex_line_def)
qed

lemma print_address:
  assumes "literals_at m lits"
  shows "kprint m (lit_address lits) [r] = Ret (hex_line r @ [10])"
proof -
  have "va_kprint m (lit_address lits) (concat (map conv_args [Lit 45, Lit 45, Lit 62, Lit 32, Lit 48, Lit 120, Hex r, Lit 10])) =
    Ret (concat (map conv_out [Lit 45, Lit 45, Lit 62, Lit 32, Lit 48, Lit 120, Hex r, Lit 10]))"
    using assms by (intro va_kprint_formats) (simp_all add: literals_at_def FMT_ADDRESS_def [symmetric])
  then show ?thesis by (simp add: kprint_def hex_line_def)
qed

section \<open>What is printed\<close>

text \<open>
  The symbols that contain an address, in the order of the table: a line without a name for each
  that is no function, up to the first function.
\<close>

fun lines_of :: "u64 \<Rightarrow> elf_sym list \<Rightarrow> u8 list \<times> bool" where
  "lines_of r [] = ([], False)"
| "lines_of r (y # ys) =
     (if is_func y then (func_line r (y_text y), y_text y = KMAIN)
      else (hex_line r @ [10] @ fst (lines_of r ys), snd (lines_of r ys)))"

lemma trace_loop_lines:
  assumes lits: "literals_at m lits" and t: "syms_at m t ys"
  shows "i \<le> length ys \<Longrightarrow> trace_loop m lits t r (24 * i) = Ret (lines_of r (filter (holds_addr r) (drop i ys)))"
proof (induction "length ys - i" arbitrary: i)
  case 0
  then show ?case using t by (subst trace_loop.simps) (simp add: syms_at_def)
next
  case (Suc k)
  then have i: "i < length ys" by simp
  let ?y = "ys ! i"
  have y: "sym_at m (str_addr t) (sym_addr t + 24 * i) ?y" and n: "24 * i < sym_size t" using t i by (simp_all add: syms_at_def)
  have IH: "trace_loop m lits t r (24 * i + 24) = Ret (lines_of r (filter (holds_addr r) (drop (Suc i) ys)))"
    using Suc.hyps(1) [of "Suc i"] Suc.hyps(2) i by (simp add: algebra_simps)
  have d: "drop i ys = ?y # drop (Suc i) ys" using i by (simp add: Cons_nth_drop_Suc)
  have s: "cstr m (str_addr t + y_name ?y) (y_text ?y)" "str_addr t + y_name ?y < 2 ^ 64" using y by (auto simp: sym_at_def)
  obtain c where c: "kstrcmp m (str_addr t + y_name ?y) (lit_kmain lits) = Ret c" "c = 0 \<longleftrightarrow> y_text ?y = KMAIN"
    using kstrcmp_correct [OF s(1), of "lit_kmain lits"] lits by (auto simp: literals_at_def)
  note p = print_symbol [OF lits s] print_address [OF lits]
  show ?case
    unfolding d using y n IH c p
    by (subst trace_loop.simps)
      (auto simp: sym_at_def Let_def holds_addr_def is_func_def split_beta simp del: ldn.simps)
qed

lemma trace_lines: "literals_at m lits \<Longrightarrow> syms_at m t ys \<Longrightarrow> trace m lits t r = Ret (lines_of r (filter (holds_addr r) ys))"
  using trace_loop_lines [of m lits t ys 0 r] by (simp add: trace_def)

section \<open>The stack\<close>

text \<open>
  A chain of frames from \<open>rbp\<close>: the return addresses \<open>rs\<close>, each frame with the base pointer of
  the next; \<open>p\<close> is the last of them.
\<close>

fun frames :: "mem \<Rightarrow> nat \<Rightarrow> u64 list \<Rightarrow> nat \<Rightarrow> bool" where
  "frames m rbp [] p \<longleftrightarrow> p = rbp"
| "frames m rbp (r # rs) p \<longleftrightarrow> ldn m (rbp + 8) 8 = Ret (unat r) \<and> (\<exists>q. ldn m rbp 8 = Ret q \<and> frames m q rs p)"

text \<open>The function an address is taken to lie in, and the calls up to \<open>kmain\<close>.\<close>

definition fname :: "elf_sym list \<Rightarrow> u64 \<Rightarrow> u8 list" where
  "fname ys r = (case find (holds_addr r) ys of None \<Rightarrow> [] | Some y \<Rightarrow> y_text y)"

definition in_function :: "elf_sym list \<Rightarrow> u64 \<Rightarrow> bool" where
  "in_function ys r \<longleftrightarrow> (\<exists>y. find (holds_addr r) ys = Some y \<and> is_func y)"

fun upto_kmain :: "elf_sym list \<Rightarrow> u64 list \<Rightarrow> u64 list" where
  "upto_kmain ys [] = []"
| "upto_kmain ys (r # rs) = r # (if fname ys r = KMAIN then [] else upto_kmain ys rs)"

lemma find_filter: "find P xs = Some x \<Longrightarrow> \<exists>zs. filter P xs = x # zs"
  by (induction xs) (auto split: if_splits)

lemma trace_function:
  "literals_at m lits \<Longrightarrow> syms_at m t ys \<Longrightarrow> in_function ys r \<Longrightarrow>
   trace m lits t r = Ret (func_line r (fname ys r), fname ys r = KMAIN)"
proof -
  assume a: "literals_at m lits" "syms_at m t ys" "in_function ys r"
  then obtain y where y: "find (holds_addr r) ys = Some y" "is_func y" by (auto simp: in_function_def)
  obtain zs where "filter (holds_addr r) ys = y # zs" using find_filter [OF y(1)] by blast
  then show ?thesis using trace_lines [OF a(1,2), of r] y by (simp add: fname_def)
qed

lemma ktrace_loop_prints:
  assumes lits: "literals_at m lits" and t: "syms_at m t ys"
  shows "frames m rbp rs p \<Longrightarrow> \<forall>r\<in>set rs. in_function ys r \<Longrightarrow> n \<le> length rs \<or> KMAIN \<in> fname ys ` set rs \<Longrightarrow>
    ktrace_loop n m lits t rbp = Ret (concat (map (\<lambda>r. func_line r (fname ys r)) (take n (upto_kmain ys rs))))"
proof (induction n arbitrary: rbp rs)
  case (Suc n)
  then obtain r rs' where rs: "rs = r # rs'" by (cases rs) auto
  then obtain q where q: "ldn m (rbp + 8) 8 = Ret (unat r)" "ldn m rbp 8 = Ret q" "frames m q rs' p" using Suc.prems(1) by auto
  have tr: "trace m lits t r = Ret (func_line r (fname ys r), fname ys r = KMAIN)"
    by (rule trace_function [OF lits t]) (use Suc.prems(2) rs in simp)
  show ?case
  proof (cases "fname ys r = KMAIN")
    case True
    then show ?thesis using q(1) tr rs by (simp del: ldn.simps)
  next
    case False
    then have "n \<le> length rs' \<or> KMAIN \<in> fname ys ` set rs'" using Suc.prems(3) rs by auto
    then have "ktrace_loop n m lits t q = Ret (concat (map (\<lambda>r. func_line r (fname ys r)) (take n (upto_kmain ys rs'))))"
      by (intro Suc.IH q(3)) (use Suc.prems(2) rs in auto)
    then show ?thesis using q tr rs False by (simp del: ldn.simps)
  qed
qed simp

section \<open>Properties\<close>

text \<open>
  C33: \<open>ktrace\<close> prints the call stack: on a chain of frames that is long enough or reaches \<open>kmain\<close>, whose
  return addresses lie in functions of the symbol table, it prints, from the innermost call
  outwards, a line for each with the return address and the name of its function, up to the one
  in \<open>kmain\<close> and at most eight, and returns.
\<close>

theorem ktrace_prints_calls:
  assumes "literals_at m lits" and "syms_at m t ys" and "frames m rbp rs p" and "\<forall>r\<in>set rs. in_function ys r"
    and "8 \<le> length rs \<or> KMAIN \<in> fname ys ` set rs"
  shows "ktrace m lits t rbp = Ret (concat (map (\<lambda>r. func_line r (fname ys r)) (take 8 (upto_kmain ys rs))))"
  unfolding ktrace_def by (rule ktrace_loop_prints [OF assms])

text \<open>
  A table of the functions \<open>f\<close> and \<open>kmain\<close> at 4096, their names at 4144, the literals at 4152,
  4165 and 4175, and two frames at 4181 and 4197.
\<close>

definition sym_bytes :: "elf_sym \<Rightarrow> u8 list" where
  "sym_bytes y = le_bytes (y_name y) 4 @ le_bytes (unat (y_info y)) 1 @ [0, 0, 0] @ le_bytes (unat (y_value y)) 8 @ le_bytes (unat (y_len y)) 8"

lemma sym_at_bytes:
  assumes "bytes_at m p (sym_bytes y)" and "y_name y < 2 ^ 32" and "str + y_name y < 2 ^ 64" and "cstr m (str + y_name y) (y_text y)"
  shows "sym_at m str p y"
proof -
  have b: "bytes_at m p (le_bytes (y_name y) 4)" "bytes_at m (p + 4) (le_bytes (unat (y_info y)) 1)"
      "bytes_at m (p + 8) (le_bytes (unat (y_value y)) 8)" "bytes_at m (p + 16) (le_bytes (unat (y_len y)) 8)"
    using assms(1) by (simp_all add: sym_bytes_def bytes_at_append bytes_at_Cons ac_simps del: le_bytes.simps)
  have u: "unat (y_info y) < 256 ^ 1" "unat (y_value y) < 256 ^ 8" "unat (y_len y) < 256 ^ 8"
    using unsigned_less [of "y_info y"] unsigned_less [of "y_value y"] unsigned_less [of "y_len y"] by simp_all
  show ?thesis unfolding sym_at_def
    using assms(2-4) ldn_le_bytes [OF b(1)] ldn_le_bytes [OF b(2) u(1)] ldn_le_bytes [OF b(3) u(2)] ldn_le_bytes [OF b(4) u(3)] by simp
qed

definition sym_f :: elf_sym where
  "sym_f = \<lparr> y_name = 0, y_text = [102], y_info = 0x12, y_value = 0x1000, y_len = 0x20 \<rparr>"
definition sym_kmain :: elf_sym where
  "sym_kmain = \<lparr> y_name = 2, y_text = KMAIN, y_info = 0x12, y_value = 0x2000, y_len = 0x40 \<rparr>"

definition trace_image :: "u8 list" where
  "trace_image = sym_bytes sym_f @ sym_bytes sym_kmain @ ([102] @ [0]) @ (KMAIN @ [0]) @ (FMT_SYMBOL @ [0]) @ (FMT_ADDRESS @ [0]) @
     (KMAIN @ [0]) @ le_bytes 4197 8 @ le_bytes 0x1008 8 @ le_bytes 0 8 @ le_bytes 0x2010 8"

definition trace_mem :: mem where
  "trace_mem a = (if 4096 \<le> a \<and> a < 4096 + length trace_image then Some (trace_image ! (a - 4096)) else None)"

definition trace_tab :: ksyms where "trace_tab = ktrace_register_sym 4096 48 4144 8"
definition trace_lits :: literals where "trace_lits = \<lparr> lit_symbol = 4152, lit_address = 4165, lit_kmain = 4175 \<rparr>"

lemma cstr_bytes: "bytes_at m p (s @ [0]) \<Longrightarrow> 0 \<notin> set s \<Longrightarrow> cstr m p s"
  by (induction s arbitrary: p) (auto simp: bytes_at_Cons)

lemma length_sym_bytes [simp]: "length (sym_bytes y) = 24"
  by (simp add: sym_bytes_def del: le_bytes.simps)

lemma length_literals [simp]: "length FMT_SYMBOL = 12" "length FMT_ADDRESS = 9" "length KMAIN = 5"
  by (simp_all add: FMT_SYMBOL_def FMT_ADDRESS_def KMAIN_def)

lemma trace_mem_parts:
  "bytes_at trace_mem 4096 (sym_bytes sym_f)" "bytes_at trace_mem 4120 (sym_bytes sym_kmain)"
  "bytes_at trace_mem 4144 ([102] @ [0])" "bytes_at trace_mem 4146 (KMAIN @ [0])" "bytes_at trace_mem 4152 (FMT_SYMBOL @ [0])"
  "bytes_at trace_mem 4165 (FMT_ADDRESS @ [0])" "bytes_at trace_mem 4175 (KMAIN @ [0])"
  "bytes_at trace_mem 4181 (le_bytes 4197 8)" "bytes_at trace_mem 4189 (le_bytes 0x1008 8)"
  "bytes_at trace_mem 4197 (le_bytes 0 8)" "bytes_at trace_mem 4205 (le_bytes 0x2010 8)"
proof -
  have "length trace_image = 117" by (simp add: trace_image_def del: le_bytes.simps)
  then have "bytes_at trace_mem 4096 trace_image" by (simp add: bytes_at_def trace_mem_def)
  then show "bytes_at trace_mem 4096 (sym_bytes sym_f)" "bytes_at trace_mem 4120 (sym_bytes sym_kmain)"
    "bytes_at trace_mem 4144 ([102] @ [0])" "bytes_at trace_mem 4146 (KMAIN @ [0])" "bytes_at trace_mem 4152 (FMT_SYMBOL @ [0])"
    "bytes_at trace_mem 4165 (FMT_ADDRESS @ [0])" "bytes_at trace_mem 4175 (KMAIN @ [0])"
    "bytes_at trace_mem 4181 (le_bytes 4197 8)" "bytes_at trace_mem 4189 (le_bytes 0x1008 8)"
    "bytes_at trace_mem 4197 (le_bytes 0 8)" "bytes_at trace_mem 4205 (le_bytes 0x2010 8)"
    unfolding trace_image_def bytes_at_append by (simp_all add: add.assoc del: le_bytes.simps)
qed

lemma trace_mem_ok:
  "literals_at trace_mem trace_lits" "syms_at trace_mem trace_tab [sym_f, sym_kmain]" "frames trace_mem 4181 [0x1008, 0x2010] 0"
proof -
  have nz: "0 \<notin> set FMT_SYMBOL" "0 \<notin> set FMT_ADDRESS" "0 \<notin> set KMAIN"
    by (simp_all add: FMT_SYMBOL_def FMT_ADDRESS_def KMAIN_def)
  show "literals_at trace_mem trace_lits"
    using nz trace_mem_parts(5-7) by (simp add: literals_at_def trace_lits_def cstr_bytes)
  have "cstr trace_mem 4144 [102]" by (rule cstr_bytes [OF trace_mem_parts(3)]) simp
  then have "sym_at trace_mem 4144 4096 sym_f"
    by (intro sym_at_bytes trace_mem_parts(1)) (simp_all add: sym_f_def)
  moreover have "cstr trace_mem 4146 KMAIN" by (rule cstr_bytes [OF trace_mem_parts(4) nz(3)])
  then have "sym_at trace_mem 4144 4120 sym_kmain"
    by (intro sym_at_bytes trace_mem_parts(2)) (simp_all add: sym_kmain_def)
  ultimately show "syms_at trace_mem trace_tab [sym_f, sym_kmain]"
    by (simp add: syms_at_def trace_tab_def ktrace_register_sym_def All_less_Suc2)
  have "ldn trace_mem 4181 8 = Ret 4197" "ldn trace_mem 4189 8 = Ret 0x1008" "ldn trace_mem 4197 8 = Ret 0" "ldn trace_mem 4205 8 = Ret 0x2010"
    by (rule ldn_le_bytes [OF trace_mem_parts(8)] ldn_le_bytes [OF trace_mem_parts(9)] ldn_le_bytes [OF trace_mem_parts(10)]
        ldn_le_bytes [OF trace_mem_parts(11)]; simp)+
  then show "frames trace_mem 4181 [0x1008, 0x2010] 0" by (simp del: ldn.simps)
qed

lemma ktrace_prints_calls_witness:
  "ktrace trace_mem trace_lits trace_tab 4181 = Ret (func_line 0x1008 [102] @ func_line 0x2010 KMAIN)"
proof -
  have n: "fname [sym_f, sym_kmain] 0x1008 = [102]" "fname [sym_f, sym_kmain] 0x2010 = KMAIN" "KMAIN \<noteq> [102]"
      "in_function [sym_f, sym_kmain] 0x1008" "in_function [sym_f, sym_kmain] 0x2010"
    by (simp_all add: fname_def in_function_def holds_addr_def is_func_def sym_f_def sym_kmain_def KMAIN_def)
  then show ?thesis using ktrace_prints_calls [OF trace_mem_ok] by simp
qed

text \<open>
  No function of the kernel is called \<open>kmain\<close>. Then the walk goes on below the first frame: with fewer
  than eight calls it reads the frame at whatever the boot code left as base pointer.
\<close>

lemma ldn_unmapped: "m a = None \<Longrightarrow> 0 < n \<Longrightarrow> ldn m a n = Halt MemFault"
  by (cases n) (simp_all add: ld_def)

lemma ktrace_below_bottom:
  assumes lits: "literals_at m lits" and t: "syms_at m t ys" and bot: "m (p + 8) = None"
  shows "frames m rbp rs p \<Longrightarrow> \<forall>r\<in>set rs. in_function ys r \<Longrightarrow> length rs < n \<Longrightarrow> KMAIN \<notin> fname ys ` set rs \<Longrightarrow>
    ktrace_loop n m lits t rbp = Halt MemFault"
proof (induction n arbitrary: rbp rs)
  case (Suc n)
  show ?case
  proof (cases rs)
    case Nil
    then have "ldn m (rbp + 8) 8 = Halt MemFault" using Suc.prems(1) ldn_unmapped [of m "p + 8" 8] bot by (simp del: ldn.simps)
    then show ?thesis by (simp del: ldn.simps)
  next
    case (Cons r rs')
    then obtain q where q: "ldn m (rbp + 8) 8 = Ret (unat r)" "ldn m rbp 8 = Ret q" "frames m q rs' p" using Suc.prems(1) by auto
    have "ktrace_loop n m lits t q = Halt MemFault" by (rule Suc.IH [OF q(3)]) (use Suc.prems Cons in auto)
    moreover have "trace m lits t r = Ret (func_line r (fname ys r), fname ys r = KMAIN)"
      by (rule trace_function [OF lits t]) (use Suc.prems(2) Cons in simp)
    ultimately show ?thesis using q Suc.prems(4) Cons by (auto simp del: ldn.simps)
  qed
qed simp

text \<open>An address that no symbol contains prints nothing at all.\<close>

lemma trace_unknown:
  "literals_at m lits \<Longrightarrow> syms_at m t ys \<Longrightarrow> filter (holds_addr r) ys = [] \<Longrightarrow> trace m lits t r = Ret ([], False)"
  by (simp add: trace_lines)

end
