(* ===== verification/AcpiOs.thy ===== *)
theory AcpiOs
  imports Pci Heap Irq Kprint
begin

unbundle bit_operations_syntax

text \<open>
  \<open>src/kernel/acpi/acpi_service_layer.c\<close>: what the kernel offers to the ACPI interpreter. Each
  function is over the state it uses: the heap, the table of interrupt handlers, or the history of
  port accesses. Functions that only print that they are not implemented have their result and no
  state. An \<open>ACPI_STATUS\<close> is a 32-bit number; \<open>None\<close> is the result of a function that ends without a
  \<open>return\<close>, for which the caller finds whatever the register holds.
\<close>

section \<open>The code\<close>

type_synonym acpi_status = u32

abbreviation (input) AE_OK :: acpi_status where "AE_OK \<equiv> 0"
abbreviation (input) AE_ERROR :: acpi_status where "AE_ERROR \<equiv> 1"
abbreviation (input) AE_NOT_CONFIGURED :: acpi_status where "AE_NOT_CONFIGURED \<equiv> 0x1c"

definition AcpiOsInitialize :: acpi_status where "AcpiOsInitialize = AE_OK"

definition AcpiOsPrintf :: "mem \<Rightarrow> nat \<Rightarrow> u64 list \<Rightarrow> u8 list outcome" where
  "AcpiOsPrintf m fmt args = vkprint m fmt args"

definition AcpiOsAllocate :: "nat \<Rightarrow> heap \<Rightarrow> nat \<Rightarrow> (nat \<times> heap) outcome" where
  "AcpiOsAllocate fuel hp sz = kmalloc fuel hp sz"

definition AcpiOsFree :: "nat \<Rightarrow> heap \<Rightarrow> nat \<Rightarrow> heap outcome" where
  "AcpiOsFree fuel hp ptr = kfree fuel hp ptr"

definition AcpiOsMapMemory :: "u64 \<Rightarrow> u64 \<Rightarrow> u64" where "AcpiOsMapMemory addr len = addr"

definition AcpiOsWriteMemory :: "u64 \<Rightarrow> u64 \<Rightarrow> u32 \<Rightarrow> acpi_status" where "AcpiOsWriteMemory addr v width = AE_ERROR"

text \<open>The result is a \<open>BOOLEAN\<close>, a byte.\<close>

definition AcpiOsReadable :: "u64 \<Rightarrow> u64 \<Rightarrow> u8" where "AcpiOsReadable addr len = ucast AE_ERROR"

definition AcpiOsReadMemory :: "u64 \<Rightarrow> u32 \<Rightarrow> acpi_status" where "AcpiOsReadMemory addr width = AE_ERROR"

record acpi_pci_id =
  pci_segment :: u16
  pci_bus :: u16
  pci_device :: u16
  pci_function :: u16

text \<open>The numbers are cut to the eight bits \<open>pci_read_u8\<close> and the others take.\<close>

definition AcpiOsReadPciConfiguration ::
    "hardware \<Rightarrow> history \<Rightarrow> acpi_pci_id \<Rightarrow> u32 \<Rightarrow> u32 \<Rightarrow> (acpi_status \<times> u64) option \<times> history" where
  "AcpiOsReadPciConfiguration hw h ident reg width =
     (let b = ucast (pci_bus ident); d = ucast (pci_device ident); f = ucast (pci_function ident); r = ucast (reg AND NOT 3) in
      if width = 8 then (let (v, h) = pci_read_u8 hw h b d f r in (Some (AE_OK, ucast v), h))
      else if width = 16 then (let (v, h) = pci_read_u16 hw h b d f r in (Some (AE_OK, ucast v), h))
      else if width = 32 then (let (v, h) = pci_read_u32 hw h b d f r in (Some (AE_OK, ucast v), h))
      else (None, h))"

definition AcpiOsWritePciConfiguration :: "acpi_pci_id \<Rightarrow> u32 \<Rightarrow> u64 \<Rightarrow> u32 \<Rightarrow> acpi_status" where
  "AcpiOsWritePciConfiguration ident reg v width = AE_OK"

text \<open>Semaphores and locks are the number 0x1337.\<close>

definition AcpiOsCreateSemaphore :: "u32 \<Rightarrow> u32 \<Rightarrow> acpi_status \<times> nat" where
  "AcpiOsCreateSemaphore mx init = (AE_OK, 0x1337)"

definition AcpiOsRemoveInterruptHandler :: "u32 \<Rightarrow> nat \<Rightarrow> acpi_status" where
  "AcpiOsRemoveInterruptHandler num handler = AE_ERROR"

definition AcpiOsInstallInterruptHandler :: "irq_line list \<Rightarrow> u32 \<Rightarrow> nat \<Rightarrow> nat \<Rightarrow> (acpi_status \<times> irq_line list) outcome" where
  "AcpiOsInstallInterruptHandler t level handler ctx =
     omap (Pair AE_OK) (irq_install_handler t (sint level) handler ctx)"

definition AcpiOsEnterSleep :: "u8 \<Rightarrow> u32 \<Rightarrow> u32 \<Rightarrow> acpi_status" where "AcpiOsEnterSleep sleep_state a b = AE_ERROR"

definition AcpiOsDeleteSemaphore :: "nat \<Rightarrow> heap \<Rightarrow> nat \<Rightarrow> (acpi_status \<times> heap) outcome" where
  "AcpiOsDeleteSemaphore fuel hp handle = omap (Pair AE_OK) (kfree fuel hp handle)"

definition AcpiOsWaitSemaphore :: "nat \<Rightarrow> u32 \<Rightarrow> u16 \<Rightarrow> acpi_status" where "AcpiOsWaitSemaphore handle units timeout = AE_OK"
definition AcpiOsSignalSemaphore :: "nat \<Rightarrow> u32 \<Rightarrow> acpi_status" where "AcpiOsSignalSemaphore handle units = AE_OK"
definition AcpiOsCreateLock :: "acpi_status \<times> nat" where "AcpiOsCreateLock = (AE_OK, 0x1337)"
definition AcpiOsAcquireLock :: "nat \<Rightarrow> u64 option" where "AcpiOsAcquireLock handle = None"
definition AcpiOsGetTimer :: u64 where "AcpiOsGetTimer = 0"
definition AcpiOsSignal :: "u32 \<Rightarrow> acpi_status" where "AcpiOsSignal func = AE_ERROR"

definition AcpiOsWritePort :: "history \<Rightarrow> u64 \<Rightarrow> u32 \<Rightarrow> u32 \<Rightarrow> acpi_status \<times> history" where
  "AcpiOsWritePort h addr v width =
     (if width = 32 then (AE_OK, outl h (ucast addr) v)
      else if width = 16 then (AE_OK, outw h (ucast addr) (ucast (v AND 0xffff)))
      else if width = 8 then (AE_OK, outb h (ucast addr) (ucast (v AND 0xff)))
      else (AE_ERROR, h))"

text \<open>\<open>value\<close> is the pointer the result goes to; the result is what is stored there, if anything is.\<close>

definition AcpiOsReadPort :: "hardware \<Rightarrow> history \<Rightarrow> u64 \<Rightarrow> nat \<Rightarrow> u32 \<Rightarrow> acpi_status \<times> u32 option \<times> history" where
  "AcpiOsReadPort hw h addr val width =
     (if val = 0 then (AE_ERROR, None, h)
      else if width = 32 then (let (v, h) = inl hw h (ucast addr) in (AE_OK, Some v, h))
      else if width = 16 then (let (v, h) = inw hw h (ucast addr) in (AE_OK, Some (ucast v), h))
      else if width = 8 then (let (v, h) = inb hw h (ucast addr) in (AE_OK, Some (ucast v), h))
      else (AE_ERROR, None, h))"

definition AcpiOsGetThreadId :: u64 where "AcpiOsGetThreadId = 1"
definition AcpiOsExecute :: "u32 \<Rightarrow> nat \<Rightarrow> nat \<Rightarrow> acpi_status" where "AcpiOsExecute typ func ctx = AE_ERROR"
definition AcpiOsTerminate :: acpi_status where "AcpiOsTerminate = AE_ERROR"
definition AcpiOsPredefinedOverride :: "nat \<Rightarrow> acpi_status" where "AcpiOsPredefinedOverride ini = AE_NOT_CONFIGURED"
definition AcpiOsTableOverride :: "nat \<Rightarrow> acpi_status" where "AcpiOsTableOverride tab = AE_NOT_CONFIGURED"
definition AcpiOsPhysicalTableOverride :: "nat \<Rightarrow> acpi_status" where "AcpiOsPhysicalTableOverride tab = AE_NOT_CONFIGURED"

text \<open>The interpreter's own search, an argument, fills in the address or leaves it as it was on the stack.\<close>

definition AcpiOsGetRootPointer :: "(u64 \<Rightarrow> u64) \<Rightarrow> u64 \<Rightarrow> u64" where
  "AcpiOsGetRootPointer find_root stale = find_root stale"

section \<open>What the interpreter gets\<close>

text \<open>A port access of a width the processor has is one access and succeeds; any other is none and fails.\<close>

lemma write_port_access:
  "AcpiOsWritePort h addr v width =
     (if width \<in> {8, 16, 32} then (AE_OK, (if width = 8 then Out8 (ucast addr) (ucast v) else if width = 16 then Out16 (ucast addr) (ucast v)
         else Out32 (ucast addr) v) # h) else (AE_ERROR, h))"
proof -
  have m: "(0xffff :: u32) = mask 16" "(0xff :: u32) = mask 8" by (simp_all add: mask_eq_exp_minus_1)
  have "(ucast (v AND 0xffff) :: u16) = ucast v" "(ucast (v AND 0xff) :: u8) = ucast v"
    unfolding m by (rule bit_word_eqI; auto simp: bit_simps)+
  then show ?thesis by (auto simp: AcpiOsWritePort_def outb_def outw_def outl_def)
qed

text \<open>
  Reads of configuration space give the register at \<open>reg AND NOT 3\<close>: bytes and byte pairs that do
  not start a double word cannot be read.
\<close>

lemma read_pci_config:
  assumes "config_space hw cfg" and "pci_device ident < 32" "pci_function ident < 8" and "unat reg < 256"
  shows "fst (AcpiOsReadPciConfiguration hw h ident reg 8) =
    Some (AE_OK, ucast (cfg (ucast (pci_bus ident)) (ucast (pci_device ident)) (ucast (pci_function ident)) (unat reg div 4 * 4)))"
proof -
  have "reg AND NOT 3 = push_bit 2 (drop_bit 2 reg)"
  proof -
    have [simp]: "2 \<le> i \<Longrightarrow> Suc (Suc (i - 2)) = i" for i by simp
    show ?thesis unfolding mask_offset(2) by (rule bit_word_eqI) (auto simp: bit_simps)
  qed
  then have "unat (reg AND NOT 3) = unat reg div 4 * 4"
    using assms(4) by (simp add: push_bit_eq_mult drop_bit_eq_div unat_word_ariths unat_div mult.commute)
  then have r: "unat (ucast (reg AND NOT 3) :: u8) = unat reg div 4 * 4"
    using assms(4) by (simp add: unsigned_ucast_eq take_bit_eq_mod)
  have "(ucast (pci_device ident) :: u8) < 32" "(ucast (pci_function ident) :: u8) < 8"
    using assms(2,3) by (simp_all add: word_less_nat_alt unsigned_ucast_eq take_bit_eq_mod)
  from pci_reads_bytes [OF assms(1) this, of h "ucast (pci_bus ident)" "ucast (reg AND NOT 3)"] r
  show ?thesis by (simp add: AcpiOsReadPciConfiguration_def Let_def split_beta)
qed

text \<open>Every address is called readable, a width of 64 returns nothing, and a semaphore is not a block of the heap.\<close>

lemma readable_always: "AcpiOsReadable addr len \<noteq> 0"
  by (simp add: AcpiOsReadable_def)

lemma read_pci_64: "fst (AcpiOsReadPciConfiguration hw h ident reg 64) = None"
  by (simp add: AcpiOsReadPciConfiguration_def Let_def)

lemma delete_semaphore_faults:
  "AcpiOsCreateSemaphore mx init = (status, handle) \<Longrightarrow> hp_chunks hp (0x1337 - CK) = None \<Longrightarrow>
   AcpiOsDeleteSemaphore fuel hp handle = Halt MemFault"
  by (auto simp: AcpiOsCreateSemaphore_def AcpiOsDeleteSemaphore_def kfree_def chunk_def Let_def)

text \<open>
  The interrupt level is taken for a vector, and the interpreter's answer 1, handled, is not the
  kernel's \<open>IRQ_HANDLED\<close>: the interrupt is offered to the handlers behind it all the same.
\<close>

lemma acpi_handler_not_heeded:
  assumes "call f s (if k \<noteq> 0 then k else cpu) = Ret (1, s')"
  shows "offer call cpu (\<lparr> h_fun = f, h_ctx = k \<rparr> # hs) s = offer call cpu hs s'"
  using assms by (auto split: if_splits)

end
