(* ===== verification/Boot.thy ===== *)
theory Boot
  imports Mmu Slab Bootmem
begin

text \<open>
  \<open>mm_init\<close> of \<open>src/mm/mmu.c\<close>, which brings the memory allocators up one on top of the other:
  page tables, boot memory, a first heap and slabs on boot memory, then the page zones from
  the memory map, and at last heap and slabs on the zones. The lemmas follow the memory map
  through \<open>mm_zones_init\<close> and into the heap, so that the contracts the allocators' own
  theories assume of their states hold of the states the boot leaves.
\<close>

section \<open>The code\<close>

text \<open>The page tables, and the slab allocator with the heap and the page zones below it.\<close>

record boot =
  bt_mmu :: mmu
  bt_slab :: slab

text \<open>Continue when the walk of the memory map has ended and nothing has stopped the kernel.\<close>

definition obnd :: "'a outcome option \<Rightarrow> ('a \<Rightarrow> 'b outcome option) \<Rightarrow> 'b outcome option" where
  "obnd m f = (case m of None \<Rightarrow> None | Some (Halt e) \<Rightarrow> Some (Halt e) | Some (Ret x) \<Rightarrow> f x)"

text \<open>
  The zones take the memory over, then the heap moves to them. The cache of the block descriptors
  (32 bytes each) is the first thing \<open>mm_zones_init\<close> makes.
\<close>

definition mm_block_cache :: "nat \<Rightarrow> slab \<Rightarrow> slab outcome" where
  "mm_block_cache fuel sl =
     bnd (mm_cache_create fuel sl 32) (\<lambda>(cache, sl). if cache = 0 then Halt Panicked else Ret sl)"

definition mm_take_over :: "nat \<Rightarrow> mem \<Rightarrow> nat \<Rightarrow> heap \<Rightarrow> heap outcome option" where
  "mm_take_over fuel m arg hp =
     obnd (mm_zones_init fuel m arg) (\<lambda>zones. Some (mm_heap_init (hp\<lparr> hp_pfa := zones \<rparr>)))"

text \<open>
  \<open>pml4\<close>, \<open>pdpt\<close> and \<open>pd\<close> are the static tables of the page-table code, \<open>arg\<close> is the boot
  information in \<open>m\<close>; the results of the steps are ignored. 656 is the fuel of the heap walks.
\<close>

definition mm_init :: "nat \<Rightarrow> mem \<Rightarrow> nat \<Rightarrow> u64 \<Rightarrow> u64 \<Rightarrow> u64 \<Rightarrow> boot \<Rightarrow> (int \<times> boot) outcome option" where
  "mm_init fuel m arg pml4 pdpt pd b =
     obnd (Some (mm_native_init (bt_mmu b) pml4 pdpt pd)) (\<lambda>mmu.
     obnd (mm_bootmem_init fuel m arg) (\<lambda>mi.
     obnd (Some (mm_heap_preinit (sl_heap (bt_slab b)) mi)) (\<lambda>(hp, mi).
     obnd (Some (mm_slab_preinit 656 ((bt_slab b)\<lparr> sl_heap := hp \<rparr>) mi)) (\<lambda>(_, sl, mi).
     obnd (Some (mm_block_cache 656 sl)) (\<lambda>sl.
     obnd (mm_take_over fuel m arg (sl_heap sl)) (\<lambda>hp.
     obnd (Some (mm_slab_init 656 (sl\<lparr> sl_heap := hp \<rparr>))) (\<lambda>(_, sl).
     Some (Ret (0, \<lparr> bt_mmu = mmu\<lparr> pf := hp_pfa (sl_heap sl) \<rparr>, bt_slab = sl \<rparr>)))))))))"

section \<open>What the memory map says\<close>

text \<open>
  The whole pages of a range, and those among them that the normal zone takes. \<open>event_ok\<close>: the
  range ends below 2 GB, has fewer than 256 MB (longer ones are claimed wrongly), contains a page
  boundary (without one its length wraps), and if it crosses 16 MB it does not begin in the last
  page below (the length of its first part would wrap).
\<close>

definition lo_page :: "u64 \<Rightarrow> nat" where
  "lo_page a = (unat a + 4095) div 4096"

definition hi_page :: "u64 \<Rightarrow> u64 \<Rightarrow> nat" where
  "hi_page a len = (unat a + unat len) div 4096"

definition is_ram :: "nat \<Rightarrow> bool" where
  "is_ram ty \<longleftrightarrow> ty = 1 \<or> ty = 3"

definition event_ok :: "mb_event \<Rightarrow> bool" where
  "event_ok e = (case e of (ty, a, len) \<Rightarrow>
     unat a + unat len < 2 ^ 31 - 1 \<and> unat len < 2 ^ 28 \<and> lo_page a \<le> hi_page a len \<and>
     (is_ram ty \<and> unat a < 2 ^ 24 \<and> 2 ^ 24 \<le> unat a + unat len \<longrightarrow> unat a \<le> 0xfff000))"

definition normal_pages :: "mb_event \<Rightarrow> nat multiset" where
  "normal_pages e = (case e of (ty, a, len) \<Rightarrow>
     if is_ram ty then mset [max 4096 (lo_page a) ..< hi_page a len] else {#})"

definition ram_pages :: "mb_event list \<Rightarrow> nat multiset" where
  "ram_pages evs = sum_list (map normal_pages evs)"

definition large :: "mb_event \<Rightarrow> bool" where
  "large e = (case e of (ty, a, len) \<Rightarrow> is_ram ty \<and> max 4096 (lo_page a) + 2 ^ 13 \<le> hi_page a len)"

definition has_block :: "mm_zone \<Rightarrow> nat \<Rightarrow> bool" where
  "has_block z k \<longleftrightarrow> (\<exists>j<16. k \<le> j \<and> blocks z ! j \<noteq> [])"

section \<open>Claiming\<close>

lemma claim_blocks_ok:
  assumes "unat start mod 4096 = 0" and "start \<le> fin" and "unat fin - unat start < 2 ^ 28"
  shows "\<forall>b\<in>set (claim_blocks start fin). block_ok (fst b) (snd b)"
proof -
  have len: "unat (fin - start) = unat fin - unat start" using assms(2) by (simp add: unat_sub)
  have le: "unat start \<le> unat fin" using assms(2) by (simp add: word_le_nat_alt)
  have "unat start + unat (fin - start) < 2 ^ 64" using len le unat_u64_less [of fin] by simp
  with claim_orders_tile [of 16 "fin - start" start] assms(1,3) len show ?thesis
    by (simp add: claim_blocks_def BUDDY_MAX_ORDER_def Let_def)
qed

lemma zone_add_block_blocks:
  "zone_add_block z a ord = Ret z' \<Longrightarrow>
   \<exists>b. blocks z' = (blocks z)[ord := b # blocks z ! ord] \<and> ord < length (blocks z)"
  by (auto simp: zone_add_block_def zone_push_def outcome_ret_iff array_ret_iff)

lemma has_block_push:
  "blocks z' = (blocks z)[ord := b # blocks z ! ord] \<Longrightarrow> ord < length (blocks z) \<Longrightarrow> has_block z k \<Longrightarrow> has_block z' k"
  "blocks z' = (blocks z)[ord := b # blocks z ! ord] \<Longrightarrow> ord < length (blocks z) \<Longrightarrow> k \<le> ord \<Longrightarrow> ord < 16 \<Longrightarrow> has_block z' k"
  by (auto simp: has_block_def nth_list_update)

lemma claim_zone_has:
  "claim_zone z bs = Ret z' \<Longrightarrow> has_block z k \<or> (\<exists>b\<in>set bs. k \<le> snd b \<and> snd b < 16) \<Longrightarrow> has_block z' k"
proof (induction bs arbitrary: z)
  case (Cons b bs)
  obtain z1 where z1: "zone_add_block z (fst b) (snd b) = Ret z1" "claim_zone z1 bs = Ret z'"
    using Cons.prems(1) by (auto simp: bnd_Ret_iff)
  obtain c where "blocks z1 = (blocks z)[snd b := c # blocks z ! snd b]" "snd b < length (blocks z)"
    using zone_add_block_blocks [OF z1(1)] by blast
  then have "has_block z1 k \<or> (\<exists>b\<in>set bs. k \<le> snd b \<and> snd b < 16)"
    using has_block_push Cons.prems(2) by (metis set_ConsD)
  then show ?case using Cons.IH [OF z1(2)] by blast
qed simp

lemma claim_order_first: "0 < n \<Longrightarrow> (start, ord) \<in> set (fst (claim_order start ord n 0))"
  by (subst claim_order.simps) (simp split: prod.split)

lemma claim_orders_large:
  "n \<le> 16 \<Longrightarrow> 2 ^ k * 4096 \<le> unat len \<Longrightarrow> unat len < 2 ^ n * 4096 \<Longrightarrow>
   \<exists>b\<in>set (claim_orders start len n). k \<le> snd b \<and> snd b < 16"
proof (induction n arbitrary: start len)
  case 0
  have "1 * 4096 \<le> (2 :: nat) ^ k * 4096" by (intro mult_le_mono1) simp
  then have "\<not> unat len < 4096" using 0(2) by linarith
  then show ?case using 0(3) by simp
next
  case (Suc n)
  have bb: "unat (block_bytes n) = 2 ^ n * 4096" using Suc.prems(1) by (intro unat_block_bytes) simp
  show ?case
  proof (cases "unat len < 2 ^ n * 4096")
    case True
    then have "unat (len div block_bytes n) = 0" by (simp add: unat_div bb)
    then have "len div block_bytes n = 0" by (simp only: unat_eq_0)
    then show ?thesis using Suc.IH [OF _ Suc.prems(2) True] Suc.prems(1) by (simp add: Let_def)
  next
    case False
    have "2 ^ k * 4096 < 2 ^ Suc n * (4096 :: nat)" using Suc.prems(2,3) by linarith
    then have "(2 :: nat) ^ k < 2 ^ Suc n" by simp
    then have "k < Suc n" by (rule power_less_imp_less_exp [rotated]) simp
    have "0 < unat (len div block_bytes n)" using False by (simp add: unat_div bb div_greater_zero_iff)
    moreover from this have "len div block_bytes n > 0" by (simp add: word_greater_zero_iff flip: unat_gt_0)
    moreover obtain bs fin where bs: "claim_order start n (unat (len div block_bytes n)) 0 = (bs, fin)" by fastforce
    ultimately have "(start, n) \<in> set (claim_orders start len (Suc n))"
      using claim_order_first [of "unat (len div block_bytes n)" start n] by simp
    then show ?thesis using \<open>k < Suc n\<close> Suc.prems(1) by (auto intro!: bexI [of _ "(start, n)"])
  qed
qed

lemma claim_blocks_large:
  assumes "unat start + 2 ^ k * 4096 \<le> unat fin" and "unat fin - unat start < 2 ^ 28"
  shows "\<exists>b\<in>set (claim_blocks start fin). k \<le> snd b \<and> snd b < 16"
proof -
  have "start \<le> fin" using assms(1) by (simp add: word_le_nat_alt)
  then have len: "unat (fin - start) = unat fin - unat start" by (simp add: unat_sub)
  have "(1 :: nat) \<le> 2 ^ k" by simp
  then have "4096 \<le> unat (fin - start)" using len assms(1) by linarith
  then have "\<not> fin - start < 4096" by (simp add: word_less_nat_alt)
  then show ?thesis using claim_orders_large [of 16 k "fin - start" start] len assms
    by (simp add: claim_blocks_def BUDDY_MAX_ORDER_def Let_def)
qed


lemma lo_page_normal: "2 ^ 24 \<le> unat a \<Longrightarrow> max 4096 (lo_page a) = lo_page a"
proof -
  assume "2 ^ 24 \<le> unat a"
  then have "2 ^ 24 div 4096 \<le> lo_page a" unfolding lo_page_def by (intro div_le_mono) simp
  then show ?thesis by simp
qed

lemma lo_page_dma: "unat a \<le> 0xfff000 \<Longrightarrow> max 4096 (lo_page a) = 4096"
proof -
  assume "unat a \<le> 0xfff000"
  then have "lo_page a \<le> (0xfff000 + 4095) div 4096" unfolding lo_page_def by (intro div_le_mono) simp
  then show ?thesis by simp
qed

lemma event_bounds:
  assumes "event_ok (ty, a, len)"
  shows "unat (a + len) = unat a + unat len"
    and "unat (ROUND_UP a 4096) = lo_page a * 4096"
    and "unat (ROUND_DOWN (a + len) 4096) = hi_page a len * 4096"
    and "lo_page a \<le> hi_page a len" and "hi_page a len * 4096 < 2 ^ 31 - 1"
    and "hi_page a len * 4096 - lo_page a * 4096 < 2 ^ 28"
proof -
  have b: "unat a + unat len < 2 ^ 31 - 1" "unat len < 2 ^ 28" "lo_page a \<le> hi_page a len"
    using assms by (simp_all add: event_ok_def)
  show al: "unat (a + len) = unat a + unat len" using b(1) by (subst unat_add_u64) auto
  show "unat (ROUND_UP a 4096) = lo_page a * 4096"
    unfolding lo_page_def using b(1) by (intro unat_ROUND_UP) simp
  show "unat (ROUND_DOWN (a + len) 4096) = hi_page a len * 4096" by (simp add: unat_ROUND_DOWN al hi_page_def)
  show "lo_page a \<le> hi_page a len" by (rule b(3))
  have "hi_page a len * 4096 \<le> unat a + unat len" by (simp add: hi_page_def)
  moreover have "unat a \<le> lo_page a * 4096"
    using div_mult_mod_eq [of "unat a + 4095" 4096] mod_less_divisor [of 4096 "unat a + 4095"]
    unfolding lo_page_def by linarith
  ultimately show "hi_page a len * 4096 < 2 ^ 31 - 1" "hi_page a len * 4096 - lo_page a * 4096 < 2 ^ 28"
    using b by linarith+
qed

text \<open>The blocks of an event cover its pages.\<close>

lemma event_tile:
  assumes "event_ok (ty, a, len)"
  shows "frames (claim_blocks (ROUND_UP a 4096) (ROUND_DOWN (a + len) 4096)) = mset [lo_page a ..< hi_page a len]"
    and "\<forall>b\<in>set (claim_blocks (ROUND_UP a 4096) (ROUND_DOWN (a + len) 4096)). block_ok (fst b) (snd b)"
  using claim_blocks_tile [of "ROUND_UP a 4096" "ROUND_DOWN (a + len) 4096"] event_bounds [OF assms]
  by (simp_all add: word_le_nat_alt)

text \<open>What a claimed range adds: all its whole pages from 16 MB on, and nothing else.\<close>

definition claims :: "pfa \<Rightarrow> nat multiset \<Rightarrow> pfa \<Rightarrow> bool" where
  "claims s ps s' \<longleftrightarrow> zone_ok (zone_dma s') \<and> zone_ok (zone_normal s') \<and> page_array s' = page_array s \<and>
     zone_pages (zone_normal s') = zone_pages (zone_normal s) + ps \<and>
     (\<forall>k. has_block (zone_normal s) k \<longrightarrow> has_block (zone_normal s') k)"

lemma claims_low:
  assumes "zone_ok (zone_dma s)" and "zone_ok (zone_normal s)" and ok: "event_ok (ty, a, len)" and "is_ram ty"
    and low: "unat a + unat len < 2 ^ 24"
  shows "\<exists>s'. mm_claim_range s a len = Ret s' \<and> claims s (normal_pages (ty, a, len)) s'"
proof -
  note b = event_bounds [OF ok]
  have nl: "\<not> (a < MM_ZONE_NORMAL_START \<and> a + len > MM_ZONE_DMA_END)"
    using low b(1) by (simp add: MM_ZONE_DMA_END_def word_less_nat_alt)
  have hi: "hi_page a len \<le> 4095" using div_le_mono [of "unat a + unat len" "2 ^ 24 - 1" 4096] low by (simp add: hi_page_def)
  then have np: "normal_pages (ty, a, len) = {#}" by (simp add: normal_pages_def)
  show ?thesis
  proof (cases "a + len < MM_ZONE_DMA_END")
    case True
    obtain z where z: "claim_zone (zone_dma s) (claim_blocks (ROUND_UP a 4096) (ROUND_DOWN (a + len) 4096)) = Ret z"
        "zone_ok z"
      using claim_zone_ok [OF assms(1) event_tile(2) [OF ok]] by blast
    have "mm_claim_range s a len = Ret (s\<lparr> zone_dma := z \<rparr>)"
      using True z(1) by (simp add: mm_claim_range_def get_zone_def nl)
    then show ?thesis using z(2) assms(2) np by (auto simp: claims_def)
  next
    case False
    have "a < MM_ZONE_NORMAL_START" "a < MM_ZONE_HIGH_START"
      using low by (simp_all add: MM_ZONE_NORMAL_START_def MM_ZONE_HIGH_START_def word_less_nat_alt)
    then have "get_zone a (a + len) = None" using False by (simp add: get_zone_def not_le)
    then have "mm_claim_range s a len = Ret s" by (simp add: mm_claim_range_def nl)
    then show ?thesis using assms(1,2) np by (auto simp: claims_def)
  qed
qed

lemma claims_normal:
  assumes "zone_ok (zone_dma s)" and "zone_ok (zone_normal s)" and ok: "event_ok (ty, a, len)" and ram: "is_ram ty"
    and high: "2 ^ 24 \<le> unat a"
  shows "\<exists>s'. mm_claim_range s a len = Ret s' \<and> claims s (normal_pages (ty, a, len)) s' \<and>
    (large (ty, a, len) \<longrightarrow> has_block (zone_normal s') 13)"
proof -
  note b = event_bounds [OF ok]
  let ?bs = "claim_blocks (ROUND_UP a 4096) (ROUND_DOWN (a + len) 4096)"
  have np: "normal_pages (ty, a, len) = mset [lo_page a ..< hi_page a len]"
    using ram lo_page_normal [OF high] by (simp add: normal_pages_def)
  obtain z where z: "claim_zone (zone_normal s) ?bs = Ret z" "zone_ok z"
      "zone_pages z = zone_pages (zone_normal s) + frames ?bs"
    using claim_zone_ok [OF assms(2) event_tile(2) [OF ok]] by blast
  have ge: "MM_ZONE_NORMAL_START \<le> a" using high by (simp add: MM_ZONE_NORMAL_START_def word_le_nat_alt)
  have "get_zone a (a + len) = Some ZNORMAL"
    by (rule get_zone_normal [OF ge])
       (use ok b(1) in \<open>auto simp: event_ok_def word_le_nat_alt word_less_nat_alt MM_ZONE_NORMAL_END_def\<close>)
  then have "mm_claim_range s a len = Ret (s\<lparr> zone_normal := z \<rparr>)"
    using z(1) ge by (simp add: mm_claim_range_def leD)
  moreover have "claims s (normal_pages (ty, a, len)) (s\<lparr> zone_normal := z \<rparr>)"
    using z event_tile(1) [OF ok] np assms(1) claim_zone_has [OF z(1)] by (auto simp: claims_def)
  moreover have "has_block z 13" if "large (ty, a, len)"
  proof -
    have "lo_page a + 2 ^ 13 \<le> hi_page a len" using that lo_page_normal [OF high] by (simp add: large_def)
    then have "\<exists>b\<in>set ?bs. 13 \<le> snd b \<and> snd b < 16" using b by (intro claim_blocks_large) auto
    then show ?thesis using claim_zone_has [OF z(1)] by blast
  qed
  ultimately show ?thesis by auto
qed


lemma claims_straddling:
  assumes "zone_ok (zone_dma s)" and "zone_ok (zone_normal s)" and ok: "event_ok (ty, a, len)" and ram: "is_ram ty"
    and low: "unat a < 2 ^ 24" and high: "2 ^ 24 \<le> unat a + unat len"
  shows "\<exists>s'. mm_claim_range s a len = Ret s' \<and> claims s (normal_pages (ty, a, len)) s' \<and>
    (large (ty, a, len) \<longrightarrow> has_block (zone_normal s') 13)"
proof -
  note b = event_bounds [OF ok]
  have a: "unat a \<le> 0xfff000" using ok ram low high by (simp add: event_ok_def)
  let ?dma = "claim_blocks (ROUND_UP a 4096) MM_ZONE_DMA_END"
    and ?bs = "claim_blocks MM_ZONE_NORMAL_START (ROUND_DOWN (a + len) 4096)"
  have np: "normal_pages (ty, a, len) = mset [4096 ..< hi_page a len]"
    using ram lo_page_dma [OF a] by (simp add: normal_pages_def)
  have hi: "4096 \<le> hi_page a len" using div_le_mono [OF high, of 4096] by (simp add: hi_page_def)
  have lo: "lo_page a \<le> 4095" using div_le_mono [OF add_le_mono1 [OF a, of 4095], of 4096] by (simp add: lo_page_def)
  have n: "unat MM_ZONE_NORMAL_START = 4096 * 4096" "unat MM_ZONE_DMA_END = 0xffffff"
    by (simp_all add: MM_ZONE_NORMAL_START_def MM_ZONE_DMA_END_def)
  have small: "hi_page a len * 4096 - 4096 * 4096 < 2 ^ 28" using lo b(6) by linarith
  have "\<forall>b\<in>set ?dma. block_ok (fst b) (snd b)"
    using lo b(2) n by (intro claim_blocks_ok) (auto simp: word_le_nat_alt)
  then obtain zd where zd: "claim_zone (zone_dma s) ?dma = Ret zd" "zone_ok zd"
    using claim_zone_ok [OF assms(1)] by blast
  have tile: "frames ?bs = mset [4096 ..< hi_page a len] \<and> (\<forall>b\<in>set ?bs. block_ok (fst b) (snd b))"
    using claim_blocks_tile [of MM_ZONE_NORMAL_START "ROUND_DOWN (a + len) 4096"] hi small b(3) n
    by (simp add: word_le_nat_alt)
  obtain zn where zn: "claim_zone (zone_normal s) ?bs = Ret zn" "zone_ok zn"
      "zone_pages zn = zone_pages (zone_normal s) + frames ?bs"
    using claim_zone_ok [OF assms(2)] tile by blast
  have "get_zone a (a + len) = None"
    using low high b(1) by (simp add: get_zone_def MM_ZONE_DMA_END_def MM_ZONE_NORMAL_START_def
        MM_ZONE_HIGH_START_def word_le_nat_alt word_less_nat_alt)
  moreover have "a < MM_ZONE_NORMAL_START \<and> a + len > MM_ZONE_DMA_END"
    using low high b(1) n by (simp add: word_less_nat_alt)
  ultimately have "mm_claim_range s a len = Ret (s\<lparr> zone_dma := zd, zone_normal := zn \<rparr>)"
    using zd(1) zn(1) by (simp add: mm_claim_range_def)
  moreover have "claims s (normal_pages (ty, a, len)) (s\<lparr> zone_dma := zd, zone_normal := zn \<rparr>)"
    using zd(2) zn tile np claim_zone_has [OF zn(1)] by (auto simp: claims_def)
  moreover have "has_block zn 13" if "large (ty, a, len)"
  proof -
    have "4096 + 2 ^ 13 \<le> hi_page a len" using that lo_page_dma [OF a] by (simp add: large_def)
    then have "\<exists>b\<in>set ?bs. 13 \<le> snd b \<and> snd b < 16" using b small n by (intro claim_blocks_large) auto
    then show ?thesis using claim_zone_has [OF zn(1)] by blast
  qed
  ultimately show ?thesis by auto
qed

lemma claims_event:
  assumes "zone_ok (zone_dma s)" and "zone_ok (zone_normal s)" and "event_ok e"
  shows "\<exists>s'. claim_range_preinit s e = Ret s' \<and> claims s (normal_pages e) s' \<and>
    (large e \<longrightarrow> has_block (zone_normal s') 13)"
proof -
  obtain ty a len where e: "e = (ty, a, len)" by (cases e)
  show ?thesis
  proof (cases "is_ram ty")
    case False
    then show ?thesis using assms(1,2) by (auto simp: e claim_range_preinit_def is_ram_def normal_pages_def claims_def large_def)
  next
    case ram: True
    then have pre: "claim_range_preinit s e = mm_claim_range s a len" by (auto simp: e claim_range_preinit_def is_ram_def)
    note ok = assms(3) [unfolded e]
    consider "unat a + unat len < 2 ^ 24" | "2 ^ 24 \<le> unat a" | "unat a < 2 ^ 24" "2 ^ 24 \<le> unat a + unat len" by linarith
    then show ?thesis
    proof cases
      case 1
      have "\<not> large e"
        using div_le_mono [of "unat a + unat len" "2 ^ 24 - 1" 4096] 1 by (simp add: e large_def hi_page_def)
      then show ?thesis using claims_low [OF assms(1,2) ok ram 1] pre by (simp add: e)
    next
      case 2
      then show ?thesis using claims_normal [OF assms(1,2) ok ram] pre by (simp add: e)
    next
      case 3
      then show ?thesis using claims_straddling [OF assms(1,2) ok ram] pre by (simp add: e)
    qed
  qed
qed

lemma ram_pages_simps [simp]: "ram_pages [] = {#}" "ram_pages (e # es) = normal_pages e + ram_pages es"
  by (simp_all add: ram_pages_def)

lemma claims_events:
  "zone_ok (zone_dma s) \<Longrightarrow> zone_ok (zone_normal s) \<Longrightarrow> \<forall>e\<in>set evs. event_ok e \<Longrightarrow>
   \<exists>s'. events claim_range_preinit s evs = Ret s' \<and> claims s (ram_pages evs) s' \<and>
     ((\<exists>e\<in>set evs. large e) \<longrightarrow> has_block (zone_normal s') 13)"
proof (induction evs arbitrary: s)
  case Nil
  then show ?case by (simp add: claims_def)
next
  case (Cons e evs)
  obtain s1 where s1: "claim_range_preinit s e = Ret s1" "claims s (normal_pages e) s1"
      "large e \<longrightarrow> has_block (zone_normal s1) 13"
    using claims_event [OF Cons.prems(1,2), of e] Cons.prems(3) by (meson list.set_intros(1))
  obtain s2 where s2: "events claim_range_preinit s1 evs = Ret s2" "claims s1 (ram_pages evs) s2"
      "(\<exists>e\<in>set evs. large e) \<longrightarrow> has_block (zone_normal s2) 13"
    using Cons.IH [of s1] s1(2) Cons.prems(3) by (auto simp: claims_def)
  have "claims s (ram_pages (e # evs)) s2" using s1(2) s2(2) by (auto simp: claims_def)
  moreover have "has_block (zone_normal s2) 13" if "\<exists>e\<in>set (e # evs). large e"
    using that s1(3) s2(2,3) by (auto simp: claims_def)
  ultimately show ?case using s1(1) s2(1) by auto
qed


section \<open>The page array\<close>

definition mm_type :: "nat \<Rightarrow> nat" where
  "mm_type ty = (if ty = 1 \<or> ty = 3 then MM_PT_FREE else if ty = 2 \<or> ty = 4 \<or> ty = 5 then MM_PT_IN_USE else MM_PT_INVALID)"

definition event_type :: "nat \<Rightarrow> nat \<Rightarrow> mb_event \<Rightarrow> nat" where
  "event_type p t e = (case e of (ty, a, len) \<Rightarrow> if lo_page a \<le> p \<and> p < hi_page a len then mm_type ty else t)"

definition map_type :: "mb_event list \<Rightarrow> nat \<Rightarrow> nat" where
  "map_type evs p = foldl (event_type p) MM_PT_INVALID evs"

lemma block_end:
  assumes "\<forall>p\<in>#block_pages a ord. p < n"
  shows "unat a div 4096 + 2 ^ ord \<le> n"
proof -
  have pos: "(0 :: nat) < 2 ^ ord" by simp
  then have "unat a div 4096 \<le> unat a div 4096 + 2 ^ ord - 1" "unat a div 4096 + 2 ^ ord - 1 < unat a div 4096 + 2 ^ ord"
    by linarith+
  then have "unat a div 4096 + 2 ^ ord - 1 \<in># block_pages a ord" by (simp add: block_pages_def)
  then have "unat a div 4096 + 2 ^ ord - 1 < n" using assms by blast
  then show ?thesis using pos by linarith
qed

lemma claim_pages_ok:
  "\<forall>p\<in>#frames bs. p < length pa \<Longrightarrow> length pa < 2 ^ 32 \<Longrightarrow>
   \<exists>pa'. claim_pages pa ty bs = Ret pa' \<and> length pa' = length pa \<and>
     (\<forall>p. pg_type (pa' ! p) = (if p \<in># frames bs then ty mod 4 else pg_type (pa ! p)))"
proof (induction bs arbitrary: pa)
  case (Cons b bs)
  obtain a ord where b: "b = (a, ord)" by fastforce
  have fr: "frames (b # bs) = block_pages a ord + frames bs" by (simp add: b)
  have "unat a div 4096 + 2 ^ ord \<le> length pa" using Cons.prems(1) fr by (intro block_end) auto
  from page_array_add_block_ok [OF this Cons.prems(2), of ty] obtain pa1 where
    pa1: "page_array_add_block pa ty a ord = Ret pa1" "marked pa (ty mod 4) (unat a div 4096) (2 ^ ord) pa1" by blast
  then have len: "length pa1 = length pa" by (simp add: marked_def)
  obtain pa' where pa': "claim_pages pa1 ty bs = Ret pa'" "length pa' = length pa1"
      "\<forall>p. pg_type (pa' ! p) = (if p \<in># frames bs then ty mod 4 else pg_type (pa1 ! p))"
    using Cons.IH [of pa1] Cons.prems fr len by auto
  have "pg_type (pa1 ! p) = (if p \<in># block_pages a ord then ty mod 4 else pg_type (pa ! p))" for p
    using pa1(2) by (auto simp: marked_def block_pages_def)
  then show ?case using pa1(1) pa' len fr b by auto
qed simp

lemma postinit_event:
  assumes "event_ok e" and "length pa = PAGE_ARRAY_LEN"
  shows "\<exists>pa'. claim_range_postinit pa e = Ret pa' \<and> length pa' = PAGE_ARRAY_LEN \<and>
    (\<forall>p. pg_type (pa' ! p) = event_type p (pg_type (pa ! p)) e)"
proof -
  obtain ty a len where e: "e = (ty, a, len)" by (cases e)
  note ok = assms(1) [unfolded e]
  let ?bs = "claim_blocks (ROUND_UP a 4096) (ROUND_DOWN (a + len) 4096)"
  have fr: "p \<in># frames ?bs \<longleftrightarrow> lo_page a \<le> p \<and> p < hi_page a len" for p using event_tile(1) [OF ok] by auto
  have "hi_page a len < PAGE_ARRAY_LEN" using event_bounds(5) [OF ok] by (simp add: PAGE_ARRAY_LEN_def)
  then have "\<forall>p\<in>#frames ?bs. p < length pa" "length pa < 2 ^ 32"
    using fr assms(2) by (auto simp: PAGE_ARRAY_LEN_def)
  from claim_pages_ok [OF this, of "mm_type ty"] obtain pa' where
    "claim_pages pa (mm_type ty) ?bs = Ret pa'" "length pa' = length pa"
    "\<forall>p. pg_type (pa' ! p) = (if p \<in># frames ?bs then mm_type ty mod 4 else pg_type (pa ! p))" by blast
  moreover have "mm_type ty mod 4 = mm_type ty"
    by (simp add: mm_type_def MM_PT_FREE_def MM_PT_IN_USE_def MM_PT_INVALID_def)
  moreover have "claim_range_postinit pa e = claim_pages pa (mm_type ty) ?bs"
    by (simp add: e claim_range_postinit_def mm_type_def)
  ultimately show ?thesis using assms(2) fr by (auto simp: e event_type_def)
qed

lemma postinit_events:
  "\<forall>e\<in>set evs. event_ok e \<Longrightarrow> length pa = PAGE_ARRAY_LEN \<Longrightarrow>
   \<exists>pa'. events claim_range_postinit pa evs = Ret pa' \<and> length pa' = PAGE_ARRAY_LEN \<and>
     (\<forall>p. pg_type (pa' ! p) = foldl (event_type p) (pg_type (pa ! p)) evs)"
proof (induction evs arbitrary: pa)
  case (Cons e evs)
  obtain pa1 where pa1: "claim_range_postinit pa e = Ret pa1" "length pa1 = PAGE_ARRAY_LEN"
      "\<forall>p. pg_type (pa1 ! p) = event_type p (pg_type (pa ! p)) e"
    using postinit_event [of e pa] Cons.prems by auto
  obtain pa' where "events claim_range_postinit pa1 evs = Ret pa'" "length pa' = PAGE_ARRAY_LEN"
      "\<forall>p. pg_type (pa' ! p) = foldl (event_type p) (pg_type (pa1 ! p)) evs"
    using Cons.IH [of pa1] Cons.prems(1) pa1(2) by auto
  then show ?case using pa1 by simp
qed simp


section \<open>A large block is left\<close>

lemma zone_push_blocks:
  "zone_push z ord b = Ret z' \<Longrightarrow> blocks z' = (blocks z)[ord := b # blocks z ! ord] \<and> ord < length (blocks z)"
  by (auto simp: zone_push_def outcome_ret_iff array_ret_iff)

lemma split_loop_has: "split_loop z req so start = Ret (a, z') \<Longrightarrow> has_block z k \<Longrightarrow> has_block z' k"
proof (induction z req so start rule: split_loop.induct)
  case (1 z req so start)
  show ?case
  proof (cases "req < so")
    case True
    let ?b = "\<lparr> blk_start = start, blk_end = start + block_bytes (so - 1) - 1 \<rparr>"
    obtain z1 where z1: "zone_push z (so - 1) ?b = Ret z1" "split_loop z1 req (so - 1) (start + block_bytes (so - 1)) = Ret (a, z')"
      using 1(2) True by (subst (asm) split_loop.simps) (auto simp: Let_def bnd_Ret_iff)
    have "has_block z1 k" using zone_push_blocks [OF z1(1)] has_block_push(1) 1(3) by blast
    then show ?thesis using 1(1) [OF True refl refl _ z1(2)] z1(1) by simp
  next
    case False
    then show ?thesis using 1(2,3) by (subst (asm) split_loop.simps) simp
  qed
qed

lemma alloc_orders_has:
  "alloc_orders z order i = Ret (a, z') \<Longrightarrow> order \<le> i \<Longrightarrow> length (blocks z) = 16 \<Longrightarrow>
   order < j \<Longrightarrow> i \<le> j \<Longrightarrow> j < 16 \<Longrightarrow> blocks z ! j \<noteq> [] \<Longrightarrow> has_block z' order"
proof (induction z order i rule: alloc_orders.induct)
  case (1 z order i)
  have i: "i < BUDDY_MAX_ORDER" "i < 16" using 1(6,7) by (simp_all add: BUDDY_MAX_ORDER_def)
  show ?case
  proof (cases "blocks z ! i = []")
    case True
    then have "i \<noteq> j" using 1(8) by auto
    moreover have "alloc_orders z order (i + 1) = Ret (a, z')"
      using 1(2) True i 1(4) by (subst (asm) alloc_orders.simps) simp
    ultimately show ?thesis using 1(1) [OF i(1), of "blocks z ! i"] True 1(3-8) by auto
  next
    case False
    show ?thesis
    proof (cases "i = order")
      case True
      obtain b l where "blocks z ! i = b # l" using False by (cases "blocks z ! i") auto
      then have "blocks z' = (blocks z)[i := l]"
        using 1(2,4) i True by (subst (asm) alloc_orders.simps) (auto simp: get_free_entry_def outcome_ret_iff array_ret_iff)
      then show ?thesis using 1(5,7,8) True by (auto simp: has_block_def intro!: exI [of _ j])
    next
      case other: False
      have "split_block z order i = Ret (a, z')"
        using 1(2,4) False i other by (subst (asm) alloc_orders.simps) simp
      then obtain b z0 z1 s where z0: "get_free_entry z i = Ret (b, z0)" and
        z1: "zone_push z0 (i - 1) (b\<lparr> blk_end := blk_end b - block_bytes (i - 1) \<rparr>) = Ret z1"
        "split_loop z1 order (i - 1) s = Ret (a, z')"
        by (auto simp: split_block_def Let_def outcome_ret_iff)
      note zp = zone_push_blocks [OF z1(1)]
      have "order \<le> i - 1" "i - 1 < 16" using other 1(3) i by auto
      then have "has_block z1 order" using has_block_push(2) [OF conjunct1 [OF zp] conjunct2 [OF zp]] by blast
      then show ?thesis by (rule split_loop_has [OF z1(2)])
    qed
  qed
qed


section \<open>The zones after the memory map\<close>

lemma ram_pages_low: "\<forall>e\<in>set evs. event_ok e \<Longrightarrow> p \<in># ram_pages evs \<Longrightarrow> 4096 \<le> p \<and> p < 2 ^ 19"
proof (induction evs)
  case (Cons e evs)
  obtain ty a len where e: "e = (ty, a, len)" by (cases e)
  have "hi_page a len * 4096 < 2 ^ 31" using event_bounds(5) [of ty a len] Cons.prems(1) by (simp add: e)
  then have "hi_page a len < 2 ^ 19" by simp
  then have "4096 \<le> p \<and> p < 2 ^ 19" if "p \<in># normal_pages e"
    using that by (auto simp: e normal_pages_def split: if_splits)
  then show ?case using Cons by auto
qed simp

lemma zones_init_ok:
  assumes ok: "\<forall>e\<in>set evs. event_ok e" and large: "\<exists>e\<in>set evs. large e"
  shows "\<exists>s a. zones_init evs = Ret s \<and> pfa_inv s \<and> block_ok a 12 \<and> has_block (zone_normal s) 12 \<and>
    zone_pages (zone_normal s) + block_pages a 12 = ram_pages evs \<and> length (page_array s) = PAGE_ARRAY_LEN \<and>
    (\<forall>p<PAGE_ARRAY_LEN. pg_type (page_array s ! p) =
       (if p \<in># block_pages a 12 then MM_PT_IN_USE else map_type evs p))"
proof -
  let ?s0 = "\<lparr> zone_dma = empty_zone, zone_normal = empty_zone, zone_high = empty_zone, page_array = [] \<rparr>"
  let ?pa0 = "replicate PAGE_ARRAY_LEN \<lparr> pg_type = 0, pg_order = 0, pg_first = 0 \<rparr>"
  obtain s1 where s1: "events claim_range_preinit ?s0 evs = Ret s1" "claims ?s0 (ram_pages evs) s1"
      "has_block (zone_normal s1) 13"
    using claims_events [of ?s0 evs] empty_zone_ok ok large by auto
  have z1: "zone_ok (zone_normal s1)" "zone_pages (zone_normal s1) = ram_pages evs" "page_array s1 = []"
    using s1(2) by (simp_all add: claims_def empty_zone_pages)
  obtain j where j: "j < 16" "13 \<le> j" "blocks (zone_normal s1) ! j \<noteq> []" using s1(3) by (auto simp: has_block_def)
  obtain a z where a: "alloc_mem s1 1 12 = Ret (a, s1\<lparr> zone_normal := z \<rparr>)" "takes (zone_normal s1) a 12 z"
    using alloc_mem_ok [OF z1(1), of 12] j by (auto dest: spec [of _ j])
  have ao: "alloc_orders (zone_normal s1) 12 12 = Ret (a, z)"
  proof -
    have "\<exists>z'. alloc_orders (zone_normal s1) 12 12 = Ret (a, z') \<and> s1\<lparr> zone_normal := z' \<rparr> = s1\<lparr> zone_normal := z \<rparr>"
      using a(1) by (auto simp: alloc_mem_def BUDDY_MAX_ORDER_def omap_Ret_iff)
    moreover have "z' = z" if "s1\<lparr> zone_normal := z' \<rparr> = s1\<lparr> zone_normal := z \<rparr>" for z'
      using arg_cong [OF that, of zone_normal] by simp
    ultimately show ?thesis by blast
  qed
  have t: "zone_ok z" "block_ok a 12" "ram_pages evs = zone_pages z + block_pages a 12"
    using a(2) z1(2) by (simp_all add: takes_def)
  have left: "has_block z 12"
    using alloc_orders_has [OF ao, of j] j z1(1) by (simp add: zone_ok_def)
  have low: "\<forall>p\<in>#block_pages a 12. p < PAGE_ARRAY_LEN"
    using ram_pages_low [OF ok] t(3) by (fastforce simp: PAGE_ARRAY_LEN_def)
  obtain pa where pa: "events claim_range_postinit ?pa0 evs = Ret pa" "length pa = PAGE_ARRAY_LEN"
      "\<forall>p. pg_type (pa ! p) = foldl (event_type p) (pg_type (?pa0 ! p)) evs"
    using postinit_events [OF ok, of ?pa0] by auto
  have "unat a div 4096 + 2 ^ 12 \<le> length pa" using block_end [OF low] pa(2) by simp
  moreover have small: "PAGE_ARRAY_LEN < 2 ^ 32" by (simp add: PAGE_ARRAY_LEN_def)
  ultimately obtain pa' where pa': "page_array_add_block pa MM_PT_IN_USE a 12 = Ret pa'"
      "marked pa (MM_PT_IN_USE mod 4) (unat a div 4096) (2 ^ 12) pa'"
    using page_array_add_block_ok [of a 12 pa MM_PT_IN_USE] pa(2) by auto
  let ?s = "s1\<lparr> zone_normal := z, page_array := pa' \<rparr>"
  have "zones_init evs = Ret ?s"
    using s1(1) a(1) pa(1) pa'(1) block_ok_valid [OF t(2)] by (simp add: zones_init_def)
  moreover have "length pa' = PAGE_ARRAY_LEN" using pa'(2) pa(2) by (simp add: marked_def)
  moreover have "pg_type (pa' ! p) = (if p \<in># block_pages a 12 then MM_PT_IN_USE else map_type evs p)"
    if "p < PAGE_ARRAY_LEN" for p
    using pa'(2) pa(3) that by (auto simp: marked_def block_pages_def map_type_def MM_PT_INVALID_def MM_PT_IN_USE_def)
  ultimately show ?thesis using t left small
    by (intro exI [of _ ?s] exI [of _ a]) (simp add: pfa_inv_def)
qed


section \<open>The heap on the zones\<close>

text \<open>The new arena replaces the one on boot memory, if that is the only one.\<close>

lemma mm_heap_init_arena:
  assumes "pfa_inv (hp_pfa hp)" and "length (hp_arenas hp) \<le> 1"
  shows "mm_heap_init hp = alloc_arena (hp\<lparr> hp_arenas := [] \<rparr>)"
proof (cases "mm_block_alloc (hp_pfa hp) 1 HEAP_ARENA_SIZE")
  case (Ret r)
  obtain a s where r: "r = (a, s)" by (cases r)
  have "block_ok a HEAP_ARENA_SIZE"
    using mm_block_alloc_takes [OF assms(1), of HEAP_ARENA_SIZE a s] Ret r by (simp add: HEAP_ARENA_SIZE_def takes_def)
  then show ?thesis using Ret r block_ok_valid assms(2) by (simp add: mm_heap_init_def alloc_arena_def Let_def)
qed (simp add: mm_heap_init_def alloc_arena_def)

lemma no_arena_ok:
  assumes "pfa_inv (hp_pfa hp)" and "no_page_twice (pool hp)" and "\<forall>p\<in>#pool hp. p < 2 ^ 19"
  shows "heap_ok (hp\<lparr> hp_arenas := [] \<rparr>) []"
  using assms by (simp add: heap_ok_def heap_inv_def)

lemma mm_heap_init_live:
  assumes inv: "pfa_inv (hp_pfa hp)" and "length (hp_arenas hp) \<le> 1" and "no_page_twice (pool hp)"
    and "\<forall>p\<in>#pool hp. p < 2 ^ 19" and "mm_heap_init hp = Ret hp'"
  shows "heap_live hp' {} \<and> (\<exists>b. block_ok b 2 \<and> pool hp = pool hp' + block_pages b 2)"
proof -
  let ?hp0 = "hp\<lparr> hp_arenas := [] \<rparr>"
  have a: "alloc_arena ?hp0 = Ret hp'" using mm_heap_init_arena [OF inv assms(2)] assms(5) by simp
  have "heap_ok hp' [[(16384 - CK, True)]]" "allocated hp' [[(16384 - CK, True)]] = {}"
    using alloc_arena_ok [OF no_arena_ok [OF inv assms(3,4)] a] by (simp_all add: allocated_def)
  then have "heap_live hp' {}" by (auto simp: heap_live_def)
  moreover obtain b s where b: "mm_block_alloc (hp_pfa hp) 1 2 = Ret (b, s)" "hp_pfa hp' = s"
    using a by (auto simp: alloc_arena_def bnd_Ret_iff HEAP_ARENA_SIZE_def Let_def)
  moreover have "block_ok b 2 \<and> pool hp = pool hp' + block_pages b 2"
    using mm_block_alloc_takes [OF inv _ b(1)] b(2) by (simp add: takes_def)
  ultimately show ?thesis by blast
qed

lemma mm_take_over_ok:
  assumes map: "multiboot2_map_memory fuel m arg = Some (Ret evs)"
    and ok: "\<forall>e\<in>set evs. event_ok e" and large: "\<exists>e\<in>set evs. large e"
    and once: "no_page_twice (ram_pages evs)" and arenas: "length (hp_arenas hp) \<le> 1"
  shows "\<exists>hp' a b. mm_take_over fuel m arg hp = Some (Ret hp') \<and> heap_live hp' {} \<and> block_ok a 12 \<and> block_ok b 2 \<and>
    pool hp' + block_pages b 2 + block_pages a 12 = ram_pages evs"
proof -
  obtain s a where s: "zones_init evs = Ret s" "pfa_inv s" "block_ok a 12" "has_block (zone_normal s) 12"
      "zone_pages (zone_normal s) + block_pages a 12 = ram_pages evs" "length (page_array s) = PAGE_ARRAY_LEN"
    using zones_init_ok [OF ok large] by blast
  let ?hp = "hp\<lparr> hp_pfa := s \<rparr>"
  have pool: "p < 2 ^ 19" if "p \<in># zone_pages (zone_normal s)" for p
    using that ram_pages_low [OF ok, of p] s(5) [symmetric] by simp
  have nt: "no_page_twice (zone_pages (zone_normal s))" using once s(5) no_page_twice_add(1) by metis
  obtain k where k: "k < 16" "12 \<le> k" "blocks (zone_normal s) ! k \<noteq> []" using s(4) by (auto simp: has_block_def)
  have reach: "\<forall>p\<in>#zone_pages (zone_normal s). p < length (page_array s)"
    using pool s(6) by (fastforce simp: PAGE_ARRAY_LEN_def)
  obtain x s' where x: "mm_block_alloc s 1 2 = Ret (x, s')"
    using mm_block_alloc_returns [OF s(2) _ _ k(1,3) reach, of 2] k(2) by auto
  have "mm_heap_init ?hp = alloc_arena (?hp\<lparr> hp_arenas := [] \<rparr>)"
    by (rule mm_heap_init_arena) (use s(2) arenas in simp_all)
  then obtain hp' where hp': "mm_heap_init ?hp = Ret hp'"
    using x by (simp add: alloc_arena_def HEAP_ARENA_SIZE_def Let_def)
  have "heap_live hp' {} \<and> (\<exists>b. block_ok b 2 \<and> pool ?hp = pool hp' + block_pages b 2)"
    by (rule mm_heap_init_live [OF _ _ _ _ hp']) (use s(2) arenas nt pool in auto)
  then obtain b where b: "heap_live hp' {}" "block_ok b 2" "zone_pages (zone_normal s) = pool hp' + block_pages b 2" by auto
  have "mm_take_over fuel m arg hp = Some (Ret hp')"
    using map s(1) hp' by (simp add: mm_take_over_def mm_zones_init_def obnd_def)
  then show ?thesis using s(3,5) b by (intro exI [of _ hp'] exI [of _ a] exI [of _ b]) simp
qed


section \<open>The slabs on the zones\<close>

text \<open>Pages taken straight from the page allocator leave the heap as it is.\<close>

lemma heap_live_pages:
  assumes "heap_live hp L" and "mm_block_alloc (hp_pfa hp) 1 ord = Ret (a, s)" and "ord < 16"
  shows "heap_live (hp\<lparr> hp_pfa := s \<rparr>) L"
proof -
  obtain css where css: "heap_ok hp css" "allocated hp css = L" using assms(1) by (auto simp: heap_live_def)
  have t: "pfa_inv s" "pool hp = zone_pages (zone_normal s) + block_pages a ord"
    using mm_block_alloc_takes [OF _ assms(3,2)] css(1) by (auto simp: heap_ok_def takes_def)
  have "no_page_twice (zone_pages (zone_normal s))"
    using css(1) t(2) no_page_twice_add(1) by (metis heap_ok_def)
  then have "heap_ok (hp\<lparr> hp_pfa := s \<rparr>) css"
    using css(1) t by (auto simp: heap_ok_def heap_inv_def base_def)
  moreover have "allocated (hp\<lparr> hp_pfa := s \<rparr>) css = L" using css(2) by (simp add: allocated_def base_def)
  ultimately show ?thesis by (auto simp: heap_live_def)
qed

lemma heap_live_mem: "heap_live (hp\<lparr> hp_mem := m \<rparr>) L = heap_live hp L"
  by (simp add: heap_live_def heap_ok_def heap_inv_def allocated_def base_def)

lemma new_cfe_live:
  assumes "heap_live (sl_heap s) L" and "new_cfe 656 s v = Ret (e, s')"
  shows "\<exists>n\<ge>CFE_SIZE. heap_live (sl_heap s') (insert (e, n) L)"
proof -
  obtain hp m where k: "kmalloc 656 (sl_heap s) CFE_SIZE = Ret (e, hp)" "sl_heap s' = hp\<lparr> hp_mem := m \<rparr>"
    using assms(2) by (auto simp: new_cfe_def kzalloc_def outcome_ret_iff)
  have "(0 :: nat) < CFE_SIZE" by (simp add: CFE_SIZE_def)
  then obtain n where "CFE_SIZE \<le> n" "heap_live hp (insert (e, n) L)"
    using hpr.malloc_fresh [OF assms(1) _ k(1)] by blast
  then show ?thesis using k(2) heap_live_mem by auto
qed

lemma init_loop_live:
  "init_loop 656 i s = Ret s' \<Longrightarrow> heap_live (sl_heap s) L \<Longrightarrow>
   \<exists>L'. heap_live (sl_heap s') (L' \<union> L) \<and> (\<forall>r\<in>L'. CFE_SIZE \<le> snd r)"
proof (induction i arbitrary: s L)
  case 0
  then show ?case by (auto intro: exI [of _ "{}"])
next
  case (Suc i)
  obtain a p e s1 links where a: "mm_block_alloc (hp_pfa (sl_heap s)) 1 1 = Ret (a, p)"
      "new_cfe 656 (s\<lparr> sl_heap := (sl_heap s)\<lparr> hp_pfa := p \<rparr> \<rparr>) (unat (amd64_p_to_v a)) = Ret (e, s1)"
      "init_loop 656 i (s1\<lparr> sl_links := links \<rparr>) = Ret s'"
    using Suc.prems(1) by (auto simp: outcome_ret_iff)
  have "heap_live ((sl_heap s)\<lparr> hp_pfa := p \<rparr>) L" by (rule heap_live_pages [OF Suc.prems(2) a(1)]) simp
  then obtain n where n: "CFE_SIZE \<le> n" "heap_live (sl_heap s1) (insert (e, n) L)"
    using new_cfe_live [OF _ a(2)] by auto
  then obtain L' where "heap_live (sl_heap s') (L' \<union> insert (e, n) L)" "\<forall>r\<in>L'. CFE_SIZE \<le> snd r"
    using Suc.IH [OF a(3), of "insert (e, n) L"] by auto
  then show ?case using n(1) by (intro exI [of _ "insert (e, n) L'"]) auto
qed

section \<open>Before the zones\<close>

text \<open>Until the zones have pages, the heap stays within its one arena on boot memory.\<close>

definition early :: "heap \<Rightarrow> bool" where
  "early hp \<longleftrightarrow> pfa_inv (hp_pfa hp) \<and> pool hp = {#} \<and> length (hp_arenas hp) \<le> 1"

lemma early_no_pages: "early hp \<Longrightarrow> ord < 16 \<Longrightarrow> mm_block_alloc (hp_pfa hp) 1 ord \<noteq> Ret r"
proof
  assume e: "early hp" "ord < 16" and r: "mm_block_alloc (hp_pfa hp) 1 ord = Ret r"
  obtain a s where "r = (a, s)" by (cases r)
  then have "block_pages a ord = {#}"
    using mm_block_alloc_takes [of "hp_pfa hp" ord a s] e r by (simp add: early_def takes_def)
  then have "size (block_pages a ord) = 0" by simp
  then show False by (simp add: block_pages_def)
qed

lemma early_kzalloc:
  assumes "early hp" and "kzalloc fuel hp n = Ret (q, hp')"
  shows "early hp'"
proof -
  have "alloc_arena hp \<noteq> Ret hp1" for hp1
    using early_no_pages [OF assms(1), of 2] by (auto simp: alloc_arena_def bnd_Ret_iff HEAP_ARENA_SIZE_def)
  then have "hp_pfa hp' = hp_pfa hp \<and> hp_arenas hp' = hp_arenas hp"
    using assms(2) by (auto simp: kzalloc_def kmalloc_def outcome_ret_iff split: if_splits)
  then show ?thesis using assms(1) by (simp add: early_def)
qed

lemma early_new_cfe: "early (sl_heap s) \<Longrightarrow> new_cfe fuel s v = Ret (e, s') \<Longrightarrow> early (sl_heap s')"
  by (auto simp: new_cfe_def outcome_ret_iff dest: early_kzalloc)

lemma early_preinit_loop: "preinit_loop fuel i s mi = Ret (s', mi') \<Longrightarrow> early (sl_heap s) \<Longrightarrow> early (sl_heap s')"
proof (induction i arbitrary: s mi)
  case (Suc i)
  obtain a mi1 e s1 links where
    "new_cfe fuel s (unat (amd64_p_to_v a)) = Ret (e, s1)" "preinit_loop fuel i (s1\<lparr> sl_links := links \<rparr>) mi1 = Ret (s', mi')"
    using Suc.prems(1) by (auto simp: outcome_ret_iff)
  then show ?case using early_new_cfe [OF Suc.prems(2)] Suc.IH by fastforce
qed simp

lemma early_block_cache:
  assumes "early (sl_heap s)" and "mm_block_cache fuel s = Ret s'"
  shows "early (sl_heap s')"
proof -
  obtain c hp where c: "kzalloc fuel (sl_heap s) CACHE_SIZE = Ret (c, hp)"
    using assms(2) by (auto simp: mm_block_cache_def mm_cache_create_def outcome_ret_iff)
  have hp: "early hp" by (rule early_kzalloc [OF assms(1) c])
  have "early (sl_heap s1)" if "alloc_cfe fuel (s\<lparr> sl_heap := hp \<rparr>) n = Ret (e, s1)" for n e s1
    using that hp early_no_pages [OF hp, of 1] by (auto simp: alloc_cfe_def outcome_ret_iff split: if_splits)
  then show ?thesis using assms(2) c hp
    by (auto simp: mm_block_cache_def mm_cache_create_def outcome_ret_iff Let_def split: if_splits)
qed

lemma obnd_Ret_iff: "obnd m f = Some (Ret y) \<longleftrightarrow> (\<exists>x. m = Some (Ret x) \<and> f x = Some (Ret y))"
  by (auto simp: obnd_def split: option.splits outcome.splits)

text \<open>
  After \<open>mm_init\<close> the heap is the one the allocation properties of the heap are about, the slab
  descriptors are the blocks that are live on it, and the page tables see the same free pages.
\<close>

lemma mm_init_live:
  assumes start: "pfa_inv (hp_pfa (sl_heap (bt_slab b)))" "pool (sl_heap (bt_slab b)) = {#}"
    and map: "multiboot2_map_memory fuel m arg = Some (Ret evs)"
    and ok: "\<forall>e\<in>set evs. event_ok e" and large: "\<exists>e\<in>set evs. large e" and once: "no_page_twice (ram_pages evs)"
    and run: "mm_init fuel m arg pml4 pdpt pd b = Some (Ret (r, b'))"
  shows "r = 0 \<and> pf (bt_mmu b') = hp_pfa (sl_heap (bt_slab b')) \<and>
    (\<exists>L. heap_live (sl_heap (bt_slab b')) L \<and> (\<forall>r\<in>L. CFE_SIZE \<le> snd r))"
proof -
  obtain mmu mi hp mi1 x sl mi2 sl1 hp1 y sl2 where
    s: "mm_heap_preinit (sl_heap (bt_slab b)) mi = Ret (hp, mi1)"
      "mm_slab_preinit 656 ((bt_slab b)\<lparr> sl_heap := hp \<rparr>) mi1 = Ret (x, sl, mi2)"
      "mm_block_cache 656 sl = Ret sl1" "mm_take_over fuel m arg (sl_heap sl1) = Some (Ret hp1)"
      "mm_slab_init 656 (sl1\<lparr> sl_heap := hp1 \<rparr>) = Ret (y, sl2)"
      "r = 0" "b' = \<lparr> bt_mmu = mmu\<lparr> pf := hp_pfa (sl_heap sl2) \<rparr>, bt_slab = sl2 \<rparr>"
    using run by (auto simp: mm_init_def obnd_Ret_iff)
  have "early hp"
    using s(1) start by (auto simp: mm_heap_preinit_def outcome_ret_iff Let_def early_def split: if_splits)
  then have "early (sl_heap sl)" using s(2) by (auto simp: mm_slab_preinit_def outcome_ret_iff dest: early_preinit_loop)
  then have "early (sl_heap sl1)" by (rule early_block_cache [OF _ s(3)])
  then have "length (hp_arenas (sl_heap sl1)) \<le> 1" by (simp add: early_def)
  from mm_take_over_ok [OF map ok large once this] have "heap_live hp1 {}" using s(4) by auto
  moreover obtain links where "init_loop 656 5 (sl1\<lparr> sl_heap := hp1, sl_links := links \<rparr>) = Ret sl2"
    using s(5) by (auto simp: mm_slab_init_def outcome_ret_iff)
  ultimately obtain L where "heap_live (sl_heap sl2) L" "\<forall>r\<in>L. CFE_SIZE \<le> snd r"
    using init_loop_live [of 5 _ sl2 "{}"] by fastforce
  then show ?thesis using s(6,7) by auto
qed


section \<open>What goes wrong outside these bounds\<close>

text \<open>
  A range without a page boundary in it is rounded to a negative length, which wraps: its first
  block is one of 128 MB, wherever it lies.
\<close>

lemma claim_wraps:
  assumes "4096 \<le> unat start"
  shows "(start, 15) \<in> set (claim_blocks start (start - 4096))"
proof -
  have len: "start - 4096 - start = - 4096" by simp
  have n: "0 < unat ((- 4096 :: u64) div block_bytes 15)" by (simp add: block_bytes_def)
  obtain bs fin where bs: "claim_order start 15 (unat ((- 4096 :: u64) div block_bytes 15)) 0 = (bs, fin)" by fastforce
  have "(- 4096 :: u64) div block_bytes 15 > 0" using n by (simp add: word_greater_zero_iff flip: unat_gt_0)
  moreover have "(start, 15) \<in> set bs" using claim_order_first [OF n, of start 15] bs by simp
  ultimately have "(start, 15) \<in> set (claim_orders start (- 4096) (Suc 15))"
    using bs unfolding claim_orders.simps by simp
  then show ?thesis by (simp add: claim_blocks_def len BUDDY_MAX_ORDER_def del: claim_orders.simps)
qed

lemma claim_wraps_witness:
  "(ROUND_UP 0x1000100 4096, 15) \<in> set (claim_blocks (ROUND_UP 0x1000100 4096) (ROUND_DOWN (0x1000100 + 0x100) 4096))"
  using claim_wraps [of "0x1001000"] by (simp add: ROUND_UP_def ROUND_DOWN_def)

text \<open>The last page below 16 MB is lost to a range that crosses it: the zone's end is inclusive.\<close>

lemma dma_last_page:
  assumes "unat start mod 4096 = 0" and "unat start \<le> 0xfff000"
  shows "4095 \<notin># frames (claim_blocks start MM_ZONE_DMA_END)"
proof -
  have e: "unat MM_ZONE_DMA_END = 0xffffff" by (simp add: MM_ZONE_DMA_END_def)
  have le: "start \<le> MM_ZONE_DMA_END" using assms(2) by (simp add: word_le_nat_alt e)
  then have len: "unat (MM_ZONE_DMA_END - start) = 0xffffff - unat start" by (simp add: unat_sub e)
  obtain x where x: "unat start = 4096 * x" using assms(1) by (auto simp: mod_eq_0_iff_dvd)
  have "frames (claim_orders start (MM_ZONE_DMA_END - start) 16)
      = mset [x ..< x + (0xffffff - 4096 * x) div 4096]"
    using claim_orders_tile [of 16 "MM_ZONE_DMA_END - start" start] len assms x by simp
  moreover have "x + (0xffffff - 4096 * x) div 4096 \<le> 4095" using assms(2) x by simp
  ultimately show ?thesis by (auto simp: claim_blocks_def BUDDY_MAX_ORDER_def Let_def)
qed

section \<open>Properties\<close>

text \<open>
  C7: after \<open>mm_zones_init\<close> the free lists of the normal zone hold every whole page of usable memory
  from 16 MB on exactly as often as the memory map lists it, less the block that the page array
  stands in, and the page array says of each page what the last range over it in the map says, or
  that it is in use if it is the page array's own.
\<close>

theorem boot_zones:
  assumes "multiboot2_map_memory fuel m arg = Some (Ret evs)"
    and "\<forall>e\<in>set evs. event_ok e" and "\<exists>e\<in>set evs. large e"
  shows "\<exists>s a. mm_zones_init fuel m arg = Some (Ret s) \<and> pfa_inv s \<and> block_ok a 12 \<and>
    zone_pages (zone_normal s) + block_pages a 12 = ram_pages evs \<and>
    (\<forall>p<PAGE_ARRAY_LEN. pg_type (page_array s ! p) =
       (if p \<in># block_pages a 12 then MM_PT_IN_USE else map_type evs p))"
  using zones_init_ok [OF assms(2,3)] assms(1) unfolding mm_zones_init_def by auto

definition demo_map :: "u8 list" where
  "demo_map = concat (map tag_bytes [MmapTag [(0x1000000, 0x4000000, 1)]]) @ le_bytes 0 4 @ le_bytes 8 4"

definition demo_info :: mem where
  "demo_info = (\<lambda>p. if 64 \<le> p \<and> p < 64 + length demo_map then Some (demo_map ! (p - 64)) else None)"

lemma demo_info_map: "multiboot2_map_memory 8 demo_info 0 = Some (Ret [(1, 0x1000000, 0x4000000)])"
proof -
  have "map_tags 8 demo_info (0 + 64) = Some (Ret (concat (map tag_events [MmapTag [(0x1000000, 0x4000000, 1)]])))"
    by (rule map_tags_events) (simp_all add: bytes_at_def demo_info_def demo_map_def)
  moreover have "concat (map tag_events [MmapTag [(0x1000000, 0x4000000, 1)]]) = [(1, 0x1000000, 0x4000000)]"
    by (simp add: mmap_events_def fold_high_id)
  ultimately show ?thesis by (simp add: multiboot2_map_memory_def)
qed

lemma demo_event: "event_ok (1, 0x1000000, 0x4000000)" "large (1, 0x1000000, 0x4000000)"
  by (simp_all add: event_ok_def large_def is_ram_def lo_page_def hi_page_def)

lemma demo_ram: "no_page_twice (ram_pages [(1, 0x1000000, 0x4000000)])"
proof -
  have "no_page_twice (mset [i ..< j])" for i j by (simp add: no_page_twice_def count_mset_set')
  then show ?thesis by (simp add: normal_pages_def is_ram_def del: upt_conv_Cons mset_upt)
qed

lemma boot_zones_witness:
  "\<exists>s a. mm_zones_init 8 demo_info 0 = Some (Ret s) \<and> pfa_inv s \<and>
    zone_pages (zone_normal s) + block_pages a 12 = ram_pages [(1, 0x1000000, 0x4000000)]"
  using boot_zones [OF demo_info_map] demo_event by auto



end
